(* ===== verification/Prelude.thy ===== *)
theory Prelude
  imports Main "HOL-Library.Word"
begin

text \<open>
  What every component of the development shares: the names of the machine integers, the
  32-bit addition of the release build, the fact collections the component theories fill,
  and the generic lemmas on words, lists and loops over an index range.

  Machine integers. A \<open>u64\<close> that the code reads bit by bit is a \<open>64 word\<close>. A width, an index or
  a shift amount (\<open>u32\<close>, \<open>usize\<close>) is a \<open>nat\<close>; where the code adds two of them and the sum can
  leave the range, the addition is \<open>add_u32\<close>, which wraps as the release build does
  (\<open>Cargo.toml\<close> sets no overflow checks for it).
\<close>

unbundle bit_operations_syntax

declare Let_def [simp]

type_synonym u64 = "64 word"

text \<open>Facts that describe the shape a result has (its width, its storage).\<close>
named_theorems shape_simps

text \<open>Facts that describe a result bit by bit.\<close>
named_theorems getbit_simps

text \<open>Facts that keep a well-formedness invariant.\<close>
named_theorems wf_intros

definition add_u32 :: "nat \<Rightarrow> nat \<Rightarrow> nat" where
  "add_u32 a b = (a + b) mod 2 ^ 32"

lemma add_u32_small: "a + b < 2 ^ 32 \<Longrightarrow> add_u32 a b = a + b"
  by (simp add: add_u32_def)

section \<open>Words and bits\<close>

lemma and_1_eq_0_iff: "w AND 1 = 0 \<longleftrightarrow> \<not> bit w 0" for w :: "'a::len word"
  by (simp add: and_one_eq bit_0 even_iff_mod_2_eq_zero)

lemma bit_u64_bound: "bit (w :: u64) i \<Longrightarrow> i < 64"
  by (auto dest: bit_imp_le_length)

lemma word_64_eqI: "(\<And>i. i < 64 \<Longrightarrow> bit u i = bit v i) \<Longrightarrow> u = v" for u v :: u64
  by (rule bit_word_eqI) simp

section \<open>Lists\<close>

definition map_last :: "('a \<Rightarrow> 'a) \<Rightarrow> 'a list \<Rightarrow> 'a list" where
  "map_last f xs = (if xs = [] then [] else butlast xs @ [f (last xs)])"

lemma length_map_last [simp]: "length (map_last f xs) = length xs"
  by (simp add: map_last_def)

lemma nth_map_last:
  "i < length xs \<Longrightarrow> map_last f xs ! i = (if Suc i = length xs then f (xs ! i) else xs ! i)"
  by (cases xs rule: rev_cases) (auto simp: map_last_def nth_append less_Suc_eq)

lemma map_last_cong: "(xs \<noteq> [] \<Longrightarrow> f (last xs) = last xs) \<Longrightarrow> map_last f xs = xs"
  by (auto simp: map_last_def)

end
