(* ===== verification/Logic_Vec.thy ===== *)
theory Logic_Vec
  imports Prelude
begin

text \<open>
  The four-state vector of \<open>crates/eevee-core/src/logic.rs\<close>: the bit type, the two bit planes
  in inline (\<open>Small\<close>) or limb (\<open>Wide\<close>) storage, the constructors, the bit accessors, and the
  storage invariant that every operation keeps.

  A value is read through \<open>get_bit\<close>. Two well-formed vectors of one width with the same bits are
  equal (\<open>wf_eqI\<close>), so each operation is characterised by the bits of its result.
\<close>

section \<open>The four states\<close>

datatype Bit = Zero | One | X | Z

fun planes :: "Bit \<Rightarrow> u64 \<times> u64" where
  "planes Zero = (0, 0)"
| "planes One = (1, 0)"
| "planes X = (0, 1)"
| "planes Z = (1, 1)"

definition from_planes :: "u64 \<Rightarrow> u64 \<Rightarrow> Bit" where
  "from_planes aval bval =
     (let p = (aval AND 1, bval AND 1)
      in if p = (0, 0) then Zero
         else if p = (1, 0) then One
         else if p = (0, 1) then X
         else Z)"

fun to_char :: "Bit \<Rightarrow> char" where
  "to_char Zero = CHR ''0''"
| "to_char One = CHR ''1''"
| "to_char X = CHR ''x''"
| "to_char Z = CHR ''z''"

fun is_unknown :: "Bit \<Rightarrow> bool" where
  "is_unknown X = True"
| "is_unknown Z = True"
| "is_unknown _ = False"

text \<open>The state with the given \<open>aval\<close> and \<open>bval\<close> bits: the table of the module's documentation.\<close>

definition bit_of :: "bool \<Rightarrow> bool \<Rightarrow> Bit" where
  "bit_of a b = (if b then (if a then Z else X) else (if a then One else Zero))"

lemma bit_of_simps [simp]:
  "bit_of False False = Zero" "bit_of True False = One"
  "bit_of False True = X" "bit_of True True = Z"
  by (simp_all add: bit_of_def)

lemma bit_of_inject [simp]: "bit_of a b = bit_of c d \<longleftrightarrow> a = c \<and> b = d"
  by (simp add: bit_of_def)

lemma and_1_cases: "w AND 1 = (if bit w 0 then 1 else 0)" for w :: u64
  by (simp add: and_one_eq bit_0 mod_2_eq_odd)

lemma from_planes_bits: "from_planes a b = bit_of (bit a 0) (bit b 0)"
  by (simp add: from_planes_def and_1_cases)

lemma planes_bits:
  "bit (fst (planes b)) i \<longleftrightarrow> i = 0 \<and> (b = One \<or> b = Z)"
  "bit (snd (planes b)) i \<longleftrightarrow> i = 0 \<and> (b = X \<or> b = Z)"
  by (cases b; auto simp: bit_1_iff)+

lemma from_planes_planes: "from_planes (fst (planes b)) (snd (planes b)) = b"
  by (cases b) (simp_all add: from_planes_bits planes_bits)

section \<open>Storage\<close>

datatype Repr =
    Small u64 u64
  | Wide "u64 list" "u64 list"

record LogicVec =
  width :: nat
  repr :: Repr

definition word_mask :: "nat \<Rightarrow> u64" where
  "word_mask w = (if w \<ge> 64 then - 1 else push_bit w 1 - 1)"

lemma word_mask_eq_mask: "word_mask w = mask w"
proof (cases "w \<ge> 64")
  case True
  then show ?thesis
    by (intro word_64_eqI) (simp add: word_mask_def bit_mask_iff)
qed (simp add: word_mask_def mask_eq_exp_minus_1 push_bit_eq_mult)

lemma bit_word_mask [simp]: "bit (word_mask w) i \<longleftrightarrow> i < w \<and> i < 64"
  by (auto simp: word_mask_eq_mask bit_mask_iff)

definition limbs_for :: "nat \<Rightarrow> nat" where
  "limbs_for w = (w + 63) div 64"

text \<open>\<open>mask_top\<close>: the bits of the top limb at or above the width become 0.\<close>

definition mask_top :: "nat \<Rightarrow> u64 list \<times> u64 list \<Rightarrow> u64 list \<times> u64 list" where
  "mask_top w ab =
     (let top_bits = w mod 64
      in if top_bits \<noteq> 0 then
           (let m = push_bit top_bits 1 - 1
            in (map_last (\<lambda>l. l AND m) (fst ab), map_last (\<lambda>l. l AND m) (snd ab)))
         else ab)"

definition normalize_top :: "LogicVec \<Rightarrow> LogicVec" where
  "normalize_top v = (case repr v of
     Small a b \<Rightarrow> v
   | Wide a b \<Rightarrow> (let ab = mask_top (width v) (a, b) in v\<lparr>repr := Wide (fst ab) (snd ab)\<rparr>))"

definition limb_aval :: "LogicVec \<Rightarrow> nat \<Rightarrow> u64" where
  "limb_aval v i = (case repr v of
     Small a b \<Rightarrow> (if i = 0 then a else 0)
   | Wide a b \<Rightarrow> (if i < length a then a ! i else 0))"

definition limb_bval :: "LogicVec \<Rightarrow> nat \<Rightarrow> u64" where
  "limb_bval v i = (case repr v of
     Small a b \<Rightarrow> (if i = 0 then b else 0)
   | Wide a b \<Rightarrow> (if i < length b then b ! i else 0))"

text \<open>
  The invariant of the module's documentation: inline storage exactly for widths up to 64, as
  many limbs as the width needs, and every bit at or above the width 0 in both planes. The
  width is at least 1 (the constructors assert it) and fits a \<open>u32\<close>.
\<close>

fun repr_ok :: "nat \<Rightarrow> Repr \<Rightarrow> bool" where
  "repr_ok w (Small a b) = (w \<le> 64 \<and> a AND word_mask w = a \<and> b AND word_mask w = b)"
| "repr_ok w (Wide a b) =
     (64 < w \<and> length a = limbs_for w \<and> length b = limbs_for w \<and> mask_top w (a, b) = (a, b))"

definition wf_lv :: "LogicVec \<Rightarrow> bool" where
  "wf_lv v \<longleftrightarrow> 1 \<le> width v \<and> width v < 2 ^ 32 \<and> repr_ok (width v) (repr v)"

text \<open>One bit of each plane, over all indices: what the proofs read instead of the storage.\<close>

definition abit :: "LogicVec \<Rightarrow> nat \<Rightarrow> bool" where
  "abit v i \<longleftrightarrow> bit (limb_aval v (i div 64)) (i mod 64)"

definition bbit :: "LogicVec \<Rightarrow> nat \<Rightarrow> bool" where
  "bbit v i \<longleftrightarrow> bit (limb_bval v (i div 64)) (i mod 64)"

lemma div_mod_64_nat: fixes i :: nat obtains "i = 64 * (i div 64) + i mod 64" and "i mod 64 < 64"
  by (metis mult_div_mod_eq mod_less_divisor zero_less_numeral)

lemma less_iff_limb:
  "i < w \<longleftrightarrow> i div 64 < w div 64 \<or> i div 64 = w div 64 \<and> i mod 64 < w mod (64::nat)"
  by (cases i rule: div_mod_64_nat, cases w rule: div_mod_64_nat) linarith

lemma limbs_for_eq: "limbs_for w = (if w mod 64 = 0 then w div 64 else Suc (w div 64))"
proof -
  have "(64 * q + r + 63) div 64 = (if r = 0 then q else Suc q)" if "r < 64" for q r :: nat
    using that by auto
  from this [of "w mod 64" "w div 64"] show ?thesis
    by (simp add: limbs_for_def)
qed

lemma limbs_for_bound: "i < w \<Longrightarrow> i div 64 < limbs_for w"
  by (auto simp: limbs_for_eq less_iff_limb [of i w])

section \<open>One plane of limbs\<close>

definition plane_bit :: "u64 list \<Rightarrow> nat \<Rightarrow> bool" where
  "plane_bit ls i \<longleftrightarrow> i div 64 < length ls \<and> bit (ls ! (i div 64)) (i mod 64)"

lemma plane_bit_index:
  "k < length ls \<Longrightarrow> j < 64 \<Longrightarrow> plane_bit ls (64 * k + j) \<longleftrightarrow> bit (ls ! k) j"
  by (simp add: plane_bit_def)

lemma plane_eqI:
  assumes "length ls = length ms" and "\<And>i. plane_bit ls i = plane_bit ms i"
  shows "ls = ms"
proof (rule nth_equalityI)
  fix k assume k: "k < length ls"
  show "ls ! k = ms ! k"
  proof (rule word_64_eqI)
    fix j :: nat assume "j < 64"
    then show "bit (ls ! k) j = bit (ms ! k) j"
      using k assms(1) assms(2) [of "64 * k + j"] by (simp add: plane_bit_index)
  qed
qed (rule assms(1))

lemma plane_bit_map_last:
  assumes "length ls = limbs_for w" and "w mod 64 \<noteq> 0"
  shows "plane_bit (map_last (\<lambda>l. l AND word_mask (w mod 64)) ls) i \<longleftrightarrow> plane_bit ls i \<and> i < w"
proof -
  have len: "length ls = Suc (w div 64)"
    using assms by (simp add: limbs_for_eq)
  consider "i div 64 < w div 64" | "i div 64 = w div 64" | "w div 64 < i div 64"
    by linarith
  then show ?thesis
  proof cases
    case 2
    then show ?thesis
      by (simp add: plane_bit_def nth_map_last len bit_and_iff less_iff_limb [of i w])
  qed (simp_all add: plane_bit_def nth_map_last len less_iff_limb [of i w])
qed

lemma mask_top_alt:
  "mask_top w ab =
     (if w mod 64 \<noteq> 0
      then (map_last (\<lambda>l. l AND word_mask (w mod 64)) (fst ab), map_last (\<lambda>l. l AND word_mask (w mod 64)) (snd ab))
      else ab)"
  by (simp add: mask_top_def word_mask_def Let_def)

lemma mask_top_planes:
  assumes "length a = limbs_for w" and "length b = limbs_for w"
  shows "plane_bit (fst (mask_top w (a, b))) i \<longleftrightarrow> plane_bit a i \<and> i < w"
    and "plane_bit (snd (mask_top w (a, b))) i \<longleftrightarrow> plane_bit b i \<and> i < w"
proof -
  have "plane_bit ls i \<Longrightarrow> i < w" if "w mod 64 = 0" "length ls = limbs_for w" for ls
    using that by (auto simp: limbs_for_eq plane_bit_def less_iff_limb [of i w])
  with assms show "plane_bit (fst (mask_top w (a, b))) i \<longleftrightarrow> plane_bit a i \<and> i < w"
    and "plane_bit (snd (mask_top w (a, b))) i \<longleftrightarrow> plane_bit b i \<and> i < w"
    by (auto simp: mask_top_alt plane_bit_map_last simp del: bit_word_mask)
qed

lemma length_mask_top [simp]:
  "length (fst (mask_top w ab)) = length (fst ab)" "length (snd (mask_top w ab)) = length (snd ab)"
  by (simp_all add: mask_top_def Let_def)

lemma mask_top_fixed:
  assumes "length a = limbs_for w" and "length b = limbs_for w"
  shows "mask_top w (a, b) = (a, b) \<longleftrightarrow> (\<forall>i\<ge>w. \<not> plane_bit a i \<and> \<not> plane_bit b i)"
proof
  assume "mask_top w (a, b) = (a, b)"
  then show "\<forall>i\<ge>w. \<not> plane_bit a i \<and> \<not> plane_bit b i"
    by (metis mask_top_planes [OF assms] fst_conv snd_conv not_le)
next
  assume "\<forall>i\<ge>w. \<not> plane_bit a i \<and> \<not> plane_bit b i"
  then have *: "(plane_bit a i \<and> i < w) = plane_bit a i" "(plane_bit b i \<and> i < w) = plane_bit b i" for i
    using not_le by blast+
  have "fst (mask_top w (a, b)) = a"
    by (rule plane_eqI) (simp_all only: mask_top_planes [OF assms] length_mask_top fst_conv *)
  moreover have "snd (mask_top w (a, b)) = b"
    by (rule plane_eqI) (simp_all only: mask_top_planes [OF assms] length_mask_top snd_conv *)
  ultimately show "mask_top w (a, b) = (a, b)" by (simp add: prod_eq_iff)
qed

section \<open>The invariant, bit by bit\<close>

fun shape_ok :: "nat \<Rightarrow> Repr \<Rightarrow> bool" where
  "shape_ok w (Small a b) = (w \<le> 64)"
| "shape_ok w (Wide a b) = (64 < w \<and> length a = limbs_for w \<and> length b = limbs_for w)"

lemma abit_Small [simp]: "abit \<lparr>width = w, repr = Small a b\<rparr> i \<longleftrightarrow> i < 64 \<and> bit a i"
  by (auto simp: abit_def limb_aval_def div_eq_0_iff)

lemma bbit_Small [simp]: "bbit \<lparr>width = w, repr = Small a b\<rparr> i \<longleftrightarrow> i < 64 \<and> bit b i"
  by (auto simp: bbit_def limb_bval_def div_eq_0_iff)

lemma abit_Wide [simp]: "abit \<lparr>width = w, repr = Wide a b\<rparr> i \<longleftrightarrow> plane_bit a i"
  by (simp add: abit_def limb_aval_def plane_bit_def)

lemma bbit_Wide [simp]: "bbit \<lparr>width = w, repr = Wide a b\<rparr> i \<longleftrightarrow> plane_bit b i"
  by (simp add: bbit_def limb_bval_def plane_bit_def)

lemma and_mask_fixed: "a AND word_mask w = a \<longleftrightarrow> (\<forall>i. bit a i \<longrightarrow> i < w)" for a :: u64
  by (auto simp: bit_eq_iff bit_and_iff dest: bit_u64_bound)

lemma repr_ok_iff:
  "repr_ok w r \<longleftrightarrow> shape_ok w r \<and>
     (\<forall>i\<ge>w. \<not> abit \<lparr>width = w, repr = r\<rparr> i \<and> \<not> bbit \<lparr>width = w, repr = r\<rparr> i)"
proof (cases r)
  case (Small a b)
  then show ?thesis
    by (auto simp: and_mask_fixed dest: bit_u64_bound) (meson bit_u64_bound not_le)+
next
  case (Wide a b)
  then show ?thesis by (auto simp: mask_top_fixed)
qed

lemma wf_lv_iff:
  "wf_lv v \<longleftrightarrow> 1 \<le> width v \<and> width v < 2 ^ 32 \<and> shape_ok (width v) (repr v) \<and>
     (\<forall>i\<ge>width v. \<not> abit v i \<and> \<not> bbit v i)"
  by (cases v) (auto simp: wf_lv_def repr_ok_iff)

section \<open>Constructors\<close>

text \<open>
  The constructors assert a width of at least 1. The model splits such a function in two: \<open>zero\<close>
  is the body behind the assertion, which the operations call with the width of a well-formed
  vector, and \<open>zero_chk\<close> is the whole function, \<open>None\<close> where it panics.
\<close>

definition zero :: "nat \<Rightarrow> LogicVec" where
  "zero w =
     (if w \<le> 64 then \<lparr>width = w, repr = Small 0 0\<rparr>
      else (let n = limbs_for w
            in \<lparr>width = w, repr = Wide (replicate n 0) (replicate n 0)\<rparr>))"

definition zero_chk :: "nat \<Rightarrow> LogicVec option" where
  "zero_chk w = (if w \<ge> 1 then Some (zero w) else None)"

definition fill_planes :: "LogicVec \<Rightarrow> bool \<Rightarrow> bool \<Rightarrow> LogicVec" where
  "fill_planes v aval_one bval_one = (case repr v of
     Small a b \<Rightarrow>
       (let m = word_mask (width v)
        in v\<lparr>repr := Small (if aval_one then m else 0) (if bval_one then m else 0)\<rparr>)
   | Wide a b \<Rightarrow>
       (let fa = (if aval_one then - 1 else 0); fb = (if bval_one then - 1 else 0);
            ab = mask_top (width v) (map (\<lambda>_. fa) a, map (\<lambda>_. fb) b)
        in v\<lparr>repr := Wide (fst ab) (snd ab)\<rparr>))"

definition ones :: "nat \<Rightarrow> LogicVec" where
  "ones w = fill_planes (zero w) True False"

definition all_x :: "nat \<Rightarrow> LogicVec" where
  "all_x w = fill_planes (zero w) False True"

definition all_z :: "nat \<Rightarrow> LogicVec" where
  "all_z w = fill_planes (zero w) True True"

definition from_u64 :: "u64 \<Rightarrow> nat \<Rightarrow> LogicVec" where
  "from_u64 val w =
     (if w \<le> 64 then \<lparr>width = w, repr = Small (val AND word_mask w) 0\<rparr>
      else (let n = limbs_for w
            in \<lparr>width = w, repr = Wide ((replicate n 0)[0 := val]) (replicate n 0)\<rparr>))"

definition from_u64_chk :: "u64 \<Rightarrow> nat \<Rightarrow> LogicVec option" where
  "from_u64_chk val w = (if w \<ge> 1 then Some (from_u64 val w) else None)"

text \<open>An \<open>i64\<close> is the \<open>64 word\<close> with the same bits; \<open>sint\<close> reads its sign.\<close>

definition from_i64 :: "u64 \<Rightarrow> nat \<Rightarrow> LogicVec" where
  "from_i64 val w =
     (if w \<le> 64 then \<lparr>width = w, repr = Small (val AND word_mask w) 0\<rparr>
      else (let n = limbs_for w; fill = (if sint val < 0 then - 1 else 0)
            in normalize_top \<lparr>width = w, repr = Wide ((replicate n fill)[0 := val]) (replicate n 0)\<rparr>))"

definition from_planes_small_chk :: "u64 \<Rightarrow> u64 \<Rightarrow> nat \<Rightarrow> LogicVec option" where
  "from_planes_small_chk aval bval w =
     (if 1 \<le> w \<and> w \<le> 64
      then (let m = word_mask w in Some \<lparr>width = w, repr = Small (aval AND m) (bval AND m)\<rparr>)
      else None)"

definition from_planes_small :: "u64 \<Rightarrow> u64 \<Rightarrow> nat \<Rightarrow> LogicVec" where
  "from_planes_small aval bval w =
     (let m = word_mask w in \<lparr>width = w, repr = Small (aval AND m) (bval AND m)\<rparr>)"

definition from_bit :: "Bit \<Rightarrow> LogicVec" where
  "from_bit b = (case b of Zero \<Rightarrow> from_u64 0 1 | One \<Rightarrow> from_u64 1 1 | X \<Rightarrow> all_x 1 | Z \<Rightarrow> all_x 1)"

definition filled :: "Bit \<Rightarrow> nat \<Rightarrow> LogicVec" where
  "filled b w = (case b of Zero \<Rightarrow> zero w | One \<Rightarrow> ones w | X \<Rightarrow> all_x w | Z \<Rightarrow> all_z w)"

section \<open>Accessors\<close>

definition get_bit :: "LogicVec \<Rightarrow> nat \<Rightarrow> Bit" where
  "get_bit v idx =
     (if idx \<ge> width v then Zero
      else (case repr v of
          Small a b \<Rightarrow> from_planes (drop_bit idx a) (drop_bit idx b)
        | Wide a b \<Rightarrow>
            (let limb = idx div 64; off = idx mod 64
             in from_planes (drop_bit off (a ! limb)) (drop_bit off (b ! limb)))))"

definition set_bit_word :: "u64 \<Rightarrow> nat \<Rightarrow> u64 \<Rightarrow> u64" where
  "set_bit_word p off b = (p AND NOT (push_bit off 1)) OR push_bit off b"

definition set_bit :: "LogicVec \<Rightarrow> nat \<Rightarrow> Bit \<Rightarrow> LogicVec" where
  "set_bit v idx b =
     (if idx \<ge> width v then v
      else (let (ba, bb) = planes b
            in (case repr v of
                Small p q \<Rightarrow> v\<lparr>repr := Small (set_bit_word p idx ba) (set_bit_word q idx bb)\<rparr>
              | Wide p q \<Rightarrow>
                  (let limb = idx div 64; off = idx mod 64
                   in v\<lparr>repr := Wide (p[limb := set_bit_word (p ! limb) off ba])
                                    (q[limb := set_bit_word (q ! limb) off bb])\<rparr>))))"

definition from_bits_msb_first :: "Bit list \<Rightarrow> LogicVec" where
  "from_bits_msb_first bits =
     fold (\<lambda>(i, b) v. set_bit v i b) (enumerate 0 (rev bits)) (zero (max (length bits) 1))"

definition small :: "LogicVec \<Rightarrow> (u64 \<times> u64) option" where
  "small v = (case repr v of Small a b \<Rightarrow> Some (a, b) | Wide _ _ \<Rightarrow> None)"

definition is_known :: "LogicVec \<Rightarrow> bool" where
  "is_known v = (case repr v of Small _ b \<Rightarrow> b = 0 | Wide _ b \<Rightarrow> list_all (\<lambda>w. w = 0) b)"

definition has_unknown :: "LogicVec \<Rightarrow> bool" where
  "has_unknown v = (\<not> is_known v)"

definition is_true :: "LogicVec \<Rightarrow> bool" where
  "is_true v = (case repr v of
     Small a b \<Rightarrow> a AND NOT b \<noteq> 0
   | Wide a b \<Rightarrow> list_ex (\<lambda>(p, q). p AND NOT q \<noteq> 0) (zip a b))"

definition to_u64 :: "LogicVec \<Rightarrow> u64" where
  "to_u64 v = (case repr v of Small a b \<Rightarrow> a AND NOT b | Wide a b \<Rightarrow> (a ! 0) AND NOT (b ! 0))"

definition try_to_u64 :: "LogicVec \<Rightarrow> u64 option" where
  "try_to_u64 v =
     (if is_known v \<and> width v \<le> 64 then map_option fst (small v)
      else if is_known v then
        (case repr v of
           Wide a b \<Rightarrow> (if list_all (\<lambda>w. w = 0) (drop 1 a) then Some (a ! 0) else None)
         | Small _ _ \<Rightarrow> None)
      else None)"

section \<open>Reading and writing single bits\<close>

lemma wf_lvD:
  assumes "wf_lv v"
  shows "1 \<le> width v" "width v < 2 ^ 32" "shape_ok (width v) (repr v)"
    "width v \<le> i \<Longrightarrow> \<not> abit v i" "width v \<le> i \<Longrightarrow> \<not> bbit v i"
  using assms by (auto simp: wf_lv_iff)

lemma get_bit_planes:
  assumes "shape_ok (width v) (repr v)"
  shows "get_bit v i = (if i < width v then bit_of (abit v i) (bbit v i) else Zero)"
proof (cases v)
  case (fields w r)
  show ?thesis
  proof (cases r)
    case (Small a b)
    then show ?thesis using assms fields
      by (auto simp: get_bit_def from_planes_bits bit_drop_bit_eq)
  next
    case (Wide a b)
    then have "i < w \<Longrightarrow> i div 64 < length a \<and> i div 64 < length b"
      using assms fields limbs_for_bound by auto
    with Wide fields show ?thesis
      by (auto simp: get_bit_def from_planes_bits bit_drop_bit_eq plane_bit_def Let_def)
  qed
qed

lemma get_bit_wf: "wf_lv v \<Longrightarrow> get_bit v i = bit_of (abit v i) (bbit v i)"
  by (auto simp: get_bit_planes wf_lvD)

lemma get_bit_beyond [simp]: "width v \<le> i \<Longrightarrow> get_bit v i = Zero"
  by (simp add: get_bit_def)

lemma wf_eqI:
  assumes "wf_lv u" and "wf_lv v" and w: "width u = width v"
    and bits: "\<And>i. i < width u \<Longrightarrow> get_bit u i = get_bit v i"
  shows "u = v"
proof -
  have "get_bit u i = get_bit v i" for i
    using bits w by (cases "i < width u") simp_all
  then have ab: "abit u i = abit v i \<and> bbit u i = bbit v i" for i
    using assms(1,2) by (simp add: get_bit_wf)
  obtain wu ru wv rv where u: "u = \<lparr>width = wu, repr = ru\<rparr>" and v: "v = \<lparr>width = wv, repr = rv\<rparr>"
    by (metis LogicVec.cases)
  have sh: "shape_ok wu ru" "shape_ok wu rv" "wv = wu"
    using wf_lvD [OF assms(1)] wf_lvD [OF assms(2)] w u v by simp_all
  have "ru = rv"
  proof (cases ru)
    case (Small a b)
    from this sh obtain c d where rv: "rv = Small c d" by (cases rv) auto
    have "bit a i = bit c i" "bit b i = bit d i" if "i < 64" for i
      using ab [of i] that by (simp_all add: u v Small rv)
    then have "a = c" "b = d"
      using word_64_eqI by blast+
    then show ?thesis using Small rv by simp
  next
    case (Wide a b)
    from this sh obtain c d where rv: "rv = Wide c d" by (cases rv) auto
    have "plane_bit a i = plane_bit c i" "plane_bit b i = plane_bit d i" for i
      using ab [of i] by (simp_all add: u v Wide rv)
    moreover have "length a = length c" "length b = length d"
      using sh Wide rv by simp_all
    ultimately have "a = c" "b = d"
      using plane_eqI by blast+
    then show ?thesis using Wide rv by simp
  qed
  with u v w show ?thesis by simp
qed

lemma width_set_bit [simp, shape_simps]: "width (set_bit v i b) = width v"
  by (simp add: set_bit_def Let_def split: Repr.split prod.split)

lemma bit_set_bit_word:
  assumes "off < 64" and b: "\<And>k. bit b k \<Longrightarrow> k = 0"
  shows "bit (set_bit_word p off b) k \<longleftrightarrow> (if k = off then bit b 0 else bit p k)"
proof -
  have "bit b (k - off) \<longleftrightarrow> k \<le> off \<and> bit b 0"
    using b by force
  then have "k < 64 \<Longrightarrow> ?thesis"
    using assms(1) by (auto simp: set_bit_word_def bit_or_iff bit_and_iff bit_not_iff bit_push_bit_iff
        bit_exp_iff)
  then show ?thesis
    using assms by (cases "k < 64") (auto dest: bit_u64_bound)
qed

lemma plane_bit_set:
  assumes "i div 64 < length p" and "\<And>k. bit b k \<Longrightarrow> k = 0"
  shows "plane_bit (p[i div 64 := set_bit_word (p ! (i div 64)) (i mod 64) b]) j \<longleftrightarrow>
    (if j = i then bit b 0 else plane_bit p j)"
proof (cases "j div 64 = i div 64")
  case True
  then have "j mod 64 = i mod 64 \<longleftrightarrow> j = i"
    by (metis mult_div_mod_eq)
  with True assms show ?thesis
    by (auto simp: plane_bit_def bit_set_bit_word)
next
  case False
  with assms show ?thesis by (auto simp: plane_bit_def)
qed

lemma planes_set:
  assumes "shape_ok (width v) (repr v)"
  shows "shape_ok (width v) (repr (set_bit v i b))"
    and "abit (set_bit v i b) j \<longleftrightarrow> (if j = i \<and> i < width v then b = One \<or> b = Z else abit v j)"
    and "bbit (set_bit v i b) j \<longleftrightarrow> (if j = i \<and> i < width v then b = X \<or> b = Z else bbit v j)"
proof -
  obtain w r where v: "v = \<lparr>width = w, repr = r\<rparr>" by (cases v)
  obtain ba bb where pl: "planes b = (ba, bb)" by fastforce
  have ba: "\<And>k. bit ba k \<Longrightarrow> k = 0" "bit ba 0 \<longleftrightarrow> b = One \<or> b = Z"
    and bb: "\<And>k. bit bb k \<Longrightarrow> k = 0" "bit bb 0 \<longleftrightarrow> b = X \<or> b = Z"
    using planes_bits [of b] pl by auto
  have "shape_ok (width v) (repr (set_bit v i b)) \<and>
    (abit (set_bit v i b) j \<longleftrightarrow> (if j = i \<and> i < width v then b = One \<or> b = Z else abit v j)) \<and>
    (bbit (set_bit v i b) j \<longleftrightarrow> (if j = i \<and> i < width v then b = X \<or> b = Z else bbit v j))"
  proof (cases r)
    case (Small p q)
    then show ?thesis using assms ba bb
      by (auto simp: v set_bit_def pl bit_set_bit_word)
  next
    case (Wide p q)
    then have "i < w \<Longrightarrow> i div 64 < length p \<and> i div 64 < length q"
      using assms v limbs_for_bound by auto
    with Wide show ?thesis using assms ba bb
      by (auto simp: v set_bit_def pl plane_bit_set Let_def)
  qed
  then show "shape_ok (width v) (repr (set_bit v i b))"
    and "abit (set_bit v i b) j \<longleftrightarrow> (if j = i \<and> i < width v then b = One \<or> b = Z else abit v j)"
    and "bbit (set_bit v i b) j \<longleftrightarrow> (if j = i \<and> i < width v then b = X \<or> b = Z else bbit v j)"
    by blast+
qed

lemma wf_set_bit [simp, wf_intros]: "wf_lv v \<Longrightarrow> wf_lv (set_bit v i b)"
  using planes_set by (auto simp: wf_lv_iff)

lemma get_bit_set_bit [getbit_simps]:
  assumes "wf_lv v"
  shows "get_bit (set_bit v i b) j = (if j = i \<and> i < width v then b else get_bit v j)"
proof -
  have "bit_of (b = One \<or> b = Z) (b = X \<or> b = Z) = b"
    by (cases b) simp_all
  then show ?thesis
    using assms by (simp add: get_bit_wf planes_set wf_lvD)
qed

text \<open>
  A loop \<open>for i in xs { if P(i) { out.set_bit(c + i, g(i)) } }\<close>: the bit written at \<open>j\<close> depends on
  \<open>j\<close> alone, so neither the order nor a repetition of the indices matters.
\<close>

definition set_bits :: "nat \<Rightarrow> (nat \<Rightarrow> bool) \<Rightarrow> (nat \<Rightarrow> Bit) \<Rightarrow> nat list \<Rightarrow> LogicVec \<Rightarrow> LogicVec" where
  "set_bits c P g xs out = fold (\<lambda>i out. if P i then set_bit out (c + i) (g i) else out) xs out"

lemma set_bits_Nil [simp]: "set_bits c P g [] v = v"
  by (simp add: set_bits_def)

lemma set_bits_Cons [simp]:
  "set_bits c P g (x # xs) v = set_bits c P g xs (if P x then set_bit v (c + x) (g x) else v)"
  by (simp add: set_bits_def)

lemma width_set_bits [simp, shape_simps]: "width (set_bits c P g xs v) = width v"
  by (induction xs arbitrary: v) simp_all

lemma wf_set_bits [simp, wf_intros]: "wf_lv v \<Longrightarrow> wf_lv (set_bits c P g xs v)"
  by (induction xs arbitrary: v) simp_all

lemma get_bit_set_bits [getbit_simps]:
  assumes "wf_lv v"
  shows "get_bit (set_bits c P g xs v) j =
    (if j < width v \<and> c \<le> j \<and> j - c \<in> set xs \<and> P (j - c) then g (j - c) else get_bit v j)"
  using assms
proof (induction xs arbitrary: v)
  case (Cons x xs)
  then show ?case
    by (auto simp: get_bit_set_bit)
qed simp

section \<open>What the constructors build\<close>

lemma plane_bit_replicate [simp]: "plane_bit (replicate n w) i \<longleftrightarrow> i div 64 < n \<and> bit w (i mod 64)"
  by (auto simp: plane_bit_def)

lemma plane_bit_map_const [simp]: "plane_bit (map (\<lambda>_. w) ls) i \<longleftrightarrow> i div 64 < length ls \<and> bit w (i mod 64)"
  by (auto simp: plane_bit_def)

lemma plane_bit_update_0:
  "0 < n \<Longrightarrow> plane_bit ((replicate n w)[0 := a]) i \<longleftrightarrow>
     i div 64 < n \<and> (if i < 64 then bit a i else bit w (i mod 64))"
  by (auto simp: plane_bit_def nth_list_update div_eq_0_iff)

lemma limbs_for_pos: "1 \<le> w \<Longrightarrow> 0 < limbs_for w"
  by (simp add: limbs_for_def)

lemma width_constructors [simp, shape_simps]:
  "width (zero w) = w" "width (ones w) = w" "width (all_x w) = w" "width (all_z w) = w"
  "width (from_u64 val w) = w" "width (from_i64 val w) = w" "width (from_planes_small a b w) = w"
  "width (filled s w) = w" "width (from_bit s) = 1"
  by (auto simp: zero_def ones_def all_x_def all_z_def fill_planes_def from_u64_def from_i64_def
      normalize_top_def from_planes_small_def filled_def from_bit_def Let_def split: Repr.split Bit.split)

lemma zero_bits [simp]: "\<not> abit (zero w) i" "\<not> bbit (zero w) i"
  by (simp_all add: zero_def)

lemma wf_zero [simp, wf_intros]: "1 \<le> w \<Longrightarrow> w < 2 ^ 32 \<Longrightarrow> wf_lv (zero w)"
  by (auto simp: wf_lv_iff) (simp add: zero_def)

lemma get_bit_zero [simp, getbit_simps]: "get_bit (zero w) i = Zero"
  by (simp add: get_bit_planes zero_def)

lemma fill_planes_bits:
  assumes "1 \<le> w" and "w < 2 ^ 32"
  shows "wf_lv (fill_planes (zero w) p q)"
    and "abit (fill_planes (zero w) p q) i \<longleftrightarrow> i < w \<and> p"
    and "bbit (fill_planes (zero w) p q) i \<longleftrightarrow> i < w \<and> q"
proof -
  have "shape_ok w (repr (fill_planes (zero w) p q))"
    by (simp add: fill_planes_def zero_def)
  moreover have ab: "(abit (fill_planes (zero w) p q) i \<longleftrightarrow> i < w \<and> p) \<and>
      (bbit (fill_planes (zero w) p q) i \<longleftrightarrow> i < w \<and> q)" for i
    by (cases "i < w") (simp_all add: fill_planes_def zero_def mask_top_planes limbs_for_bound)
  moreover have "width (fill_planes (zero w) p q) = w"
    by (simp add: fill_planes_def zero_def)
  ultimately show "wf_lv (fill_planes (zero w) p q)"
    and "abit (fill_planes (zero w) p q) i \<longleftrightarrow> i < w \<and> p"
    and "bbit (fill_planes (zero w) p q) i \<longleftrightarrow> i < w \<and> q"
    using assms by (simp_all add: wf_lv_iff)
qed

lemma wf_filled [simp, wf_intros]:
  assumes "1 \<le> w" and "w < 2 ^ 32"
  shows "wf_lv (ones w)" "wf_lv (all_x w)" "wf_lv (all_z w)" "wf_lv (filled b w)"
  using assms by (simp_all add: ones_def all_x_def all_z_def filled_def fill_planes_bits split: Bit.split)

lemma get_bit_filled [getbit_simps]:
  assumes "1 \<le> w" and "w < 2 ^ 32"
  shows "get_bit (ones w) i = (if i < w then One else Zero)"
    "get_bit (all_x w) i = (if i < w then X else Zero)"
    "get_bit (all_z w) i = (if i < w then Z else Zero)"
  using assms fill_planes_bits [OF assms]
  by (simp_all add: get_bit_wf ones_def all_x_def all_z_def)

lemma get_bit_filled_bit [getbit_simps]:
  "1 \<le> w \<Longrightarrow> w < 2 ^ 32 \<Longrightarrow> get_bit (filled b w) i = (if i < w then b else Zero)"
  by (cases b) (simp_all add: filled_def get_bit_filled)

lemma from_u64_bits:
  assumes "1 \<le> w" and "w < 2 ^ 32"
  shows "wf_lv (from_u64 val w)" "abit (from_u64 val w) i \<longleftrightarrow> i < w \<and> bit val i"
    "\<not> bbit (from_u64 val w) i"
proof -
  have pb: "plane_bit ((replicate (limbs_for w) 0)[0 := val]) i \<longleftrightarrow> i < 64 \<and> bit val i" for i
    using limbs_for_pos [OF assms(1)] by (auto simp: plane_bit_update_0 div_eq_0_iff)
  have sh: "shape_ok w (repr (from_u64 val w))"
    by (simp add: from_u64_def)
  have ab: "(abit (from_u64 val w) i \<longleftrightarrow> i < w \<and> bit val i) \<and> \<not> bbit (from_u64 val w) i" for i
    using bit_u64_bound [of val i] by (auto simp: from_u64_def bit_and_iff pb)
  from sh ab show "wf_lv (from_u64 val w)" "abit (from_u64 val w) i \<longleftrightarrow> i < w \<and> bit val i"
    "\<not> bbit (from_u64 val w) i"
    using assms by (auto simp: wf_lv_iff)
qed

lemmas wf_from_u64 [simp, wf_intros] = from_u64_bits(1)

lemma get_bit_from_u64 [getbit_simps]:
  "1 \<le> w \<Longrightarrow> w < 2 ^ 32 \<Longrightarrow> get_bit (from_u64 val w) i = (if i < w \<and> bit val i then One else Zero)"
  by (simp add: get_bit_wf from_u64_bits bit_of_def)

lemma bit_sign_word: "sint (val :: u64) < 0 \<longleftrightarrow> bit val 63"
  using bit_last_iff [of val] by simp

lemma from_i64_bits:
  assumes "1 \<le> w" and "w < 2 ^ 32"
  shows "wf_lv (from_i64 val w)" "abit (from_i64 val w) i \<longleftrightarrow> i < w \<and> bit val (min i 63)"
    "\<not> bbit (from_i64 val w) i"
proof -
  have "plane_bit ((replicate (limbs_for w) (if sint val < 0 then - 1 else 0))[0 := val]) i \<longleftrightarrow>
      bit val (min i 63)" if "i < w" for i
  proof -
    have "i < 64 \<Longrightarrow> min i 63 = i" "\<not> i < 64 \<Longrightarrow> min i 63 = 63" by auto
    then show ?thesis
      using that limbs_for_pos [OF assms(1)] limbs_for_bound [OF that]
      by (cases "i < 64") (auto simp: plane_bit_update_0 bit_sign_word)
  qed
  then have ab: "(abit (from_i64 val w) i \<longleftrightarrow> i < w \<and> bit val (min i 63)) \<and> \<not> bbit (from_i64 val w) i" for i
    by (auto simp: from_i64_def normalize_top_def bit_and_iff mask_top_planes min_absorb1)
  have sh: "shape_ok w (repr (from_i64 val w))"
    by (simp add: from_i64_def normalize_top_def)
  from sh ab show "wf_lv (from_i64 val w)" "abit (from_i64 val w) i \<longleftrightarrow> i < w \<and> bit val (min i 63)"
    "\<not> bbit (from_i64 val w) i"
    using assms by (auto simp: wf_lv_iff)
qed

lemma from_planes_small_bits:
  assumes "1 \<le> w" and "w \<le> 64"
  shows "wf_lv (from_planes_small a b w)"
    "abit (from_planes_small a b w) i \<longleftrightarrow> i < w \<and> bit a i"
    "bbit (from_planes_small a b w) i \<longleftrightarrow> i < w \<and> bit b i"
  using assms by (auto simp: wf_lv_iff from_planes_small_def Let_def bit_and_iff dest: bit_u64_bound)

lemma from_planes_small_chk_eq:
  "from_planes_small_chk a b w = (if 1 \<le> w \<and> w \<le> 64 then Some (from_planes_small a b w) else None)"
  by (simp add: from_planes_small_chk_def from_planes_small_def Let_def)

lemma wf_from_bit [simp, wf_intros]: "wf_lv (from_bit b)"
  by (cases b) (simp_all add: from_bit_def)

lemma get_bit_from_bit [getbit_simps]:
  "get_bit (from_bit b) i = (if i = 0 then (if b = Z then X else b) else Zero)"
  by (cases b) (auto simp: from_bit_def get_bit_from_u64 get_bit_filled bit_1_iff)

lemma get_bit_from_i64 [getbit_simps]:
  "1 \<le> w \<Longrightarrow> w < 2 ^ 32 \<Longrightarrow> get_bit (from_i64 val w) i = (if i < w \<and> bit val (min i 63) then One else Zero)"
  by (simp add: get_bit_wf from_i64_bits bit_of_def)

section \<open>What the accessors read\<close>

lemma list_all_zero_plane: "list_all (\<lambda>w. w = 0) ls \<longleftrightarrow> (\<forall>i. \<not> plane_bit ls i)" for ls :: "u64 list"
proof
  assume "\<forall>i. \<not> plane_bit ls i"
  then have "ls ! k = 0" if "k < length ls" for k
    using that plane_bit_index [OF that] by (intro word_64_eqI) auto
  then show "list_all (\<lambda>w. w = 0) ls" by (simp add: list_all_length)
qed (auto simp: list_all_length plane_bit_def)

lemma is_known_planes: "shape_ok (width v) (repr v) \<Longrightarrow> is_known v \<longleftrightarrow> (\<forall>i. \<not> bbit v i)"
proof (cases v)
  case (fields w r)
  then show ?thesis
    by (cases r) (simp_all add: is_known_def list_all_zero_plane, simp add: bit_eq_iff)
qed

lemma bit_of_unknown: "is_unknown (bit_of a b) \<longleftrightarrow> b"
  by (simp add: bit_of_def)

text \<open>\<open>is_known\<close> holds exactly when no bit is \<open>x\<close> or \<open>z\<close>.\<close>

lemma is_known_iff: "wf_lv v \<Longrightarrow> is_known v \<longleftrightarrow> (\<forall>i < width v. \<not> is_unknown (get_bit v i))"
  by (simp add: is_known_planes wf_lvD get_bit_wf bit_of_unknown) (meson not_le wf_lvD(5))

lemma is_knownD: "is_known v \<Longrightarrow> wf_lv v \<Longrightarrow> get_bit v i = (if abit v i then One else Zero)"
  by (simp add: is_known_planes wf_lvD get_bit_wf bit_of_def)

lemma and_not_nz: "a AND NOT b \<noteq> 0 \<longleftrightarrow> (\<exists>i < 64. bit a i \<and> \<not> bit b i)" for a b :: u64
  by (auto simp: bit_eq_iff bit_and_iff bit_not_iff)

text \<open>\<open>is_true\<close> holds exactly when some bit is a known 1.\<close>

lemma is_true_iff: "wf_lv v \<Longrightarrow> is_true v \<longleftrightarrow> (\<exists>i < width v. get_bit v i = One)"
proof -
  assume wf: "wf_lv v"
  obtain w r where v: "v = \<lparr>width = w, repr = r\<rparr>" by (cases v)
  have "is_true v \<longleftrightarrow> (\<exists>i. abit v i \<and> \<not> bbit v i)"
  proof (cases r)
    case (Small a b)
    then show ?thesis by (auto simp: v is_true_def and_not_nz)
  next
    case (Wide a b)
    then have len: "length a = length b" using wf by (simp add: v wf_lv_iff)
    have "list_ex (\<lambda>(p, q). p AND NOT q \<noteq> 0) (zip a b) \<longleftrightarrow>
        (\<exists>k < length a. \<exists>j < 64. bit (a ! k) j \<and> \<not> bit (b ! k) j)"
      using len by (simp add: list_ex_length and_not_nz cong: conj_cong)
    also have "\<dots> \<longleftrightarrow> (\<exists>i. plane_bit a i \<and> \<not> plane_bit b i)"
    proof
      assume "\<exists>k < length a. \<exists>j < 64. bit (a ! k) j \<and> \<not> bit (b ! k) j"
      then obtain k j where "k < length a" "j < 64" "bit (a ! k) j" "\<not> bit (b ! k) j" by auto
      then have "plane_bit a (64 * k + j) \<and> \<not> plane_bit b (64 * k + j)"
        using len by (simp add: plane_bit_index)
      then show "\<exists>i. plane_bit a i \<and> \<not> plane_bit b i" ..
    next
      assume "\<exists>i. plane_bit a i \<and> \<not> plane_bit b i"
      then obtain i where "plane_bit a i" "\<not> plane_bit b i" by auto
      then show "\<exists>k < length a. \<exists>j < 64. bit (a ! k) j \<and> \<not> bit (b ! k) j"
        using len by (intro exI [of _ "i div 64"] exI [of _ "i mod 64"] conjI)
          (auto simp: plane_bit_def)
    qed
    finally show ?thesis using Wide by (simp add: v is_true_def)
  qed
  also have "\<dots> \<longleftrightarrow> (\<exists>i < width v. get_bit v i = One)"
    using wf by (auto simp: get_bit_wf bit_of_def split: if_splits) (meson not_le wf_lvD(4))
  finally show ?thesis .
qed

lemma limb0_bits: "bit (limb_aval v 0) i \<longleftrightarrow> i < 64 \<and> abit v i"
  "bit (limb_bval v 0) i \<longleftrightarrow> i < 64 \<and> bbit v i"
  by (cases "i < 64"; auto simp: abit_def bbit_def dest: bit_u64_bound)+

lemma to_u64_limb0: "wf_lv v \<Longrightarrow> to_u64 v = limb_aval v 0 AND NOT (limb_bval v 0)"
  using limbs_for_pos [of "width v"]
  by (auto simp: to_u64_def limb_aval_def limb_bval_def wf_lv_iff split: Repr.splits)

lemma bit_to_u64: "wf_lv v \<Longrightarrow> bit (to_u64 v) i \<longleftrightarrow> i < 64 \<and> get_bit v i = One"
  by (auto simp: to_u64_limb0 get_bit_wf bit_of_def bit_and_iff bit_not_iff limb0_bits)

lemma to_u64_from_u64: "1 \<le> w \<Longrightarrow> w < 2 ^ 32 \<Longrightarrow> to_u64 (from_u64 val w) = val AND word_mask w"
  by (auto intro!: word_64_eqI simp: bit_to_u64 get_bit_from_u64 bit_and_iff split: if_splits)

text \<open>\<open>try_to_u64\<close> succeeds exactly on a fully known value whose bits from 64 up are 0.\<close>

lemma try_to_u64_Some:
  assumes "wf_lv v"
  shows "try_to_u64 v = (if is_known v \<and> (\<forall>i \<ge> 64. \<not> abit v i) then Some (to_u64 v) else None)"
proof -
  obtain w r where v: "v = \<lparr>width = w, repr = r\<rparr>" by (cases v)
  show ?thesis
  proof (cases r)
    case (Small a b)
    then show ?thesis using assms
      by (auto simp: v try_to_u64_def small_def is_known_def to_u64_def wf_lv_iff)
  next
    case (Wide a b)
    have len: "64 < w" "length a = limbs_for w" "0 < length a"
      using assms Wide limbs_for_pos [of w] by (auto simp: v wf_lv_iff)
    have "(64 + i) div 64 = Suc (i div 64)" for i :: nat
      by simp
    then have "plane_bit (drop 1 a) i \<longleftrightarrow> plane_bit a (64 + i)" for i
      using len by (auto simp: plane_bit_def simp del: div_add_self1)
    then have "list_all (\<lambda>w. w = 0) (drop 1 a) \<longleftrightarrow> (\<forall>i \<ge> 64. \<not> plane_bit a i)"
      by (simp add: list_all_zero_plane) (metis le_add1 le_iff_add)
    moreover have "b ! 0 = 0" if "is_known v"
      using that Wide assms len limbs_for_pos [of w]
      by (auto simp: v is_known_def wf_lv_iff list_all_length)
    ultimately show ?thesis
      using len Wide by (simp add: v try_to_u64_def to_u64_def)
  qed
qed

end
