(* ===== verification/Logic_Ops.thy ===== *)
theory Logic_Ops
  imports Logic_Vec
begin

text \<open>
  The operations of \<open>crates/eevee-core/src/logic.rs\<close> that work bit by bit: resize, the
  conditional operator, equality, the bitwise operators and reductions, shifts, part-select and
  concatenation. Each is translated with its loops and its inline fast path, and characterised by
  the four-state value of every bit of its result.

  The word-parallel operators \<open>&\<close>, \<open>|\<close> and \<open>^\<close> share one contract, the locale \<open>bitwise_op\<close>: a
  function on words that agrees with a four-state truth table at every bit position.
\<close>

section \<open>Resize\<close>

definition resize :: "LogicVec \<Rightarrow> nat \<Rightarrow> bool \<Rightarrow> LogicVec" where
  "resize v new_width is_signed =
     (if new_width = width v then v
      else (let copy = min new_width (width v);
                out = set_bits 0 (\<lambda>_. True) (get_bit v) [0..<copy] (zero new_width)
            in if new_width > width v then
                 (let ext = (if is_signed then get_bit v (width v - 1) else Zero);
                      ext = (case ext of
                          One \<Rightarrow> (if is_signed then One else Zero)
                        | X \<Rightarrow> (if is_signed then X else Zero)
                        | Z \<Rightarrow> (if is_signed then X else Zero)
                        | _ \<Rightarrow> Zero)
                  in if ext \<noteq> Zero
                     then set_bits 0 (\<lambda>_. True) (\<lambda>_. ext) [width v..<new_width] out
                     else out)
               else out))"

definition resize_chk :: "LogicVec \<Rightarrow> nat \<Rightarrow> bool \<Rightarrow> LogicVec option" where
  "resize_chk v new_width is_signed =
     (if new_width = width v \<or> new_width \<ge> 1 then Some (resize v new_width is_signed) else None)"

text \<open>The bit a signed extension repeats: the sign bit, with \<open>z\<close> read as \<open>x\<close>.\<close>

definition sign_fill :: "LogicVec \<Rightarrow> Bit" where
  "sign_fill v = (case get_bit v (width v - 1) of Z \<Rightarrow> X | b \<Rightarrow> b)"

lemma width_resize [simp, shape_simps]: "width (resize v w s) = w"
  by (simp add: resize_def)

lemma wf_resize [simp, wf_intros]: "wf_lv v \<Longrightarrow> 1 \<le> w \<Longrightarrow> w < 2 ^ 32 \<Longrightarrow> wf_lv (resize v w s)"
  by (simp add: resize_def)

lemma get_bit_resize [getbit_simps]:
  assumes "wf_lv v" and "1 \<le> w" and "w < 2 ^ 32"
  shows "get_bit (resize v w s) i =
    (if i < w then (if i < width v then get_bit v i else if s then sign_fill v else Zero) else Zero)"
  using assms
  by (cases "get_bit v (width v - Suc 0)")
    (auto simp: resize_def get_bit_set_bits sign_fill_def)

lemma resize_same [simp]: "resize v (width v) s = v"
  by (simp add: resize_def)

section \<open>The conditional operator\<close>

definition conditional :: "LogicVec \<Rightarrow> LogicVec \<Rightarrow> LogicVec \<Rightarrow> LogicVec" where
  "conditional condition when_true when_false =
     (let w = max (width when_true) (width when_false)
      in if is_true condition then resize when_true w False
         else if is_known condition then resize when_false w False
         else (let t = resize when_true w False; f = resize when_false w False
               in set_bits 0 (\<lambda>i. get_bit t i = get_bit f i) (get_bit t) [0..<w] (all_x w)))"

lemma width_conditional [simp, shape_simps]: "width (conditional c t f) = max (width t) (width f)"
  by (simp add: conditional_def)

lemma max_width_bounds:
  "wf_lv u \<Longrightarrow> wf_lv v \<Longrightarrow> Suc 0 \<le> max (width u) (width v)"
  "wf_lv u \<Longrightarrow> wf_lv v \<Longrightarrow> max (width u) (width v) < 2 ^ 32"
  by (auto simp: wf_lv_iff)

lemma wf_conditional [simp, wf_intros]: "wf_lv t \<Longrightarrow> wf_lv f \<Longrightarrow> wf_lv (conditional c t f)"
  using max_width_bounds [of t f] by (simp add: conditional_def)

lemma get_bit_conditional [getbit_simps]:
  assumes "wf_lv t" and "wf_lv f"
  shows "get_bit (conditional c t f) i =
    (if is_true c then get_bit t i
     else if is_known c then get_bit f i
     else if i < max (width t) (width f)
     then (if get_bit t i = get_bit f i then get_bit t i else X)
     else Zero)"
proof -
  have eq: "get_bit (resize u (max (width t) (width f)) False) j = get_bit u j"
    if "u = t \<or> u = f" for u j
    using that assms max_width_bounds [OF assms]
    by (cases "j < width u") (auto simp: get_bit_resize simp del: max_less_iff_conj)
  show ?thesis
    using assms max_width_bounds [OF assms]
    by (simp add: conditional_def get_bit_set_bits get_bit_filled eq)
qed

section \<open>Case equality\<close>

definition eq_case :: "LogicVec \<Rightarrow> LogicVec \<Rightarrow> bool" where
  "eq_case u v =
     (if width u \<noteq> width v then False
      else (case (repr u, repr v) of
          (Small a1 b1, Small a2 b2) \<Rightarrow> a1 = a2 \<and> b1 = b2
        | _ \<Rightarrow> list_all (\<lambda>i. get_bit u i = get_bit v i) [0..<width u]))"

text \<open>On well-formed vectors case equality is equality of the values (and so an equivalence).\<close>

lemma eq_case_iff [simp]:
  assumes "wf_lv u" and "wf_lv v"
  shows "eq_case u v \<longleftrightarrow> u = v"
proof
  assume e: "eq_case u v"
  show "u = v"
  proof (cases "\<exists>a1 b1 a2 b2. repr u = Small a1 b1 \<and> repr v = Small a2 b2")
    case True
    with e show ?thesis by (auto simp: eq_case_def split: if_splits)
  next
    case False
    with e have "width u = width v" "\<forall>i < width u. get_bit u i = get_bit v i"
      by (auto simp: eq_case_def list_all_iff split: if_splits Repr.splits)
    with assms show ?thesis by (auto intro: wf_eqI)
  qed
qed (auto simp: eq_case_def list_all_iff split: Repr.split)

section \<open>Reductions and logical negation\<close>

definition reduce_or :: "LogicVec \<Rightarrow> Bit" where
  "reduce_or v = (if is_true v then One else if has_unknown v then X else Zero)"

fun reduce_and_loop :: "LogicVec \<Rightarrow> nat list \<Rightarrow> bool \<Rightarrow> Bit" where
  "reduce_and_loop v [] saw_unknown = (if saw_unknown then X else One)"
| "reduce_and_loop v (i # is) saw_unknown = (case get_bit v i of
     Zero \<Rightarrow> Zero
   | One \<Rightarrow> reduce_and_loop v is saw_unknown
   | _ \<Rightarrow> reduce_and_loop v is True)"

definition reduce_and :: "LogicVec \<Rightarrow> Bit" where
  "reduce_and v = reduce_and_loop v [0..<width v] False"

definition count_ones :: "u64 \<Rightarrow> nat" where
  "count_ones w = length (filter (bit w) [0..<64])"

definition reduce_xor :: "LogicVec \<Rightarrow> Bit" where
  "reduce_xor v =
     (if has_unknown v then X
      else (let parity = (case repr v of
                Small a _ \<Rightarrow> count_ones a
              | Wide a _ \<Rightarrow> foldl (\<lambda>p w. add_u32 p (count_ones w)) 0 a)
            in if odd parity then One else Zero))"

definition lognot :: "LogicVec \<Rightarrow> LogicVec" where
  "lognot v = (case reduce_or v of One \<Rightarrow> from_u64 0 1 | Zero \<Rightarrow> from_u64 1 1 | _ \<Rightarrow> all_x 1)"

lemma width_lognot [simp, shape_simps]: "width (lognot v) = 1"
  by (simp add: lognot_def split: Bit.split)

lemma wf_lognot [simp, wf_intros]: "wf_lv (lognot v)"
  by (simp add: lognot_def split: Bit.split)

text \<open>The reductions of the language: \<open>|\<close> and \<open>&\<close> decide as soon as one bit does.\<close>

lemma reduce_or_spec:
  assumes "wf_lv v"
  shows "reduce_or v =
    (if \<exists>i < width v. get_bit v i = One then One
     else if \<exists>i < width v. is_unknown (get_bit v i) then X else Zero)"
  using assms by (simp add: reduce_or_def has_unknown_def is_true_iff is_known_iff)

lemma reduce_and_loop_spec:
  "reduce_and_loop v is s =
    (if \<exists>i \<in> set is. get_bit v i = Zero then Zero
     else if s \<or> (\<exists>i \<in> set is. is_unknown (get_bit v i)) then X else One)"
  by (induction "is" arbitrary: s) (auto split: Bit.split)

lemma reduce_and_spec:
  "reduce_and v =
    (if \<exists>i < width v. get_bit v i = Zero then Zero
     else if \<exists>i < width v. is_unknown (get_bit v i) then X else One)"
  by (auto simp: reduce_and_def reduce_and_loop_spec)

lemma get_bit_lognot:
  assumes "wf_lv v"
  shows "get_bit (lognot v) 0 = (case reduce_or v of One \<Rightarrow> Zero | Zero \<Rightarrow> One | _ \<Rightarrow> X)"
  by (cases "reduce_or v") (simp_all add: lognot_def get_bit_from_u64 get_bit_filled)

lemma count_ones_card: "count_ones w = card {i. i < 64 \<and> bit w i}"
proof -
  have "count_ones w = card (set (filter (bit w) [0..<64]))"
    unfolding count_ones_def by (rule distinct_card [symmetric]) (simp add: distinct_filter)
  also have "set (filter (bit w) [0..<64]) = {i. i < 64 \<and> bit w i}" by auto
  finally show ?thesis .
qed

lemma even_add_u32: "even (add_u32 a b) \<longleftrightarrow> even (a + b)"
  by (simp add: add_u32_def dvd_mod_iff)

lemma card_plane_bits:
  "card {i. plane_bit ls i} = sum_list (map count_ones ls)"
proof (induction ls rule: rev_induct)
  case (snoc l ls)
  let ?n = "64 * length ls" and ?B = "{i. i < 64 \<and> bit l i}"
  have low: "i < ?n" if "plane_bit ls i" for i
    using that less_iff_limb [of i ?n] by (simp add: plane_bit_def)
  have new: "plane_bit (ls @ [l]) i \<longleftrightarrow> plane_bit ls i \<or> (\<exists>j. j < 64 \<and> bit l j \<and> i = ?n + j)" for i
  proof (cases "i div 64 = length ls")
    case True
    then obtain j where "i = ?n + j" and "j < 64"
      by (metis mult_div_mod_eq mod_less_divisor zero_less_numeral)
    then show ?thesis by (auto simp: plane_bit_def)
  next
    case False
    then have "\<nexists>j. j < 64 \<and> bit l j \<and> i = ?n + j" by auto
    with False show ?thesis by (auto simp: plane_bit_def nth_append less_Suc_eq)
  qed
  have "{i. plane_bit (ls @ [l]) i} = {i. plane_bit ls i} \<union> (+) ?n ` ?B"
    by (auto simp: new)
  then have "card {i. plane_bit (ls @ [l]) i} = card ({i. plane_bit ls i} \<union> (+) ?n ` ?B)"
    by (rule arg_cong)
  also have "\<dots> = card {i. plane_bit ls i} + card ((+) ?n ` ?B)"
  proof (rule card_Un_disjoint)
    show "finite {i. plane_bit ls i}"
      by (rule finite_subset [of _ "{..<?n}"]) (auto dest: low)
    show "{i. plane_bit ls i} \<inter> (+) ?n ` ?B = {}"
      by (auto dest: low)
  qed simp
  also have "card ((+) ?n ` ?B) = count_ones l"
    unfolding count_ones_card by (rule card_image) (simp add: inj_on_def)
  finally show ?case
    by (simp only: snoc.IH map_append sum_list_append) simp
qed (simp add: plane_bit_def)

lemma odd_foldl_count:
  "odd (foldl (\<lambda>p w. add_u32 p (count_ones w)) n ls) \<longleftrightarrow> odd (n + sum_list (map count_ones ls))"
proof (induction ls arbitrary: n)
  case (Cons l ls)
  show ?case
    by (simp only: foldl_Cons Cons.IH even_add even_add_u32 list.map sum_list.Cons) blast
qed simp

text \<open>\<open>^\<close> is the parity of the ones of a fully known vector, and \<open>x\<close> otherwise.\<close>

lemma reduce_xor_spec:
  assumes "wf_lv v"
  shows "reduce_xor v =
    (if \<exists>i < width v. is_unknown (get_bit v i) then X
     else if odd (card {i. i < width v \<and> get_bit v i = One}) then One else Zero)"
proof (cases "has_unknown v")
  case True
  then show ?thesis using assms by (simp add: reduce_xor_def has_unknown_def is_known_iff)
next
  case False
  then have k: "is_known v" by (simp add: has_unknown_def)
  obtain w r where v: "v = \<lparr>width = w, repr = r\<rparr>" by (cases v)
  have "{i. i < width v \<and> get_bit v i = One} = {i. abit v i}"
    using wf_lvD(4) [OF assms] by (auto simp: is_knownD [OF k assms] not_le [symmetric] split: if_splits)
  moreover have "odd (case repr v of Small a _ \<Rightarrow> count_ones a
      | Wide a _ \<Rightarrow> foldl (\<lambda>p w. add_u32 p (count_ones w)) 0 a) \<longleftrightarrow> odd (card {i. abit v i})"
    by (cases r) (simp_all add: v odd_foldl_count card_plane_bits, simp add: count_ones_card)
  moreover have "\<not> (\<exists>i < width v. is_unknown (get_bit v i))"
    using k is_known_iff [OF assms] by simp
  ultimately show ?thesis
    using False by (simp add: reduce_xor_def)
qed

section \<open>Word-parallel operators\<close>

definition map_word :: "LogicVec \<Rightarrow> (u64 \<Rightarrow> u64 \<Rightarrow> u64 \<times> u64) \<Rightarrow> LogicVec" where
  "map_word v f = (case repr v of
     Small a b \<Rightarrow>
       (let (ra, rb) = f a b; m = word_mask (width v)
        in \<lparr>width = width v, repr = Small (ra AND m) (rb AND m)\<rparr>)
   | Wide a b \<Rightarrow>
       (let n = length a;
            r = map (\<lambda>i. f (a ! i) (b ! i)) [0..<n]
        in normalize_top \<lparr>width = width v, repr = Wide (map fst r) (map snd r)\<rparr>))"

definition zip_word :: "LogicVec \<Rightarrow> LogicVec \<Rightarrow> (u64 \<Rightarrow> u64 \<Rightarrow> u64 \<Rightarrow> u64 \<Rightarrow> u64 \<times> u64) \<Rightarrow> LogicVec" where
  "zip_word u v f =
     (let w = max (width u) (width v);
          wide = (let n = limbs_for w;
                      r = map (\<lambda>i. f (limb_aval u i) (limb_bval u i) (limb_aval v i) (limb_bval v i)) [0..<n]
                  in normalize_top \<lparr>width = w, repr = Wide (map fst r) (map snd r)\<rparr>)
      in (case (repr u, repr v) of
          (Small a1 b1, Small a2 b2) \<Rightarrow>
            (if w \<le> 64 then
               (let (ra, rb) = f a1 b1 a2 b2; m = word_mask w
                in \<lparr>width = w, repr = Small (ra AND m) (rb AND m)\<rparr>)
             else wide)
        | _ \<Rightarrow> wide))"

definition not_words :: "u64 \<Rightarrow> u64 \<Rightarrow> u64 \<times> u64" where
  "not_words a b = (let r_a = NOT a AND NOT b; r_b = b in (r_a, r_b))"

definition and_words :: "u64 \<Rightarrow> u64 \<Rightarrow> u64 \<Rightarrow> u64 \<Rightarrow> u64 \<times> u64" where
  "and_words aa ab ba bb =
     (let a0 = NOT aa AND NOT ab; b0 = NOT ba AND NOT bb;
          a1 = aa AND NOT ab; b1 = ba AND NOT bb;
          is0 = a0 OR b0; is1 = a1 AND b1; isx = NOT is0 AND NOT is1
      in (is1, isx))"

definition or_words :: "u64 \<Rightarrow> u64 \<Rightarrow> u64 \<Rightarrow> u64 \<Rightarrow> u64 \<times> u64" where
  "or_words aa ab ba bb =
     (let a0 = NOT aa AND NOT ab; b0 = NOT ba AND NOT bb;
          a1 = aa AND NOT ab; b1 = ba AND NOT bb;
          is1 = a1 OR b1; is0 = a0 AND b0; isx = NOT is1 AND NOT is0
      in (is1, isx))"

definition xor_words :: "u64 \<Rightarrow> u64 \<Rightarrow> u64 \<Rightarrow> u64 \<Rightarrow> u64 \<times> u64" where
  "xor_words aa ab ba bb =
     (let unknown = ab OR bb; r_a = (aa XOR ba) AND NOT unknown in (r_a, unknown))"

definition bitnot :: "LogicVec \<Rightarrow> LogicVec" where
  "bitnot v = map_word v not_words"

definition bitand :: "LogicVec \<Rightarrow> LogicVec \<Rightarrow> LogicVec" where
  "bitand u v = zip_word u v and_words"

definition bitor :: "LogicVec \<Rightarrow> LogicVec \<Rightarrow> LogicVec" where
  "bitor u v = zip_word u v or_words"

definition bitxor :: "LogicVec \<Rightarrow> LogicVec \<Rightarrow> LogicVec" where
  "bitxor u v = zip_word u v xor_words"

text \<open>The truth tables of IEEE 1800 for the four states.\<close>

fun not4 :: "Bit \<Rightarrow> Bit" where
  "not4 Zero = One"
| "not4 One = Zero"
| "not4 _ = X"

fun and4 :: "Bit \<Rightarrow> Bit \<Rightarrow> Bit" where
  "and4 Zero _ = Zero"
| "and4 _ Zero = Zero"
| "and4 One One = One"
| "and4 _ _ = X"

fun or4 :: "Bit \<Rightarrow> Bit \<Rightarrow> Bit" where
  "or4 One _ = One"
| "or4 _ One = One"
| "or4 Zero Zero = Zero"
| "or4 _ _ = X"

fun xor4 :: "Bit \<Rightarrow> Bit \<Rightarrow> Bit" where
  "xor4 Zero Zero = Zero"
| "xor4 Zero One = One"
| "xor4 One Zero = One"
| "xor4 One One = Zero"
| "xor4 _ _ = X"

section \<open>The contract of a word-parallel operator\<close>

text \<open>
  \<open>f\<close> works on the two planes of two limbs at once, \<open>g\<close> on one bit of each operand: the law says
  that \<open>f\<close> is \<open>g\<close> at every bit position and that \<open>g\<close> maps two zeros to a known bit or not as \<open>f\<close>
  does. What \<open>zip_word\<close> computes with \<open>f\<close> is then \<open>g\<close> bit by bit.
\<close>

definition word_op_agrees ::
  "(u64 \<Rightarrow> u64 \<Rightarrow> u64 \<Rightarrow> u64 \<Rightarrow> u64 \<times> u64) \<Rightarrow> (Bit \<Rightarrow> Bit \<Rightarrow> Bit) \<Rightarrow> bool" where
  "word_op_agrees f g \<longleftrightarrow> (\<forall>a b c d i. i < 64 \<longrightarrow>
     bit_of (bit (fst (f a b c d)) i) (bit (snd (f a b c d)) i) =
     g (bit_of (bit a i) (bit b i)) (bit_of (bit c i) (bit d i)))"

lemma bit_of_abbit_limb:
  "bit_of (abit v i) (bbit v i) =
    bit_of (bit (limb_aval v (i div 64)) (i mod 64)) (bit (limb_bval v (i div 64)) (i mod 64))"
  by (simp add: abit_def bbit_def)

lemma normalize_top_planes:
  assumes "64 < w" and "length a = limbs_for w" and "length b = limbs_for w"
  shows "wf_lv (normalize_top \<lparr>width = w, repr = Wide a b\<rparr>) \<longleftrightarrow> w < 2 ^ 32"
    and "abit (normalize_top \<lparr>width = w, repr = Wide a b\<rparr>) i \<longleftrightarrow> plane_bit a i \<and> i < w"
    and "bbit (normalize_top \<lparr>width = w, repr = Wide a b\<rparr>) i \<longleftrightarrow> plane_bit b i \<and> i < w"
proof -
  have ab: "(abit (normalize_top \<lparr>width = w, repr = Wide a b\<rparr>) i \<longleftrightarrow> plane_bit a i \<and> i < w) \<and>
      (bbit (normalize_top \<lparr>width = w, repr = Wide a b\<rparr>) i \<longleftrightarrow> plane_bit b i \<and> i < w)" for i
    using assms by (simp add: normalize_top_def mask_top_planes)
  moreover have "shape_ok w (repr (normalize_top \<lparr>width = w, repr = Wide a b\<rparr>))"
    "width (normalize_top \<lparr>width = w, repr = Wide a b\<rparr>) = w"
    using assms by (simp_all add: normalize_top_def)
  ultimately show "wf_lv (normalize_top \<lparr>width = w, repr = Wide a b\<rparr>) \<longleftrightarrow> w < 2 ^ 32"
    and "abit (normalize_top \<lparr>width = w, repr = Wide a b\<rparr>) i \<longleftrightarrow> plane_bit a i \<and> i < w"
    and "bbit (normalize_top \<lparr>width = w, repr = Wide a b\<rparr>) i \<longleftrightarrow> plane_bit b i \<and> i < w"
    using assms by (auto simp: wf_lv_iff)
qed

lemma plane_bit_map_upt:
  "plane_bit (map f [0..<n]) i \<longleftrightarrow> i div 64 < n \<and> bit (f (i div 64)) (i mod 64)"
  by (auto simp: plane_bit_def)

lemma width_zip_word [simp, shape_simps]: "width (zip_word u v f) = max (width u) (width v)"
  by (simp add: zip_word_def normalize_top_def split: Repr.split prod.split)

lemma zip_word_planes:
  assumes "wf_lv u" and "wf_lv v"
  shows "wf_lv (zip_word u v f)"
    and "abit (zip_word u v f) i \<longleftrightarrow> i < max (width u) (width v) \<and>
      bit (fst (f (limb_aval u (i div 64)) (limb_bval u (i div 64)) (limb_aval v (i div 64)) (limb_bval v (i div 64)))) (i mod 64)"
    and "bbit (zip_word u v f) i \<longleftrightarrow> i < max (width u) (width v) \<and>
      bit (snd (f (limb_aval u (i div 64)) (limb_bval u (i div 64)) (limb_aval v (i div 64)) (limb_bval v (i div 64)))) (i mod 64)"
proof -
  let ?w = "max (width u) (width v)"
  let ?r = "\<lambda>k. f (limb_aval u k) (limb_bval u k) (limb_aval v k) (limb_bval v k)"
  have w: "1 \<le> ?w" "?w < 2 ^ 32"
    using max_width_bounds [OF assms] by simp_all
  show "wf_lv (zip_word u v f)"
    and "abit (zip_word u v f) i \<longleftrightarrow> i < ?w \<and> bit (fst (?r (i div 64))) (i mod 64)"
    and "bbit (zip_word u v f) i \<longleftrightarrow> i < ?w \<and> bit (snd (?r (i div 64))) (i mod 64)"
  proof (atomize (full), cases "?w \<le> 64")
    case True
    then obtain a b c d where r: "repr u = Small a b" "repr v = Small c d"
      using assms by (cases "repr u"; cases "repr v") (auto simp: wf_lv_iff)
    obtain ra rb where f: "f a b c d = (ra, rb)" by fastforce
    have z: "zip_word u v f = \<lparr>width = ?w, repr = Small (ra AND word_mask ?w) (rb AND word_mask ?w)\<rparr>"
      using True by (simp add: zip_word_def r f)
    have l: "limb_aval u 0 = a" "limb_bval u 0 = b" "limb_aval v 0 = c" "limb_bval v 0 = d"
      by (simp_all add: limb_aval_def limb_bval_def r)
    have rr: "?r (i div 64) = (ra, rb) \<and> i mod 64 = i" if "i < ?w" for i
    proof -
      from that True have "i < 64" by linarith
      then have "i div 64 = 0" "i mod 64 = i" by simp_all
      then show ?thesis by (simp only: l f simp_thms)
    qed
    have "wf_lv (zip_word u v f)"
      using w True unfolding z wf_lv_def by (auto simp: and_mask_fixed bit_and_iff)
    moreover have "abit (zip_word u v f) i \<longleftrightarrow> i < 64 \<and> bit ra i \<and> i < ?w" "bbit (zip_word u v f) i \<longleftrightarrow> i < 64 \<and> bit rb i \<and> i < ?w"
      unfolding z abit_Small bbit_Small bit_and_iff bit_word_mask by blast+
    moreover have "i < ?w \<Longrightarrow> i < 64" using True by linarith
    ultimately show "wf_lv (zip_word u v f) \<and>
      (abit (zip_word u v f) i \<longleftrightarrow> i < ?w \<and> bit (fst (?r (i div 64))) (i mod 64)) \<and>
      (bbit (zip_word u v f) i \<longleftrightarrow> i < ?w \<and> bit (snd (?r (i div 64))) (i mod 64))"
      using rr by (metis fst_conv snd_conv)
  next
    case False
    define ra where "ra = map (\<lambda>k. fst (?r k)) [0..<limbs_for ?w]"
    define rb where "rb = map (\<lambda>k. snd (?r k)) [0..<limbs_for ?w]"
    have z: "zip_word u v f = normalize_top \<lparr>width = ?w, repr = Wide ra rb\<rparr>"
      using False by (auto simp: zip_word_def ra_def rb_def comp_def split: Repr.split)
    have len: "length ra = limbs_for ?w" "length rb = limbs_for ?w"
      by (simp_all add: ra_def rb_def)
    have "64 < ?w" using False by linarith
    note n = normalize_top_planes [OF this len]
    have "plane_bit ra i \<and> i < ?w \<longleftrightarrow> i < ?w \<and> bit (fst (?r (i div 64))) (i mod 64)"
      "plane_bit rb i \<and> i < ?w \<longleftrightarrow> i < ?w \<and> bit (snd (?r (i div 64))) (i mod 64)"
      using limbs_for_bound [of i ?w] by (auto simp: ra_def rb_def plane_bit_map_upt)
    then show "wf_lv (zip_word u v f) \<and>
      (abit (zip_word u v f) i \<longleftrightarrow> i < ?w \<and> bit (fst (?r (i div 64))) (i mod 64)) \<and>
      (bbit (zip_word u v f) i \<longleftrightarrow> i < ?w \<and> bit (snd (?r (i div 64))) (i mod 64))"
      unfolding z n using w by blast
  qed
qed

locale bitwise_op =
  fixes f :: "u64 \<Rightarrow> u64 \<Rightarrow> u64 \<Rightarrow> u64 \<Rightarrow> u64 \<times> u64" and g :: "Bit \<Rightarrow> Bit \<Rightarrow> Bit"
  assumes agrees: "word_op_agrees f g"
begin

lemma wf_op: "wf_lv u \<Longrightarrow> wf_lv v \<Longrightarrow> wf_lv (zip_word u v f)"
  by (rule zip_word_planes)

lemma get_bit_op:
  assumes "wf_lv u" and "wf_lv v"
  shows "get_bit (zip_word u v f) i =
    (if i < max (width u) (width v) then g (get_bit u i) (get_bit v i) else Zero)"
proof -
  let ?r = "\<lambda>k. f (limb_aval u k) (limb_bval u k) (limb_aval v k) (limb_bval v k)"
  have "bit_of (bit (fst (?r (i div 64))) (i mod 64)) (bit (snd (?r (i div 64))) (i mod 64)) =
      g (get_bit u i) (get_bit v i)"
    using agrees assms by (simp add: word_op_agrees_def get_bit_wf abit_def bbit_def)
  then show ?thesis
    using assms by (simp add: get_bit_wf [OF wf_op] zip_word_planes)
qed

lemma op_commute:
  assumes "wf_lv u" and "wf_lv v" and "\<And>a b. g a b = g b a"
  shows "zip_word u v f = zip_word v u f"
  by (rule wf_eqI) (simp_all add: assms wf_op get_bit_op max.commute)

end

lemma word_op_agreesI:
  assumes "\<And>a b c d i. i < 64 \<Longrightarrow>
     bit_of (bit (fst (f a b c d)) i) (bit (snd (f a b c d)) i) =
     g (bit_of (bit a i) (bit b i)) (bit_of (bit c i) (bit d i))"
  shows "word_op_agrees f g"
  using assms by (simp add: word_op_agrees_def)

lemmas bit_logic_simps = bit_and_iff bit_or_iff bit_xor_iff bit_not_iff

interpretation and_op: bitwise_op and_words and4
proof (intro bitwise_op.intro word_op_agreesI)
  fix a b c d :: u64 and i :: nat assume "i < 64"
  then show "bit_of (bit (fst (and_words a b c d)) i) (bit (snd (and_words a b c d)) i) =
      and4 (bit_of (bit a i) (bit b i)) (bit_of (bit c i) (bit d i))"
    by (cases "bit a i"; cases "bit b i"; cases "bit c i"; cases "bit d i")
      (simp_all add: and_words_def bit_logic_simps)
qed

interpretation or_op: bitwise_op or_words or4
proof (intro bitwise_op.intro word_op_agreesI)
  fix a b c d :: u64 and i :: nat assume "i < 64"
  then show "bit_of (bit (fst (or_words a b c d)) i) (bit (snd (or_words a b c d)) i) =
      or4 (bit_of (bit a i) (bit b i)) (bit_of (bit c i) (bit d i))"
    by (cases "bit a i"; cases "bit b i"; cases "bit c i"; cases "bit d i")
      (simp_all add: or_words_def bit_logic_simps)
qed

interpretation xor_op: bitwise_op xor_words xor4
proof (intro bitwise_op.intro word_op_agreesI)
  fix a b c d :: u64 and i :: nat assume "i < 64"
  then show "bit_of (bit (fst (xor_words a b c d)) i) (bit (snd (xor_words a b c d)) i) =
      xor4 (bit_of (bit a i) (bit b i)) (bit_of (bit c i) (bit d i))"
    by (cases "bit a i"; cases "bit b i"; cases "bit c i"; cases "bit d i")
      (simp_all add: xor_words_def bit_logic_simps)
qed

lemma width_bitwise [simp, shape_simps]:
  "width (bitand u v) = max (width u) (width v)"
  "width (bitor u v) = max (width u) (width v)"
  "width (bitxor u v) = max (width u) (width v)"
  by (simp_all add: bitand_def bitor_def bitxor_def)

lemma wf_bitwise [simp, wf_intros]:
  assumes "wf_lv u" and "wf_lv v"
  shows "wf_lv (bitand u v)" "wf_lv (bitor u v)" "wf_lv (bitxor u v)"
  using assms by (simp_all add: bitand_def bitor_def bitxor_def zip_word_planes)

lemma get_bit_bitwise [getbit_simps]:
  assumes "wf_lv u" and "wf_lv v"
  shows "get_bit (bitand u v) i = (if i < max (width u) (width v) then and4 (get_bit u i) (get_bit v i) else Zero)"
    "get_bit (bitor u v) i = (if i < max (width u) (width v) then or4 (get_bit u i) (get_bit v i) else Zero)"
    "get_bit (bitxor u v) i = (if i < max (width u) (width v) then xor4 (get_bit u i) (get_bit v i) else Zero)"
  using and_op.get_bit_op [OF assms] or_op.get_bit_op [OF assms] xor_op.get_bit_op [OF assms]
  by (simp_all add: bitand_def bitor_def bitxor_def)

lemma map_word_planes:
  assumes "wf_lv v"
  shows "width (map_word v f) = width v" and "wf_lv (map_word v f)"
    and "abit (map_word v f) i \<longleftrightarrow> i < width v \<and> bit (fst (f (limb_aval v (i div 64)) (limb_bval v (i div 64)))) (i mod 64)"
    and "bbit (map_word v f) i \<longleftrightarrow> i < width v \<and> bit (snd (f (limb_aval v (i div 64)) (limb_bval v (i div 64)))) (i mod 64)"
proof -
  let ?r = "\<lambda>k. f (limb_aval v k) (limb_bval v k)"
  obtain w r where v: "v = \<lparr>width = w, repr = r\<rparr>" by (cases v)
  have eq: "map_word v f = zip_word v v (\<lambda>a b c d. f a b)"
  proof (cases r)
    case (Small a b)
    with assms show ?thesis by (simp add: v map_word_def zip_word_def wf_lv_iff)
  next
    case (Wide a b)
    with assms have "length a = limbs_for w" "length b = limbs_for w" by (simp_all add: v wf_lv_iff)
    with Wide have e: "map (\<lambda>i. h (f (a ! i) (b ! i))) [0..<length a] = map (\<lambda>k. h (?r k)) [0..<limbs_for w]"
      for h :: "u64 \<times> u64 \<Rightarrow> u64"
      by (auto simp: v limb_aval_def limb_bval_def)
    show ?thesis
      using Wide e [of fst] e [of snd] by (simp add: v map_word_def zip_word_def comp_def)
  qed
  show "width (map_word v f) = width v" and "wf_lv (map_word v f)"
    and "abit (map_word v f) i \<longleftrightarrow> i < width v \<and> bit (fst (?r (i div 64))) (i mod 64)"
    and "bbit (map_word v f) i \<longleftrightarrow> i < width v \<and> bit (snd (?r (i div 64))) (i mod 64)"
    unfolding eq by (simp_all add: zip_word_planes assms)
qed

lemma width_bitnot [simp, shape_simps]: "wf_lv v \<Longrightarrow> width (bitnot v) = width v"
  by (simp add: bitnot_def map_word_planes)

lemma wf_bitnot [simp, wf_intros]: "wf_lv v \<Longrightarrow> wf_lv (bitnot v)"
  by (simp add: bitnot_def map_word_planes)

lemma get_bit_bitnot [getbit_simps]:
  assumes "wf_lv v"
  shows "get_bit (bitnot v) i = (if i < width v then not4 (get_bit v i) else Zero)"
proof -
  have "abit (bitnot v) i \<longleftrightarrow> i < width v \<and> \<not> abit v i \<and> \<not> bbit v i"
    "bbit (bitnot v) i \<longleftrightarrow> i < width v \<and> bbit v i"
    by (simp_all add: bitnot_def map_word_planes [OF assms] not_words_def bit_logic_simps)
      (simp_all add: abit_def bbit_def)
  then show ?thesis
    using assms wf_bitnot [OF assms] by (simp add: get_bit_wf bit_of_def)
qed

section \<open>Shifts\<close>

definition shl :: "LogicVec \<Rightarrow> nat \<Rightarrow> LogicVec" where
  "shl v amt = (case small v of
     Some (a, b) \<Rightarrow>
       (let w = width v
        in if amt \<ge> w then zero w
           else (let m = word_mask w
                 in from_planes_small (push_bit amt a AND m) (push_bit amt b AND m) w))
   | None \<Rightarrow>
       set_bits 0 (\<lambda>i. i \<ge> amt) (\<lambda>i. get_bit v (i - amt)) (rev [0..<width v]) (zero (width v)))"

definition shr :: "LogicVec \<Rightarrow> nat \<Rightarrow> LogicVec" where
  "shr v amt = (case small v of
     Some (a, b) \<Rightarrow>
       (let w = width v
        in if amt \<ge> w then zero w
           else from_planes_small (drop_bit amt a) (drop_bit amt b) w)
   | None \<Rightarrow>
       set_bits 0 (\<lambda>i. add_u32 i amt < width v) (\<lambda>i. get_bit v (add_u32 i amt)) [0..<width v] (zero (width v)))"

definition ashr :: "LogicVec \<Rightarrow> nat \<Rightarrow> LogicVec" where
  "ashr v amt =
     (let sign = (case get_bit v (width v - 1) of Z \<Rightarrow> X | b \<Rightarrow> b)
      in set_bits 0 (\<lambda>i. add_u32 i amt < width v) (\<lambda>i. get_bit v (add_u32 i amt)) [0..<width v]
           (filled sign (width v)))"

lemma small_cases:
  assumes "wf_lv v"
  obtains (inline) a b where "small v = Some (a, b)" "repr v = Small a b" "width v \<le> 64"
    "\<And>i. abit v i = bit a i" "\<And>i. bbit v i = bit b i"
  | (wide) "small v = None" "64 < width v"
proof (cases "repr v")
  case (Small a b)
  with assms have w: "width v \<le> 64" by (simp add: wf_lv_iff)
  obtain w where v: "v = \<lparr>width = w, repr = Small a b\<rparr>" using Small by (cases v) simp
  from Small w show ?thesis
    by (intro inline) (auto simp: small_def v dest: bit_u64_bound)
next
  case (Wide a b)
  with assms show ?thesis by (intro wide) (simp_all add: small_def wf_lv_iff)
qed

lemma width_shl [simp, shape_simps]: "width (shl v amt) = width v"
  by (simp add: shl_def split: option.split)

lemma width_shr [simp, shape_simps]: "width (shr v amt) = width v"
  by (simp add: shr_def split: option.split)

lemma width_ashr [simp, shape_simps]: "width (ashr v amt) = width v"
  by (simp add: ashr_def)

lemma wf_shifts [simp, wf_intros]:
  assumes "wf_lv v"
  shows "wf_lv (shl v amt)" "wf_lv (shr v amt)" "wf_lv (ashr v amt)"
proof -
  note w = wf_lvD(1,2) [OF assms]
  show "wf_lv (ashr v amt)" using w by (simp add: ashr_def)
  show "wf_lv (shl v amt)" using assms
    by (cases rule: small_cases) (use w in \<open>simp_all add: shl_def from_planes_small_bits\<close>)
  show "wf_lv (shr v amt)" using assms
    by (cases rule: small_cases) (use w in \<open>simp_all add: shr_def from_planes_small_bits\<close>)
qed

text \<open>The shifts bit by bit; \<open>i + amt\<close> must not leave a \<open>u32\<close> for the two right shifts.\<close>

lemma get_bit_shl [getbit_simps]:
  assumes "wf_lv v"
  shows "get_bit (shl v amt) i = (if amt \<le> i \<and> i < width v then get_bit v (i - amt) else Zero)"
  using assms
proof (cases rule: small_cases)
  case (inline a b)
  with assms have "1 \<le> width v" by (simp add: wf_lv_iff)
  with inline assms show ?thesis
    by (auto simp: shl_def get_bit_wf from_planes_small_bits bit_and_iff bit_push_bit_iff)
next
  case wide
  with wf_lvD [OF assms] show ?thesis
    by (auto simp: shl_def get_bit_set_bits)
qed

lemma get_bit_shr [getbit_simps]:
  assumes "wf_lv v" and "width v + amt \<le> 2 ^ 32"
  shows "get_bit (shr v amt) i = get_bit v (i + amt)"
  using assms(1)
proof (cases rule: small_cases)
  case (inline a b)
  with assms have "1 \<le> width v" by (simp add: wf_lv_iff)
  moreover have "width v \<le> i + amt \<Longrightarrow> \<not> bit a (i + amt) \<and> \<not> bit b (i + amt)"
    using wf_lvD(4,5) [OF assms(1)] inline by simp
  ultimately show ?thesis using inline assms
    by (cases "i + amt < width v") (auto simp: shr_def get_bit_wf from_planes_small_bits bit_drop_bit_eq add.commute)
next
  case wide
  with wf_lvD [OF assms(1)] assms(2) show ?thesis
    by (cases "i + amt < width v") (auto simp: shr_def get_bit_set_bits add_u32_small)
qed

lemma get_bit_ashr [getbit_simps]:
  assumes "wf_lv v" and "width v + amt \<le> 2 ^ 32"
  shows "get_bit (ashr v amt) i =
    (if i < width v then (if i + amt < width v then get_bit v (i + amt) else sign_fill v) else Zero)"
proof -
  have "(case get_bit v (width v - 1) of Z \<Rightarrow> X | b \<Rightarrow> b) = sign_fill v"
    by (simp add: sign_fill_def)
  with wf_lvD [OF assms(1)] assms(2) show ?thesis
    by (auto simp: ashr_def get_bit_set_bits get_bit_filled_bit add_u32_small)
qed

section \<open>Part-select and concatenation\<close>

definition slice :: "LogicVec \<Rightarrow> nat \<Rightarrow> nat \<Rightarrow> LogicVec" where
  "slice v hi lo =
     (let w = add_u32 (hi - lo) 1
      in set_bits 0 (\<lambda>_. True) (\<lambda>i. get_bit v (add_u32 lo i)) [0..<w] (zero w))"

text \<open>\<open>slice\<close> panics on \<open>hi < lo\<close>, and \<open>zero\<close> does when \<open>hi - lo + 1\<close> wraps to 0.\<close>

definition slice_chk :: "LogicVec \<Rightarrow> nat \<Rightarrow> nat \<Rightarrow> LogicVec option" where
  "slice_chk v hi lo = (if hi \<ge> lo \<and> add_u32 (hi - lo) 1 \<ge> 1 then Some (slice v hi lo) else None)"

definition concat_lv :: "LogicVec \<Rightarrow> LogicVec \<Rightarrow> LogicVec" where
  "concat_lv u v =
     (let w = add_u32 (width u) (width v);
          out = set_bits 0 (\<lambda>_. True) (get_bit v) [0..<width v] (zero w)
      in fold (\<lambda>i out. set_bit out (add_u32 (width v) i) (get_bit u i)) [0..<width u] out)"

lemma concat_high_loop:
  "(\<And>i. i \<in> set xs \<Longrightarrow> n + i < 2 ^ 32) \<Longrightarrow>
    fold (\<lambda>i out. set_bit out (add_u32 n i) (g i)) xs out = set_bits n (\<lambda>_. True) g xs out"
  by (induction xs arbitrary: out) (simp_all add: add_u32_small)

lemma concat_lv_eq:
  assumes "width u + width v < 2 ^ 32"
  shows "concat_lv u v = set_bits (width v) (\<lambda>_. True) (get_bit u) [0..<width u]
    (set_bits 0 (\<lambda>_. True) (get_bit v) [0..<width v] (zero (width u + width v)))"
  using assms by (simp add: concat_lv_def add_u32_small [of "width u"])
    (rule concat_high_loop, simp)

lemma width_slice [shape_simps]: "lo \<le> hi \<Longrightarrow> hi < 2 ^ 32 - 1 \<Longrightarrow> width (slice v hi lo) = hi - lo + 1"
  by (simp add: slice_def add_u32_small)

lemma wf_slice [wf_intros]: "lo \<le> hi \<Longrightarrow> hi < 2 ^ 32 - 1 \<Longrightarrow> wf_lv (slice v hi lo)"
  by (simp add: slice_def add_u32_small)

text \<open>Also where the sum of the widths wraps, as long as it does not wrap to 0.\<close>

lemma wf_slice_wrapped: "1 \<le> add_u32 (hi - lo) 1 \<Longrightarrow> wf_lv (slice v hi lo)"
  by (simp add: slice_def add_u32_def)

lemma get_bit_slice [getbit_simps]:
  assumes "lo \<le> hi" and "hi < 2 ^ 32 - 1"
  shows "get_bit (slice v hi lo) i = (if i \<le> hi - lo then get_bit v (lo + i) else Zero)"
  using assms by (auto simp: slice_def add_u32_small get_bit_set_bits)

lemma width_concat [shape_simps]:
  "width u + width v < 2 ^ 32 \<Longrightarrow> width (concat_lv u v) = width u + width v"
  by (simp add: concat_lv_eq)

lemma wf_concat [wf_intros]:
  "wf_lv u \<Longrightarrow> width u + width v < 2 ^ 32 \<Longrightarrow> wf_lv (concat_lv u v)"
  by (simp add: concat_lv_eq wf_lv_iff [of u])

lemma wf_concat_wrapped: "1 \<le> add_u32 (width u) (width v) \<Longrightarrow> wf_lv (concat_lv u v)"
proof -
  have fold: "wf_lv out \<Longrightarrow> wf_lv (fold (\<lambda>i out. set_bit out (f i) (g i)) xs out)" for f g xs out
    by (induction xs arbitrary: out) simp_all
  assume "1 \<le> add_u32 (width u) (width v)"
  then show ?thesis by (simp add: concat_lv_def add_u32_def fold)
qed

lemma get_bit_concat [getbit_simps]:
  assumes "wf_lv u" and "wf_lv v" and "width u + width v < 2 ^ 32"
  shows "get_bit (concat_lv u v) i = (if i < width v then get_bit v i else get_bit u (i - width v))"
  using assms wf_lvD(1) [OF assms(1)]
  by (auto simp: concat_lv_eq get_bit_set_bits)

section \<open>Properties\<close>

text \<open>
  C30. The word-parallel operators compute the truth tables of the language. On any two well-formed
  operands, inline or wide and of equal or different widths, \<open>&\<close>, \<open>|\<close> and \<open>^\<close> give a
  well-formed vector of the larger width whose bit \<open>i\<close> is the four-state operator applied to bit
  \<open>i\<close> of the operands (a missing bit reads as 0), and \<open>~\<close> inverts every bit, \<open>x\<close> for an
  unknown one.
\<close>

theorem bitwise_truth_tables:
  assumes "wf_lv u" and "wf_lv v" and "i < max (width u) (width v)"
  shows "wf_lv (bitand u v) \<and> get_bit (bitand u v) i = and4 (get_bit u i) (get_bit v i) \<and>
    wf_lv (bitor u v) \<and> get_bit (bitor u v) i = or4 (get_bit u i) (get_bit v i) \<and>
    wf_lv (bitxor u v) \<and> get_bit (bitxor u v) i = xor4 (get_bit u i) (get_bit v i) \<and>
    wf_lv (bitnot u) \<and> (i < width u \<longrightarrow> get_bit (bitnot u) i = not4 (get_bit u i))"
  using assms by (simp add: get_bit_bitwise get_bit_bitnot del: max_less_iff_conj less_max_iff_disj)

text \<open>Two operands of different storage: the 4 bits \<open>x1z0\<close> and 70 bits of \<open>z\<close>.\<close>

theorem bitwise_truth_tables_witness:
  "wf_lv (bitand (from_planes_small 6 10 4) (all_z 70)) \<and>
   get_bit (bitand (from_planes_small 6 10 4) (all_z 70)) 69 = Zero \<and>
   get_bit (bitor (from_planes_small 6 10 4) (all_z 70)) 69 = X"
  using bitwise_truth_tables [of "from_planes_small 6 10 4" "all_z 70" 69]
  by (simp add: from_planes_small_bits get_bit_filled)

text \<open>
  C31. Shifts. A left shift moves every bit up and fills with 0; a logical right shift moves every
  bit down and fills with 0; an arithmetic right shift fills with the sign bit, \<open>x\<close> when that is
  \<open>z\<close>. All keep the width and the storage invariant, on the inline path as on the wide one, as
  long as \<open>width + amt\<close> does not leave the range of a \<open>u32\<close>.
\<close>

theorem shift_bits:
  assumes "wf_lv v" and "width v + amt \<le> 2 ^ 32"
  shows "wf_lv (shl v amt) \<and> wf_lv (shr v amt) \<and> wf_lv (ashr v amt) \<and>
    width (shl v amt) = width v \<and> width (shr v amt) = width v \<and> width (ashr v amt) = width v \<and>
    (\<forall>i < width v.
      get_bit (shl v amt) i = (if amt \<le> i then get_bit v (i - amt) else Zero) \<and>
      get_bit (shr v amt) i = get_bit v (i + amt) \<and>
      get_bit (ashr v amt) i = (if i + amt < width v then get_bit v (i + amt) else sign_fill v))"
  using assms by (simp add: get_bit_shl get_bit_shr get_bit_ashr)

theorem shift_bits_witness:
  "wf_lv (ashr (all_z 4) 2) \<and> get_bit (ashr (all_z 4) 2) 3 = X \<and> get_bit (ashr (all_z 4) 2) 1 = Z"
  using shift_bits [of "all_z 4" 2] by (simp add: sign_fill_def get_bit_filled)

text \<open>
  The bound of the previous property is needed: \<open>index + amt\<close> wraps in a \<open>u32\<close>, so the arithmetic
  right shift of \<open>4'b0001\<close> by \<open>2\<^sup>3\<^sup>2 - 1\<close> has bit 1 set, where every bit should be the sign bit 0.
\<close>

lemma ashr_amount_wraps:
  "get_bit (ashr (from_u64 1 4) (2 ^ 32 - 1)) 1 = One"
  by (simp add: ashr_def get_bit_set_bits get_bit_from_u64 filled_def add_u32_def bit_1_iff)

text \<open>
  C32. Concatenation and part-select are inverse to each other: the high and low parts of \<open>{u, v}\<close>
  are \<open>u\<close> and \<open>v\<close>, bit planes and storage included.
\<close>

theorem slice_concat:
  assumes "wf_lv u" and "wf_lv v" and "width u + width v < 2 ^ 32"
  shows "slice (concat_lv u v) (width u + width v - 1) (width v) = u \<and>
    slice (concat_lv u v) (width v - 1) 0 = v"
proof
  note w = wf_lvD(1,2) [OF assms(1)] wf_lvD(1,2) [OF assms(2)] assms(3)
  show "slice (concat_lv u v) (width u + width v - 1) (width v) = u"
    by (rule wf_eqI) (use w assms in \<open>auto simp: wf_slice width_slice get_bit_slice get_bit_concat\<close>)
  show "slice (concat_lv u v) (width v - 1) 0 = v"
    by (rule wf_eqI) (use w assms in \<open>auto simp: wf_slice width_slice get_bit_slice get_bit_concat\<close>)
qed

theorem slice_concat_witness:
  "slice (concat_lv (from_u64 5 3) (all_z 70)) 72 70 = from_u64 5 3"
  using slice_concat [of "from_u64 5 3" "all_z 70"] by simp

end
