(* ===== verification/Logic_Arith.thy ===== *)
theory Logic_Arith
  imports Logic_Ops
begin

text \<open>
  Arithmetic and comparison of \<open>crates/eevee-core/src/logic.rs\<close>. The specification reads a fully
  known vector as the integer \<open>uval\<close> (unsigned) or \<open>sval\<close> (two's complement): addition and
  subtraction, on the 64-bit path as on the limb loop with its 128-bit carry, compute modulo
  \<open>2\<^sup>w\<close>, and the comparisons decide the order of the two integers. An unknown bit in either
  operand makes the whole result \<open>x\<close>.
\<close>

section \<open>The operations\<close>

definition limbs_addsub :: "(nat \<Rightarrow> u64) \<Rightarrow> (nat \<Rightarrow> u64) \<Rightarrow> bool \<Rightarrow> nat list \<Rightarrow> u64 list \<times> 128 word \<Rightarrow> u64 list \<times> 128 word" where
  "limbs_addsub fa fb is_sub = fold (\<lambda>i (out, carry).
     (let a = ucast (fa i);
          b = (if is_sub then ucast (NOT (fb i)) else ucast (fb i));
          s = a + b + carry
      in (out[i := ucast s], drop_bit 64 s)))"

definition wide_addsub :: "LogicVec \<Rightarrow> LogicVec \<Rightarrow> bool \<Rightarrow> nat \<Rightarrow> LogicVec" where
  "wide_addsub u v is_sub w =
     (let n = limbs_for w;
          (out, carry) = limbs_addsub (limb_aval u) (limb_aval v) is_sub [0..<n]
             (replicate n 0, if is_sub then 1 else 0)
      in normalize_top \<lparr>width = w, repr = Wide out (replicate n 0)\<rparr>)"

definition add :: "LogicVec \<Rightarrow> LogicVec \<Rightarrow> LogicVec" where
  "add u v =
     (let w = max (width u) (width v)
      in if has_unknown u \<or> has_unknown v then all_x w
         else if w \<le> 64 then from_u64 (to_u64 u + to_u64 v) w
         else wide_addsub u v False w)"

definition sub :: "LogicVec \<Rightarrow> LogicVec \<Rightarrow> LogicVec" where
  "sub u v =
     (let w = max (width u) (width v)
      in if has_unknown u \<or> has_unknown v then all_x w
         else if w \<le> 64 then from_u64 (to_u64 u - to_u64 v) w
         else wide_addsub u v True w)"

text \<open>\<open>mul\<close> asserts \<open>w <= 64\<close> for known operands: \<open>None\<close> is that panic.\<close>

definition mul :: "LogicVec \<Rightarrow> LogicVec \<Rightarrow> LogicVec option" where
  "mul u v =
     (let w = max (width u) (width v)
      in if has_unknown u \<or> has_unknown v then Some (all_x w)
         else if w \<le> 64 then Some (from_u64 (to_u64 u * to_u64 v) w)
         else None)"

definition neg :: "LogicVec \<Rightarrow> LogicVec" where
  "neg v = sub (zero (width v)) v"

definition to_i64 :: "LogicVec \<Rightarrow> u64" where
  "to_i64 v =
     (let raw = to_u64 v AND word_mask (width v)
      in if width v < 64 then
           (let sign = push_bit (width v - 1) 1
            in if raw AND sign \<noteq> 0 then raw OR NOT (word_mask (width v)) else raw)
         else raw)"

definition eq_logical :: "LogicVec \<Rightarrow> LogicVec \<Rightarrow> LogicVec" where
  "eq_logical u v =
     (if has_unknown u \<or> has_unknown v then all_x 1
      else (let w = max (width u) (width v);
                a = resize u w False; b = resize v w False;
                eq = eq_case a b
            in from_u64 (of_bool eq) 1))"

definition ne_logical :: "LogicVec \<Rightarrow> LogicVec \<Rightarrow> LogicVec" where
  "ne_logical u v = lognot (eq_logical u v)"

datatype Ordering = Less | Equal | Greater

fun ucmp_loop :: "LogicVec \<Rightarrow> LogicVec \<Rightarrow> nat list \<Rightarrow> Ordering" where
  "ucmp_loop a b [] = Equal"
| "ucmp_loop a b (i # is) =
     (let ai = (get_bit a i = One); bi = (get_bit b i = One)
      in if ai \<noteq> bi then (if bi then Less else Greater) else ucmp_loop a b is)"

definition ucmp :: "LogicVec \<Rightarrow> LogicVec \<Rightarrow> Ordering option" where
  "ucmp u v =
     (if has_unknown u \<or> has_unknown v then None
      else (let w = max (width u) (width v);
                a = resize u w False; b = resize v w False
            in Some (ucmp_loop a b (rev [0..<w]))))"

definition rel :: "LogicVec \<Rightarrow> LogicVec \<Rightarrow> (Ordering \<Rightarrow> bool) \<Rightarrow> LogicVec" where
  "rel u v f = (case ucmp u v of Some c \<Rightarrow> from_u64 (of_bool (f c)) 1 | None \<Rightarrow> all_x 1)"

definition ult :: "LogicVec \<Rightarrow> LogicVec \<Rightarrow> LogicVec" where "ult u v = rel u v (\<lambda>c. c = Less)"
definition ule :: "LogicVec \<Rightarrow> LogicVec \<Rightarrow> LogicVec" where "ule u v = rel u v (\<lambda>c. c \<noteq> Greater)"
definition ugt :: "LogicVec \<Rightarrow> LogicVec \<Rightarrow> LogicVec" where "ugt u v = rel u v (\<lambda>c. c = Greater)"
definition uge :: "LogicVec \<Rightarrow> LogicVec \<Rightarrow> LogicVec" where "uge u v = rel u v (\<lambda>c. c \<noteq> Less)"

definition scmp :: "LogicVec \<Rightarrow> LogicVec \<Rightarrow> Ordering option" where
  "scmp u v =
     (if has_unknown u \<or> has_unknown v then None
      else (let w = max (width u) (width v);
                left = resize u w True; right = resize v w True;
                left_negative = (get_bit left (w - 1) = One);
                right_negative = (get_bit right (w - 1) = One)
            in if left_negative \<noteq> right_negative
               then Some (if left_negative then Less else Greater)
               else ucmp left right))"

definition signed_rel :: "LogicVec \<Rightarrow> LogicVec \<Rightarrow> (Ordering \<Rightarrow> bool) \<Rightarrow> LogicVec" where
  "signed_rel u v predicate =
     (case scmp u v of Some c \<Rightarrow> from_u64 (of_bool (predicate c)) 1 | None \<Rightarrow> all_x 1)"

definition slt :: "LogicVec \<Rightarrow> LogicVec \<Rightarrow> LogicVec" where "slt u v = signed_rel u v (\<lambda>c. c = Less)"
definition sle :: "LogicVec \<Rightarrow> LogicVec \<Rightarrow> LogicVec" where "sle u v = signed_rel u v (\<lambda>c. c \<noteq> Greater)"
definition sgt :: "LogicVec \<Rightarrow> LogicVec \<Rightarrow> LogicVec" where "sgt u v = signed_rel u v (\<lambda>c. c = Greater)"
definition sge :: "LogicVec \<Rightarrow> LogicVec \<Rightarrow> LogicVec" where "sge u v = signed_rel u v (\<lambda>c. c \<noteq> Less)"

section \<open>The integer a vector denotes\<close>

definition uval :: "LogicVec \<Rightarrow> int" where
  "uval v = horner_sum of_bool 2 (map (\<lambda>i. get_bit v i = One) [0..<width v])"

definition sval :: "LogicVec \<Rightarrow> int" where
  "sval v = signed_take_bit (width v - 1) (uval v)"

definition compare_int :: "int \<Rightarrow> int \<Rightarrow> Ordering" where
  "compare_int x y = (if x < y then Less else if x = y then Equal else Greater)"

lemma bit_uval: "bit (uval v) i \<longleftrightarrow> get_bit v i = One"
  by (cases "i < width v") (auto simp: uval_def bit_horner_sum_bit_iff)

lemma get_bit_One_less: "get_bit v i = One \<Longrightarrow> i < width v"
  by (cases "i < width v") auto

lemma take_bit_uval: "width v \<le> n \<Longrightarrow> take_bit n (uval v) = uval v"
  by (rule bit_eqI) (auto simp: bit_take_bit_iff bit_uval dest: get_bit_One_less)

lemma uval_range: "0 \<le> uval v \<and> uval v < 2 ^ width v"
  by (metis order_refl take_bit_uval take_bit_int_less_exp take_bit_nonnegative)

lemma uval_eqI:
  assumes "\<And>i. get_bit v i = One \<longleftrightarrow> bit x i"
  shows "uval v = x"
  by (rule bit_eqI) (simp add: bit_uval assms)

lemma known_eqI:
  assumes "wf_lv u" and "wf_lv v" and "is_known u" and "is_known v" and "width u = width v" and "uval u = uval v"
  shows "u = v"
proof (rule wf_eqI [OF assms(1,2,5)])
  fix i assume "i < width u"
  have "get_bit u i = One \<longleftrightarrow> get_bit v i = One"
    using assms(6) by (metis bit_uval)
  then show "get_bit u i = get_bit v i"
    using assms by (auto simp: is_knownD split: if_splits)
qed

lemma uval_from_u64: "1 \<le> w \<Longrightarrow> w < 2 ^ 32 \<Longrightarrow> uval (from_u64 x w) = take_bit w (uint x)"
  by (rule uval_eqI) (auto simp: get_bit_from_u64 bit_take_bit_iff bit_uint_iff dest: bit_u64_bound)

lemma is_known_from_u64: "1 \<le> w \<Longrightarrow> w < 2 ^ 32 \<Longrightarrow> is_known (from_u64 x w)"
  by (simp add: is_known_iff get_bit_from_u64)

lemma uint_to_u64: "wf_lv v \<Longrightarrow> width v \<le> 64 \<Longrightarrow> uint (to_u64 v) = uval v"
  by (rule bit_eqI) (auto simp: bit_uint_iff bit_to_u64 bit_uval not_less intro: ccontr)

section \<open>The limb loop\<close>

definition limb_sum :: "(nat \<Rightarrow> u64) \<Rightarrow> nat \<Rightarrow> int" where
  "limb_sum f k = (\<Sum>i<k. uint (f i) * 2 ^ (64 * i))"

lemma limb_sum_0 [simp]: "limb_sum f 0 = 0"
  by (simp add: limb_sum_def)

lemma limb_sum_Suc: "limb_sum f (Suc k) = limb_sum f k + uint (f k) * 2 ^ (64 * k)"
  by (simp add: limb_sum_def)

lemma limb_sum_cong: "(\<And>i. i < k \<Longrightarrow> f i = g i) \<Longrightarrow> limb_sum f k = limb_sum g k"
  by (simp add: limb_sum_def)

lemma limb_sum_concat: "limb_sum f (Suc k) = concat_bit (64 * k) (limb_sum f k) (uint (f k)) \<and> take_bit (64 * k) (limb_sum f k) = limb_sum f k"
proof (induction k)
  case (Suc k)
  have "take_bit (64 * Suc k) (limb_sum f (Suc k)) = limb_sum f (Suc k)"
    using Suc by (auto intro!: bit_eqI simp: bit_take_bit_iff bit_concat_bit_iff bit_uint_iff)
  then show ?case
    by (simp add: limb_sum_Suc [of f "Suc k"] concat_bit_eq push_bit_eq_mult)
qed (simp add: limb_sum_Suc concat_bit_eq)

lemma bit_limb_sum: "bit (limb_sum f k) i \<longleftrightarrow> i div 64 < k \<and> bit (f (i div 64)) (i mod 64)"
proof (induction k)
  case (Suc k)
  have "bit (limb_sum f (Suc k)) i \<longleftrightarrow>
      (if i < 64 * k then bit (limb_sum f k) i else bit (uint (f k)) (i - 64 * k))"
    using limb_sum_concat [of f k] by (auto simp: bit_concat_bit_iff)
  also have "\<dots> \<longleftrightarrow> i div 64 < Suc k \<and> bit (f (i div 64)) (i mod 64)"
  proof (cases "i < 64 * k")
    case True
    then have "i div 64 < k" by auto
    with True Suc show ?thesis by simp
  next
    case False
    then have k: "k \<le> i div 64" by auto
    show ?thesis
    proof (cases "i div 64 = k")
      case True
      then have "i - 64 * k = i mod 64" by (metis minus_mult_div_eq_mod)
      with False True show ?thesis by (simp add: bit_uint_iff)
    next
      case neq: False
      with k have "Suc k \<le> i div 64" by simp
      then have "64 \<le> i - 64 * k" by auto
      with False neq k show ?thesis by (auto simp: bit_uint_iff)
    qed
  qed
  finally show ?case .
qed simp

lemma limb_sum_NOT: "limb_sum (\<lambda>i. NOT (f i)) k = 2 ^ (64 * k) - 1 - limb_sum f k"
proof (induction k)
  case (Suc k)
  have "uint (NOT (f k)) = mask 64 - take_bit 64 (uint (f k))"
    using unsigned_not_eq [of "f k"] by (simp only: take_bit_not_eq_mask_diff) simp
  then have "uint (NOT (f k)) = 2 ^ 64 - 1 - uint (f k)"
    by (simp add: mask_eq_exp_minus_1 take_bit_int_eq_self uint_lt2p [of "f k", simplified])
  then have "limb_sum (\<lambda>i. NOT (f i)) (Suc k) =
      2 ^ (64 * k) - 1 - limb_sum f k + (2 ^ 64 - 1 - uint (f k)) * 2 ^ (64 * k)"
    by (simp only: limb_sum_Suc Suc)
  then show ?case
    by (simp add: limb_sum_Suc power_add algebra_simps)
qed simp

lemma limb_sum_uval:
  assumes "wf_lv v" and "is_known v" and "limbs_for (width v) \<le> k"
  shows "limb_sum (limb_aval v) k = uval v"
proof (rule bit_eqI)
  fix i
  have "i div 64 < k" if "abit v i"
    using that wf_lvD(4) [OF assms(1), of i] limbs_for_bound [of i "width v"] assms(3) not_le by force
  then show "bit (limb_sum (limb_aval v) k) i \<longleftrightarrow> bit (uval v) i"
    using is_knownD [OF assms(2,1), of i] by (auto simp: bit_limb_sum bit_uval abit_def split: if_splits)
qed

text \<open>One limb: the 64-bit sum and the carry, which is the part the 128-bit sum has above.\<close>

lemma limb_step:
  fixes a b :: u64 and c :: "128 word"
  assumes "uint c \<le> 1"
  defines "s \<equiv> ucast a + ucast b + c :: 128 word"
  shows "uint (ucast s :: u64) + 2 ^ 64 * uint (drop_bit 64 s) = uint a + uint b + uint c"
    and "uint (drop_bit 64 s) \<le> 1"
proof -
  have u: "uint a < 2 ^ 64" "uint b < 2 ^ 64" "0 \<le> uint c"
    using uint_lt2p [of a] uint_lt2p [of b] by simp_all
  have s: "uint s = uint a + uint b + uint c"
    using u assms(1) by (simp add: s_def uint_word_ariths uint_up_ucast is_up)
  have "uint (drop_bit 64 s) = drop_bit 64 (uint s)"
    by (rule bit_eqI) (auto simp: bit_uint_iff bit_drop_bit_eq dest: bit_imp_le_length)
  then have "uint (drop_bit 64 s) = uint s div 2 ^ 64" "uint (ucast s :: u64) = uint s mod 2 ^ 64"
    by (simp_all only: drop_bit_eq_div) (simp add: unsigned_ucast_eq take_bit_eq_mod)
  then show "uint (ucast s :: u64) + 2 ^ 64 * uint (drop_bit 64 s) = uint a + uint b + uint c"
    and "uint (drop_bit 64 s) \<le> 1"
    using u assms(1) by (simp_all add: s)
qed

lemma limbs_addsub_inv:
  fixes fb :: "nat \<Rightarrow> u64"
  defines "g \<equiv> (\<lambda>is_sub i. if is_sub then NOT (fb i) else fb i)"
  assumes "limbs_addsub fa fb is_sub [0..<k] (replicate n 0, c0) = (out, carry)" and "k \<le> n" and "uint c0 \<le> 1"
  shows "length out = n \<and> uint carry \<le> 1 \<and>
    limb_sum ((!) out) k + uint carry * 2 ^ (64 * k) = limb_sum fa k + limb_sum (g is_sub) k + uint c0"
  using assms(2,3)
proof (induction k arbitrary: out carry)
  case 0
  then show ?case using assms(4) by (auto simp: limbs_addsub_def)
next
  case (Suc k)
  obtain out' carry' where r: "limbs_addsub fa fb is_sub [0..<k] (replicate n 0, c0) = (out', carry')"
    by fastforce
  from Suc.IH [OF r] Suc.prems(2)
  have IH: "length out' = n" "uint carry' \<le> 1"
    "limb_sum ((!) out') k + uint carry' * 2 ^ (64 * k) = limb_sum fa k + limb_sum (g is_sub) k + uint c0"
    by simp_all
  define s where "s = ucast (fa k) + ucast (g is_sub k) + (carry' :: 128 word)"
  have step: "out = out'[k := ucast s]" "carry = drop_bit 64 s"
    using Suc.prems(1) r by (auto simp: limbs_addsub_def s_def g_def split: if_splits)
  note ls = limb_step [OF IH(2), of "fa k" "g is_sub k", folded s_def]
  have "limb_sum ((!) out) (Suc k) = limb_sum ((!) out') k + uint (ucast s :: u64) * 2 ^ (64 * k)"
    using Suc.prems(2) IH(1) by (simp add: limb_sum_Suc step cong: limb_sum_cong)
  then have "limb_sum ((!) out) (Suc k) + uint carry * 2 ^ (64 * Suc k) =
      limb_sum ((!) out') k + (uint (ucast s :: u64) + 2 ^ 64 * uint (drop_bit 64 s)) * 2 ^ (64 * k)"
    by (simp add: step power_add algebra_simps)
  also have "\<dots> = limb_sum fa (Suc k) + limb_sum (g is_sub) (Suc k) + uint c0"
    unfolding ls(1) using IH(3) by (simp add: limb_sum_Suc algebra_simps)
  finally show ?case
    using IH(1) ls(2) step by simp
qed

section \<open>Addition, subtraction, multiplication\<close>

lemma wide_addsub_value:
  assumes u: "wf_lv u" "is_known u" and v: "wf_lv v" "is_known v"
    and w: "w = max (width u) (width v)" "64 < w"
  shows "wf_lv (wide_addsub u v is_sub w) \<and> width (wide_addsub u v is_sub w) = w \<and>
    is_known (wide_addsub u v is_sub w) \<and>
    uval (wide_addsub u v is_sub w) = (if is_sub then uval u - uval v else uval u + uval v) mod 2 ^ w"
proof -
  let ?n = "limbs_for w"
  obtain out carry where r: "limbs_addsub (limb_aval u) (limb_aval v) is_sub [0..<?n]
      (replicate ?n 0, if is_sub then 1 else 0) = (out, carry)" by fastforce
  from limbs_addsub_inv [OF r]
  have inv: "length out = ?n" "limb_sum ((!) out) ?n + uint carry * 2 ^ (64 * ?n) =
      limb_sum (limb_aval u) ?n + limb_sum (\<lambda>i. if is_sub then NOT (limb_aval v i) else limb_aval v i) ?n + of_bool is_sub"
    by (simp_all split: if_splits)
  have le: "limbs_for (width u) \<le> ?n" "limbs_for (width v) \<le> ?n"
    by (simp_all add: w(1) limbs_for_def div_le_mono)
  have val: "limb_sum (limb_aval u) ?n = uval u" "limb_sum (limb_aval v) ?n = uval v"
    using limb_sum_uval [OF u le(1)] limb_sum_uval [OF v le(2)] by simp_all
  define res where "res = (if is_sub then uval u - uval v else uval u + uval v)"
  have "limb_sum ((!) out) ?n + uint carry * 2 ^ (64 * ?n) = res + of_bool is_sub * 2 ^ (64 * ?n)"
    using inv(2) by (cases is_sub) (simp_all add: res_def val limb_sum_NOT)
  then have "limb_sum ((!) out) ?n = res + (of_bool is_sub - uint carry) * 2 ^ (64 * ?n)"
    by (simp add: algebra_simps)
  then have tb: "take_bit (64 * ?n) (limb_sum ((!) out) ?n) = take_bit (64 * ?n) res"
    by (simp add: take_bit_eq_mod)
  have wn: "w \<le> 64 * ?n"
    by (simp add: limbs_for_def)
  have tw: "take_bit w (limb_sum ((!) out) ?n) = take_bit w res"
  proof -
    have "take_bit w (take_bit (64 * ?n) x) = take_bit w x" for x :: int
      using wn by (simp add: min_absorb1)
    with tb show ?thesis by metis
  qed
  let ?r = "normalize_top \<lparr>width = w, repr = Wide out (replicate ?n 0)\<rparr>"
  have eq: "wide_addsub u v is_sub w = ?r"
    by (simp add: wide_addsub_def r)
  note planes = normalize_top_planes [OF w(2) inv(1), of "replicate ?n 0"]
  have wf: "wf_lv ?r"
    using planes(1) max_width_bounds(2) [OF u(1) v(1)] w(1) by simp
  have wd: "width ?r = w" by (simp add: normalize_top_def)
  have kn: "is_known ?r"
    using wf planes(3) by (simp add: is_known_planes wf_lvD)
  have ab: "abit ?r i \<longleftrightarrow> i < w \<and> plane_bit out i" for i
    using planes(2) by auto
  have "get_bit ?r i = One \<longleftrightarrow> bit (take_bit w (limb_sum ((!) out) ?n)) i" for i
    using is_knownD [OF kn wf, of i] ab [of i]
    by (auto simp: bit_take_bit_iff bit_limb_sum plane_bit_def inv(1))
  then have "uval ?r = take_bit w res"
    unfolding tw by (rule uval_eqI)
  then show ?thesis
    using wf wd kn by (simp add: eq res_def take_bit_eq_mod)
qed

lemma from_u64_mod:
  assumes "1 \<le> w" and "w \<le> 64" and "uint x = y mod 2 ^ 64"
  shows "uval (from_u64 x w) = y mod 2 ^ w"
proof -
  have "take_bit w (take_bit 64 y) = take_bit w y"
    using assms(2) by (simp add: min_absorb1)
  then have "take_bit w (uint x) = take_bit w y"
    using assms(3) by (metis take_bit_eq_mod)
  moreover have "uval (from_u64 x w) = take_bit w (uint x)"
    using assms by (intro uval_from_u64) simp_all
  ultimately show ?thesis
    by (simp add: take_bit_eq_mod)
qed

lemma add_unknown: "has_unknown u \<or> has_unknown v \<Longrightarrow> add u v = all_x (max (width u) (width v))"
  by (simp add: add_def)

lemma sub_unknown: "has_unknown u \<or> has_unknown v \<Longrightarrow> sub u v = all_x (max (width u) (width v))"
  by (simp add: sub_def)

lemma add_sub_value:
  assumes u: "wf_lv u" "is_known u" and v: "wf_lv v" "is_known v"
  shows "wf_lv (add u v) \<and> width (add u v) = max (width u) (width v) \<and> is_known (add u v) \<and>
      uval (add u v) = (uval u + uval v) mod 2 ^ max (width u) (width v)"
    and "wf_lv (sub u v) \<and> width (sub u v) = max (width u) (width v) \<and> is_known (sub u v) \<and>
      uval (sub u v) = (uval u - uval v) mod 2 ^ max (width u) (width v)"
proof -
  let ?w = "max (width u) (width v)"
  have w: "1 \<le> ?w" "?w < 2 ^ 32"
    using max_width_bounds [OF u(1) v(1)] by simp_all
  have k: "\<not> (has_unknown u \<or> has_unknown v)"
    using u v by (simp add: has_unknown_def)
  have narrow: "wf_lv (from_u64 x ?w) \<and> width (from_u64 x ?w) = ?w \<and> is_known (from_u64 x ?w) \<and>
      uval (from_u64 x ?w) = y mod 2 ^ ?w" if "?w \<le> 64" "uint x = y mod 2 ^ 64" for x y
    using from_u64_mod [OF w(1) that] w wf_from_u64 is_known_from_u64 by simp
  have tu: "uint (to_u64 u) = uval u" "uint (to_u64 v) = uval v" if "?w \<le> 64"
    using that u v by (auto intro: uint_to_u64)
  show "wf_lv (add u v) \<and> width (add u v) = ?w \<and> is_known (add u v) \<and> uval (add u v) = (uval u + uval v) mod 2 ^ ?w"
  proof (cases "?w \<le> 64")
    case True
    with k have "add u v = from_u64 (to_u64 u + to_u64 v) ?w" by (simp add: add_def)
    moreover have "uint (to_u64 u + to_u64 v) = (uval u + uval v) mod 2 ^ 64"
      using tu [OF True] by (simp add: uint_word_ariths)
    ultimately show ?thesis using narrow [OF True] by simp
  next
    case False
    with k have "add u v = wide_addsub u v False ?w" by (auto simp: add_def)
    then show ?thesis using wide_addsub_value [OF u v refl, of False] False by simp
  qed
  show "wf_lv (sub u v) \<and> width (sub u v) = ?w \<and> is_known (sub u v) \<and> uval (sub u v) = (uval u - uval v) mod 2 ^ ?w"
  proof (cases "?w \<le> 64")
    case True
    with k have "sub u v = from_u64 (to_u64 u - to_u64 v) ?w" by (simp add: sub_def)
    moreover have "uint (to_u64 u - to_u64 v) = (uval u - uval v) mod 2 ^ 64"
      using tu [OF True] by (simp add: uint_word_ariths)
    ultimately show ?thesis using narrow [OF True] by simp
  next
    case False
    with k have "sub u v = wide_addsub u v True ?w" by (auto simp: sub_def)
    then show ?thesis using wide_addsub_value [OF u v refl, of True] False by simp
  qed
qed

lemma neg_value:
  assumes "wf_lv v" and "is_known v"
  shows "wf_lv (neg v) \<and> width (neg v) = width v \<and> is_known (neg v) \<and> uval (neg v) = (- uval v) mod 2 ^ width v"
proof -
  have z: "uval (zero (width v)) = 0" "is_known (zero (width v))" "wf_lv (zero (width v))"
    using wf_lvD [OF assms(1)] by (auto intro: uval_eqI simp: is_known_iff)
  show ?thesis
    using add_sub_value(2) [OF z(3,2) assms] z(1) by (simp add: neg_def)
qed

lemma mul_value:
  assumes "wf_lv u" "is_known u" and "wf_lv v" "is_known v" and "max (width u) (width v) \<le> 64"
  shows "\<exists>r. mul u v = Some r \<and> wf_lv r \<and> width r = max (width u) (width v) \<and> is_known r \<and>
    uval r = (uval u * uval v) mod 2 ^ max (width u) (width v)"
proof -
  let ?w = "max (width u) (width v)"
  have w: "1 \<le> ?w" "?w < 2 ^ 32"
    using max_width_bounds [OF assms(1,3)] by simp_all
  have "uint (to_u64 u * to_u64 v) = (uval u * uval v) mod 2 ^ 64"
    using assms by (simp add: uint_word_ariths uint_to_u64)
  then have "uval (from_u64 (to_u64 u * to_u64 v) ?w) = (uval u * uval v) mod 2 ^ ?w"
    by (rule from_u64_mod [OF w(1) assms(5)])
  moreover have "mul u v = Some (from_u64 (to_u64 u * to_u64 v) ?w)"
    using assms by (simp add: mul_def has_unknown_def)
  ultimately show ?thesis
    using w by (auto intro: wf_from_u64 is_known_from_u64)
qed

section \<open>Comparison\<close>

lemma take_bit_Suc_less:
  fixes x y :: int
  shows "compare_int (take_bit (Suc n) x) (take_bit (Suc n) y) =
    (if bit x n \<noteq> bit y n then (if bit y n then Less else Greater)
     else compare_int (take_bit n x) (take_bit n y))"
proof -
  define p q where "p = take_bit n x" and "q = take_bit n y"
  have "0 \<le> p" "p < 2 ^ n" "0 \<le> q" "q < 2 ^ n"
    by (simp_all add: p_def q_def)
  then show ?thesis
    by (cases "bit x n"; cases "bit y n")
      (simp_all add: take_bit_Suc_from_most compare_int_def flip: p_def q_def)
qed

lemma compare_signed:
  assumes "0 \<le> x" "x < m" "0 \<le> y" "y < m"
  shows "compare_int (x - m * of_bool p) (y - m * of_bool q) =
    (if p \<noteq> q then (if p then Less else Greater) else compare_int x y)"
  using assms by (cases p; cases q) (simp_all add: compare_int_def)

lemma ucmp_loop_value:
  "ucmp_loop a b (rev [0..<n]) = compare_int (take_bit n (uval a)) (take_bit n (uval b))"
proof (induction n)
  case (Suc n)
  then show ?case
    by (simp only: take_bit_Suc_less) (simp add: bit_uval)
qed (simp add: compare_int_def)

lemma uval_resize:
  assumes "wf_lv v" and "width v \<le> w" and "w < 2 ^ 32"
  shows "uval (resize v w False) = uval v"
proof (rule uval_eqI)
  fix i
  have "1 \<le> w" using wf_lvD(1) [OF assms(1)] assms(2) by simp
  then show "get_bit (resize v w False) i = One \<longleftrightarrow> bit (uval v) i"
    using assms by (auto simp: get_bit_resize bit_uval dest: get_bit_One_less)
qed

lemma is_known_resize:
  assumes "wf_lv v" and "is_known v" and "1 \<le> w" and "w < 2 ^ 32"
  shows "is_known (resize v w s)"
  using assms by (auto simp: is_known_iff get_bit_resize sign_fill_def is_knownD split: if_splits)

lemma ucmp_value:
  assumes "wf_lv u" and "wf_lv v"
  shows "ucmp u v = (if is_known u \<and> is_known v then Some (compare_int (uval u) (uval v)) else None)"
  using assms max_width_bounds [OF assms]
  by (auto simp: ucmp_def has_unknown_def ucmp_loop_value uval_resize take_bit_uval)

lemma bit_sval: "bit (sval v) i \<longleftrightarrow> get_bit v (min i (width v - 1)) = One"
  by (simp add: sval_def bit_signed_take_bit_iff bit_uval min.commute)

lemma sval_uval: "1 \<le> width v \<Longrightarrow> sval v = uval v - 2 ^ width v * of_bool (get_bit v (width v - 1) = One)"
  by (simp add: sval_def signed_take_bit_eq_take_bit_minus take_bit_uval bit_uval)

lemma sval_resize:
  assumes "wf_lv v" and "is_known v" and "width v \<le> w" and "w < 2 ^ 32"
  shows "sval (resize v w True) = sval v"
proof (cases "width v = w")
  case False
  with assms(3) have lt: "width v < w" by simp
  have w: "1 \<le> w" "1 \<le> width v" using wf_lvD(1) [OF assms(1)] assms(3) by simp_all
  show ?thesis
  proof (rule bit_eqI)
    fix i
    show "bit (sval (resize v w True)) i \<longleftrightarrow> bit (sval v) i"
      using assms w lt is_knownD [OF assms(2,1)]
      by (cases "i < width v") (auto simp: bit_sval get_bit_resize sign_fill_def min_absorb1 min_absorb2)
  qed
qed (use resize_same [of v True] in simp)

lemma scmp_value:
  assumes "wf_lv u" and "wf_lv v"
  shows "scmp u v = (if is_known u \<and> is_known v then Some (compare_int (sval u) (sval v)) else None)"
proof (cases "is_known u \<and> is_known v")
  case True
  let ?w = "max (width u) (width v)"
  let ?l = "resize u ?w True" and ?r = "resize v ?w True"
  have w: "1 \<le> ?w" "?w < 2 ^ 32"
    using max_width_bounds [OF assms] by simp_all
  have wf: "wf_lv ?l" "wf_lv ?r" and kn: "is_known ?l" "is_known ?r"
    using assms True w is_known_resize by simp_all
  have s: "sval ?l = sval u" "sval ?r = sval v"
    using assms True w sval_resize by simp_all
  have su: "sval ?l = uval ?l - 2 ^ ?w * of_bool (get_bit ?l (?w - 1) = One)"
    "sval ?r = uval ?r - 2 ^ ?w * of_bool (get_bit ?r (?w - 1) = One)"
    using sval_uval [of ?l] sval_uval [of ?r] w by simp_all
  have rng: "0 \<le> uval ?l" "uval ?l < 2 ^ ?w" "0 \<le> uval ?r" "uval ?r < 2 ^ ?w"
    using uval_range [of ?l] uval_range [of ?r] by simp_all
  have "scmp u v = Some (compare_int (sval ?l) (sval ?r))"
    unfolding su compare_signed [OF rng] using True ucmp_value [OF wf] kn
    by (simp add: scmp_def has_unknown_def)
  then show ?thesis using True s by simp
qed (auto simp: scmp_def has_unknown_def)

lemma resize_eq_iff:
  assumes u: "wf_lv u" "is_known u" and v: "wf_lv v" "is_known v"
  shows "eq_case (resize u (max (width u) (width v)) False) (resize v (max (width u) (width v)) False) \<longleftrightarrow>
    uval u = uval v"
proof -
  let ?w = "max (width u) (width v)"
  have w: "1 \<le> ?w" "?w < 2 ^ 32"
    using max_width_bounds [OF u(1) v(1)] by simp_all
  have wf: "wf_lv (resize u ?w False)" "wf_lv (resize v ?w False)"
    and kn: "is_known (resize u ?w False)" "is_known (resize v ?w False)"
    using u v w is_known_resize by simp_all
  have "uval (resize u ?w False) = uval u" "uval (resize v ?w False) = uval v"
    using u v w uval_resize by simp_all
  then show ?thesis
    using eq_case_iff [OF wf] known_eqI [OF wf kn] by auto
qed

text \<open>The integer a signed read gives: \<open>to_i64\<close> of a known vector of at most 64 bits.\<close>

lemma to_i64_value:
  assumes "wf_lv v" and "width v \<le> 64" and "is_known v"
  shows "sint (to_i64 v) = sval v"
proof (rule bit_eqI)
  fix i
  have w: "1 \<le> width v" using wf_lvD(1) [OF assms(1)] .
  have raw: "to_u64 v AND word_mask (width v) = to_u64 v"
    by (rule word_64_eqI) (auto simp: bit_and_iff bit_to_u64 assms dest: get_bit_One_less)
  have sgn: "to_u64 v AND push_bit (width v - 1) 1 \<noteq> 0 \<longleftrightarrow> get_bit v (width v - 1) = One"
    using w assms and_exp_eq_0_iff_not_bit [of "to_u64 v" "width v - 1"]
    by (auto simp: push_bit_eq_mult bit_to_u64)
  have b: "bit (to_i64 v) j \<longleftrightarrow> get_bit v (min j (width v - 1)) = One" if "j < 64" for j
    using that w assms sgn get_bit_One_less [of v j]
    by (auto simp: to_i64_def raw bit_or_iff bit_not_iff bit_to_u64 min_def)
  have "bit (sint (to_i64 v)) i \<longleftrightarrow> bit (to_i64 v) (min i 63)"
    by (simp add: bit_sint_iff min_def) (auto simp: not_le dest: bit_u64_bound)
  then show "bit (sint (to_i64 v)) i \<longleftrightarrow> bit (sval v) i"
    using w assms by (simp add: b bit_sval min.assoc)
qed

section \<open>Properties\<close>

text \<open>
  C33. Addition and subtraction are arithmetic modulo \<open>2\<^sup>w\<close>, \<open>w\<close> the larger width, when every bit of
  both operands is known, for any width: on the 64-bit path as on the limb loop, whose carry is the
  part of a 128-bit sum above bit 63. With an unknown bit anywhere, every bit of the result is \<open>x\<close>.
\<close>

theorem add_sub_modular:
  assumes "wf_lv u" and "wf_lv v"
  shows "(if is_known u \<and> is_known v
    then is_known (add u v) \<and> uval (add u v) = (uval u + uval v) mod 2 ^ max (width u) (width v) \<and>
      is_known (sub u v) \<and> uval (sub u v) = (uval u - uval v) mod 2 ^ max (width u) (width v)
    else add u v = all_x (max (width u) (width v)) \<and> sub u v = all_x (max (width u) (width v)))"
  using add_sub_value [of u v] assms by (auto simp: add_unknown sub_unknown has_unknown_def)

text \<open>A carry through the whole first limb of a 65-bit addition.\<close>

theorem add_sub_modular_witness:
  "uval (add (from_u64 (- 1) 65) (from_u64 1 8)) = 2 ^ 64"
proof -
  have "is_known (from_u64 (- 1) 65)" "is_known (from_u64 1 8)"
    by (simp_all add: is_known_from_u64)
  moreover have "uval (from_u64 (- 1) 65) = 2 ^ 64 - 1" "uval (from_u64 1 8) = 1"
    using uval_from_u64 [of 65 "- 1"] uval_from_u64 [of 8 1]
    by (simp_all add: uint_word_ariths take_bit_eq_mod)
  ultimately show ?thesis
    using add_sub_modular [of "from_u64 (- 1) 65" "from_u64 1 8"] by simp
qed

lemma lognot_bit: "lognot (from_u64 (of_bool b) 1) = from_u64 (of_bool (\<not> b)) 1"
proof -
  have "lognot (from_u64 1 1) = from_u64 0 1" "lognot (from_u64 0 1) = from_u64 1 1" by code_simp+
  then show ?thesis by (cases b) (simp_all del: One_nat_def)
qed

lemma lognot_all_x: "lognot (all_x 1) = all_x 1"
  by code_simp

text \<open>
  C34. The comparisons decide the order of the integers the operands denote. With every bit known,
  the four unsigned relations and the equality operators \<open>==\<close> and \<open>!=\<close> compare the unsigned values
  whatever the two widths, the four signed relations the two's complement values, each as a one-bit
  0 or 1; with an unknown bit in either operand they all give a one-bit \<open>x\<close>.
\<close>

theorem comparisons_decide:
  assumes "wf_lv u" and "wf_lv v"
  shows "(if is_known u \<and> is_known v
    then ult u v = from_u64 (of_bool (uval u < uval v)) 1 \<and>
      ule u v = from_u64 (of_bool (uval u \<le> uval v)) 1 \<and>
      ugt u v = from_u64 (of_bool (uval u > uval v)) 1 \<and>
      uge u v = from_u64 (of_bool (uval u \<ge> uval v)) 1 \<and>
      slt u v = from_u64 (of_bool (sval u < sval v)) 1 \<and>
      sle u v = from_u64 (of_bool (sval u \<le> sval v)) 1 \<and>
      sgt u v = from_u64 (of_bool (sval u > sval v)) 1 \<and>
      sge u v = from_u64 (of_bool (sval u \<ge> sval v)) 1 \<and>
      eq_logical u v = from_u64 (of_bool (uval u = uval v)) 1 \<and>
      ne_logical u v = from_u64 (of_bool (uval u \<noteq> uval v)) 1
    else ult u v = all_x 1 \<and> ule u v = all_x 1 \<and> ugt u v = all_x 1 \<and> uge u v = all_x 1 \<and>
      slt u v = all_x 1 \<and> sle u v = all_x 1 \<and> sgt u v = all_x 1 \<and> sge u v = all_x 1 \<and>
      eq_logical u v = all_x 1 \<and> ne_logical u v = all_x 1)"
proof (cases "is_known u \<and> is_known v")
  case True
  then have "eq_logical u v = from_u64 (of_bool (uval u = uval v)) 1"
    using resize_eq_iff [of u v] assms by (simp add: eq_logical_def has_unknown_def)
  then have "eq_logical u v = from_u64 (of_bool (uval u = uval v)) 1"
    "ne_logical u v = from_u64 (of_bool (uval u \<noteq> uval v)) 1"
    by (simp_all add: ne_logical_def lognot_bit del: One_nat_def)
  then show ?thesis
    using True ucmp_value [OF assms] scmp_value [OF assms]
    by (simp add: ult_def ule_def ugt_def uge_def slt_def sle_def sgt_def sge_def
        rel_def signed_rel_def compare_int_def)
next
  case False
  then have n: "ucmp u v = None" "scmp u v = None"
    unfolding ucmp_value [OF assms] scmp_value [OF assms] by (simp_all only: if_False)
  have e: "eq_logical u v = all_x 1"
    using False by (auto simp: eq_logical_def has_unknown_def)
  then have "ne_logical u v = all_x 1"
    by (simp add: ne_logical_def lognot_all_x del: One_nat_def)
  with e show ?thesis
    unfolding if_not_P [OF False] ult_def ule_def ugt_def uge_def slt_def sle_def sgt_def sge_def
      rel_def signed_rel_def n option.case by (intro conjI refl)
qed

theorem comparisons_decide_witness:
  "ult (from_u64 15 4) (from_u64 200 70) = from_u64 1 1 \<and> ult (all_x 3) (from_u64 200 70) = all_x 1"
proof -
  have "is_known (from_u64 15 4)" "is_known (from_u64 200 70)" "\<not> is_known (all_x 3)"
    by (auto simp: is_known_iff get_bit_from_u64 get_bit_filled intro!: exI [of _ 0])
  moreover have "uval (from_u64 15 4) = 15" "uval (from_u64 200 70) = 200"
    by (simp_all add: uval_from_u64 take_bit_eq_mod)
  ultimately show ?thesis
    using comparisons_decide [of "from_u64 15 4" "from_u64 200 70"]
      comparisons_decide [of "all_x 3" "from_u64 200 70"] by simp
qed

end
