(* ===== verification/Text_Util.thy ===== *)
theory Text_Util
  imports Prelude
begin

text \<open>
  What the components use of Rust's text functions, on strings whose characters are the code
  points up to 255: decimal printing, \<open>str::parse\<close> for unsigned integers, \<open>trim\<close>,
  \<open>split_once\<close>, \<open>to_ascii_lowercase\<close> and \<open>to_digit\<close>.
\<close>

definition code :: "char \<Rightarrow> nat" where
  "code c = of_char c"

definition digit_char :: "nat \<Rightarrow> char" where
  "digit_char d = char_of (48 + d)"

fun show_nat :: "nat \<Rightarrow> string" where
  "show_nat n = (if n < 10 then [digit_char n] else show_nat (n div 10) @ [digit_char (n mod 10)])"

declare show_nat.simps [simp del]

definition is_digit :: "char \<Rightarrow> bool" where
  "is_digit c \<longleftrightarrow> 48 \<le> code c \<and> code c \<le> 57"

definition is_whitespace :: "char \<Rightarrow> bool" where
  "is_whitespace c \<longleftrightarrow> code c \<in> {9, 10, 11, 12, 13, 32, 133, 160}"

definition trim_start :: "string \<Rightarrow> string" where
  "trim_start s = dropWhile is_whitespace s"

definition trim :: "string \<Rightarrow> string" where
  "trim s = rev (dropWhile is_whitespace (rev (trim_start s)))"

definition to_ascii_lowercase :: "char \<Rightarrow> char" where
  "to_ascii_lowercase c = (if 65 \<le> code c \<and> code c \<le> 90 then char_of (code c + 32) else c)"

definition to_digit16 :: "char \<Rightarrow> nat option" where
  "to_digit16 c =
     (if is_digit c then Some (code c - 48)
      else if 97 \<le> code c \<and> code c \<le> 102 then Some (code c - 87)
      else if 65 \<le> code c \<and> code c \<le> 70 then Some (code c - 55)
      else None)"

fun split_once :: "char \<Rightarrow> string \<Rightarrow> (string \<times> string) option" where
  "split_once d [] = None"
| "split_once d (c # cs) =
     (if c = d then Some ([], cs) else map_option (\<lambda>(a, b). (c # a, b)) (split_once d cs))"

text \<open>\<open>s.parse::<uN>()\<close>: an optional \<open>+\<close>, then decimal digits with checked arithmetic.\<close>

fun dec_digits :: "nat \<Rightarrow> string \<Rightarrow> nat \<Rightarrow> nat option" where
  "dec_digits bound [] acc = Some acc"
| "dec_digits bound (c # cs) acc =
     (if is_digit c \<and> acc * 10 + (code c - 48) < bound
      then dec_digits bound cs (acc * 10 + (code c - 48)) else None)"

definition parse_dec :: "nat \<Rightarrow> string \<Rightarrow> nat option" where
  "parse_dec bound s =
     (case s of
        [] \<Rightarrow> None
      | c # cs \<Rightarrow> (if c = CHR ''+'' then (if cs = [] then None else dec_digits bound cs 0)
                   else dec_digits bound s 0))"

lemma code_digit_char [simp]: "d < 10 \<Longrightarrow> code (digit_char d) = 48 + d"
  by (simp add: code_def digit_char_def)

lemma is_digit_digit_char [simp]: "d < 10 \<Longrightarrow> is_digit (digit_char d)"
  by (simp add: is_digit_def)

lemma show_nat_digits: "c \<in> set (show_nat n) \<Longrightarrow> is_digit c"
  by (induction n rule: show_nat.induct) (subst (asm) (2) show_nat.simps, auto split: if_splits)

lemma show_nat_not_Nil [simp]: "show_nat n \<noteq> []"
  by (subst show_nat.simps) simp

lemma dec_digits_append:
  "dec_digits b (s @ t) acc = (case dec_digits b s acc of None \<Rightarrow> None | Some a \<Rightarrow> dec_digits b t a)"
  by (induction s arbitrary: acc) simp_all

lemma dec_digits_show_nat: "n < b \<Longrightarrow> dec_digits b (show_nat n) 0 = Some n"
proof (induction n rule: show_nat.induct)
  case (1 n)
  then show ?case
    by (subst show_nat.simps) (auto simp: dec_digits_append)
qed

lemma is_digit_code: "is_digit c \<Longrightarrow> c \<noteq> CHR ''+'' \<and> c \<noteq> CHR ''_'' \<and> c \<noteq> CHR ''.'' \<and> c \<noteq> CHR 0x27 \<and> \<not> is_whitespace c"
  by (auto simp: is_digit_def code_def is_whitespace_def)

text \<open>What is printed in decimal is read back.\<close>

lemma parse_dec_show_nat: "n < b \<Longrightarrow> parse_dec b (show_nat n) = Some n"
proof -
  assume n: "n < b"
  obtain c cs where s: "show_nat n = c # cs" by (cases "show_nat n") simp_all
  then have "c \<noteq> CHR ''+''"
    using show_nat_digits [of c n] is_digit_code by auto
  then show ?thesis
    using dec_digits_show_nat [OF n] s by (simp add: parse_dec_def)
qed

lemma dropWhile_none: "(\<And>c. c \<in> set s \<Longrightarrow> \<not> P c) \<Longrightarrow> dropWhile P s = s"
  by (cases s) auto

lemma trim_none: "(\<And>c. c \<in> set s \<Longrightarrow> \<not> is_whitespace c) \<Longrightarrow> trim s = s"
  using dropWhile_none [of s is_whitespace] dropWhile_none [of "rev s" is_whitespace]
  by (simp add: trim_def trim_start_def)

lemma split_once_first: "d \<notin> set a \<Longrightarrow> split_once d (a @ d # b) = Some (a, b)"
  by (induction a) auto

end
