(* ===== verification/Logic_Text.thy ===== *)
theory Logic_Text
  imports Logic_Arith Text_Util
begin

text \<open>
  The textual forms of \<open>crates/eevee-core/src/logic.rs\<close>: \<open>Display\<close>, which prints
  \<open>width'b<bits>\<close>, and the literal parser \<open>parse_sized\<close>. What is printed is parsed back.
\<close>

definition display_lv :: "LogicVec \<Rightarrow> string" where
  "display_lv v =
     show_nat (width v) @ [CHR 0x27, CHR ''b''] @ map (\<lambda>i. to_char (get_bit v i)) (rev [0..<width v])"

text \<open>The bit \<open>k\<close> of one digit; \<open>None\<close> where the character is no digit.\<close>

definition digit_bit :: "char \<Rightarrow> nat \<Rightarrow> Bit option" where
  "digit_bit c k =
     (if c = CHR ''x'' then Some X
      else if c = CHR ''z'' \<or> c = CHR ''?'' then Some Z
      else (case to_digit16 c of
          None \<Rightarrow> None
        | Some d \<Rightarrow> Some (if (d div 2 ^ k) mod 2 = 1 then One else Zero)))"

fun parse_digit :: "char \<Rightarrow> nat list \<Rightarrow> nat \<times> LogicVec \<Rightarrow> (nat \<times> LogicVec) option" where
  "parse_digit c [] (pos, v) = Some (pos, v)"
| "parse_digit c (k # ks) (pos, v) =
     (if pos \<ge> width v then Some (pos, v)
      else (case digit_bit c k of
          None \<Rightarrow> None
        | Some b \<Rightarrow> parse_digit c ks (pos + 1, set_bit v pos b)))"

fun parse_digits :: "nat \<Rightarrow> string \<Rightarrow> nat \<times> LogicVec \<Rightarrow> LogicVec option" where
  "parse_digits bits_per [] (pos, v) = Some v"
| "parse_digits bits_per (ch # chs) (pos, v) =
     (case parse_digit (to_ascii_lowercase ch) [0..<bits_per] (pos, v) of
        None \<Rightarrow> None
      | Some st \<Rightarrow> parse_digits bits_per chs st)"

definition parse_based :: "nat \<Rightarrow> char \<Rightarrow> string \<Rightarrow> LogicVec option" where
  "parse_based w base digits =
     (if base = CHR ''d'' then
        (case parse_dec (2 ^ 64) (trim digits) of
           None \<Rightarrow> None
         | Some val \<Rightarrow> Some (from_u64 (of_nat val) w))
      else
        (case (if base = CHR ''b'' then Some 1 else if base = CHR ''o'' then Some 3
               else if base = CHR ''h'' then Some 4 else None) of
           None \<Rightarrow> None
         | Some bits_per \<Rightarrow> parse_digits bits_per (rev digits) (0, zero w)))"

definition parse_sized :: "string \<Rightarrow> LogicVec option" where
  "parse_sized s0 =
     (let s = filter (\<lambda>c. c \<noteq> CHR ''_'') s0
      in (case split_once (CHR 0x27) s of
          None \<Rightarrow> None
        | Some (width_str, rest) \<Rightarrow>
            (case parse_dec (2 ^ 32) (trim width_str) of
               None \<Rightarrow> None
             | Some w \<Rightarrow>
                 (if w = 0 then None
                  else (case trim rest of
                      [] \<Rightarrow> None
                    | c # chars \<Rightarrow>
                        (if to_ascii_lowercase c = CHR ''s'' then
                           (case chars of
                              [] \<Rightarrow> None
                            | c2 # chars2 \<Rightarrow> parse_based w (to_ascii_lowercase c2) chars2)
                         else parse_based w (to_ascii_lowercase c) chars))))))"

section \<open>Lemmas\<close>

lemma lowercase_to_char [simp]: "to_ascii_lowercase (to_char b) = to_char b"
  by (cases b) (simp_all add: to_ascii_lowercase_def code_def)

lemma digit_bit_to_char [simp]: "digit_bit (to_char b) 0 = Some b"
  by (cases b) (simp_all add: digit_bit_def to_digit16_def is_digit_def code_def)

lemma to_char_plain: "to_char b \<noteq> CHR ''_'' \<and> \<not> is_whitespace (to_char b)"
  by (cases b) (simp_all add: is_whitespace_def code_def)

lemma parse_digits_bits:
  "pos + length bs \<le> width v \<Longrightarrow>
    parse_digits 1 (map to_char bs) (pos, v) =
      Some (fold (\<lambda>(i, b) v. set_bit v i b) (enumerate pos bs) v)"
  by (induction bs arbitrary: pos v) simp_all

lemma fold_set_enumerate:
  "fold (\<lambda>(i, b) v. set_bit v i b) (enumerate pos (map g [pos..<n])) v = set_bits 0 (\<lambda>_. True) g [pos..<n] v"
proof (induction "n - pos" arbitrary: pos v)
  case (Suc k)
  then have "[pos..<n] = pos # [Suc pos..<n]" by (simp add: upt_conv_Cons)
  then show ?case
    using Suc.hyps(1) [of "Suc pos" "set_bit v pos (g pos)"] Suc.hyps(2) by simp
qed simp

lemma parse_bits_rebuild:
  assumes "wf_lv v"
  shows "parse_digits 1 (map (\<lambda>i. to_char (get_bit v i)) [0..<width v]) (0, zero (width v)) = Some v"
proof -
  have "set_bits 0 (\<lambda>_. True) (get_bit v) [0..<width v] (zero (width v)) = v"
    using wf_lvD [OF assms] assms by (intro wf_eqI) (simp_all add: get_bit_set_bits)
  then show ?thesis
    using parse_digits_bits [of 0 "map (get_bit v) [0..<width v]" "zero (width v)"]
      fold_set_enumerate [of 0 "get_bit v" "width v"] by (simp add: comp_def)
qed

lemma parse_sized_parts:
  assumes "1 \<le> w" and "w < 2 ^ 32" and "\<And>c. c \<in> set ds \<Longrightarrow> c \<noteq> CHR ''_'' \<and> \<not> is_whitespace c"
    and "base = CHR ''b'' \<or> base = CHR ''o'' \<or> base = CHR ''h'' \<or> base = CHR ''d''"
  shows "parse_sized (show_nat w @ CHR 0x27 # base # ds) = parse_based w base ds"
proof -
  have sw: "c \<noteq> CHR ''_'' \<and> c \<noteq> CHR 0x27 \<and> \<not> is_whitespace c" if "c \<in> set (show_nat w)" for c
    using is_digit_code [OF show_nat_digits [OF that]] by simp
  have b: "base \<noteq> CHR ''_''" "\<not> is_whitespace base" "to_ascii_lowercase base = base" "base \<noteq> CHR ''s''"
    using assms(4) by (auto simp: is_whitespace_def to_ascii_lowercase_def code_def)
  have f: "filter (\<lambda>c. c \<noteq> CHR ''_'') (show_nat w @ CHR 0x27 # base # ds) = show_nat w @ CHR 0x27 # base # ds"
    by (rule filter_True) (use sw b assms(3) in auto)
  have sp: "split_once (CHR 0x27) (show_nat w @ CHR 0x27 # base # ds) = Some (show_nat w, base # ds)"
    by (rule split_once_first) (use sw in auto)
  have t: "trim (show_nat w) = show_nat w" "trim (base # ds) = base # ds"
    by (rule trim_none, use sw b assms(3) in auto)+
  show ?thesis
    unfolding parse_sized_def Let_def f sp option.case prod.case t
    using assms(1,2) b by (simp add: parse_dec_show_nat)
qed

section \<open>Properties\<close>

text \<open>
  C35. The printed form of a vector is parsed back to the same vector, for every width and every
  mix of 0, 1, \<open>x\<close> and \<open>z\<close>.
\<close>

theorem parse_display:
  assumes "wf_lv v"
  shows "parse_sized (display_lv v) = Some v"
proof -
  let ?ds = "map (\<lambda>i. to_char (get_bit v i)) (rev [0..<width v])"
  have "parse_sized (show_nat (width v) @ CHR 0x27 # CHR ''b'' # ?ds) = parse_based (width v) (CHR ''b'') ?ds"
    using wf_lvD(1,2) [OF assms] to_char_plain by (intro parse_sized_parts) auto
  also have "\<dots> = Some v"
    using parse_bits_rebuild [OF assms] by (simp add: parse_based_def rev_map)
  finally show ?thesis by (simp add: display_lv_def)
qed

theorem parse_display_witness:
  "display_lv (from_planes_small 6 10 4) = ''4'' @ [CHR 0x27] @ ''bx1z0'' \<and>
   parse_sized (''4'' @ [CHR 0x27] @ ''bx1z0'') = Some (from_planes_small 6 10 4)"
proof -
  have wf: "wf_lv (from_planes_small 6 10 4)"
    by (simp add: from_planes_small_bits)
  have "display_lv (from_planes_small 6 10 4) = ''4'' @ [CHR 0x27] @ ''bx1z0''"
    by (simp add: display_lv_def show_nat.simps digit_char_def char_of_eq_iff take_bit_eq_mod upt_rec get_bit_wf [OF wf] from_planes_small_bits)
  with parse_display [OF wf] show ?thesis by simp
qed

end
