(* ===== verification/PP_Text.thy ===== *)
theory PP_Text
  imports Text_Util
begin

text \<open>
  The text functions of the preprocessor (\<open>crates/eevee-fe/src/preprocess.rs\<close>): identifiers, comments,
  line continuations, parentheses, parameter lists and the substitution of parameters. The code walks
  over an array of characters with an index; here the rest of the array is a list.
\<close>

section \<open>Characters and lines\<close>

abbreviation (input) "newline \<equiv> CHR 0x0A"
abbreviation (input) "quote \<equiv> CHR 0x22"
abbreviation (input) "tick \<equiv> CHR 0x60"
abbreviation (input) "backslash \<equiv> CHR 0x5C"

definition is_ident_start :: "char \<Rightarrow> bool" where
  "is_ident_start c \<longleftrightarrow> 65 \<le> code c \<and> code c \<le> 90 \<or> 97 \<le> code c \<and> code c \<le> 122 \<or> c = CHR ''_''"

definition is_ident_cont :: "char \<Rightarrow> bool" where
  "is_ident_cont c \<longleftrightarrow> is_ident_start c \<or> is_digit c"

text \<open>\<open>str::replace\<close> for a pattern of two characters, and \<open>split\<close> and \<open>join\<close> for one.\<close>

fun replace2 :: "char \<Rightarrow> char \<Rightarrow> string \<Rightarrow> string \<Rightarrow> string" where
  "replace2 a b rep (c # d # s) =
     (if c = a \<and> d = b then rep @ replace2 a b rep s else c # replace2 a b rep (d # s))"
| "replace2 a b rep s = s"

fun split_on :: "char \<Rightarrow> string \<Rightarrow> string list" where
  "split_on sep [] = [[]]"
| "split_on sep (c # s) =
     (if c = sep then [] # split_on sep s
      else (case split_on sep s of [] \<Rightarrow> [[c]] | l # ls \<Rightarrow> (c # l) # ls))"

fun join_on :: "char \<Rightarrow> string list \<Rightarrow> string" where
  "join_on sep [] = []"
| "join_on sep [l] = l"
| "join_on sep (l # ls) = l @ sep # join_on sep ls"

definition take_ident :: "string \<Rightarrow> string \<times> string" where
  "take_ident s =
     (case s of
        [] \<Rightarrow> ([], s)
      | c # cs \<Rightarrow> (if is_ident_start c then (c # takeWhile is_ident_cont cs, dropWhile is_ident_cont cs) else ([], s)))"

definition split_directive :: "string \<Rightarrow> string \<times> string" where
  "split_directive s = take_ident s"

definition first_token :: "string \<Rightarrow> string" where
  "first_token s = takeWhile (\<lambda>c. \<not> is_whitespace c) (trim_start s)"

definition join_continuations :: "string \<Rightarrow> string" where
  "join_continuations s = replace2 backslash newline '' '' s"

section \<open>Comments\<close>

text \<open>The blanks for a block comment after its opening, and the text behind it.\<close>

fun block_comment :: "string \<Rightarrow> string \<times> string" where
  "block_comment [] = ([], [])"
| "block_comment (c # s) =
     (if c = CHR ''*'' \<and> s \<noteq> [] \<and> hd s = CHR ''/'' then (''  '', tl s)
      else (let (blanks, rest) = block_comment s in ((if c = newline then newline else CHR '' '') # blanks, rest)))"

lemma block_comment_length: "length (fst (block_comment s)) + length (snd (block_comment s)) = length s"
  by (induction s rule: block_comment.induct) (auto split: prod.split)

lemma block_comment_shorter: "(b, r) = block_comment (tl s) \<Longrightarrow> length r \<le> length s"
  using block_comment_length [of "tl s"] by (cases "block_comment (tl s)") simp

function strip_loop :: "bool \<Rightarrow> string \<Rightarrow> string" where
  "strip_loop in_str [] = []"
| "strip_loop in_str (c # s) =
     (if in_str then
        (if c = backslash \<and> s \<noteq> [] then c # hd s # strip_loop True (tl s)
         else c # strip_loop (c \<noteq> quote) s)
      else if c = quote then c # strip_loop True s
      else if c = CHR ''/'' \<and> s \<noteq> [] \<and> hd s = CHR ''/'' then
        map (\<lambda>_. CHR '' '') (takeWhile (\<lambda>d. d \<noteq> newline) (c # s)) @ strip_loop False (dropWhile (\<lambda>d. d \<noteq> newline) s)
      else if c = CHR ''/'' \<and> s \<noteq> [] \<and> hd s = CHR ''*'' then
        (let (blanks, rest) = block_comment (tl s) in ''  '' @ blanks @ strip_loop False rest)
      else c # strip_loop False s)"
  by pat_completeness auto
termination
  by (relation "measure (\<lambda>(in_str, s). length s)")
    (auto simp: le_imp_less_Suc length_dropWhile_le dest!: block_comment_shorter)

definition strip_comments :: "string \<Rightarrow> string" where
  "strip_comments s = strip_loop False s"

section \<open>Parentheses and lists\<close>

text \<open>The position of the parenthesis that closes the first one.\<close>

fun paren_loop :: "int \<Rightarrow> bool \<Rightarrow> string \<Rightarrow> nat option" where
  "paren_loop depth in_str [] = None"
| "paren_loop depth in_str (c # s) =
     (if in_str then
        (if c = backslash \<and> s \<noteq> [] then map_option (\<lambda>i. i + 2) (paren_loop depth True (tl s))
         else map_option Suc (paren_loop depth (c \<noteq> quote) s))
      else if c = quote then map_option Suc (paren_loop depth True s)
      else if c = CHR ''('' then map_option Suc (paren_loop (depth + 1) False s)
      else if c = CHR '')'' then
        (if depth - 1 = 0 then Some 0 else map_option Suc (paren_loop (depth - 1) False s))
      else map_option Suc (paren_loop depth False s))"

definition find_matching_paren :: "string \<Rightarrow> nat option" where
  "find_matching_paren s = paren_loop 0 False s"

fun split_loop :: "char \<Rightarrow> int \<Rightarrow> bool \<Rightarrow> string \<Rightarrow> string \<Rightarrow> string list" where
  "split_loop sep depth in_str buf [] = [buf]"
| "split_loop sep depth in_str buf (c # s) =
     (if in_str then
        (if c = backslash \<and> s \<noteq> [] then split_loop sep depth True (buf @ [c, hd s]) (tl s)
         else split_loop sep depth (c \<noteq> quote) (buf @ [c]) s)
      else if c = quote then split_loop sep depth True (buf @ [c]) s
      else if c \<in> {CHR ''('', CHR ''['', CHR ''{''} then split_loop sep (depth + 1) False (buf @ [c]) s
      else if c \<in> {CHR '')'', CHR '']'', CHR ''}''} then split_loop sep (depth - 1) False (buf @ [c]) s
      else if c = sep \<and> depth = 0 then buf # split_loop sep depth False [] s
      else split_loop sep depth False (buf @ [c]) s)"

definition split_top_level :: "string \<Rightarrow> char \<Rightarrow> string list" where
  "split_top_level s sep = split_loop sep 0 False [] s"

definition parse_param :: "string \<Rightarrow> string \<times> string option" where
  "parse_param chunk =
     (case split_once (CHR ''='') chunk of
        Some (name, dflt) \<Rightarrow> (trim name, Some (trim dflt))
      | None \<Rightarrow> (chunk, None))"

definition parse_params :: "string \<Rightarrow> (string \<times> string option) list" where
  "parse_params src = map parse_param (filter (\<lambda>chunk. chunk \<noteq> []) (map trim (split_top_level src (CHR '',''))))"

definition until :: "char \<Rightarrow> string \<Rightarrow> string option" where
  "until c s = map_option fst (split_once c s)"

definition parse_include_filename :: "string \<Rightarrow> string option" where
  "parse_include_filename rest =
     (case trim rest of
        [] \<Rightarrow> None
      | c # s \<Rightarrow>
          (if c = quote then until quote s
           else if c = CHR ''<'' then until (CHR ''>'') s
           else Some (first_token (c # s))))"

section \<open>Parameters\<close>

text \<open>The bindings are a list in which the latest binding of a name comes first.\<close>

function substitute_loop :: "(string \<times> string) list \<Rightarrow> string \<Rightarrow> string" where
  "substitute_loop bound [] = []"
| "substitute_loop bound (c # s) =
     (if is_ident_start c then
        (let ident = c # takeWhile is_ident_cont s
         in (case map_of bound ident of Some v \<Rightarrow> v | None \<Rightarrow> ident) @ substitute_loop bound (dropWhile is_ident_cont s))
      else c # substitute_loop bound s)"
  by pat_completeness auto
termination
  by (relation "measure (\<lambda>(bound, s). length s)") (auto simp: le_imp_less_Suc length_dropWhile_le)

definition substitute_params :: "string \<Rightarrow> (string \<times> string) list \<Rightarrow> string" where
  "substitute_params body bound = (if bound = [] then body else substitute_loop bound body)"

end
