(* ===== verification/Preprocess.thy ===== *)
theory Preprocess
  imports PP_Text
begin

text \<open>
  The preprocessor (\<open>crates/eevee-fe/src/preprocess.rs\<close>): macros, conditional compilation and includes.
  The file system and the operations on paths, which depend on the platform, are the parameter \<open>Env\<close>.
  An included file is processed by a recursive call of \<open>preprocess\<close>, which changes the preprocessor; the
  depth of these calls is the first argument of the model's \<open>preprocess\<close>, and it is proved that the limit
  of the code is reached before it is used up.
\<close>

section \<open>State\<close>

record 'p Env =
  path_of :: "string \<Rightarrow> 'p"
  parent_of :: "'p \<Rightarrow> 'p option"
  join_path :: "'p \<Rightarrow> string \<Rightarrow> 'p"
  is_file :: "'p \<Rightarrow> bool"
  read_file :: "'p \<Rightarrow> string option"
  display_path :: "'p \<Rightarrow> string"

record Macro =
  params :: "(string \<times> string option) list option"
  mbody :: string

record Cond =
  parent_active :: bool
  taken :: bool
  c_active :: bool

record 'p Preprocessor =
  include_dirs :: "'p list"
  macros :: "string \<rightharpoonup> Macro"
  include_stack :: "'p list"
  current_file :: string
  current_line :: nat

definition max_expand_depth :: nat where
  "max_expand_depth = 64"

definition max_include_depth :: nat where
  "max_include_depth = 64"

definition is_passthrough :: "string \<Rightarrow> bool" where
  "is_passthrough d \<longleftrightarrow> d \<in> set
     [''timescale'', ''default_nettype'', ''celldefine'', ''endcelldefine'', ''resetall'', ''unconnected_drive'',
      ''nounconnected_drive'', ''line'', ''begin_keywords'', ''end_keywords'', ''protect'', ''endprotect'',
      ''protected'', ''endprotected'', ''pragma'']"

definition new_preprocessor :: "'p list \<Rightarrow> 'p Preprocessor" where
  "new_preprocessor dirs =
     \<lparr>include_dirs = dirs, macros = Map.empty, include_stack = [], current_file = [], current_line = 0\<rparr>"

definition define_macro :: "string \<Rightarrow> string \<Rightarrow> 'p Preprocessor \<Rightarrow> 'p Preprocessor" where
  "define_macro name body pp = pp\<lparr>macros := (macros pp)(name \<mapsto> \<lparr>params = None, mbody = body\<rparr>)\<rparr>"

text \<open>The innermost level comes first.\<close>

definition emitting :: "Cond list \<Rightarrow> bool" where
  "emitting cond = (case cond of [] \<Rightarrow> True | c # _ \<Rightarrow> c_active c)"

section \<open>Definitions\<close>

definition handle_define :: "string \<Rightarrow> 'p Preprocessor \<Rightarrow> 'p Preprocessor" where
  "handle_define rest pp =
     (let (name, after) = take_ident (trim_start rest)
      in if name = [] then pp
         else (let (ps, after) =
                    (case after of
                       [] \<Rightarrow> (None, after)
                     | c # _ \<Rightarrow>
                         (if c = CHR ''('' then
                            (case find_matching_paren after of
                               None \<Rightarrow> (None, after)
                             | Some i \<Rightarrow> (Some (parse_params (take (i - 1) (tl after))), drop (i + 1) after))
                          else (None, after)))
               in pp\<lparr>macros := (macros pp)(name \<mapsto> \<lparr>params = ps, mbody = trim after\<rparr>)\<rparr>))"

section \<open>Expansion\<close>

fun bind_params :: "(string \<times> string option) list \<Rightarrow> string list \<Rightarrow> (string \<times> string) list \<Rightarrow> (string \<times> string) list" where
  "bind_params [] args bound = bound"
| "bind_params ((p, dflt) # ps) args bound =
     (let d = (case dflt of None \<Rightarrow> [] | Some d \<Rightarrow> d);
          v = (case args of [] \<Rightarrow> d | a # _ \<Rightarrow> (if trim a = [] then d else trim a))
      in bind_params ps (tl args) ((p, v) # bound))"

definition apply_macro :: "Macro \<Rightarrow> string list \<Rightarrow> string" where
  "apply_macro mac args =
     (let ps = (case params mac of None \<Rightarrow> [] | Some ps \<Rightarrow> ps)
      in replace2 tick tick [] (substitute_params (mbody mac) (bind_params ps args [])))"

text \<open>
  A use of a macro: what replaces it and the text behind it. A macro with parameters that is not
  followed by its arguments is not a use.
\<close>

definition macro_call :: "Macro \<Rightarrow> string \<Rightarrow> (string \<times> string) option" where
  "macro_call mac rest =
     (case params mac of
        None \<Rightarrow> Some (mbody mac, rest)
      | Some _ \<Rightarrow>
          (let r = dropWhile (\<lambda>c. c = CHR '' '' \<or> c = CHR 0x09) rest
           in (case r of
                 [] \<Rightarrow> None
               | c # _ \<Rightarrow>
                   (if c = CHR ''('' then
                      (case find_matching_paren r of
                         None \<Rightarrow> None
                       | Some i \<Rightarrow> Some (apply_macro mac (split_top_level (take (i - 1) (tl r)) (CHR '','')), drop (i + 1) r))
                    else None))))"

definition escape_path :: "string \<Rightarrow> string" where
  "escape_path s = concat (map (\<lambda>c. if c = backslash then [backslash, backslash] else if c = quote then [backslash, quote] else [c]) s)"

lemma macro_call_shorter: "macro_call mac rest = Some (repl, r) \<Longrightarrow> length r \<le> length rest"
  using length_dropWhile_le [of "\<lambda>c. c = CHR '' '' \<or> c = CHR 0x09" rest]
  by (auto simp: macro_call_def split: option.splits list.splits if_splits)

lemma macro_use_shorter: "macro_call mac (dropWhile P t) = Some (repl, r) \<Longrightarrow> length r \<le> length t"
  using macro_call_shorter length_dropWhile_le le_trans by blast

function expand_loop :: "'p Preprocessor \<Rightarrow> nat \<Rightarrow> bool \<Rightarrow> string \<Rightarrow> string" where
  "expand_loop pp depth in_str [] = []"
| "expand_loop pp depth in_str (c # s) =
     (if c = quote then c # expand_loop pp depth (\<not> in_str) s
      else if in_str \<or> c \<noteq> tick then c # expand_loop pp depth in_str s
      else (case s of
              [] \<Rightarrow> [c]
            | d # t \<Rightarrow>
                (if d = quote then quote # expand_loop pp depth False t
                 else if d = tick then expand_loop pp depth False t
                 else if is_ident_start d then
                   (let name = d # takeWhile is_ident_cont t; rest = dropWhile is_ident_cont t
                    in if name = ''__FILE__'' then
                         quote # escape_path (current_file pp) @ quote # expand_loop pp depth False rest
                       else if name = ''__LINE__'' then show_nat (current_line pp) @ expand_loop pp depth False rest
                       else (case macros pp name of
                               None \<Rightarrow> tick # name @ expand_loop pp depth False rest
                             | Some mac \<Rightarrow>
                                 (case macro_call mac rest of
                                    None \<Rightarrow> tick # name @ expand_loop pp depth False rest
                                  | Some (repl, r) \<Rightarrow>
                                      (if depth + 1 \<ge> max_expand_depth then repl
                                       else expand_loop pp (depth + 1) False repl) @ expand_loop pp depth False r)))
                 else c # expand_loop pp depth False s)))"
  by pat_completeness auto
termination
  by (relation "inv_image (less_than <*lex*> less_than) (\<lambda>(pp, depth, in_str, s). (max_expand_depth - depth, length s))")
    (auto simp: le_imp_less_Suc length_dropWhile_le less_Suc_eq_le le_SucI dest!: macro_use_shorter)

definition expand_text :: "'p Preprocessor \<Rightarrow> string \<Rightarrow> nat \<Rightarrow> string" where
  "expand_text pp text depth = (if depth \<ge> max_expand_depth then text else expand_loop pp depth False text)"

section \<open>Includes\<close>

definition resolve_include :: "'p Env \<Rightarrow> 'p Preprocessor \<Rightarrow> string \<Rightarrow> string \<Rightarrow> 'p option" where
  "resolve_include env pp fname source_path =
     find (is_file env)
       ((case parent_of env (path_of env source_path) of None \<Rightarrow> [] | Some dir \<Rightarrow> [join_path env dir fname]) @
        map (\<lambda>d. join_path env d fname) (include_dirs pp))"

type_synonym 'p processor = "string \<Rightarrow> string \<Rightarrow> 'p Preprocessor \<Rightarrow> string \<times> 'p Preprocessor"

definition do_include :: "'p processor \<Rightarrow> 'p Env \<Rightarrow> string \<Rightarrow> string \<Rightarrow> 'p Preprocessor \<Rightarrow> string \<times> 'p Preprocessor" where
  "do_include rec env fname source_path pp =
     (if length (include_stack pp) \<ge> max_include_depth then (''// `include depth limit exceeded for '' @ fname, pp)
      else (case resolve_include env pp fname source_path of
              None \<Rightarrow> (''// `include not found: '' @ fname, pp)
            | Some resolved \<Rightarrow>
                (if resolved \<in> set (include_stack pp) then (''// recursive `include skipped: '' @ fname, pp)
                 else (case read_file env resolved of
                         None \<Rightarrow> (''// `include read error: '' @ fname, pp)
                       | Some inner \<Rightarrow>
                           (let pp = pp\<lparr>include_stack := include_stack pp @ [resolved]\<rparr>;
                                (out, pp) = rec inner (display_path env resolved) pp
                            in (out, pp\<lparr>include_stack := butlast (include_stack pp)\<rparr>))))))"

section \<open>Lines\<close>

text \<open>The directives that are executed in every state. The outer option is whether it is one.\<close>

definition branch_directive :: "string \<Rightarrow> string \<Rightarrow> (string \<rightharpoonup> Macro) \<Rightarrow> Cond list \<Rightarrow> Cond list option" where
  "branch_directive directive rest ms cond =
     (if directive = ''ifdef'' \<or> directive = ''ifndef'' then
        (let parent = emitting cond;
             defined = ms (first_token rest) \<noteq> None;
             want = (if directive = ''ifdef'' then defined else \<not> defined)
         in Some (\<lparr>parent_active = parent, taken = want, c_active = parent \<and> want\<rparr> # cond))
      else if directive = ''elsif'' then
        Some (case cond of
                [] \<Rightarrow> []
              | c # cs \<Rightarrow>
                  (if \<not> taken c \<and> parent_active c \<and> ms (first_token rest) \<noteq> None
                   then c\<lparr>c_active := True, taken := True\<rparr> # cs else c\<lparr>c_active := False\<rparr> # cs))
      else if directive = ''else'' then
        Some (case cond of
                [] \<Rightarrow> []
              | c # cs \<Rightarrow>
                  (if \<not> taken c \<and> parent_active c
                   then c\<lparr>c_active := True, taken := True\<rparr> # cs else c\<lparr>c_active := False\<rparr> # cs))
      else if directive = ''endif'' then Some (tl cond)
      else None)"

definition execute_directive ::
  "'p processor \<Rightarrow> 'p Env \<Rightarrow> string \<Rightarrow> string \<Rightarrow> string \<Rightarrow> string \<Rightarrow> 'p Preprocessor \<Rightarrow> string \<times> 'p Preprocessor" where
  "execute_directive rec env source_path line directive rest pp =
     (if directive = ''define'' then ([], handle_define rest pp)
      else if directive = ''undef'' then ([], pp\<lparr>macros := (macros pp)(first_token rest := None)\<rparr>)
      else if directive = ''include'' then
        (case parse_include_filename rest of
           None \<Rightarrow> ([], pp)
         | Some fname \<Rightarrow>
             (let (inc, pp) = do_include rec env fname source_path pp in (inc, pp\<lparr>current_file := source_path\<rparr>)))
      else if is_passthrough directive then ([], pp)
      else (expand_text pp line 0, pp))"

definition process_line ::
  "'p processor \<Rightarrow> 'p Env \<Rightarrow> string \<Rightarrow> string \<Rightarrow> Cond list \<Rightarrow> 'p Preprocessor \<Rightarrow> string \<times> Cond list \<times> 'p Preprocessor" where
  "process_line rec env source_path line cond pp =
     (case trim_start line of
        [] \<Rightarrow> (if emitting cond then expand_text pp line 0 else [], cond, pp)
      | c # after \<Rightarrow>
          (if c = tick then
             (let (directive, rest) = split_directive after
              in (case branch_directive directive rest (macros pp) cond of
                    Some cond \<Rightarrow> ([], cond, pp)
                  | None \<Rightarrow>
                      (if \<not> emitting cond then ([], cond, pp)
                       else (let (out, pp) = execute_directive rec env source_path line directive rest pp
                             in (out, cond, pp)))))
           else (if emitting cond then expand_text pp line 0 else [], cond, pp)))"

fun process_lines ::
  "'p processor \<Rightarrow> 'p Env \<Rightarrow> string \<Rightarrow> nat \<Rightarrow> string list \<Rightarrow> Cond list \<Rightarrow> 'p Preprocessor \<Rightarrow> string list \<times> Cond list \<times> 'p Preprocessor" where
  "process_lines rec env src idx [] cond pp = ([], cond, pp)"
| "process_lines rec env src idx (l # ls) cond pp =
     (let (out, cond, pp) = process_line rec env src l cond (pp\<lparr>current_line := idx + 1\<rparr>);
          (outs, cond, pp) = process_lines rec env src (idx + 1) ls cond pp
      in (out # outs, cond, pp))"

definition clean_text :: "string \<Rightarrow> string" where
  "clean_text text =
     strip_comments (join_continuations
       (map (\<lambda>c. if c = CHR 0x0D then newline else c) (replace2 (CHR 0x0D) newline [newline] text)))"

primrec preprocess :: "nat \<Rightarrow> 'p Env \<Rightarrow> 'p processor" where
  "preprocess 0 env text source_path pp = ([], pp)"
| "preprocess (Suc n) env text source_path pp =
     (let (outs, cond, pp) = process_lines (preprocess n env) env source_path 0 (split_on newline (clean_text text)) []
            (pp\<lparr>current_file := source_path\<rparr>)
      in (join_on newline outs, pp))"

text \<open>One level more than the limit of the code.\<close>

definition process_source :: "'p Env \<Rightarrow> 'p processor" where
  "process_source env = preprocess (max_include_depth + 1) env"

definition process_file :: "'p Env \<Rightarrow> 'p \<Rightarrow> 'p Preprocessor \<Rightarrow> (string \<times> 'p Preprocessor) option" where
  "process_file env path pp =
     (case read_file env path of
        None \<Rightarrow> None
      | Some text \<Rightarrow>
          (let pp = pp\<lparr>include_stack := include_stack pp @ [path]\<rparr>;
               (out, pp) = process_source env text (display_path env path) pp
           in Some (out, pp\<lparr>include_stack := butlast (include_stack pp)\<rparr>)))"

end
