(* ===== verification/PP_Props.thy ===== *)
theory PP_Props
  imports Preprocess "HOL-Library.Sublist"
begin

text \<open>
  Properties of the preprocessor: comments are blanked in place, as a grammar of the text says, a list
  of arguments is split at its separators outside strings and brackets, conditional compilation selects what it should at any nesting, and includes end.
\<close>

section \<open>Strings and comments as a grammar\<close>

text \<open>
  The texts the scanner tells apart, without the scanner: the body of a string literal is made of
  escaped pairs and of characters that neither close nor escape.
\<close>

inductive string_body :: "string \<Rightarrow> bool" where
  body_end: "string_body []"
| body_escape: "string_body b \<Longrightarrow> string_body (backslash # c # b)"
| body_char: "c \<noteq> quote \<Longrightarrow> c \<noteq> backslash \<Longrightarrow> string_body b \<Longrightarrow> string_body (c # b)"

text \<open>What is behind an opening quote either closes or runs to the end of the text.\<close>

lemma literal_cases:
  obtains (closed) b r where "s = b @ quote # r" "string_body b"
  | (unclosed) b e where "s = b @ e" "string_body b" "e = [] \<or> e = [backslash]"
proof (induction s arbitrary: thesis rule: length_induct)
  case (1 s)
  show ?case
  proof (cases s)
    case Nil
    then show ?thesis using 1(3) [of "[]" "[]"] by (simp add: body_end)
  next
    case (Cons c t)
    consider "c = quote" | "c = backslash" "t = []" | d u where "c = backslash" "t = d # u"
      | "c \<noteq> quote" "c \<noteq> backslash" by (cases t) auto
    then show ?thesis
    proof cases
      case 1
      then show ?thesis using "1.prems"(1) [of "[]" t] Cons by (simp add: body_end)
    next
      case 2
      then show ?thesis using "1.prems"(2) [of "[]" "[backslash]"] Cons by (simp add: body_end)
    next
      case 3
      have "length u < length s" using Cons 3 by simp
      from "1.IH" [rule_format, OF this] show ?thesis
        using "1.prems"(1) [of "c # d # _"] "1.prems"(2) [of "c # d # _"] Cons 3
        by (metis append_Cons body_escape)
    next
      case 4
      have "length t < length s" using Cons by simp
      from "1.IH" [rule_format, OF this] show ?thesis
        using "1.prems"(1) [of "c # _"] "1.prems"(2) [of "c # _"] Cons 4
        by (metis append_Cons body_char)
    qed
  qed
qed

text \<open>
  The text with its comments blanked: a comment opens outside string literals only, a line comment
  runs to the end of its line, a block comment to the first closing mark behind its opening. Every
  character of a comment becomes a space, save the line breaks.
\<close>

definition blank :: "char \<Rightarrow> char" where
  "blank c = (if c = newline then newline else CHR '' '')"

inductive blanks_to :: "string \<Rightarrow> string \<Rightarrow> bool" where
  text_end: "blanks_to [] []"
| plain: "c \<noteq> quote \<Longrightarrow> \<not> prefix ''//'' (c # s) \<Longrightarrow> \<not> prefix ''/*'' (c # s) \<Longrightarrow>
    blanks_to s t \<Longrightarrow> blanks_to (c # s) (c # t)"
| literal: "string_body b \<Longrightarrow> blanks_to s t \<Longrightarrow>
    blanks_to (quote # b @ quote # s) (quote # b @ quote # t)"
| open_literal: "string_body b \<Longrightarrow> e = [] \<or> e = [backslash] \<Longrightarrow>
    blanks_to (quote # b @ e) (quote # b @ e)"
| line_comment: "newline \<notin> set b \<Longrightarrow> s = [] \<or> hd s = newline \<Longrightarrow> blanks_to s t \<Longrightarrow>
    blanks_to (''//'' @ b @ s) (map blank (''//'' @ b) @ t)"
| block_comment: "\<not> sublist ''*/'' (b @ ''*'') \<Longrightarrow> blanks_to s t \<Longrightarrow>
    blanks_to (''/*'' @ b @ ''*/'' @ s) (map blank (''/*'' @ b @ ''*/'') @ t)"
| open_block_comment: "\<not> sublist ''*/'' b \<Longrightarrow> blanks_to (''/*'' @ b) (map blank (''/*'' @ b))"

lemma strip_body: "string_body b \<Longrightarrow> strip_loop True (b @ quote # s) = b @ quote # strip_loop False s"
  by (induction rule: string_body.induct) simp_all

lemma strip_open: "string_body b \<Longrightarrow> e = [] \<or> e = [backslash] \<Longrightarrow> strip_loop True (b @ e) = b @ e"
  by (induction rule: string_body.induct) auto

lemma map_blank_line: "newline \<notin> set b \<Longrightarrow> map blank b = map (\<lambda>_. CHR '' '') b"
  by (auto simp: blank_def)

lemma block_comment_closed:
  "\<not> sublist ''*/'' (b @ ''*'') \<Longrightarrow> PP_Text.block_comment (b @ ''*/'' @ s) = (map blank (b @ ''*/''), s)"
  by (induction b) (auto simp: blank_def sublist_Cons_right neq_Nil_conv prefix_Cons hd_append split: if_splits)

lemma block_comment_open: "\<not> sublist ''*/'' b \<Longrightarrow> PP_Text.block_comment b = (map blank b, [])"
  by (induction b) (auto simp: blank_def sublist_Cons_right neq_Nil_conv)

lemma strip_line:
  assumes "newline \<notin> set b" and "s = [] \<or> hd s = newline"
  shows "strip_loop False (''//'' @ b @ s) = map blank (''//'' @ b) @ strip_loop False s"
proof -
  have "takeWhile (\<lambda>d. d \<noteq> newline) (b @ s) = b" "dropWhile (\<lambda>d. d \<noteq> newline) (b @ s) = s"
    using assms by (cases s; auto simp: takeWhile_append dropWhile_append)+
  then show ?thesis using assms(1) by (simp add: map_blank_line blank_def)
qed

lemma blanks_to_strip: "blanks_to s t \<Longrightarrow> strip_loop False s = t"
proof (induction rule: blanks_to.induct)
  case (plain c s t)
  then show ?case by (auto simp: neq_Nil_conv)
next
  case (literal b s t)
  then show ?case by (simp add: strip_body)
next
  case (open_literal b e)
  then show ?case by (simp add: strip_open)
next
  case (line_comment b s t)
  then show ?case using strip_line by metis
next
  case (block_comment b s t)
  then show ?case using block_comment_closed [of b s] by (simp add: blank_def)
next
  case (open_block_comment b)
  then show ?case using block_comment_open [of b] by (simp add: blank_def)
qed simp

lemma first_sublist:
  assumes "sublist ''*/'' s"
  obtains b r where "s = b @ ''*/'' @ r" "\<not> sublist ''*/'' (b @ ''*'')"
  using assms
proof (induction s arbitrary: thesis)
  case (Cons c s)
  show ?case
  proof (cases "prefix ''*/'' (c # s)")
    case True
    then show ?thesis using Cons(2) [of "[]"] by (auto simp: prefix_def sublist_Cons_right)
  next
    case False
    then have "sublist ''*/'' s" using Cons(3) by (auto simp: sublist_Cons_right)
    from Cons(1) [OF _ this] obtain b r where br: "s = b @ ''*/'' @ r" "\<not> sublist ''*/'' (b @ ''*'')" by blast
    have "\<not> sublist ''*/'' ((c # b) @ ''*'')"
      using br False by (cases b) (auto simp: sublist_Cons_right)
    then show ?thesis using Cons(2) [of "c # b" r] br by simp
  qed
qed simp

lemma blanks_to_total: "\<exists>t. blanks_to s t"
proof (induction s rule: length_induct)
  case (1 s)
  consider "s = []" | u where "s = quote # u" | u where "s = ''//'' @ u" | u where "s = ''/*'' @ u"
    | c u where "s = c # u" "c \<noteq> quote" "\<not> prefix ''//'' s" "\<not> prefix ''/*'' s"
    by (cases s) (auto simp: prefix_def)
  then show ?case
  proof cases
    case 2
    show ?thesis
    proof (cases u rule: literal_cases)
      case (closed b r)
      then have "length r < length s" using 2 by simp
      then obtain t where "blanks_to r t" using 1 by blast
      then show ?thesis using closed 2 blanks_to.literal by blast
    next
      case (unclosed b e)
      then show ?thesis using 2 blanks_to.open_literal by blast
    qed
  next
    case 3
    let ?b = "takeWhile (\<lambda>d. d \<noteq> newline) u" and ?r = "dropWhile (\<lambda>d. d \<noteq> newline) u"
    have "length ?r < length s" using 3 length_dropWhile_le [of _ u] by (simp add: le_imp_less_Suc le_SucI)
    then obtain t where "blanks_to ?r t" using 1 by blast
    then have "blanks_to (''//'' @ ?b @ ?r) (map blank (''//'' @ ?b) @ t)"
      by (intro blanks_to.line_comment) (use hd_dropWhile [of "\<lambda>d. d \<noteq> newline" u] in \<open>auto dest: set_takeWhileD\<close>)
    then show ?thesis using 3 by auto
  next
    case 4
    show ?thesis
    proof (cases "sublist ''*/'' u")
      case True
      then obtain b r where br: "u = b @ ''*/'' @ r" "\<not> sublist ''*/'' (b @ ''*'')" by (rule first_sublist)
      then have "length r < length s" using 4 by simp
      then obtain t where "blanks_to r t" using 1 by blast
      then show ?thesis using br 4 blanks_to.block_comment by metis
    next
      case False
      then show ?thesis using 4 blanks_to.open_block_comment by blast
    qed
  next
    case 5
    then obtain t where "blanks_to u t" using 1 by auto
    then show ?thesis using 5 blanks_to.plain by metis
  qed (auto intro: blanks_to.text_end)
qed

lemma blanks_to_iff: "blanks_to s t = (t = strip_loop False s)"
  using blanks_to_total [of s] blanks_to_strip [of s] by auto

text \<open>What is left: a text without comments, in which the same characters are outside strings.\<close>

inductive comment_free :: "string \<Rightarrow> bool" where
  "comment_free []"
| "c \<noteq> quote \<Longrightarrow> \<not> prefix ''//'' (c # s) \<Longrightarrow> \<not> prefix ''/*'' (c # s) \<Longrightarrow> comment_free s \<Longrightarrow> comment_free (c # s)"
| "string_body b \<Longrightarrow> comment_free s \<Longrightarrow> comment_free (quote # b @ quote # s)"
| "string_body b \<Longrightarrow> e = [] \<or> e = [backslash] \<Longrightarrow> comment_free (quote # b @ e)"

lemma comment_free_blanks: "comment_free s \<Longrightarrow> comment_free (map blank b @ s)"
  by (induction b) (auto intro!: comment_free.intros simp: blank_def)

definition blanked :: "char \<Rightarrow> char \<Rightarrow> bool" where
  "blanked d c \<longleftrightarrow> d = c \<or> d = blank c"

lemma blanked_blank: "list_all2 blanked t s \<Longrightarrow> list_all2 blanked (map blank b @ t) (b @ s)"
  by (induction b) (simp_all add: blanked_def)

lemma blanked_same: "list_all2 blanked t s \<Longrightarrow> list_all2 blanked (b @ t) (b @ s)"
  by (induction b) (simp_all add: blanked_def)

lemma blanks_to_shape: "blanks_to s t \<Longrightarrow> list_all2 blanked t s \<and> comment_free t"
proof (induction rule: blanks_to.induct)
  case (plain c s t)
  have "\<not> prefix ''//'' (c # t)" "\<not> prefix ''/*'' (c # t)"
    using plain by (cases s; cases t; auto simp: blanked_def blank_def split: if_splits)+
  then show ?case using plain by (auto simp: blanked_def intro: comment_free.intros)
next
  case (literal b s t)
  then show ?case
    using blanked_same [of t s "quote # b @ [quote]"] by (auto intro: comment_free.intros)
next
  case (open_literal b e)
  then show ?case
    using blanked_same [of "[]" "[]" "quote # b @ e"] by (auto intro: comment_free.intros)
next
  case (line_comment b s t)
  then show ?case
    using blanked_blank [of t s "''//'' @ b"] comment_free_blanks [of t "''//'' @ b"] by simp
next
  case (block_comment b s t)
  then show ?case
    using blanked_blank [of t s "''/*'' @ b @ ''*/''"] comment_free_blanks [of t "''/*'' @ b @ ''*/''"] by simp
next
  case (open_block_comment b)
  then show ?case
    using blanked_blank [of "[]" "[]" "''/*'' @ b"] comment_free_blanks [of "[]" "''/*'' @ b"]
    by (simp add: comment_free.intros)
qed (auto intro: comment_free.intros)

text \<open>
  C38. Comments are blanked in place. The result is the one text that \<open>blanks_to\<close>, a grammar of string
  literals, line comments and block comments that is independent of the scanner, allows: literals and
  code stay as they are, every character of a comment becomes a space and its line breaks stay, so that
  line numbers and columns stay what they were. No comment is left outside a string literal.
\<close>

theorem comments_blanked:
  "blanks_to s t = (t = strip_comments s) \<and> comment_free (strip_comments s) \<and>
    list_all2 blanked (strip_comments s) s"
  using blanks_to_iff [of s] blanks_to_shape [of s "strip_comments s"] by (simp add: strip_comments_def)

section \<open>Lists of arguments\<close>

definition opens :: "char \<Rightarrow> bool" where
  "opens c \<longleftrightarrow> c \<in> {CHR ''('', CHR ''['', CHR ''{''}"

definition closes :: "char \<Rightarrow> bool" where
  "closes c \<longleftrightarrow> c \<in> {CHR '')'', CHR '']'', CHR ''}''}"

lemma opens_not_closes: "opens c \<Longrightarrow> \<not> closes c"
  by (auto simp: opens_def closes_def)

lemma quote_no_bracket [simp]: "\<not> opens quote" "\<not> closes quote"
  by (simp_all add: opens_def closes_def)

text \<open>
  The texts that end outside a string literal, with the number of brackets they open less the number
  they close outside literals.
\<close>

inductive code_text :: "string \<Rightarrow> int \<Rightarrow> bool" where
  code_end: "code_text [] 0"
| code_open: "opens c \<Longrightarrow> code_text p n \<Longrightarrow> code_text (c # p) (n + 1)"
| code_close: "closes c \<Longrightarrow> code_text p n \<Longrightarrow> code_text (c # p) (n - 1)"
| code_char: "\<not> opens c \<Longrightarrow> \<not> closes c \<Longrightarrow> c \<noteq> quote \<Longrightarrow> code_text p n \<Longrightarrow> code_text (c # p) n"
| code_literal: "string_body b \<Longrightarrow> code_text p n \<Longrightarrow> code_text (quote # b @ quote # p) n"

inductive_simps code_text_Nil: "code_text [] n"
inductive_cases code_text_ConsE: "code_text (c # p) n"

lemma code_text_Cons:
  "c \<noteq> quote \<Longrightarrow> code_text (c # p) n =
    code_text p (if opens c then n - 1 else if closes c then n + 1 else n)"
  using code_open [of c p "n - 1"] code_close [of c p "n + 1"] code_char [of c p n]
  by (auto elim!: code_text_ConsE dest: opens_not_closes)

inductive_cases string_body_quoteE: "string_body (quote # b)"

lemma literal_unique:
  "string_body b \<Longrightarrow> string_body b' \<Longrightarrow> b @ quote # r = b' @ quote # r' \<Longrightarrow> b = b' \<and> r = r'"
proof (induction arbitrary: b' rule: string_body.induct)
  case body_end
  then show ?case by (cases b') (auto elim: string_body_quoteE)
next
  case (body_escape b c)
  from body_escape.prems show ?case
  proof (cases rule: string_body.cases)
    case (body_escape b'' c')
    then show ?thesis using body_escape.prems body_escape.IH [of b''] by simp
  qed (use body_escape.prems in simp_all)
next
  case (body_char c b)
  from body_char.prems show ?case
  proof (cases rule: string_body.cases)
    case (body_char c' b'')
    then show ?thesis using body_char.prems body_char.IH [of b''] by simp
  qed (use body_char.prems body_char.hyps in simp_all)
qed

lemma literal_not_open:
  "string_body b \<Longrightarrow> string_body b' \<Longrightarrow> e = [] \<or> e = [backslash] \<Longrightarrow> b @ quote # r \<noteq> b' @ e"
proof (induction arbitrary: b' rule: string_body.induct)
  case body_end
  then show ?case by (cases b') (auto elim: string_body_quoteE)
next
  case (body_escape b c)
  from body_escape.prems(1) show ?case
  proof (cases rule: string_body.cases)
    case (body_escape b'' c')
    then show ?thesis using body_escape.prems body_escape.IH [of b''] by simp
  qed (use body_escape.prems in auto)
next
  case (body_char c b)
  from body_char.prems(1) show ?case
  proof (cases rule: string_body.cases)
    case (body_char c' b'')
    then show ?thesis using body_char.prems body_char.IH [of b''] by simp
  qed (use body_char.prems body_char.hyps in auto)
qed

text \<open>The places of the separators behind which the brackets read before, \<open>d\<close> of them open, are closed.\<close>

definition cuts :: "char \<Rightarrow> int \<Rightarrow> string \<Rightarrow> string set" where
  "cuts sep d s = {p. sep \<noteq> quote \<and> \<not> opens sep \<and> \<not> closes sep \<and> code_text p (- d) \<and> (\<exists>q. s = p @ sep # q)}"

lemma cuts_Nil: "cuts sep d [] = {}"
  by (simp add: cuts_def)

lemma cuts_Cons:
  assumes "c \<noteq> quote"
  shows "cuts sep d (c # s) =
    (if c = sep \<and> d = 0 \<and> \<not> opens c \<and> \<not> closes c then {[]} else {}) \<union>
    Cons c ` cuts sep (if opens c then d + 1 else if closes c then d - 1 else d) s"
    (is "_ = ?A \<union> Cons c ` cuts sep ?d s")
proof (intro set_eqI)
  fix p
  show "p \<in> cuts sep d (c # s) \<longleftrightarrow> p \<in> ?A \<union> Cons c ` cuts sep ?d s"
  proof (cases p)
    case Nil
    then show ?thesis using assms by (auto simp: cuts_def code_text_Nil)
  next
    case (Cons e p')
    have "code_text (c # p') (- d) = code_text p' (- ?d)"
      using code_text_Cons [OF assms, of p' "- d"] by (auto split: if_splits)
    then show ?thesis using Cons by (auto simp: cuts_def)
  qed
qed

lemma code_text_quote:
  "code_text (quote # p) n \<Longrightarrow> \<exists>b r. p = b @ quote # r \<and> string_body b \<and> code_text r n"
  by (erule code_text_ConsE) (simp_all, blast)

lemma cuts_literal:
  assumes "string_body b"
  shows "cuts sep d (quote # b @ quote # s) = (\<lambda>p. quote # b @ quote # p) ` cuts sep d s"
proof (intro set_eqI iffI)
  fix p assume "p \<in> cuts sep d (quote # b @ quote # s)"
  then obtain q where sep: "sep \<noteq> quote" "\<not> opens sep" "\<not> closes sep" "code_text p (- d)"
    and q: "quote # b @ quote # s = p @ sep # q" unfolding cuts_def by blast
  then obtain p' where p': "p = quote # p'" by (cases p) simp_all
  from code_text_quote [OF sep(4) [unfolded p']] obtain b' r where
    b': "p' = b' @ quote # r" "string_body b'" "code_text r (- d)" by blast
  then have "b @ quote # s = b' @ quote # (r @ sep # q)" using q p' by simp
  then have "b = b' \<and> s = r @ sep # q" by (rule literal_unique [OF assms b'(2)])
  then show "p \<in> (\<lambda>p. quote # b @ quote # p) ` cuts sep d s"
    using sep b' p' unfolding cuts_def by blast
next
  fix p assume "p \<in> (\<lambda>p. quote # b @ quote # p) ` cuts sep d s"
  then show "p \<in> cuts sep d (quote # b @ quote # s)"
    unfolding cuts_def using code_literal [OF assms] by fastforce
qed

lemma cuts_open:
  assumes "string_body b" and "e = [] \<or> e = [backslash]"
  shows "cuts sep d (quote # b @ e) = {}"
proof -
  have False if sep: "sep \<noteq> quote" "code_text p (- d)" and q: "quote # b @ e = p @ sep # q" for p q
  proof -
    obtain p' where p': "p = quote # p'" using q sep(1) by (cases p) simp_all
    from code_text_quote [OF sep(2) [unfolded p']] obtain b' r where
      b': "p' = b' @ quote # r" "string_body b'" by blast
    then have "b' @ quote # (r @ sep # q) = b @ e" using q p' by simp
    then show False using literal_not_open [OF b'(2) assms] by blast
  qed
  then show ?thesis unfolding cuts_def by blast
qed

text \<open>The texts in front of the joints of a joined list.\<close>

definition joints :: "char \<Rightarrow> string list \<Rightarrow> string set" where
  "joints sep ps = {join_on sep (take i ps) |i. 0 < i \<and> i < length ps}"

lemma join_on_Cons: "ls \<noteq> [] \<Longrightarrow> join_on sep (l # ls) = l @ sep # join_on sep ls"
  by (cases ls) simp_all

lemma joints_single: "joints sep [l] = {}"
  by (simp add: joints_def)

lemma joints_Cons:
  assumes "ls \<noteq> []"
  shows "joints sep (l # ls) = insert l ((\<lambda>p. l @ sep # p) ` joints sep ls)"
proof (intro set_eqI iffI)
  fix p assume "p \<in> joints sep (l # ls)"
  then obtain i where i: "0 < i" "i < Suc (length ls)" "p = join_on sep (take i (l # ls))" by (auto simp: joints_def)
  show "p \<in> insert l ((\<lambda>p. l @ sep # p) ` joints sep ls)"
  proof (cases "i = 1")
    case False
    then obtain j where j: "i = Suc j" "0 < j" using i(1) by (cases i) auto
    then have "p = l @ sep # join_on sep (take j ls)" using i assms by (simp add: join_on_Cons)
    then show ?thesis using i j by (auto simp: joints_def)
  qed (use i in simp)
next
  fix p assume "p \<in> insert l ((\<lambda>p. l @ sep # p) ` joints sep ls)"
  then consider "p = l" | i where "0 < i" "i < length ls" "p = l @ sep # join_on sep (take i ls)"
    by (auto simp: joints_def)
  then show "p \<in> joints sep (l # ls)"
  proof cases
    case 1
    then show ?thesis using assms by (auto simp: joints_def intro!: exI [of _ 1])
  next
    case 2
    then show ?thesis using assms by (auto simp: joints_def join_on_Cons intro!: exI [of _ "Suc i"])
  qed
qed

text \<open>One step of the splitter outside a literal.\<close>

lemma split_step:
  "split_loop sep d False buf (c # s) =
    (if c = quote then split_loop sep d True (buf @ [c]) s
     else if opens c then split_loop sep (d + 1) False (buf @ [c]) s
     else if closes c then split_loop sep (d - 1) False (buf @ [c]) s
     else if c = sep \<and> d = 0 then buf # split_loop sep d False [] s
     else split_loop sep d False (buf @ [c]) s)"
  by (simp only: split_loop.simps if_False opens_def closes_def)

lemma split_plain:
  "c \<noteq> quote \<Longrightarrow> split_loop sep d False buf (c # s) =
    (if c = sep \<and> d = 0 \<and> \<not> opens c \<and> \<not> closes c then buf # split_loop sep d False [] s
     else split_loop sep (if opens c then d + 1 else if closes c then d - 1 else d) False (buf @ [c]) s)"
  by (cases "opens c"; cases "closes c") (simp_all only: split_step simp_thms if_True if_False)

text \<open>What a loop of the splitter makes of a text, in terms of the places it cuts at.\<close>

definition splits :: "char \<Rightarrow> int \<Rightarrow> string \<Rightarrow> string \<Rightarrow> string list \<Rightarrow> bool" where
  "splits sep d buf s ps \<longleftrightarrow>
     ps \<noteq> [] \<and> join_on sep ps = buf @ s \<and> joints sep ps = (\<lambda>p. buf @ p) ` cuts sep d s"

lemma split_body:
  "string_body b \<Longrightarrow> split_loop sep d True buf (b @ quote # s) = split_loop sep d False (buf @ b @ [quote]) s"
  by (induction arbitrary: buf rule: string_body.induct) simp_all

lemma split_open:
  "string_body b \<Longrightarrow> e = [] \<or> e = [backslash] \<Longrightarrow> split_loop sep d True buf (b @ e) = [buf @ b @ e]"
  by (induction arbitrary: buf rule: string_body.induct) auto

lemma split_loop_splits: "splits sep d buf s (split_loop sep d False buf s)"
proof (induction s arbitrary: d buf rule: length_induct)
  case (1 s)
  consider "s = []" | b r where "s = quote # b @ quote # r" "string_body b"
    | b e where "s = quote # b @ e" "string_body b" "e = [] \<or> e = [backslash]"
    | c u where "s = c # u" "c \<noteq> quote"
  proof (cases s)
    case (Cons c u)
    then show ?thesis using that(2-4) by (cases "c = quote"; cases u rule: literal_cases) auto
  qed (rule that(1))
  then show ?case
  proof cases
    case 1
    then show ?thesis by (simp add: splits_def cuts_Nil joints_single)
  next
    case 2
    have "splits sep d (buf @ quote # b @ [quote]) r (split_loop sep d False (buf @ quote # b @ [quote]) r)"
      by (rule 1 [rule_format]) (simp add: 2)
    then show ?thesis
      by (simp add: 2 splits_def split_body cuts_literal image_image)
  next
    case 3
    then show ?thesis
      by (simp add: splits_def split_open cuts_open joints_single)
  next
    case 4
    have IH: "splits sep d' buf' u (split_loop sep d' False buf' u)" for d' buf'
      by (rule 1 [rule_format]) (simp add: 4)
    note step = split_plain [OF 4(2), of sep d buf u, folded 4(1)]
    show ?thesis
    proof (cases "c = sep \<and> d = 0 \<and> \<not> opens c \<and> \<not> closes c")
      case True
      have "split_loop sep d False buf s = buf # split_loop sep d False [] u"
        by (simp only: step if_P [OF True])
      then show ?thesis
        using IH [of d "[]"] True 4
        by (auto simp: splits_def joints_Cons join_on_Cons cuts_Cons image_image)
    next
      case False
      let ?d = "if opens c then d + 1 else if closes c then d - 1 else d"
      have "split_loop sep d False buf s = split_loop sep ?d False (buf @ [c]) u"
        by (simp only: step if_not_P [OF False])
      then show ?thesis
        using IH [of ?d "buf @ [c]"] 4 cuts_Cons [OF 4(2), of sep d u]
        unfolding splits_def if_not_P [OF False] by (simp add: image_image)
    qed
  qed
qed

text \<open>
  C39. A list of macro arguments is split at its separators and nowhere else. The parts, joined by the
  separator, are the text, and the joints are exactly the separators in front of which the text ends
  outside a string literal (escapes considered) with as many closing as opening brackets outside
  literals. (A bracket or a quote as separator would never split; the code passes a comma.)
\<close>

theorem split_args_join:
  "split_top_level s sep \<noteq> [] \<and> join_on sep (split_top_level s sep) = s \<and>
    {join_on sep (take i (split_top_level s sep)) |i. 0 < i \<and> i < length (split_top_level s sep)} =
    {p. sep \<noteq> quote \<and> \<not> opens sep \<and> \<not> closes sep \<and> code_text p 0 \<and> (\<exists>q. s = p @ sep # q)}"
  using split_loop_splits [of sep 0 "[]" s] by (simp add: split_top_level_def splits_def joints_def cuts_def)

section \<open>Includes nest boundedly\<close>

text \<open>What a recursive call must keep for its caller: the include stack and the search path.\<close>

definition same_stack :: "'p Preprocessor \<Rightarrow> 'p Preprocessor \<Rightarrow> bool" where
  "same_stack pp pp' \<longleftrightarrow> include_stack pp' = include_stack pp \<and> include_dirs pp' = include_dirs pp"

definition keeps_stack :: "'p processor \<Rightarrow> bool" where
  "keeps_stack rec \<longleftrightarrow> (\<forall>text src pp. same_stack pp (snd (rec text src pp)))"

lemma do_include_stack: "keeps_stack rec \<Longrightarrow> same_stack pp (snd (do_include rec env fname src pp))"
  unfolding do_include_def keeps_stack_def same_stack_def
  by (auto split: option.split prod.split) (metis Preprocessor.select_convs(1,3) Preprocessor.surjective Preprocessor.update_convs(3) snd_conv butlast_snoc)+

lemma handle_define_stack: "same_stack pp (handle_define rest pp)"
  by (simp add: handle_define_def same_stack_def split: prod.split)

lemma execute_stack:
  assumes "keeps_stack rec"
  shows "same_stack pp (snd (execute_directive rec env src line d rest pp))"
proof -
  have "same_stack pp (snd (case do_include rec env f src pp of (inc, pp) \<Rightarrow> (inc, pp\<lparr>current_file := src\<rparr>)))" for f
    using do_include_stack [OF assms, of pp env f src] by (simp add: same_stack_def case_prod_unfold)
  then show ?thesis
    using handle_define_stack [of pp rest]
    by (simp add: execute_directive_def split: option.split) (simp add: same_stack_def)
qed

lemma process_line_stack:
  assumes "keeps_stack rec"
  shows "same_stack pp (snd (snd (process_line rec env src line cond pp)))"
  using execute_stack [OF assms, of pp env src line]
  by (simp add: process_line_def same_stack_def case_prod_unfold split: list.split option.split)

lemma process_lines_stack:
  assumes "keeps_stack rec"
  shows "same_stack pp (snd (snd (process_lines rec env src idx ls cond pp)))"
proof (induction ls arbitrary: idx cond pp)
  case (Cons l ls)
  obtain out c p where p: "process_line rec env src l cond (pp\<lparr>current_line := idx + 1\<rparr>) = (out, c, p)" by (metis prod_cases3)
  have "same_stack pp p" using process_line_stack [OF assms, of "pp\<lparr>current_line := idx + 1\<rparr>" env src l cond] p
    by (simp add: same_stack_def)
  with Cons.IH [where pp = p and cond = c and idx = "idx + 1"] show ?case
    using p by (simp add: same_stack_def case_prod_unfold)
qed (simp add: same_stack_def)

lemma process_stack: "keeps_stack (preprocess n env)"
proof (induction n)
  case (Suc n)
  have "same_stack pp (snd (preprocess (Suc n) env t src pp))" for t src pp
    using process_lines_stack [OF Suc, of "pp\<lparr>current_file := src\<rparr>" env src 0 "split_on newline (clean_text t)" "[]"]
    by (simp add: same_stack_def case_prod_unfold)
  then show ?case by (simp add: keeps_stack_def)
qed (simp add: keeps_stack_def same_stack_def)

text \<open>A recursive call has one more file on the stack, and is not made with a full stack.\<close>

definition agree_above :: "nat \<Rightarrow> 'p processor \<Rightarrow> 'p processor \<Rightarrow> bool" where
  "agree_above n rec rec' \<longleftrightarrow> n \<ge> max_include_depth \<or>
     (\<forall>text src pp. length (include_stack pp) = Suc n \<longrightarrow> rec text src pp = rec' text src pp)"

lemma do_include_cong:
  assumes "agree_above (length (include_stack pp)) rec rec'"
  shows "do_include rec env fname src pp = do_include rec' env fname src pp"
proof (cases "length (include_stack pp) \<ge> max_include_depth")
  case False
  then have "rec t s (pp\<lparr>include_stack := include_stack pp @ [p]\<rparr>) = rec' t s (pp\<lparr>include_stack := include_stack pp @ [p]\<rparr>)" for t s p
    using assms by (simp add: agree_above_def)
  then show ?thesis by (simp add: do_include_def split: option.split)
qed (simp add: do_include_def)

lemma process_line_cong:
  assumes "agree_above (length (include_stack pp)) rec rec'"
  shows "process_line rec env src line cond pp = process_line rec' env src line cond pp"
  using do_include_cong [OF assms]
  by (simp add: process_line_def execute_directive_def split: list.split prod.split option.split)

lemma process_lines_cong:
  assumes "agree_above (length (include_stack pp)) rec rec'" and "keeps_stack rec"
  shows "process_lines rec env src idx ls cond pp = process_lines rec' env src idx ls cond pp"
  using assms(1)
proof (induction ls arbitrary: idx cond pp)
  case (Cons l ls)
  let ?p = "pp\<lparr>current_line := idx + 1\<rparr>"
  obtain out c p where p: "process_line rec env src l cond ?p = (out, c, p)" by (metis prod_cases3)
  have "include_stack p = include_stack pp"
    using process_line_stack [OF assms(2), of ?p env src l cond] p by (simp add: same_stack_def)
  moreover have "process_line rec' env src l cond ?p = (out, c, p)"
    using process_line_cong [of ?p rec rec' env src l cond] Cons.prems p by simp
  ultimately show ?case using Cons p by simp
qed simp

lemma process_agree:
  "max_include_depth \<le> length (include_stack pp) + n \<Longrightarrow> max_include_depth \<le> length (include_stack pp) + n' \<Longrightarrow>
    preprocess (Suc n) env t src pp = preprocess (Suc n') env t src pp"
proof (induction n arbitrary: n' t src pp)
  case 0
  then have "agree_above (length (include_stack (pp\<lparr>current_file := src\<rparr>))) (preprocess 0 env) (preprocess n' env)"
    by (simp add: agree_above_def)
  from process_lines_cong [OF this process_stack] show ?case by simp
next
  case (Suc n)
  have "agree_above (length (include_stack (pp\<lparr>current_file := src\<rparr>))) (preprocess (Suc n) env) (preprocess n' env)"
  proof (cases n')
    case 0
    then show ?thesis using Suc.prems by (simp add: agree_above_def)
  next
    case (Suc m)
    have "preprocess (Suc n) env t s p = preprocess (Suc m) env t s p" if "length (include_stack p) = Suc (length (include_stack pp))" for t s p
      by (rule Suc.IH) (use Suc.prems Suc that in simp_all)
    then show ?thesis by (simp add: agree_above_def Suc)
  qed
  from process_lines_cong [OF this process_stack] show ?case by simp
qed

text \<open>
  C37. Preprocessing ends. Whatever the files include, the recursion of \<open>preprocess\<close> through includes is
  bounded: any bound that covers the rest of the include stack up to the limit gives the result of
  \<open>process_source\<close>, so the bound of the model is never what ends the recursion. The include stack
  and the search path are as before afterwards.
\<close>

theorem includes_bounded:
  assumes "max_include_depth \<le> length (include_stack pp) + n"
  shows "preprocess (Suc n) env text src pp = process_source env text src pp \<and>
    include_stack (snd (process_source env text src pp)) = include_stack pp \<and>
    include_dirs (snd (process_source env text src pp)) = include_dirs pp"
proof -
  have "preprocess (Suc n) env text src pp = process_source env text src pp"
    unfolding process_source_def Suc_eq_plus1 [symmetric] by (rule process_agree [OF assms]) simp
  moreover have "keeps_stack (process_source env)" unfolding process_source_def by (rule process_stack)
  ultimately show ?thesis by (simp add: keeps_stack_def same_stack_def)
qed

text \<open>A file that includes itself, and a stack that is already full.\<close>

definition include_a :: string where
  "include_a = ''`include '' @ [quote] @ ''a'' @ [quote]"

definition self_env :: "nat Env" where
  "self_env = \<lparr>path_of = (\<lambda>_. 0), parent_of = (\<lambda>_. None), join_path = (\<lambda>p _. p), is_file = (\<lambda>_. True),
     read_file = (\<lambda>_. Some include_a), display_path = (\<lambda>_. ''a'')\<rparr>"

theorem includes_bounded_witness:
  "preprocess (Suc 0) self_env include_a ''a'' ((new_preprocessor [0])\<lparr>include_stack := replicate 64 0\<rparr>) =
    process_source self_env include_a ''a'' ((new_preprocessor [0])\<lparr>include_stack := replicate 64 0\<rparr>)"
  using includes_bounded [of "(new_preprocessor [0])\<lparr>include_stack := replicate 64 0\<rparr>" 0 self_env include_a "''a''"]
  by (simp only: max_include_depth_def) simp

section \<open>Conditional compilation\<close>

text \<open>
  The structure of a text with conditionals: lines without directives or macros, and chains of
  \<open>`ifdef\<close> or \<open>`ifndef\<close> (the flag), \<open>`elsif\<close> and \<open>`else\<close>, nested to any depth, each followed by more text.
\<close>

datatype Src = Done | Plain string Src | Chain bool string Src Branches Src
  and Branches = NoMore | Otherwise Src | OrIf string Src Branches

primrec source_lines :: "Src \<Rightarrow> string list" and branch_lines :: "Branches \<Rightarrow> string list" where
  "source_lines Done = []"
| "source_lines (Plain l s) = l # source_lines s"
| "source_lines (Chain b n s r k) =
     ((if b then ''`ifdef '' else ''`ifndef '') @ n) # source_lines s @ branch_lines r @ source_lines k"
| "branch_lines NoMore = [''`endif'']"
| "branch_lines (Otherwise s) = ''`else'' # source_lines s @ [''`endif'']"
| "branch_lines (OrIf n s r) = (''`elsif '' @ n) # source_lines s @ branch_lines r"

text \<open>
  What should be left, for the set of defined names: of each chain the first branch whose condition
  holds, if the text around it is left. The flag says whether a text is left, or whether a branch of
  a chain still can be. Every other line is blank.
\<close>

primrec selected :: "string set \<Rightarrow> bool \<Rightarrow> Src \<Rightarrow> string list" and selected_branches :: "string set \<Rightarrow> bool \<Rightarrow> Branches \<Rightarrow> string list" where
  "selected D a Done = []"
| "selected D a (Plain l s) = (if a then l else []) # selected D a s"
| "selected D a (Chain b n s r k) =
     [] # selected D (a \<and> (n \<in> D) = b) s @ selected_branches D (a \<and> (n \<in> D) \<noteq> b) r @ selected D a k"
| "selected_branches D a NoMore = [[]]"
| "selected_branches D a (Otherwise s) = [] # selected D a s @ [[]]"
| "selected_branches D a (OrIf n s r) = [] # selected D (a \<and> n \<in> D) s @ selected_branches D (a \<and> n \<notin> D) r"

text \<open>Names are words, and plain lines use no macro.\<close>

definition word :: "string \<Rightarrow> bool" where
  "word n \<longleftrightarrow> list_all (\<lambda>c. \<not> is_whitespace c) n"

primrec plain_src :: "Src \<Rightarrow> bool" and plain_branches :: "Branches \<Rightarrow> bool" where
  "plain_src Done = True"
| "plain_src (Plain l s) = (tick \<notin> set l \<and> plain_src s)"
| "plain_src (Chain b n s r k) = (word n \<and> plain_src s \<and> plain_branches r \<and> plain_src k)"
| "plain_branches NoMore = True"
| "plain_branches (Otherwise s) = plain_src s"
| "plain_branches (OrIf n s r) = (word n \<and> plain_src s \<and> plain_branches r)"

lemma expand_plain: "tick \<notin> set l \<Longrightarrow> expand_loop pp d b l = l"
proof (induction l arbitrary: b)
  case (Cons c l)
  then have "c \<noteq> tick" by auto
  then show ?case using Cons by simp
qed simp

lemma plain_line:
  assumes "tick \<notin> set l"
  shows "process_line rec env src l cond pp = (if emitting cond then l else [], cond, pp)"
proof -
  have "c \<noteq> tick" if "trim_start l = c # s" for c s
    using that assms set_dropWhileD [of c is_whitespace l] unfolding trim_start_def by force
  then show ?thesis
    using expand_plain [OF assms] by (auto simp: process_line_def expand_text_def max_expand_depth_def split: list.split)
qed

lemma word_token: "word n \<Longrightarrow> first_token (CHR '' '' # n) = n"
  using dropWhile_none [of n is_whitespace] takeWhile_eq_all_conv [of "\<lambda>c. \<not> is_whitespace c" n]
  by (simp add: first_token_def trim_start_def word_def list_all_iff is_whitespace_def code_def)

lemma directive_line:
  assumes "split_directive l = (d, rest)" and "branch_directive d rest (macros pp) cond = Some cond'"
  shows "process_line rec env src (tick # l) cond pp = ([], cond', pp)"
proof -
  have "trim_start (tick # l) = tick # l" by (simp add: trim_start_def is_whitespace_def code_def)
  then show ?thesis using assms by (simp add: process_line_def)
qed

lemma directive_words:
  "split_directive (''ifdef '' @ n) = (''ifdef'', CHR '' '' # n)" "split_directive (''ifndef '' @ n) = (''ifndef'', CHR '' '' # n)"
  "split_directive (''elsif '' @ n) = (''elsif'', CHR '' '' # n)" "split_directive ''else'' = (''else'', [])"
  "split_directive ''endif'' = (''endif'', [])"
  by (simp_all add: split_directive_def take_ident_def is_ident_start_def is_ident_cont_def is_digit_def code_def)

lemma endif_line: "process_line rec env src ''`endif'' (c # cond) pp = ([], cond, pp)"
  by (rule directive_line [OF directive_words(5)]) (simp add: branch_directive_def)

lemma process_lines_append:
  "process_lines rec env src i (l1 @ l2) c pp =
     (let (o1, c, pp) = process_lines rec env src i l1 c pp; (o2, c, pp) = process_lines rec env src (i + length l1) l2 c pp
      in (o1 @ o2, c, pp))"
  by (induction l1 arbitrary: i c pp) (simp_all add: case_prod_unfold)

text \<open>One line and the rest, up to the line number.\<close>

lemma process_lines_step:
  assumes "\<And>j. process_line rec env src l cond (pp\<lparr>current_line := j\<rparr>) = (out, cond', pp\<lparr>current_line := j\<rparr>)"
    and "\<And>i pp. macros pp = macros p0 \<Longrightarrow> \<exists>j. process_lines rec env src i ls cond' pp = (outs, cond2, pp\<lparr>current_line := j\<rparr>)"
    and "macros pp = macros p0"
  shows "\<exists>j. process_lines rec env src i (l # ls) cond pp = (out # outs, cond2, pp\<lparr>current_line := j\<rparr>)"
  using assms(2) [of "pp\<lparr>current_line := i + 1\<rparr>" "i + 1"] assms(1,3) by auto

lemma process_lines_then:
  assumes "\<And>i pp. macros pp = macros p0 \<Longrightarrow> \<exists>j. process_lines rec env src i l1 cond pp = (o1, cond', pp\<lparr>current_line := j\<rparr>)"
    and "\<And>i pp. macros pp = macros p0 \<Longrightarrow> \<exists>j. process_lines rec env src i l2 cond' pp = (o2, cond2, pp\<lparr>current_line := j\<rparr>)"
    and "macros pp = macros p0"
  shows "\<exists>j. process_lines rec env src i (l1 @ l2) cond pp = (o1 @ o2, cond2, pp\<lparr>current_line := j\<rparr>)"
proof -
  obtain j where j: "process_lines rec env src i l1 cond pp = (o1, cond', pp\<lparr>current_line := j\<rparr>)"
    using assms(1) [OF assms(3)] by blast
  obtain j' where "process_lines rec env src (i + length l1) l2 cond' (pp\<lparr>current_line := j\<rparr>) = (o2, cond2, pp\<lparr>current_line := j'\<rparr>)"
    using assms(2) [of "pp\<lparr>current_line := j\<rparr>" "i + length l1"] assms(3) by auto
  with j show ?thesis by (intro exI [of _ j']) (simp add: process_lines_append)
qed

lemma same_line: "\<exists>j. pp = pp\<lparr>current_line := j\<rparr>"
  by (rule exI [of _ "current_line pp"]) simp

lemma conditionals:
  "plain_src s \<Longrightarrow> macros pp = macros p0 \<Longrightarrow>
    \<exists>j. process_lines rec env src i (source_lines s) cond pp =
      (selected (dom (macros p0)) (emitting cond) s, cond, pp\<lparr>current_line := j\<rparr>)"
  "plain_branches r \<Longrightarrow> macros pp = macros p0 \<Longrightarrow>
    \<exists>j. process_lines rec env src i (branch_lines r) (c # cond) pp =
      (selected_branches (dom (macros p0)) (parent_active c \<and> \<not> taken c) r, cond, pp\<lparr>current_line := j\<rparr>)"
proof (induction s and r arbitrary: i cond pp and i c cond pp)
  case Done
  show ?case using same_line by simp
next
  case (Plain l s)
  then show ?case unfolding source_lines.simps selected.simps
    by (intro process_lines_step) (simp_all add: plain_line)
next
  case (Chain b n s r k)
  define want where "want = ((n \<in> dom (macros p0)) = b)"
  define t where "t = \<lparr>parent_active = emitting cond, taken = want, c_active = emitting cond \<and> want\<rparr>"
  have w: "first_token (CHR '' '' # n) = n" using Chain.prems(1) by (simp add: word_token)
  have line: "process_line rec env src ((if b then ''`ifdef '' else ''`ifndef '') @ n) cond (pp\<lparr>current_line := j\<rparr>) =
      ([], t # cond, pp\<lparr>current_line := j\<rparr>)" for j
    using Chain.prems(2) directive_words(1,2) [of n]
      directive_line [of "(if b then ''ifdef '' else ''ifndef '') @ n" "if b then ''ifdef'' else ''ifndef''" "CHR '' '' # n"
        "pp\<lparr>current_line := j\<rparr>" cond "t # cond" rec env src]
    by (cases b) (auto simp: branch_directive_def w t_def want_def domIff)
  have "\<exists>j. process_lines rec env src i (source_lines s @ branch_lines r @ source_lines k) (t # cond) pp =
      (selected (dom (macros p0)) (emitting cond \<and> want) s @ selected_branches (dom (macros p0)) (emitting cond \<and> \<not> want) r @
        selected (dom (macros p0)) (emitting cond) k, cond, pp\<lparr>current_line := j\<rparr>)" if "macros pp = macros p0" for i and pp :: "'a Preprocessor"
  proof (rule process_lines_then [OF _ _ that])
    show "\<exists>j. process_lines rec env src i (source_lines s) (t # cond) pp =
        (selected (dom (macros p0)) (emitting cond \<and> want) s, t # cond, pp\<lparr>current_line := j\<rparr>)"
      if "macros pp = macros p0" for i and pp :: "'a Preprocessor"
      using Chain.IH(1) [OF _ that, of i "t # cond"] Chain.prems(1) by (simp add: emitting_def t_def)
    show "\<exists>j. process_lines rec env src i (branch_lines r @ source_lines k) (t # cond) pp =
        (selected_branches (dom (macros p0)) (emitting cond \<and> \<not> want) r @ selected (dom (macros p0)) (emitting cond) k, cond,
          pp\<lparr>current_line := j\<rparr>)" if "macros pp = macros p0" for i and pp :: "'a Preprocessor"
      using Chain.IH(2) [where c = t and cond = cond] Chain.IH(3) [where cond = cond] Chain.prems(1)
      by (intro process_lines_then [OF _ _ that]) (simp_all add: t_def)
  qed
  from process_lines_step [OF line this Chain.prems(2)] show ?case by (simp add: want_def)
next
  case NoMore
  show ?case unfolding branch_lines.simps selected_branches.simps
    by (rule process_lines_step [where ?p0.0 = p0 and cond' = cond])
      (use NoMore same_line endif_line in \<open>simp_all\<close>)
next
  case (Otherwise s)
  define t where "t = c\<lparr>c_active := parent_active c \<and> \<not> taken c, taken := taken c \<or> parent_active c\<rparr>"
  have line: "process_line rec env src ''`else'' (c # cond) (pp\<lparr>current_line := j\<rparr>) = ([], t # cond, pp\<lparr>current_line := j\<rparr>)" for j
    by (rule directive_line [OF directive_words(4)]) (auto simp: branch_directive_def t_def)
  have "\<exists>j. process_lines rec env src i (source_lines s @ [''`endif'']) (t # cond) pp =
      (selected (dom (macros p0)) (parent_active c \<and> \<not> taken c) s @ [[]], cond, pp\<lparr>current_line := j\<rparr>)"
    if "macros pp = macros p0" for i and pp :: "'a Preprocessor"
  proof (rule process_lines_then [OF _ _ that])
    show "\<exists>j. process_lines rec env src i (source_lines s) (t # cond) pp =
        (selected (dom (macros p0)) (parent_active c \<and> \<not> taken c) s, t # cond, pp\<lparr>current_line := j\<rparr>)"
      if "macros pp = macros p0" for i and pp :: "'a Preprocessor"
      using Otherwise.IH [OF _ that, of i "t # cond"] Otherwise.prems(1) by (simp add: emitting_def t_def)
    show "\<exists>j. process_lines rec env src i [''`endif''] (t # cond) pp = ([[]], cond, pp\<lparr>current_line := j\<rparr>)"
      if "macros pp = macros p0" for i and pp :: "'a Preprocessor"
      by (rule process_lines_step [where ?p0.0 = p0 and cond' = cond])
        (use that same_line endif_line in \<open>simp_all\<close>)
  qed
  from process_lines_step [OF line this Otherwise.prems(2)] show ?case by simp
next
  case (OrIf n s r)
  define d where "d = (n \<in> dom (macros p0))"
  define t where "t = c\<lparr>c_active := parent_active c \<and> \<not> taken c \<and> d, taken := taken c \<or> parent_active c \<and> d\<rparr>"
  have w: "first_token (CHR '' '' # n) = n" using OrIf.prems(1) by (simp add: word_token)
  have line: "process_line rec env src (''`elsif '' @ n) (c # cond) (pp\<lparr>current_line := j\<rparr>) = ([], t # cond, pp\<lparr>current_line := j\<rparr>)" for j
  proof -
    have "branch_directive ''elsif'' (CHR '' '' # n) (macros (pp\<lparr>current_line := j\<rparr>)) (c # cond) = Some (t # cond)"
      using OrIf.prems(2) by (cases c) (auto simp: branch_directive_def t_def d_def w domIff)
    from directive_line [OF directive_words(3) this] show ?thesis by simp
  qed
  have "\<exists>j. process_lines rec env src i (source_lines s @ branch_lines r) (t # cond) pp =
      (selected (dom (macros p0)) (parent_active c \<and> \<not> taken c \<and> d) s @
        selected_branches (dom (macros p0)) (parent_active c \<and> \<not> taken c \<and> \<not> d) r, cond, pp\<lparr>current_line := j\<rparr>)"
    if "macros pp = macros p0" for i and pp :: "'a Preprocessor"
  proof (rule process_lines_then [OF _ _ that])
    show "\<exists>j. process_lines rec env src i (source_lines s) (t # cond) pp =
        (selected (dom (macros p0)) (parent_active c \<and> \<not> taken c \<and> d) s, t # cond, pp\<lparr>current_line := j\<rparr>)"
      if "macros pp = macros p0" for i and pp :: "'a Preprocessor"
      using OrIf.IH(1) [OF _ that, of i "t # cond"] OrIf.prems(1) by (simp add: emitting_def t_def)
    have "(parent_active t \<and> \<not> taken t) = (parent_active c \<and> \<not> taken c \<and> \<not> d)" by (auto simp: t_def)
    then show "\<exists>j. process_lines rec env src i (branch_lines r) (t # cond) pp =
        (selected_branches (dom (macros p0)) (parent_active c \<and> \<not> taken c \<and> \<not> d) r, cond, pp\<lparr>current_line := j\<rparr>)"
      if "macros pp = macros p0" for i and pp :: "'a Preprocessor"
      using OrIf.IH(2) [OF _ that, of i t cond] OrIf.prems(1) by simp
  qed
  from process_lines_step [OF line this OrIf.prems(2)] show ?case by (simp add: d_def conj_assoc)
qed

text \<open>
  C36. Conditional compilation selects the right text. On the lines of any text with nested chains of
  conditionals, the loop of \<open>preprocess\<close> with its stack of flags gives what the structure of the text
  prescribes: of each chain the first branch whose condition holds for the macros defined, nothing
  inside a branch that is not taken, and a blank line for every other line. No macro changes, and
  the stack is as before.
\<close>

theorem conditionals_select:
  assumes "plain_src s"
  shows "\<exists>j. process_lines rec env src i (source_lines s) cond pp =
    (selected (dom (macros pp)) (emitting cond) s, cond, pp\<lparr>current_line := j\<rparr>)"
  by (rule conditionals(1) [OF assms refl])

theorem conditionals_select_witness:
  "fst (process_lines (preprocess 1 self_env) self_env ''a'' 0 [''`ifdef A'', ''`ifdef B'', ''x'', ''`endif'', ''`elsif B'', ''y'', ''`endif''] []
      (define_macro ''B'' [] (new_preprocessor []))) = [[], [], [], [], [], ''y'', []]"
proof -
  let ?s = "Chain True ''A'' (Chain True ''B'' (Plain ''x'' Done) NoMore Done) (OrIf ''B'' (Plain ''y'' Done) NoMore) Done"
  have "plain_src ?s" by (simp add: word_def is_whitespace_def code_def)
  from conditionals_select [OF this, of "preprocess 1 self_env" self_env "''a''" 0 "[]" "define_macro ''B'' [] (new_preprocessor [])"]
  show ?thesis by (auto simp: define_macro_def new_preprocessor_def emitting_def)
qed

section \<open>Two deviations\<close>

text \<open>A continued line is joined before the lines are counted, so the lines behind it have lower numbers.\<close>

lemma continuation_shifts_lines:
  "split_on newline (clean_text (''a'' @ [backslash, newline] @ ''b'' @ [newline] @ ''c'')) = [''a b'', ''c'']"
  by (simp add: clean_text_def join_continuations_def strip_comments_def)

text \<open>Expansion takes an escaped quote for the end of a string, and expands a macro inside the string.\<close>

lemma escaped_quote_expands:
  "expand_loop (define_macro ''W'' ''8'' pp) 0 False [quote, backslash, quote, tick, CHR ''W'', quote] =
    [quote, backslash, quote, CHR ''8'', quote]"
  by (simp add: define_macro_def macro_call_def is_ident_start_def is_ident_cont_def is_digit_def code_def max_expand_depth_def)

end
