(* ===== verification/SimTime.thy ===== *)
theory SimTime
  imports Text_Util
begin

text \<open>
  Simulation time (\<open>crates/eevee-core/src/time.rs\<close>) and the event regions
  (\<open>crates/eevee-core/src/region.rs\<close>). A time is a number of femtoseconds in a \<open>u64\<close>; the two
  conversions through floating point (\<open>delay_to_fs\<close> and the number of \<open>parse_time_spec\<close>) are not
  modelled. The regions are ordered by their scheduling priority.
\<close>

section \<open>Time\<close>

type_synonym SimTime = nat

definition u64_max :: nat where
  "u64_max = 2 ^ 64 - 1"

definition mul_u64 :: "nat \<Rightarrow> nat \<Rightarrow> nat" where
  "mul_u64 a b = (a * b) mod 2 ^ 64"

datatype TimeUnit = Fs | Ps | Ns | Us | Ms | S

fun fs :: "TimeUnit \<Rightarrow> nat" where
  "fs Fs = 1"
| "fs Ps = 1000"
| "fs Ns = 1000000"
| "fs Us = 1000000000"
| "fs Ms = 1000000000000"
| "fs S = 1000000000000000"

definition parse_unit :: "string \<Rightarrow> TimeUnit option" where
  "parse_unit s =
     (let t = map to_ascii_lowercase (trim s)
      in if t = ''fs'' then Some Fs else if t = ''ps'' then Some Ps
         else if t = ''ns'' then Some Ns else if t = ''us'' then Some Us
         else if t = ''ms'' then Some Ms else if t = ''s'' then Some S else None)"

fun suffix_of :: "TimeUnit \<Rightarrow> string" where
  "suffix_of Fs = ''fs''"
| "suffix_of Ps = ''ps''"
| "suffix_of Ns = ''ns''"
| "suffix_of Us = ''us''"
| "suffix_of Ms = ''ms''"
| "suffix_of S = ''s''"

definition from_units :: "nat \<Rightarrow> TimeUnit \<Rightarrow> SimTime" where
  "from_units amount u = mul_u64 amount (fs u)"

definition saturating_add_fs :: "SimTime \<Rightarrow> nat \<Rightarrow> SimTime" where
  "saturating_add_fs t delta = min (t + delta) u64_max"

definition time_add :: "SimTime \<Rightarrow> SimTime \<Rightarrow> SimTime" where
  "time_add a b = (a + b) mod 2 ^ 64"

definition time_sub :: "SimTime \<Rightarrow> SimTime \<Rightarrow> SimTime" where
  "time_sub a b = (2 ^ 64 + a - b) mod 2 ^ 64"

fun display_units :: "SimTime \<Rightarrow> TimeUnit list \<Rightarrow> string" where
  "display_units t [] = show_nat t @ ''fs''"
| "display_units t (u # us) =
     (if t \<noteq> 0 \<and> t mod fs u = 0 then show_nat (t div fs u) @ suffix_of u else display_units t us)"

definition display_time :: "SimTime \<Rightarrow> string" where
  "display_time t = display_units t [S, Ms, Us, Ns, Ps]"

record Timescale =
  unit_fs :: nat
  prec_fs :: nat

definition new_timescale :: "nat \<times> TimeUnit \<Rightarrow> nat \<times> TimeUnit \<Rightarrow> Timescale" where
  "new_timescale u p =
     \<lparr>unit_fs = mul_u64 (fst u) (fs (snd u)), prec_fs = mul_u64 (fst p) (fs (snd p))\<rparr>"

definition default_timescale :: Timescale where
  "default_timescale = \<lparr>unit_fs = fs Ns, prec_fs = fs Ps\<rparr>"

section \<open>Regions\<close>

datatype Region = Preponed | Active | Inactive | Nba | Observed | Reactive | Postponed

fun priority :: "Region \<Rightarrow> nat" where
  "priority Preponed = 0"
| "priority Active = 1"
| "priority Inactive = 2"
| "priority Nba = 3"
| "priority Observed = 4"
| "priority Reactive = 5"
| "priority Postponed = 6"

definition all_regions :: "Region list" where
  "all_regions = [Preponed, Active, Inactive, Nba, Observed, Reactive, Postponed]"

fun next_region :: "Region \<Rightarrow> Region option" where
  "next_region Preponed = Some Active"
| "next_region Active = Some Inactive"
| "next_region Inactive = Some Nba"
| "next_region Nba = Some Observed"
| "next_region Observed = Some Reactive"
| "next_region Reactive = Some Postponed"
| "next_region Postponed = None"

text \<open>The derived \<open>Ord\<close> of the enum: declaration order, which is the priority.\<close>

lemma priority_inject [simp]: "priority a = priority b \<longleftrightarrow> a = b"
  by (cases a; cases b) simp_all

instantiation Region :: linorder
begin

definition less_eq_Region :: "Region \<Rightarrow> Region \<Rightarrow> bool" where
  "less_eq_Region a b \<longleftrightarrow> priority a \<le> priority b"

definition less_Region :: "Region \<Rightarrow> Region \<Rightarrow> bool" where
  "less_Region a b \<longleftrightarrow> priority a < priority b"

instance
  by standard (auto simp: less_eq_Region_def less_Region_def)

end

text \<open>\<open>next\<close> walks the regions in scheduling order, without leaving one out.\<close>

lemma next_region_priority:
  "next_region r = Some r' \<longleftrightarrow> priority r' = Suc (priority r)"
  by (cases r; cases r') simp_all

lemma all_regions_sorted: "sorted_wrt (<) all_regions \<and> set all_regions = UNIV"
proof
  show "sorted_wrt (<) all_regions" by (simp add: all_regions_def less_Region_def)
  have "r \<in> set all_regions" for r by (cases r) (simp_all add: all_regions_def)
  then show "set all_regions = UNIV" by blast
qed

section \<open>Lemmas\<close>

lemma fs_pos [simp]: "0 < fs u"
  by (cases u) simp_all

lemma saturating_add_ge: "t \<le> u64_max \<Longrightarrow> t \<le> saturating_add_fs t d"
  by (simp add: saturating_add_fs_def)

lemma saturating_add_max: "saturating_add_fs t d \<le> u64_max"
  by (simp add: saturating_add_fs_def)

lemma parse_suffix: "parse_unit (suffix_of u) = Some u"
  by (cases u) (simp_all add: parse_unit_def trim_def trim_start_def is_whitespace_def
      to_ascii_lowercase_def code_def)

fun largest_unit :: "SimTime \<Rightarrow> TimeUnit list \<Rightarrow> TimeUnit" where
  "largest_unit t [] = Fs"
| "largest_unit t (u # us) = (if t \<noteq> 0 \<and> t mod fs u = 0 then u else largest_unit t us)"

lemma display_units_largest:
  "display_units t us = show_nat (t div fs (largest_unit t us)) @ suffix_of (largest_unit t us)"
  by (induction us) simp_all

lemma largest_unit_dvd: "fs (largest_unit t us) dvd t"
  by (induction us) (auto simp: dvd_eq_mod_eq_0)

lemma largest_unit_maximal:
  assumes "sorted_wrt (\<lambda>a b. fs b < fs a) us" and "u \<in> set us" and "t \<noteq> 0" and "fs u dvd t"
  shows "fs u \<le> fs (largest_unit t us)"
  using assms by (induction us) (auto simp: dvd_eq_mod_eq_0)

section \<open>Properties\<close>

text \<open>
  C40. A printed time is exact: the number times the unit that is printed is the time, and the suffix
  is one that \<open>parse\<close> reads back as that unit. For a time other than 0 the unit is the largest one
  that keeps the number integral; time 0, which every unit divides, is printed as \<open>0fs\<close>.
\<close>

theorem display_time_exact:
  "\<exists>n u. display_time t = show_nat n @ suffix_of u \<and> n * fs u = t \<and> parse_unit (suffix_of u) = Some u \<and>
    (if t = 0 then n = 0 \<and> u = Fs else (\<forall>u'. fs u < fs u' \<longrightarrow> \<not> fs u' dvd t))"
proof (intro exI conjI)
  let ?us = "[S, Ms, Us, Ns, Ps]"
  show "display_time t = show_nat (t div fs (largest_unit t ?us)) @ suffix_of (largest_unit t ?us)"
    unfolding display_time_def by (rule display_units_largest)
  show "t div fs (largest_unit t ?us) * fs (largest_unit t ?us) = t"
    by (rule dvd_div_mult_self) (rule largest_unit_dvd)
  have "fs u' \<le> fs (largest_unit t ?us)" if "t \<noteq> 0" "fs u' dvd t" for u'
  proof (cases "u' = Fs")
    case False
    then have "u' \<in> set ?us" by (cases u') simp_all
    then show ?thesis using that by (intro largest_unit_maximal) simp_all
  next
    case True
    then show ?thesis using fs_pos [of "largest_unit t ?us"] by (simp add: Suc_le_eq)
  qed
  then have "\<forall>u'. fs (largest_unit t ?us) < fs u' \<longrightarrow> \<not> fs u' dvd t" if "t \<noteq> 0"
    using that by (meson not_le)
  then show "if t = 0 then t div fs (largest_unit t ?us) = 0 \<and> largest_unit t ?us = Fs
      else (\<forall>u'. fs (largest_unit t ?us) < fs u' \<longrightarrow> \<not> fs u' dvd t)"
    by (cases "t = 0") simp_all
qed (rule parse_suffix)

theorem display_time_exact_witness:
  "display_time 5000000 = ''5ns'' \<and> display_time 0 = ''0fs'' \<and>
    (\<exists>n u. show_nat n @ suffix_of u = ''5ns'' \<and> n * fs u = 5000000)"
proof -
  have "display_time 5000000 = ''5ns''"
    by (simp add: display_time_def show_nat.simps digit_char_def char_of_eq_iff take_bit_eq_mod)
  moreover have "display_time 0 = ''0fs''"
    using display_time_exact [of 0] by (auto simp: show_nat.simps digit_char_def char_of_eq_iff)
  ultimately show ?thesis
    using display_time_exact [of 5000000] by (metis (lifting))
qed

end
