(* ===== verification/Nets.thy ===== *)
theory Nets
  imports Logic_Arith SimTime
begin

text \<open>
  Nets, drivers and edges (\<open>crates/eevee-sched/src/net.rs\<close>) and what a process can wait for
  (\<open>crates/eevee-sched/src/process.rs\<close>). A handle (\<open>NetId\<close>, \<open>ProcId\<close>, \<open>DriverId\<close>) is an index
  into a table of the kernel, a \<open>nat\<close>. \<open>Wait\<close> is polymorphic in the type of a forked child, as
  the code's \<open>Box<dyn Process>\<close> is.
\<close>

section \<open>Handles and waits\<close>

type_synonym ProcId = nat
type_synonym NetId = nat
type_synonym DriverId = nat
type_synonym EventId = nat

datatype EdgeKind = Posedge | Negedge | AnyChange

datatype ForkJoin = All | Any | JoinNone

datatype 'p Wait =
    Finished
  | Delay nat
  | Edge NetId EdgeKind
  | Sensitivity "(NetId \<times> EdgeKind) list"
  | Cond "NetId list"
  | RuntimeCond
  | NbaWait
  | NamedEvent EventId
  | Fork "'p list" ForkJoin

section \<open>Nets\<close>

datatype NetResolution = Wire | Wand | Wor

datatype DriveStrength = HighZ | Weak | Pull | Strong | Supply

fun level :: "DriveStrength \<Rightarrow> nat" where
  "level HighZ = 0"
| "level Weak = 3"
| "level Pull = 5"
| "level Strong = 6"
| "level Supply = 7"

record DriverStrengths =
  zero_s :: DriveStrength
  one_s :: DriveStrength

definition symmetric :: "DriveStrength \<Rightarrow> DriverStrengths" where
  "symmetric s = \<lparr>zero_s = s, one_s = s\<rparr>"

text \<open>\<open>DriveDelay\<close> and \<open>NetDelay\<close> have the same three fields and the same method.\<close>

record Delays =
  rise_fs :: nat
  fall_fs :: nat
  turn_off_fs :: nat

definition transition_delay :: "Bit \<Rightarrow> Bit \<Rightarrow> nat \<Rightarrow> nat \<Rightarrow> nat \<Rightarrow> nat" where
  "transition_delay from_b to_b rise fall turn_off =
     (case to_b of
        One \<Rightarrow> rise
      | Zero \<Rightarrow> fall
      | Z \<Rightarrow> turn_off
      | X \<Rightarrow> (case from_b of
            Zero \<Rightarrow> min rise turn_off
          | One \<Rightarrow> min fall turn_off
          | Z \<Rightarrow> min rise fall
          | X \<Rightarrow> 0))"

definition for_transition :: "Delays \<Rightarrow> Bit \<Rightarrow> Bit \<Rightarrow> nat" where
  "for_transition d from_b to_b = transition_delay from_b to_b (rise_fs d) (fall_fs d) (turn_off_fs d)"

record Waiter =
  wproc :: ProcId
  wedge :: EdgeKind
  wepoch :: nat

record Net =
  nvalue :: LogicVec
  nresolution :: NetResolution
  ndelay :: "Delays option"
  delay_request :: LogicVec
  delay_generations :: "u64 list"
  driver_values :: "LogicVec list"
  driver_strengths :: "DriverStrengths list"
  waiters :: "Waiter list"
  nname :: string

definition net_with_resolution :: "string \<Rightarrow> LogicVec \<Rightarrow> NetResolution \<Rightarrow> Delays option \<Rightarrow> Net" where
  "net_with_resolution name value resolution dly =
     \<lparr>nvalue = value, nresolution = resolution, ndelay = dly, delay_request = value,
      delay_generations = replicate (width value) 0, driver_values = [], driver_strengths = [],
      waiters = [], nname = name\<rparr>"

definition waiter_count :: "Net \<Rightarrow> nat" where
  "waiter_count n = length (waiters n)"

section \<open>Edges\<close>

record Edges =
  posedge :: bool
  negedge :: bool
  changed :: bool

definition fires :: "Edges \<Rightarrow> EdgeKind \<Rightarrow> bool" where
  "fires e k = (case k of Posedge \<Rightarrow> posedge e | Negedge \<Rightarrow> negedge e | AnyChange \<Rightarrow> changed e)"

fun is_posedge :: "Bit \<Rightarrow> Bit \<Rightarrow> bool" where
  "is_posedge Zero One = True"
| "is_posedge Zero X = True"
| "is_posedge Zero Z = True"
| "is_posedge X One = True"
| "is_posedge Z One = True"
| "is_posedge _ _ = False"

fun is_negedge :: "Bit \<Rightarrow> Bit \<Rightarrow> bool" where
  "is_negedge One Zero = True"
| "is_negedge One X = True"
| "is_negedge One Z = True"
| "is_negedge X Zero = True"
| "is_negedge Z Zero = True"
| "is_negedge _ _ = False"

definition detect_edge :: "LogicVec \<Rightarrow> LogicVec \<Rightarrow> Edges" where
  "detect_edge old new =
     (let chg = (\<not> eq_case old new)
      in if \<not> chg then \<lparr>posedge = False, negedge = False, changed = False\<rparr>
         else (let b = get_bit old 0; n = get_bit new 0
               in \<lparr>posedge = is_posedge b n, negedge = is_negedge b n, changed = chg\<rparr>))"

text \<open>A transition of one bit is at most one of the two edges, and neither when the bit stays.\<close>

lemma edges_exclusive: "\<not> (is_posedge a b \<and> is_negedge a b)" "\<not> is_posedge a a" "\<not> is_negedge a a"
  by (cases a; cases b; simp)+

text \<open>Reversing a transition between 0, 1 and one unknown swaps the two edges.\<close>

lemma edge_reverse: "is_posedge a b \<longleftrightarrow> is_negedge b a"
  by (cases a; cases b) simp_all

text \<open>A net event never fires a waiter without a change of the value.\<close>

lemma fires_changed:
  assumes "wf_lv old" and "wf_lv new" and "fires (detect_edge old new) k"
  shows "old \<noteq> new"
  using assms by (auto simp: detect_edge_def fires_def split: EdgeKind.splits)

lemma changed_iff [simp]: "wf_lv old \<Longrightarrow> wf_lv new \<Longrightarrow> changed (detect_edge old new) \<longleftrightarrow> old \<noteq> new"
  by (simp add: detect_edge_def)

section \<open>Properties\<close>

text \<open>
  Edge detection. For two well-formed values, nothing fires when they are equal; when they
  differ, a level waiter fires always, a \<open>posedge\<close> waiter exactly when the least significant bit
  leaves 0 or arrives at 1, a \<open>negedge\<close> waiter exactly when it leaves 1 or arrives at 0, and
  never both.
\<close>

lemma edge_detection:
  assumes "wf_lv old" and "wf_lv new"
  shows "let e = detect_edge old new; p = get_bit old 0; q = get_bit new 0 in
    (fires e AnyChange \<longleftrightarrow> old \<noteq> new) \<and>
    (fires e Posedge \<longleftrightarrow> p \<noteq> q \<and> (p = Zero \<or> q = One)) \<and>
    (fires e Negedge \<longleftrightarrow> p \<noteq> q \<and> (p = One \<or> q = Zero)) \<and>
    \<not> (fires e Posedge \<and> fires e Negedge)"
proof (cases "old = new")
  case True
  with assms show ?thesis by (simp add: detect_edge_def fires_def)
next
  case False
  with assms show ?thesis
    by (cases "get_bit old 0"; cases "get_bit new 0") (simp_all add: detect_edge_def fires_def)
qed

lemma edge_detection_example:
  "fires (detect_edge (all_x 1) (from_u64 1 1)) Posedge \<and> \<not> fires (detect_edge (all_x 1) (from_u64 1 1)) Negedge"
  using edge_detection [of "all_x 1" "from_u64 1 1"] by (simp add: get_bit_filled get_bit_from_u64)

end
