(* ===== verification/IR_Value.thy ===== *)
theory IR_Value
  imports Logic_Arith Nets "HOL-Library.Monad_Syntax"
begin

text \<open>
  Runtime values (\<open>crates/eevee-ir/src/value.rs\<close>). A class instance, a queue and an associative
  array are shared and mutable behind \<open>Rc<RefCell<...>>\<close>: a value holds an address into a store of
  cells, so that copying a handle aliases and \<open>assignment_copy\<close> does not. The store, the static
  fields of the classes, the counter of event identities and the state of the host functions are
  what the processes of one design share; they make up a \<open>World\<close>.

  A \<open>real\<close> is kept as the 64 bits of its IEEE representation. Keys of kind \<open>Obj\<close> are ordered by
  pointer in the code; addresses, which grow with each allocation, stand for the pointers. \<open>None\<close> is
  a panic, or a recursion that does not return. Collected storage is never read, so it is not freed.
\<close>

section \<open>Values and cells\<close>

datatype AssocKey = IntKey int | StrKey string | ObjKey nat | NullKey

fun rank :: "AssocKey \<Rightarrow> nat" where
  "rank (IntKey i) = 0"
| "rank (StrKey s) = 1"
| "rank (ObjKey a) = 2"
| "rank NullKey = 3"

text \<open>Rust compares strings byte by byte.\<close>

fun str_less :: "string \<Rightarrow> string \<Rightarrow> bool" where
  "str_less s [] = False"
| "str_less [] (d # t) = True"
| "str_less (c # s) (d # t) = ((of_char c :: nat) < of_char d \<or> c = d \<and> str_less s t)"

fun key_less :: "AssocKey \<Rightarrow> AssocKey \<Rightarrow> bool" where
  "key_less (IntKey i) (IntKey j) = (i < j)"
| "key_less (StrKey s) (StrKey t) = str_less s t"
| "key_less (ObjKey a) (ObjKey b) = (a < b)"
| "key_less k l = (rank k < rank l)"

datatype Value =
    Logic LogicVec
  | Real u64
  | Str string
  | Obj nat
  | Queue nat
  | Assoc nat
  | Event EventId
  | Null

record ObjData =
  class_of :: nat
  obj_fields :: "Value list"

text \<open>A \<open>BTreeMap\<close> is the list of its entries in key order.\<close>

datatype Cell =
    ObjCell ObjData
  | QueueCell "Value list"
  | AssocCell "(AssocKey \<times> Value) list"

record World =
  cells :: "nat \<rightharpoonup> Cell"
  next_cell :: nat
  next_event :: nat
  statics :: "Value list"
  arg_index :: nat

text \<open>The order of keys is a linear order, so a map has one order of its entries.\<close>

lemma str_less_irrefl: "\<not> str_less s s"
  by (induction s) auto

lemma str_less_trans: "str_less s t \<Longrightarrow> str_less t u \<Longrightarrow> str_less s u"
proof (induction s t arbitrary: u rule: str_less.induct)
  case (2 d t)
  then show ?case by (cases u) auto
next
  case (3 c s d t)
  then show ?case by (cases u) auto
qed simp

lemma str_less_total: "str_less s t \<or> s = t \<or> str_less t s"
proof (induction s t rule: str_less.induct)
  case (1 s)
  then show ?case by (cases s) auto
next
  case (3 c s d t)
  then show ?case by (auto simp: neq_iff)
qed simp

lemma key_less_irrefl: "\<not> key_less k k"
  by (cases k) (auto simp: str_less_irrefl)

lemma key_less_trans: "key_less k l \<Longrightarrow> key_less l m \<Longrightarrow> key_less k m"
  by (cases k; cases l; cases m) (auto intro: str_less_trans)

lemma key_less_total: "key_less k l \<or> k = l \<or> key_less l k"
  by (cases k; cases l) (auto simp: str_less_total)

instantiation AssocKey :: linorder
begin

definition less_AssocKey :: "AssocKey \<Rightarrow> AssocKey \<Rightarrow> bool" where
  "less_AssocKey k l \<longleftrightarrow> key_less k l"

definition less_eq_AssocKey :: "AssocKey \<Rightarrow> AssocKey \<Rightarrow> bool" where
  "less_eq_AssocKey k l \<longleftrightarrow> k = l \<or> key_less k l"

instance
proof
  fix k l m :: AssocKey
  show "k < l \<longleftrightarrow> k \<le> l \<and> \<not> l \<le> k"
    using key_less_trans key_less_irrefl by (auto simp: less_AssocKey_def less_eq_AssocKey_def)
  show "k \<le> k" by (simp add: less_eq_AssocKey_def)
  show "k \<le> l \<Longrightarrow> l \<le> m \<Longrightarrow> k \<le> m" using key_less_trans by (auto simp: less_eq_AssocKey_def)
  show "k \<le> l \<Longrightarrow> l \<le> k \<Longrightarrow> k = l"
    using key_less_trans key_less_irrefl by (auto simp: less_eq_AssocKey_def)
  show "k \<le> l \<or> l \<le> k" using key_less_total by (auto simp: less_eq_AssocKey_def)
qed

end

section \<open>Operations\<close>

definition as_logic :: "Value \<Rightarrow> LogicVec option" where
  "as_logic v = (case v of Logic l \<Rightarrow> Some l | Null \<Rightarrow> Some (zero 32) | _ \<Rightarrow> None)"

definition alloc :: "Cell \<Rightarrow> World \<Rightarrow> nat \<times> World" where
  "alloc c w = (next_cell w, w\<lparr>cells := (cells w)(next_cell w \<mapsto> c), next_cell := next_cell w + 1\<rparr>)"

definition new_queue :: "World \<Rightarrow> Value \<times> World" where
  "new_queue w = (let (a, w) = alloc (QueueCell []) w in (Queue a, w))"

definition new_assoc :: "World \<Rightarrow> Value \<times> World" where
  "new_assoc w = (let (a, w) = alloc (AssocCell []) w in (Assoc a, w))"

definition new_event :: "World \<Rightarrow> Value \<times> World" where
  "new_event w = (Event (next_event w), w\<lparr>next_event := next_event w + 1\<rparr>)"

text \<open>
  \<open>assignment_copy\<close> of a list of values, one after the other. It recurses through the cells, and a
  queue that holds itself is copied forever.
\<close>

partial_function (option) copy_values :: "Value list \<Rightarrow> World \<Rightarrow> (Value list \<times> World) option" where
  "copy_values vs w =
     (case vs of
        [] \<Rightarrow> Some ([], w)
      | v # rest \<Rightarrow>
          do {
            (v, w) \<leftarrow>
              (case v of
                 Queue a \<Rightarrow>
                   (case cells w a of
                      Some (QueueCell xs) \<Rightarrow>
                        do { (ys, w) \<leftarrow> copy_values xs w;
                             Some (let (b, w) = alloc (QueueCell ys) w in (Queue b, w)) }
                    | _ \<Rightarrow> None)
               | Assoc a \<Rightarrow>
                   (case cells w a of
                      Some (AssocCell es) \<Rightarrow>
                        do { (ys, w) \<leftarrow> copy_values (map snd es) w;
                             Some (let (b, w) = alloc (AssocCell (zip (map fst es) ys)) w in (Assoc b, w)) }
                    | _ \<Rightarrow> None)
               | v \<Rightarrow> Some (v, w));
            (rest, w) \<leftarrow> copy_values rest w;
            Some (v # rest, w)
          })"

definition assignment_copy :: "Value \<Rightarrow> World \<Rightarrow> (Value \<times> World) option" where
  "assignment_copy v w = map_option (\<lambda>(vs, w). (hd vs, w)) (copy_values [v] w)"

section \<open>Well-formed values\<close>

text \<open>A value is well formed if its vector is, and its address names a cell of its kind.\<close>

fun cell_kind :: "Cell \<Rightarrow> nat" where
  "cell_kind (ObjCell _) = 0"
| "cell_kind (QueueCell _) = 1"
| "cell_kind (AssocCell _) = 2"

definition kinds :: "World \<Rightarrow> nat \<rightharpoonup> nat" where
  "kinds w = map_option cell_kind \<circ> cells w"

fun value_wf :: "(nat \<rightharpoonup> nat) \<Rightarrow> Value \<Rightarrow> bool" where
  "value_wf K (Logic l) = wf_lv l"
| "value_wf K (Obj a) = (K a = Some 0)"
| "value_wf K (Queue a) = (K a = Some 1)"
| "value_wf K (Assoc a) = (K a = Some 2)"
| "value_wf K _ = True"

fun key_wf :: "(nat \<rightharpoonup> nat) \<Rightarrow> AssocKey \<Rightarrow> bool" where
  "key_wf K (ObjKey a) = (K a = Some 0)"
| "key_wf K _ = True"

fun cell_wf :: "(nat \<rightharpoonup> nat) \<Rightarrow> Cell \<Rightarrow> bool" where
  "cell_wf K (ObjCell d) = list_all (value_wf K) (obj_fields d)"
| "cell_wf K (QueueCell xs) = list_all (value_wf K) xs"
| "cell_wf K (AssocCell es) =
     (sorted_wrt (<) (map fst es) \<and> list_all (key_wf K) (map fst es) \<and> list_all (value_wf K) (map snd es))"

definition world_wf :: "World \<Rightarrow> bool" where
  "world_wf w \<longleftrightarrow>
     (\<forall>a \<ge> next_cell w. cells w a = None) \<and>
     (\<forall>a c. cells w a = Some c \<longrightarrow> cell_wf (kinds w) c) \<and>
     list_all (value_wf (kinds w)) (statics w)"

text \<open>Cells are never freed and keep their kind; an object keeps its class.\<close>

definition extends :: "World \<Rightarrow> World \<Rightarrow> bool" where
  "extends w w' \<longleftrightarrow> kinds w \<subseteq>\<^sub>m kinds w' \<and> next_cell w \<le> next_cell w' \<and>
     length (statics w') = length (statics w) \<and>
     (\<forall>a d. cells w a = Some (ObjCell d) \<longrightarrow> (\<exists>d'. cells w' a = Some (ObjCell d') \<and> class_of d' = class_of d))"

lemma value_wf_mono: "K \<subseteq>\<^sub>m K' \<Longrightarrow> value_wf K v \<Longrightarrow> value_wf K' v"
  by (cases v) (auto simp: map_le_def dom_def)

lemma key_wf_mono: "K \<subseteq>\<^sub>m K' \<Longrightarrow> key_wf K k \<Longrightarrow> key_wf K' k"
  by (cases k) (auto simp: map_le_def dom_def)

lemma values_wf_mono: "K \<subseteq>\<^sub>m K' \<Longrightarrow> list_all (value_wf K) vs \<Longrightarrow> list_all (value_wf K') vs"
  by (auto simp: list_all_iff intro: value_wf_mono)

lemma cell_wf_mono: "K \<subseteq>\<^sub>m K' \<Longrightarrow> cell_wf K c \<Longrightarrow> cell_wf K' c"
  by (cases c) (auto simp: list_all_iff intro: value_wf_mono key_wf_mono)

lemma extends_refl [simp]: "extends w w"
  by (simp add: extends_def)

lemma extends_trans: "extends w w' \<Longrightarrow> extends w' w'' \<Longrightarrow> extends w w''"
  unfolding extends_def by (intro conjI; (auto intro: map_le_trans)?; metis)

lemma extends_kinds: "extends w w' \<Longrightarrow> kinds w \<subseteq>\<^sub>m kinds w'"
  by (simp add: extends_def)

lemma extends_value: "extends w w' \<Longrightarrow> value_wf (kinds w) v \<Longrightarrow> value_wf (kinds w') v"
  by (rule value_wf_mono [OF extends_kinds])

lemma as_logic_wf: "value_wf K v \<Longrightarrow> as_logic v = Some l \<Longrightarrow> wf_lv l"
  by (cases v) (auto simp: as_logic_def)

lemma world_wf_cell: "world_wf w \<Longrightarrow> cells w a = Some c \<Longrightarrow> cell_wf (kinds w) c"
  by (simp add: world_wf_def)

text \<open>Allocation extends the store by one cell.\<close>

lemma alloc_wf:
  assumes "world_wf w" and "cell_wf (kinds w) c" and "alloc c w = (a, w')"
  shows "world_wf w'" and "extends w w'" and "kinds w' a = Some (cell_kind c)" and "cells w \<subseteq>\<^sub>m cells w'"
    and "next_cell w \<le> a" and "cells w' a = Some c" and "next_cell w' = Suc (next_cell w)"
proof -
  have w': "cells w' = (cells w)(next_cell w \<mapsto> c)" "next_cell w' = Suc (next_cell w)" "statics w' = statics w"
    and a: "a = next_cell w"
    using assms(3) by (auto simp: alloc_def)
  have none: "cells w (next_cell w) = None" using assms(1) by (simp add: world_wf_def)
  then have k: "kinds w \<subseteq>\<^sub>m kinds w'" by (auto simp: w' kinds_def map_le_def)
  then show ext: "extends w w'" using none by (auto simp: extends_def w')
  have "cell_wf (kinds w') c'" if "cells w' b = Some c'" for b c'
  proof -
    have "cell_wf (kinds w) c'" using that assms(1,2) by (auto simp: w' world_wf_def split: if_splits)
    then show ?thesis by (rule cell_wf_mono [OF k])
  qed
  then show "world_wf w'"
    using assms(1) values_wf_mono [OF k] by (simp add: world_wf_def w'(2,3)) (simp add: w'(1))
  show "kinds w' a = Some (cell_kind c)" "next_cell w \<le> a" "cells w' a = Some c" "next_cell w' = Suc (next_cell w)"
    by (simp_all add: w' a kinds_def)
  show "cells w \<subseteq>\<^sub>m cells w'" using none by (auto simp: w' map_le_def)
qed

text \<open>A cell is overwritten by one of its kind.\<close>

lemma set_cell_wf:
  assumes "world_wf w" and "cells w a = Some c" and "cell_wf (kinds w) c'" and "cell_kind c' = cell_kind c"
    and "\<And>d d'. c = ObjCell d \<Longrightarrow> c' = ObjCell d' \<Longrightarrow> class_of d' = class_of d"
  shows "world_wf (w\<lparr>cells := (cells w)(a \<mapsto> c')\<rparr>)" and "extends w (w\<lparr>cells := (cells w)(a \<mapsto> c')\<rparr>)"
    and "kinds (w\<lparr>cells := (cells w)(a \<mapsto> c')\<rparr>) = kinds w"
proof -
  show k: "kinds (w\<lparr>cells := (cells w)(a \<mapsto> c')\<rparr>) = kinds w"
    using assms(2,4) by (auto simp: kinds_def)
  have "a < next_cell w" using assms(1,2) by (metis option.distinct(1) not_le world_wf_def)
  then show "world_wf (w\<lparr>cells := (cells w)(a \<mapsto> c')\<rparr>)"
    using assms(1,3) unfolding world_wf_def k by (simp split: if_splits)
  have "\<exists>d'. c' = ObjCell d' \<and> class_of d' = class_of d" if obj: "c = ObjCell d" for d
  proof -
    obtain d' where "c' = ObjCell d'" using assms(4) unfolding obj by (cases c') simp_all
    then show ?thesis using assms(5) [OF obj] by blast
  qed
  then show "extends w (w\<lparr>cells := (cells w)(a \<mapsto> c')\<rparr>)"
    unfolding extends_def k using assms(2) by (simp split: if_splits)
qed

lemma frame_wf:
  "world_wf (w\<lparr>next_event := e\<rparr>) = world_wf w" "extends w (w\<lparr>next_event := e\<rparr>)"
  "kinds (w\<lparr>next_event := e\<rparr>) = kinds w" "world_wf (w\<lparr>arg_index := e\<rparr>) = world_wf w"
  "extends w (w\<lparr>arg_index := e\<rparr>)" "kinds (w\<lparr>arg_index := e\<rparr>) = kinds w"
  "kinds (w\<lparr>statics := vs\<rparr>) = kinds w"
  by (simp_all add: world_wf_def extends_def kinds_def)

section \<open>Copies\<close>

fun array_addr :: "Value \<Rightarrow> nat option" where
  "array_addr (Queue a) = Some a"
| "array_addr (Assoc a) = Some a"
| "array_addr _ = None"

text \<open>
  A deep copy in the store \<open>C\<close>: an array and its copy hold copies of the same elements under the same
  keys, the copy in a cell of address \<open>n\<close> or above, and so for the arrays inside; whatever is not an array
  is its own copy.
\<close>

inductive deep_copy :: "nat \<Rightarrow> (nat \<rightharpoonup> Cell) \<Rightarrow> Value \<Rightarrow> Value \<Rightarrow> bool" for n C where
  copy_scalar: "array_addr v = None \<Longrightarrow> deep_copy n C v v"
| copy_queue: "C a = Some (QueueCell xs) \<Longrightarrow> C b = Some (QueueCell ys) \<Longrightarrow> n \<le> b \<Longrightarrow>
    list_all2 (deep_copy n C) xs ys \<Longrightarrow> deep_copy n C (Queue a) (Queue b)"
| copy_assoc: "C a = Some (AssocCell es) \<Longrightarrow> C b = Some (AssocCell es') \<Longrightarrow> n \<le> b \<Longrightarrow> map fst es = map fst es' \<Longrightarrow>
    list_all2 (deep_copy n C) (map snd es) (map snd es') \<Longrightarrow> deep_copy n C (Assoc a) (Assoc b)"

lemma deep_copy_mono: "deep_copy n C v v' \<Longrightarrow> C \<subseteq>\<^sub>m C' \<Longrightarrow> m \<le> n \<Longrightarrow> deep_copy m C' v v'"
proof (induction rule: deep_copy.induct)
  case (copy_queue a xs b ys)
  then show ?case
    by (intro deep_copy.copy_queue [of C' a xs b ys]) (auto simp: map_le_def dom_def list_all2_conv_all_nth)
next
  case (copy_assoc a es b es')
  then show ?case
    by (intro deep_copy.copy_assoc [of C' a es b es']) (auto simp: map_le_def dom_def list_all2_conv_all_nth)
qed (rule deep_copy.copy_scalar)

lemma deep_copy_fresh: "deep_copy n C v v' \<Longrightarrow> array_addr v' = Some a \<Longrightarrow> n \<le> a"
  by (induction rule: deep_copy.cases) auto

text \<open>
  What a copy does: the store only grows, no cell changes, and every array in the copy has a fresh
  cell.
\<close>

definition copies :: "World \<Rightarrow> Value list \<Rightarrow> Value list \<Rightarrow> World \<Rightarrow> bool" where
  "copies w vs vs' w' \<longleftrightarrow> world_wf w' \<and> extends w w' \<and> cells w \<subseteq>\<^sub>m cells w' \<and> statics w' = statics w \<and>
     list_all (value_wf (kinds w')) vs' \<and> list_all2 (deep_copy (next_cell w) (cells w')) vs vs'"

lemma copies_alloc:
  assumes "copies w xs ys w1" and "alloc c w1 = (b, w2)" and "cell_wf (kinds w1) c"
  shows "world_wf w2 \<and> extends w w2 \<and> cells w \<subseteq>\<^sub>m cells w2 \<and> cells w1 \<subseteq>\<^sub>m cells w2 \<and> statics w2 = statics w \<and>
    kinds w2 b = Some (cell_kind c) \<and> cells w2 b = Some c \<and> next_cell w \<le> b"
proof -
  have w1: "world_wf w1" "extends w w1" "cells w \<subseteq>\<^sub>m cells w1" "statics w1 = statics w"
    using assms(1) by (simp_all add: copies_def)
  note al = alloc_wf [OF w1(1) assms(3,2)]
  have "next_cell w \<le> b" using al(5) w1(2) by (simp add: extends_def)
  moreover have "statics w2 = statics w1" using assms(2) by (auto simp: alloc_def)
  ultimately show ?thesis
    using al w1 extends_trans [OF w1(2) al(2)] map_le_trans [OF w1(3) al(4)] by simp
qed

lemma copies_Cons:
  assumes "world_wf w1" and "extends w w1" and "cells w \<subseteq>\<^sub>m cells w1" and "statics w1 = statics w"
    and "value_wf (kinds w1) v'" and "deep_copy (next_cell w) (cells w1) v v'" and "copies w1 vs vs' w2"
  shows "copies w (v # vs) (v' # vs') w2"
proof -
  note c = assms(7) [unfolded copies_def]
  have "next_cell w \<le> next_cell w1" using assms(2) by (simp add: extends_def)
  then have "list_all2 (deep_copy (next_cell w) (cells w2)) vs vs'"
    using c by (auto elim!: list_all2_mono intro: deep_copy_mono)
  moreover have "value_wf (kinds w2) v'" using c assms(5) by (blast intro: extends_value)
  moreover have "deep_copy (next_cell w) (cells w2) v v'" using c assms(6) deep_copy_mono by blast
  moreover have "extends w w2" "cells w \<subseteq>\<^sub>m cells w2"
    using c assms(2,3) extends_trans map_le_trans by blast+
  ultimately show ?thesis using c assms(4) by (simp add: copies_def)
qed

lemma copy_values_spec:
  assumes "copy_values vs w = Some r" and "world_wf w" and "list_all (value_wf (kinds w)) vs"
  shows "copies w vs (fst r) (snd r)"
  using assms
proof (induction arbitrary: rule: copy_values.raw_induct [rotated, consumes 1, case_names copy])
  case (copy copy vs w r)
  note IH = copy(1)
  show ?case
  proof (cases vs)
    case Nil
    then show ?thesis using copy(2-4) by (auto simp: copies_def)
  next
    case (Cons v rest)
    define head where "head = (case v of
                 Queue a \<Rightarrow>
                   (case cells w a of
                      Some (QueueCell xs) \<Rightarrow>
                        do { (ys, w) \<leftarrow> copy xs w;
                             Some (let (b, w) = alloc (QueueCell ys) w in (Queue b, w)) }
                    | _ \<Rightarrow> None)
               | Assoc a \<Rightarrow>
                   (case cells w a of
                      Some (AssocCell es) \<Rightarrow>
                        do { (ys, w) \<leftarrow> copy (map snd es) w;
                             Some (let (b, w) = alloc (AssocCell (zip (map fst es) ys)) w in (Assoc b, w)) }
                    | _ \<Rightarrow> None)
               | v \<Rightarrow> Some (v, w))"
    obtain v' w1 rest' w2 where h: "head = Some (v', w1)" and t: "copy rest w1 = Some (rest', w2)" and
      r: "r = (v' # rest', w2)"
      using copy(2) unfolding Cons list.case head_def [symmetric] by (auto split: bind_splits)
    have v: "value_wf (kinds w) v" "list_all (value_wf (kinds w)) rest" using copy(4) by (simp_all add: Cons)
    have "world_wf w1 \<and> extends w w1 \<and> cells w \<subseteq>\<^sub>m cells w1 \<and> statics w1 = statics w \<and> value_wf (kinds w1) v' \<and>
      deep_copy (next_cell w) (cells w1) v v'"
    proof (cases "\<exists>a. array_addr v = Some a")
      case False
      then have "head = Some (v, w)" unfolding head_def by (cases v) simp_all
      then show ?thesis using h False copy(3) v(1) by (auto intro: copy_scalar)
    next
      case True
      then consider (queue) a where "v = Queue a" | (assoc) a where "v = Assoc a"
        by (cases v) auto
      then show ?thesis
      proof cases
        case (queue a)
        then obtain xs ys w3 b where xs: "cells w a = Some (QueueCell xs)" and ys: "copy xs w = Some (ys, w3)"
          and al: "alloc (QueueCell ys) w3 = (b, w1)" and v': "v' = Queue b"
          using h unfolding head_def by (auto split: bind_splits option.splits Cell.splits prod.splits)
        have "list_all (value_wf (kinds w)) xs" using world_wf_cell [OF copy(3) xs] by simp
        from IH [OF ys copy(3) this] have c: "copies w xs ys w3" by simp
        then have "cell_wf (kinds w3) (QueueCell ys)" by (simp add: copies_def)
        note ca = copies_alloc [OF c al this]
        have "list_all2 (deep_copy (next_cell w) (cells w1)) xs ys"
          using c ca by (auto simp: copies_def list_all2_conv_all_nth intro: deep_copy_mono)
        moreover have "cells w1 a = Some (QueueCell xs)" using ca xs by (auto simp: map_le_def dom_def)
        ultimately have "deep_copy (next_cell w) (cells w1) (Queue a) (Queue b)"
          using ca by (blast intro: copy_queue)
        then show ?thesis using ca v' queue by simp
      next
        case (assoc a)
        then obtain es ys w3 b where es: "cells w a = Some (AssocCell es)" and ys: "copy (map snd es) w = Some (ys, w3)"
          and al: "alloc (AssocCell (zip (map fst es) ys)) w3 = (b, w1)" and v': "v' = Assoc b"
          using h unfolding head_def by (auto split: bind_splits option.splits Cell.splits prod.splits)
        have wf: "cell_wf (kinds w) (AssocCell es)" by (rule world_wf_cell [OF copy(3) es])
        from IH [OF ys copy(3)] wf have c: "copies w (map snd es) ys w3" by simp
        then have len: "length ys = length es" by (auto simp: copies_def dest: list_all2_lengthD)
        then have fst: "map fst (zip (map fst es) ys) = map fst es" "map snd (zip (map fst es) ys) = ys"
          by (simp_all add: map_fst_zip map_snd_zip)
        have k: "kinds w \<subseteq>\<^sub>m kinds w3" using c by (simp add: copies_def extends_kinds)
        have "cell_wf (kinds w3) (AssocCell (zip (map fst es) ys))"
          using wf c key_wf_mono [OF k] unfolding cell_wf.simps fst by (auto simp: copies_def list_all_iff)
        note ca = copies_alloc [OF c al this]
        have "list_all2 (deep_copy (next_cell w) (cells w1)) (map snd es) ys"
          using c ca by (auto simp: copies_def list_all2_conv_all_nth intro: deep_copy_mono)
        moreover have "cells w1 a = Some (AssocCell es)" using ca es by (auto simp: map_le_def dom_def)
        ultimately have "deep_copy (next_cell w) (cells w1) (Assoc a) (Assoc b)"
          using ca fst by (intro copy_assoc [of _ a es b "zip (map fst es) ys"]) simp_all
        then show ?thesis using ca v' assoc by simp
      qed
    qed
    moreover from this have "copies w1 rest rest' w2"
      using IH [OF t] v(2) by (auto simp: list_all_iff intro: extends_value)
    ultimately show ?thesis by (simp add: r Cons) (intro copies_Cons [where ?w1.0 = w1]; simp)
  qed
qed

lemma assignment_copy_spec:
  assumes "assignment_copy v w = Some (v', w')" and "world_wf w" and "value_wf (kinds w) v"
  shows "world_wf w' \<and> extends w w' \<and> cells w \<subseteq>\<^sub>m cells w' \<and> statics w' = statics w \<and>
    value_wf (kinds w') v' \<and> deep_copy (next_cell w) (cells w') v v'"
proof -
  obtain vs where vs: "copy_values [v] w = Some (vs, w')" "v' = hd vs"
    using assms(1) by (auto simp: assignment_copy_def)
  have "copies w [v] vs w'" using copy_values_spec [OF vs(1) assms(2)] assms(3) by simp
  moreover from this obtain u where "vs = [u]" by (auto simp: copies_def list_all2_Cons1)
  ultimately show ?thesis using vs(2) by (simp add: copies_def)
qed

text \<open>A vector, a string, a handle or an event is its own copy.\<close>

lemma assignment_copy_id: "array_addr v = None \<Longrightarrow> assignment_copy v w = Some (v, w)"
  unfolding assignment_copy_def
  by (subst copy_values.simps, subst copy_values.simps) (cases v; simp)

section \<open>Copies of arrays that do not contain themselves\<close>

text \<open>A rank of the arrays that falls from an array to the arrays it holds.\<close>

fun arrays_in :: "Cell \<Rightarrow> Value list" where
  "arrays_in (QueueCell xs) = xs"
| "arrays_in (AssocCell es) = map snd es"
| "arrays_in (ObjCell d) = []"

definition nesting :: "(nat \<rightharpoonup> Cell) \<Rightarrow> (nat \<Rightarrow> nat) \<Rightarrow> bool" where
  "nesting C f \<longleftrightarrow> (\<forall>a c. C a = Some c \<longrightarrow> (\<forall>v \<in> set (arrays_in c). \<forall>b. array_addr v = Some b \<longrightarrow> f b < f a))"

definition below :: "(nat \<Rightarrow> nat) \<Rightarrow> nat \<Rightarrow> Value list \<Rightarrow> bool" where
  "below f n vs \<longleftrightarrow> (\<forall>v \<in> set vs. \<forall>a. array_addr v = Some a \<longrightarrow> f a < n)"

lemma copy_values_returns:
  assumes "nesting C f" and "world_wf w" and "C \<subseteq>\<^sub>m cells w" and "below f n vs"
    and "list_all (value_wf (map_option cell_kind \<circ> C)) vs"
    and cwf: "\<And>a c. C a = Some c \<Longrightarrow> cell_wf (map_option cell_kind \<circ> C) c"
  shows "copy_values vs w \<noteq> None"
  using assms(2-5)
proof (induction n arbitrary: vs w rule: less_induct)
  case (less n)
  let ?K = "map_option cell_kind \<circ> C"
  show ?case
    using less.prems
  proof (induction vs arbitrary: w)
    case Nil
    then show ?case by (simp add: copy_values.simps)
  next
    case (Cons v rest)
    note unfold = copy_values.simps [of "v # rest" w, unfolded list.case]
    have sub: "?K \<subseteq>\<^sub>m kinds w" using Cons.prems(2) by (auto simp: kinds_def map_le_def)
    have next_ok: "copy_values rest w' \<noteq> None" if "world_wf w'" "cells w \<subseteq>\<^sub>m cells w'" for w'
      using Cons.IH [OF that(1) map_le_trans [OF Cons.prems(2) that(2)]] Cons.prems(3,4) by (simp add: below_def)
    show ?case
    proof (cases "\<exists>a. array_addr v = Some a")
      case False
      then show ?thesis using next_ok [OF Cons.prems(1)] by (subst unfold) (cases v; auto)
    next
      case True
      then obtain a where a: "array_addr v = Some a" "f a < n" using Cons.prems(3) by (auto simp: below_def)
      have "\<exists>c. C a = Some c \<and> (v = Queue a \<and> cell_kind c = 1 \<or> v = Assoc a \<and> cell_kind c = 2)"
        using a(1) Cons.prems(4) by (cases v) auto
      then obtain c where c: "C a = Some c" "v = Queue a \<and> cell_kind c = 1 \<or> v = Assoc a \<and> cell_kind c = 2" by blast
      then have cw: "cells w a = Some c" using Cons.prems(2) by (auto simp: map_le_def dom_def)
      have below: "below f (f a) (arrays_in c)" using assms(1) c(1) by (auto simp: nesting_def below_def)
      have wf: "list_all (value_wf ?K) (arrays_in c)" using cwf [OF c(1)] c(2) by (cases c) auto
      obtain ys w3 where ys: "copy_values (arrays_in c) w = Some (ys, w3)"
        using less.IH [OF a(2) Cons.prems(1,2) below wf] by fastforce
      have copies: "copies w (arrays_in c) ys w3"
        using copy_values_spec [OF ys Cons.prems(1) values_wf_mono [OF sub wf]] by simp
      define c' where "c' = (case c of AssocCell es \<Rightarrow> AssocCell (zip (map fst es) ys) | _ \<Rightarrow> QueueCell ys)"
      obtain b w1 where al: "alloc c' w3 = (b, w1)" by fastforce
      have w3: "world_wf w3" "cells w \<subseteq>\<^sub>m cells w3" "list_all (value_wf (kinds w3)) ys" "length ys = length (arrays_in c)"
        using copies by (auto simp: copies_def dest: list_all2_lengthD)
      have "cell_wf (kinds w3) c'"
      proof (cases c)
        case (AssocCell es)
        then have "map fst (zip (map fst es) ys) = map fst es" "map snd (zip (map fst es) ys) = ys"
          using w3(4) by (simp_all add: map_fst_zip map_snd_zip)
        moreover have "key_wf (kinds w3) k" if "key_wf ?K k" for k
          using key_wf_mono [OF map_le_trans [OF sub] that] copies by (simp add: copies_def extends_kinds)
        ultimately show ?thesis
          using cwf [OF c(1)] w3(3) unfolding c'_def AssocCell Cell.case cell_wf.simps by (auto simp: list_all_iff)
      qed (use w3(3) in \<open>simp_all add: c'_def\<close>)
      note w1 = alloc_wf(1,4) [OF w3(1) this al]
      have "copy_values rest w1 \<noteq> None" by (rule next_ok [OF w1(1) map_le_trans [OF w3(2) w1(2)]])
      then show ?thesis
        using c(2) cw ys al by (subst unfold) (cases c; auto simp: c'_def)
    qed
  qed
qed

section \<open>Properties\<close>

text \<open>
  C24. An assignment copies arrays and aliases handles. If no array of the store contains itself
  (some rank falls from an array to the arrays it holds), \<open>assignment_copy\<close> returns a deep copy: every
  array, at every depth, is rebuilt in a cell that did not exist before, with the same keys and copies
  of the same elements in the same order, while vectors, strings, events and handles of objects are
  the same; no existing cell and no static changes, and the store stays well formed.
\<close>

theorem assignment_copy_deep:
  assumes "world_wf w" and "value_wf (kinds w) v" and "nesting (cells w) f"
  shows "\<exists>v' w'. assignment_copy v w = Some (v', w') \<and> deep_copy (next_cell w) (cells w') v v' \<and>
    cells w \<subseteq>\<^sub>m cells w' \<and> statics w' = statics w \<and>
    extends w w' \<and> world_wf w' \<and> value_wf (kinds w') v'"
proof -
  define n where "n = (case array_addr v of None \<Rightarrow> 0 | Some a \<Rightarrow> Suc (f a))"
  have "copy_values [v] w \<noteq> None"
    using assms by (intro copy_values_returns [of "cells w" f w n])
      (auto simp: below_def n_def kinds_def world_wf_def)
  then obtain v' w' where "assignment_copy v w = Some (v', w')" by (fastforce simp: assignment_copy_def)
  with assignment_copy_spec [OF this assms(1,2)] show ?thesis by blast
qed

text \<open>A queue that holds another queue and an object.\<close>

definition nested_queue :: World where
  "nested_queue = \<lparr>cells = [0 \<mapsto> QueueCell [Queue 1, Obj 2], 1 \<mapsto> QueueCell [Logic (zero 4)],
     2 \<mapsto> ObjCell \<lparr>class_of = 0, obj_fields = [Null]\<rparr>], next_cell = 3, next_event = 1, statics = [], arg_index = 0\<rparr>"

theorem assignment_copy_deep_witness:
  "\<exists>a b w'. assignment_copy (Queue 0) nested_queue = Some (Queue a, w') \<and> 3 \<le> a \<and> 3 \<le> b \<and>
    cells w' a = Some (QueueCell [Queue b, Obj 2]) \<and> cells w' b = Some (QueueCell [Logic (zero 4)])"
proof -
  have wf: "world_wf nested_queue" "value_wf (kinds nested_queue) (Queue 0)"
    by (auto simp: nested_queue_def world_wf_def kinds_def)
  have nest: "nesting (cells nested_queue) (\<lambda>a. 3 - a)"
    by (auto simp: nested_queue_def nesting_def split: if_splits)
  have "next_cell nested_queue = 3" by (simp add: nested_queue_def)
  then obtain v' w' where c: "assignment_copy (Queue 0) nested_queue = Some (v', w')"
    "deep_copy 3 (cells w') (Queue 0) v'" "cells nested_queue \<subseteq>\<^sub>m cells w'"
    using assignment_copy_deep [OF wf nest] by metis
  have old: "cells w' 0 = Some (QueueCell [Queue 1, Obj 2])" "cells w' 1 = Some (QueueCell [Logic (zero 4)])"
    using c(3) by (auto simp: map_le_def dom_def nested_queue_def)
  from c(2) obtain a ys where a: "v' = Queue a" "3 \<le> a" "cells w' a = Some (QueueCell ys)"
    "list_all2 (deep_copy 3 (cells w')) [Queue 1, Obj 2] ys" using old by (auto elim: deep_copy.cases)
  then obtain x y where ys: "ys = [x, y]" "deep_copy 3 (cells w') (Queue 1) x" "deep_copy 3 (cells w') (Obj 2) y"
    by (auto simp: list_all2_Cons1)
  from ys(2) obtain b zs where b: "x = Queue b" "3 \<le> b" "cells w' b = Some (QueueCell zs)"
    "list_all2 (deep_copy 3 (cells w')) [Logic (zero 4)] zs" using old by (auto elim: deep_copy.cases)
  moreover have "y = Obj 2" using ys(3) by (auto elim: deep_copy.cases)
  moreover have "zs = [Logic (zero 4)]" using b(4) by (auto simp: list_all2_Cons1 elim: deep_copy.cases)
  ultimately show ?thesis using c(1) a ys(1) by blast
qed

end
