(* ===== verification/IR_Inst.thy ===== *)
theory IR_Inst
  imports IR_Value
begin

text \<open>
  The register-based intermediate representation (\<open>crates/eevee-ir/src/inst.rs\<close>): instructions,
  programs with their side tables, the linkage tables of a design, and the builder that emits code
  with labels and patches the jumps. Registers, table indices and code addresses are \<open>nat\<close>. An
  index out of range is a panic, \<open>None\<close>.

  Host code is a parameter: an imported DPI-C function is any function from the argument values and
  the world to new argument values, a result and a new world, or a panic; the decimal text of a
  \<open>real\<close>, which the standard library computes, is a field of the linkage.
\<close>

type_synonym Reg = nat
type_synonym ConstId = nat
type_synonym NetListId = nat
type_synonym MemoryId = nat
type_synonym CodeAddr = nat
type_synonym ArgListId = nat
type_synonym FuncId = nat
type_synonym ClassId = nat
type_synonym ForkGroupId = nat

datatype ArgMode = Input | Output | Inout | Ref

definition copies_out :: "ArgMode \<Rightarrow> bool" where
  "copies_out m \<longleftrightarrow> m = Output \<or> m = Inout \<or> m = Ref"

datatype CollOp =
    PushBack | PushFront | PopBack | PopFront | Size | Insert | Delete | Exists | Num | First | Last | Next | Prev

section \<open>Instructions\<close>

text \<open>
  The instructions of the enum \<open>Inst\<close>, in its order. The enum is one flat type; here each of its
  sections is a type and \<open>Inst\<close> their sum.
\<close>

datatype DataInst =
    LoadConst Reg ConstId
  | Mov Reg Reg
  | Resize Reg Reg nat bool
  | Assign Reg Reg
  | NbaAssign Reg Reg
  | NetRead Reg NetId
  | MemoryRead Reg MemoryId Reg

datatype AluInst =
    Not Reg Reg
  | Add Reg Reg Reg
  | Sub Reg Reg Reg
  | Mul Reg Reg Reg
  | And Reg Reg Reg
  | Or Reg Reg Reg
  | Xor Reg Reg Reg
  | Eq Reg Reg Reg
  | Neq Reg Reg Reg
  | Lt Reg Reg Reg
  | Le Reg Reg Reg
  | Gt Reg Reg Reg
  | Ge Reg Reg Reg
  | SignedLt Reg Reg Reg
  | SignedLe Reg Reg Reg
  | SignedGt Reg Reg Reg
  | SignedGe Reg Reg Reg
  | Shl Reg Reg Reg
  | Shr Reg Reg Reg
  | Ashr Reg Reg Reg
  | LogAnd Reg Reg Reg
  | LogOr Reg Reg Reg
  | Select Reg Reg Reg Reg
  | IsKnown Reg Reg
  | LogNot Reg Reg
  | Neg Reg Reg
  | ReduceAnd Reg Reg
  | ReduceOr Reg Reg
  | ReduceXor Reg Reg

datatype NetInst =
    BlockingWrite NetId Reg
  | NbaWrite NetId Reg
  | BlockingMemoryWrite MemoryId Reg Reg
  | NbaMemoryWrite MemoryId Reg Reg
  | DriveNet DriverId Reg
  | ScheduleDrive DriverId Reg nat
  | ScheduleDriveTransitions DriverId Reg Delays

datatype TimingInst =
    Delay nat
  | WaitEdge NetId EdgeKind
  | WaitCond NetListId
  | WaitRuntime
  | WaitChange Reg
  | WaitEvent Reg
  | Fork ForkGroupId ForkJoin
  | Finish

datatype FlowInst =
    Jump CodeAddr
  | BranchFalse Reg CodeAddr
  | BranchTrue Reg CodeAddr
  | BranchArgProvided Reg CodeAddr
  | Call FuncId ArgListId Reg
  | CallVirtual Reg nat ArgListId Reg
  | Return Reg
  | ReturnVoid

datatype ObjInst =
    New Reg ClassId
  | NewEvent Reg
  | TriggerEvent Reg
  | ClassCast Reg Reg ClassId
  | GetField Reg Reg nat
  | SetField Reg nat Reg
  | StaticGet Reg nat
  | StaticSet nat Reg

datatype CollInst =
    NewQueue Reg
  | NewAssoc Reg
  | IndexGet Reg Reg Reg
  | PartSelect Reg Reg Reg Reg
  | IndexSet Reg Reg Reg
  | CollMethod Reg Reg CollOp ArgListId
  | Concat Reg ArgListId

datatype TextInst =
    Display ConstId ArgListId
  | DpiCall Reg ConstId ArgListId
  | SimTime Reg
  | Format Reg ConstId ArgListId
  | EnumName Reg Reg nat
  | StringLen Reg Reg
  | StringSub Reg Reg Reg Reg
  | StringIndex Reg Reg Reg
  | StringToUpper Reg Reg
  | StringToLower Reg Reg
  | StringAtoi Reg Reg

datatype Inst =
    DataI DataInst
  | AluI AluInst
  | NetI NetInst
  | TimingI TimingInst
  | FlowI FlowInst
  | ObjI ObjInst
  | CollI CollInst
  | TextI TextInst

section \<open>Programs and linkage\<close>

record MemoryDef =
  elements :: "NetId list"
  left :: int
  right :: int
  element_width :: nat

datatype Program = Program
  (pcode: "Inst list")
  (pconsts: "Value list")
  (netlists: "NetId list list")
  (memories: "MemoryDef list")
  (arglists: "Reg list list")
  (forks: "Program list")
  (fork_captures: "(Reg \<times> Reg) list list")
  (fork_groups: "nat list list")
  (n_regs: nat)
  (arg_modes: "ArgMode list")
  (plabel: string)

record ClassDef =
  cname :: string
  base :: "ClassId option"
  field_defaults :: "Value list"
  vtable :: "FuncId list"
  coll_fields :: "(nat \<times> bool) list"
  event_fields :: "nat list"
  struct_fields :: "(nat \<times> ClassId) list"

type_synonym DpiFunction = "Value list \<Rightarrow> World \<Rightarrow> (Value list \<times> Value \<times> World) option"
type_synonym DpiRegistry = "string \<rightharpoonup> DpiFunction"

definition dpi_register :: "string \<Rightarrow> DpiFunction \<Rightarrow> DpiRegistry \<Rightarrow> DpiRegistry" where
  "dpi_register name f reg = reg(name \<mapsto> f)"

text \<open>\<open>None\<close>: the function is unbound, or it panics.\<close>

definition dpi_call :: "DpiRegistry \<Rightarrow> string \<Rightarrow> DpiFunction" where
  "dpi_call reg name args w = (case reg name of None \<Rightarrow> None | Some f \<Rightarrow> f args w)"

text \<open>The simulator's own bindings; \<open>argv\<close> is the command line and \<open>version\<close> that of the package.\<close>

definition next_arg_c :: "string list \<Rightarrow> DpiFunction" where
  "next_arg_c argv args w =
     do {
       reset \<leftarrow> (case args of [] \<Rightarrow> Some False | a # _ \<Rightarrow> map_option is_true (as_logic a));
       let current = (if reset then 0 else arg_index w);
       let val = (if current < length argv then argv ! current else []);
       Some (args, Str val, w\<lparr>arg_index := (if current < length argv then current + 1 else current)\<rparr>)
     }"

definition simulator_defaults :: "string list \<Rightarrow> string \<Rightarrow> DpiRegistry" where
  "simulator_defaults argv version =
     dpi_register ''uvm_dpi_get_tool_version_c'' (\<lambda>args w. Some (args, Str version, w))
       (dpi_register ''uvm_dpi_get_tool_name_c'' (\<lambda>args w. Some (args, Str ''Eevee'', w))
         (dpi_register ''uvm_dpi_get_next_arg_c'' (next_arg_c argv) Map.empty))"

record Linkage =
  funcs :: "Program list"
  classes :: "ClassDef list"
  enum_tables :: "(int \<rightharpoonup> string) list"
  dpi :: DpiRegistry
  show_f64 :: "u64 \<Rightarrow> string"

definition empty_linkage :: "(u64 \<Rightarrow> string) \<Rightarrow> Linkage" where
  "empty_linkage show = \<lparr>funcs = [], classes = [], enum_tables = [], dpi = Map.empty, show_f64 = show\<rparr>"

end
