(* ===== verification/IR_Ops.thy ===== *)
theory IR_Ops
  imports IR_Inst Logic_Text
begin

text \<open>
  The helper functions of the interpreter (\<open>crates/eevee-ir/src/interp.rs\<close>): instances and casts,
  memory indexing, formatting, truth and equality of values, the keys of associative arrays and
  the built-in methods of arrays. Text is a list of characters with their code points; the mapping
  of letter case is that of ASCII.
\<close>

text \<open>Indexing, \<open>None\<close> when out of range.\<close>

definition at :: "'a list \<Rightarrow> nat \<Rightarrow> 'a option" where
  "at xs i = (if i < length xs then Some (xs ! i) else None)"

lemma at_in: "at xs i = Some x \<Longrightarrow> x \<in> set xs"
  by (auto simp: at_def split: if_splits)

section \<open>Objects\<close>

text \<open>
  \<open>new_instance\<close> of a list of classes, one after the other: it recurses into the struct fields, and a
  struct that contains itself is constructed forever.
\<close>

definition set_field :: "Value list \<Rightarrow> nat \<Rightarrow> Value \<Rightarrow> Value list option" where
  "set_field flds slot v = (if slot < length flds then Some (flds[slot := v]) else None)"

fun init_colls :: "(nat \<times> bool) list \<Rightarrow> Value list \<Rightarrow> World \<Rightarrow> (Value list \<times> World) option" where
  "init_colls [] flds w = Some (flds, w)"
| "init_colls ((slot, is_assoc) # cs) flds w =
     (let (v, w) = (if is_assoc then new_assoc w else new_queue w)
      in do { flds \<leftarrow> set_field flds slot v; init_colls cs flds w })"

fun init_events :: "nat list \<Rightarrow> Value list \<Rightarrow> World \<Rightarrow> (Value list \<times> World) option" where
  "init_events [] flds w = Some (flds, w)"
| "init_events (slot # ss) flds w =
     (let (v, w) = new_event w in do { flds \<leftarrow> set_field flds slot v; init_events ss flds w })"

fun set_fields :: "(nat \<times> Value) list \<Rightarrow> Value list \<Rightarrow> Value list option" where
  "set_fields [] flds = Some flds"
| "set_fields ((slot, v) # vs) flds = do { flds \<leftarrow> set_field flds slot v; set_fields vs flds }"

partial_function (option) new_instances :: "ClassDef list \<Rightarrow> ClassId list \<Rightarrow> World \<Rightarrow> (Value list \<times> World) option" where
  "new_instances defs cids w =
     (case cids of
        [] \<Rightarrow> Some ([], w)
      | cid # rest \<Rightarrow>
          (if cid < length defs then
             (let def = defs ! cid
              in do {
                (flds, w) \<leftarrow> init_colls (coll_fields def) (field_defaults def) w;
                (subs, w) \<leftarrow> new_instances defs (map snd (struct_fields def)) w;
                flds \<leftarrow> set_fields (zip (map fst (struct_fields def)) subs) flds;
                (flds, w) \<leftarrow> init_events (event_fields def) flds w;
                let (a, w) = alloc (ObjCell \<lparr>class_of = cid, obj_fields = flds\<rparr>) w;
                (vs, w) \<leftarrow> new_instances defs rest w;
                Some (Obj a # vs, w)
              })
           else None))"

definition new_instance :: "ClassDef list \<Rightarrow> ClassId \<Rightarrow> World \<Rightarrow> (Value \<times> World) option" where
  "new_instance defs cid w = map_option (\<lambda>(vs, w). (hd vs, w)) (new_instances defs [cid] w)"

fun class_loop :: "nat \<Rightarrow> ClassId \<Rightarrow> ClassId \<Rightarrow> ClassDef list \<Rightarrow> bool option" where
  "class_loop 0 actual target defs = Some False"
| "class_loop (Suc n) actual target defs =
     (if actual = target then Some True
      else if actual < length defs then
        (case base (defs ! actual) of None \<Rightarrow> Some False | Some b \<Rightarrow> class_loop n b target defs)
      else None)"

definition class_is_a :: "ClassId \<Rightarrow> ClassId \<Rightarrow> ClassDef list \<Rightarrow> bool option" where
  "class_is_a actual target defs = class_loop (length defs) actual target defs"

section \<open>Memories\<close>

text \<open>The outer option is the panic of \<open>as_logic\<close>, the inner one the result.\<close>

definition memory_element :: "MemoryDef \<Rightarrow> Value \<Rightarrow> NetId option option" where
  "memory_element md index =
     map_option (\<lambda>l. case try_to_u64 l of
         None \<Rightarrow> None
       | Some u \<Rightarrow>
           (let index = uint u
            in if index \<ge> 2 ^ 63 then None
               else if left md \<le> right md then
                 (if index < left md \<or> index > right md then None
                  else at (elements md) (nat (index - left md)))
               else
                 (if index > left md \<or> index < right md then None
                  else at (elements md) (nat (left md - index)))))
       (as_logic index)"

lemma memory_element_in: "memory_element md v = Some (Some net) \<Longrightarrow> net \<in> set (elements md)"
  unfolding memory_element_def Let_def
  by (cases "as_logic v"; simp split: option.splits if_splits; blast intro: at_in)

section \<open>Reals\<close>

text \<open>An \<open>f64\<close> as its bits: comparison with 0, and the cast to \<open>i64\<close>, which truncates and saturates.\<close>

definition f64_nonzero :: "u64 \<Rightarrow> bool" where
  "f64_nonzero r \<longleftrightarrow> uint r mod 2 ^ 63 \<noteq> 0"

definition f64_to_i64 :: "u64 \<Rightarrow> int" where
  "f64_to_i64 r =
     (let neg = (2 ^ 63 \<le> uint r); e = nat (uint r div 2 ^ 52 mod 2 ^ 11); f = uint r mod 2 ^ 52
      in if e = 2047 \<and> f \<noteq> 0 then 0
         else (let m = (if e = 0 then 0
                        else if e < 1075 then (2 ^ 52 + f) div 2 ^ (1075 - e)
                        else if e < 1090 then (2 ^ 52 + f) * 2 ^ (e - 1075) else 2 ^ 63)
               in if neg then max (- m) (- (2 ^ 63)) else min m (2 ^ 63 - 1)))"

section \<open>Text\<close>

fun show_base :: "nat \<Rightarrow> nat \<Rightarrow> string" where
  "show_base b n =
     (let d = (\<lambda>k. char_of (if k < 10 then 48 + k else 87 + k))
      in if n < b \<or> b < 2 then [d n] else show_base b (n div b) @ [d (n mod b)])"

declare show_base.simps [simp del]

definition show_int :: "int \<Rightarrow> string" where
  "show_int i = (if i < 0 then CHR ''-'' # show_nat (nat (- i)) else show_nat (nat i))"

definition parse_i64 :: "string \<Rightarrow> int option" where
  "parse_i64 s =
     (case s of
        [] \<Rightarrow> None
      | c # cs \<Rightarrow>
          (if c = CHR ''-'' then
             (if cs = [] then None else map_option (\<lambda>n. - int n) (dec_digits (2 ^ 63 + 1) cs 0))
           else map_option int (parse_dec (2 ^ 63) s)))"

definition utf8 :: "string \<Rightarrow> nat list" where
  "utf8 s = concat (map (\<lambda>c. let n = code c in if n < 128 then [n] else [192 + n div 64, 128 + n mod 64]) s)"

definition to_ascii_uppercase :: "char \<Rightarrow> char" where
  "to_ascii_uppercase c = (if 97 \<le> code c \<and> code c \<le> 122 then char_of (code c - 32) else c)"

definition fmt_radix :: "(u64 \<Rightarrow> string) \<Rightarrow> Value option \<Rightarrow> nat \<Rightarrow> string" where
  "fmt_radix show arg radix =
     (case arg of
        Some (Logic v) \<Rightarrow>
          (let n = unat (to_u64 v)
           in if radix = 16 then show_base 16 n else if radix = 8 then show_base 8 n
              else if radix = 2 then show_base 2 n else show_nat n)
      | Some (Real r) \<Rightarrow> show r
      | _ \<Rightarrow> ''?'')"

definition fmt_string :: "Value option \<Rightarrow> string" where
  "fmt_string arg =
     (case arg of Some (Str s) \<Rightarrow> s | Some (Logic v) \<Rightarrow> display_lv v | _ \<Rightarrow> ''?'')"

text \<open>\<open>args.get(ai).map(|r| &regs[*r])\<close>: the outer option is the panic on a bad register.\<close>

definition next_arg :: "Reg list \<Rightarrow> Value list \<Rightarrow> nat \<Rightarrow> Value option option" where
  "next_arg args regs ai =
     (if ai < length args then (if args ! ai < length regs then Some (Some (regs ! (args ! ai))) else None)
      else Some None)"

definition radix_of :: "char \<Rightarrow> nat option" where
  "radix_of c =
     (if c \<in> {CHR ''d'', CHR ''D'', CHR ''t'', CHR ''T''} then Some 10
      else if c \<in> {CHR ''h'', CHR ''H'', CHR ''x'', CHR ''X''} then Some 16
      else if c \<in> {CHR ''o'', CHR ''O''} then Some 8
      else if c \<in> {CHR ''b'', CHR ''B''} then Some 2 else None)"

lemma dropWhile_shorter: "dropWhile P cs = d # rest \<Longrightarrow> length rest < length cs"
  by (metis length_Cons length_dropWhile_le less_eq_Suc_le)

function format_loop :: "(u64 \<Rightarrow> string) \<Rightarrow> string \<Rightarrow> Reg list \<Rightarrow> Value list \<Rightarrow> nat \<Rightarrow> string option" where
  "format_loop show [] args regs ai = Some []"
| "format_loop show (c # cs) args regs ai =
     (if c \<noteq> CHR ''%'' then map_option (\<lambda>s. c # s) (format_loop show cs args regs ai)
      else (case dropWhile is_digit cs of
          [] \<Rightarrow> Some ''%''
        | d # rest \<Rightarrow>
            (if d = CHR ''%'' then map_option (\<lambda>s. CHR ''%'' # s) (format_loop show rest args regs ai)
             else if d \<in> {CHR ''s'', CHR ''S''} then
               do { a \<leftarrow> next_arg args regs ai;
                    map_option (\<lambda>s. fmt_string a @ s) (format_loop show rest args regs (ai + 1)) }
             else (case radix_of d of
                 Some r \<Rightarrow>
                   do { a \<leftarrow> next_arg args regs ai;
                        map_option (\<lambda>s. fmt_radix show a r @ s) (format_loop show rest args regs (ai + 1)) }
               | None \<Rightarrow> map_option (\<lambda>s. CHR ''%'' # d # s) (format_loop show rest args regs ai)))))"
  by pat_completeness auto

termination by (relation "measure (\<lambda>(_, cs, _). length cs)") (auto dest: dropWhile_shorter)

definition format_display :: "(u64 \<Rightarrow> string) \<Rightarrow> string \<Rightarrow> Reg list \<Rightarrow> Value list \<Rightarrow> string option" where
  "format_display show fmt args regs = format_loop show fmt args regs 0"

definition value_to_str :: "(u64 \<Rightarrow> string) \<Rightarrow> Value \<Rightarrow> string" where
  "value_to_str show v =
     (case v of Str s \<Rightarrow> s | Logic l \<Rightarrow> display_lv l | Real r \<Rightarrow> show r | _ \<Rightarrow> [])"

section \<open>Truth and equality\<close>

fun value_truthy :: "Value \<Rightarrow> bool" where
  "value_truthy (Logic l) = is_true l"
| "value_truthy (Obj a) = True"
| "value_truthy (Queue a) = True"
| "value_truthy (Assoc a) = True"
| "value_truthy (Event e) = True"
| "value_truthy Null = False"
| "value_truthy (Str s) = (s \<noteq> [])"
| "value_truthy (Real r) = f64_nonzero r"

fun values_identical :: "Value \<Rightarrow> Value \<Rightarrow> bool" where
  "values_identical (Logic l) (Logic r) = eq_case l r"
| "values_identical (Real l) (Real r) = (l = r)"
| "values_identical (Str l) (Str r) = (l = r)"
| "values_identical (Obj l) (Obj r) = (l = r)"
| "values_identical (Queue l) (Queue r) = (l = r)"
| "values_identical (Assoc l) (Assoc r) = (l = r)"
| "values_identical (Event l) (Event r) = (l = r)"
| "values_identical Null Null = True"
| "values_identical _ _ = False"

definition one :: "bool \<Rightarrow> LogicVec" where
  "one t = from_u64 (of_bool t) 1"

fun eval_eq :: "Value \<Rightarrow> Value \<Rightarrow> LogicVec" where
  "eval_eq (Logic x) (Logic y) = eq_logical x y"
| "eval_eq Null Null = one True"
| "eval_eq (Obj x) (Obj y) = one (x = y)"
| "eval_eq (Queue x) (Queue y) = one (x = y)"
| "eval_eq (Assoc x) (Assoc y) = one (x = y)"
| "eval_eq (Str x) (Str y) = one (x = y)"
| "eval_eq (Event x) (Event y) = one (x = y)"
| "eval_eq _ _ = one False"

end
