(* ===== verification/IR_Coll.thy ===== *)
theory IR_Coll
  imports IR_Ops
begin

text \<open>
  Queues and associative arrays: the keys, and the built-in methods (\<open>eval_coll_method\<close> in
  \<open>crates/eevee-ir/src/interp.rs\<close>). A \<open>BTreeMap\<close> is a list of entries sorted by key; its operations
  are related to partial maps. \<open>None\<close> is a panic.
\<close>

section \<open>Keys\<close>

fun value_to_key :: "Value \<Rightarrow> AssocKey" where
  "value_to_key (Str s) = StrKey s"
| "value_to_key (Logic l) = IntKey (sint (to_i64 l))"
| "value_to_key (Obj a) = ObjKey a"
| "value_to_key Null = NullKey"
| "value_to_key (Real r) = IntKey (f64_to_i64 r)"
| "value_to_key _ = NullKey"

fun key_to_value :: "AssocKey \<Rightarrow> Value" where
  "key_to_value (IntKey i) = Logic (from_i64 (word_of_int i) 64)"
| "key_to_value (StrKey s) = Str s"
| "key_to_value (ObjKey a) = Obj a"
| "key_to_value NullKey = Null"

section \<open>Ordered maps\<close>

fun btree_insert :: "AssocKey \<Rightarrow> Value \<Rightarrow> (AssocKey \<times> Value) list \<Rightarrow> (AssocKey \<times> Value) list" where
  "btree_insert k v [] = [(k, v)]"
| "btree_insert k v ((k', v') # es) =
     (if k < k' then (k, v) # (k', v') # es
      else if k = k' then (k, v) # es
      else (k', v') # btree_insert k v es)"

definition btree_remove :: "AssocKey \<Rightarrow> (AssocKey \<times> Value) list \<Rightarrow> (AssocKey \<times> Value) list" where
  "btree_remove k es = filter (\<lambda>e. fst e \<noteq> k) es"

definition btree_get :: "AssocKey \<Rightarrow> (AssocKey \<times> Value) list \<Rightarrow> Value option" where
  "btree_get k es = map_of es k"

definition first_key :: "(AssocKey \<times> Value) list \<Rightarrow> AssocKey option" where
  "first_key es = (case es of [] \<Rightarrow> None | e # _ \<Rightarrow> Some (fst e))"

definition last_key :: "(AssocKey \<times> Value) list \<Rightarrow> AssocKey option" where
  "last_key es = (if es = [] then None else Some (fst (last es)))"

definition next_key :: "AssocKey \<Rightarrow> (AssocKey \<times> Value) list \<Rightarrow> AssocKey option" where
  "next_key k es = first_key (filter (\<lambda>e. k < fst e) es)"

definition prev_key :: "AssocKey \<Rightarrow> (AssocKey \<times> Value) list \<Rightarrow> AssocKey option" where
  "prev_key k es = last_key (filter (\<lambda>e. fst e < k) es)"

section \<open>Methods\<close>

definition int_val :: "nat \<Rightarrow> Value" where
  "int_val n = Logic (from_u64 (of_nat n) 32)"

definition get_reg :: "Value list \<Rightarrow> Reg \<Rightarrow> Value option" where
  "get_reg rs r = (if r < length rs then Some (rs ! r) else None)"

definition put_reg :: "Reg \<Rightarrow> Value \<Rightarrow> Value list \<Rightarrow> Value list option" where
  "put_reg r v rs = (if r < length rs then Some (rs[r := v]) else None)"

definition logic_reg :: "Value list \<Rightarrow> Reg \<Rightarrow> LogicVec option" where
  "logic_reg rs r = do { v \<leftarrow> get_reg rs r; as_logic v }"

text \<open>A register read as an index, \<open>to_u64() as usize\<close>.\<close>

definition index_reg :: "Value list \<Rightarrow> Reg \<Rightarrow> nat option" where
  "index_reg rs r = map_option (\<lambda>l. unat (to_u64 l)) (logic_reg rs r)"

text \<open>The result, the registers and the new contents of the queue.\<close>

fun queue_method ::
  "CollOp \<Rightarrow> Reg list \<Rightarrow> Value list \<Rightarrow> Value list \<Rightarrow> (Value \<times> Value list \<times> Value list) option" where
  "queue_method PushBack args rs q =
     (case args of [] \<Rightarrow> Some (Null, rs, q) | a # _ \<Rightarrow> do { v \<leftarrow> get_reg rs a; Some (Null, rs, q @ [v]) })"
| "queue_method PushFront args rs q =
     (case args of [] \<Rightarrow> Some (Null, rs, q) | a # _ \<Rightarrow> do { v \<leftarrow> get_reg rs a; Some (Null, rs, v # q) })"
| "queue_method PopBack args rs q = (if q = [] then Some (Null, rs, q) else Some (last q, rs, butlast q))"
| "queue_method PopFront args rs q = (case q of [] \<Rightarrow> Some (Null, rs, q) | v # q \<Rightarrow> Some (v, rs, q))"
| "queue_method Size args rs q = Some (int_val (length q), rs, q)"
| "queue_method Num args rs q = Some (int_val (length q), rs, q)"
| "queue_method Insert args rs q =
     (case args of
        a0 # a1 # _ \<Rightarrow>
          do { i \<leftarrow> index_reg rs a0; v \<leftarrow> get_reg rs a1;
               let i = min i (length q);
               Some (Null, rs, take i q @ v # drop i q) }
      | _ \<Rightarrow> Some (Null, rs, q))"
| "queue_method Delete args rs q =
     (case args of
        [] \<Rightarrow> Some (Null, rs, [])
      | a # _ \<Rightarrow> do { i \<leftarrow> index_reg rs a;
                     Some (Null, rs, if i < length q then take i q @ drop (i + 1) q else q) })"
| "queue_method First args rs q =
     (case args of
        a # _ \<Rightarrow> (if q \<noteq> [] then do { rs \<leftarrow> put_reg a (int_val 0) rs; Some (int_val 1, rs, q) }
                 else Some (int_val 0, rs, q))
      | [] \<Rightarrow> Some (int_val 0, rs, q))"
| "queue_method Last args rs q =
     (case args of
        a # _ \<Rightarrow> (if q \<noteq> [] then do { rs \<leftarrow> put_reg a (int_val (length q - 1)) rs; Some (int_val 1, rs, q) }
                 else Some (int_val 0, rs, q))
      | [] \<Rightarrow> Some (int_val 0, rs, q))"
| "queue_method Next args rs q =
     (case args of
        a # _ \<Rightarrow>
          do { i \<leftarrow> index_reg rs a;
               let next = (i + 1) mod 2 ^ 64;
               if next < length q then do { rs \<leftarrow> put_reg a (int_val next) rs; Some (int_val 1, rs, q) }
               else Some (int_val 0, rs, q) }
      | [] \<Rightarrow> Some (int_val 0, rs, q))"
| "queue_method Prev args rs q =
     (case args of
        a # _ \<Rightarrow>
          do { current \<leftarrow> index_reg rs a;
               if current > 0 \<and> current \<le> length q
               then do { rs \<leftarrow> put_reg a (int_val (current - 1)) rs; Some (int_val 1, rs, q) }
               else Some (int_val 0, rs, q) }
      | [] \<Rightarrow> Some (int_val 0, rs, q))"
| "queue_method Exists args rs q = Some (Null, rs, q)"

text \<open>The key that \<open>first\<close>, \<open>last\<close>, \<open>next\<close> or \<open>prev\<close> found goes into the argument register.\<close>

definition key_result :: "Reg list \<Rightarrow> AssocKey option \<Rightarrow> Value list \<Rightarrow> (Value \<times> Value list) option" where
  "key_result args key rs =
     (case (args, key) of
        (a # _, Some k) \<Rightarrow> do { rs \<leftarrow> put_reg a (key_to_value k) rs; Some (int_val 1, rs) }
      | _ \<Rightarrow> Some (int_val 0, rs))"

fun assoc_method ::
  "CollOp \<Rightarrow> Reg list \<Rightarrow> Value list \<Rightarrow> (AssocKey \<times> Value) list \<Rightarrow> (Value \<times> Value list \<times> (AssocKey \<times> Value) list) option" where
  "assoc_method Size args rs m = Some (int_val (length m), rs, m)"
| "assoc_method Num args rs m = Some (int_val (length m), rs, m)"
| "assoc_method Exists args rs m =
     (case args of
        [] \<Rightarrow> Some (int_val 0, rs, m)
      | a # _ \<Rightarrow> do { v \<leftarrow> get_reg rs a;
                     Some (int_val (of_bool (btree_get (value_to_key v) m \<noteq> None)), rs, m) })"
| "assoc_method Delete args rs m =
     (case args of
        [] \<Rightarrow> Some (Null, rs, [])
      | a # _ \<Rightarrow> do { v \<leftarrow> get_reg rs a; Some (Null, rs, btree_remove (value_to_key v) m) })"
| "assoc_method First args rs m = map_option (\<lambda>(v, rs). (v, rs, m)) (key_result args (first_key m) rs)"
| "assoc_method Last args rs m = map_option (\<lambda>(v, rs). (v, rs, m)) (key_result args (last_key m) rs)"
| "assoc_method Next args rs m =
     (case args of
        [] \<Rightarrow> Some (int_val 0, rs, m)
      | a # _ \<Rightarrow> do { v \<leftarrow> get_reg rs a;
                     map_option (\<lambda>(v, rs). (v, rs, m)) (key_result args (next_key (value_to_key v) m) rs) })"
| "assoc_method Prev args rs m =
     (case args of
        [] \<Rightarrow> Some (int_val 0, rs, m)
      | a # _ \<Rightarrow> do { v \<leftarrow> get_reg rs a;
                     map_option (\<lambda>(v, rs). (v, rs, m)) (key_result args (prev_key (value_to_key v) m) rs) })"
| "assoc_method _ args rs m = Some (Null, rs, m)"

definition eval_coll_method :: "Value \<Rightarrow> CollOp \<Rightarrow> Reg list \<Rightarrow> Value list \<Rightarrow> World \<Rightarrow> (Value \<times> Value list \<times> World) option" where
  "eval_coll_method bv op args rs w =
     (case bv of
        Queue a \<Rightarrow>
          (case cells w a of
             Some (QueueCell q) \<Rightarrow>
               map_option (\<lambda>(v, rs, q). (v, rs, w\<lparr>cells := (cells w)(a \<mapsto> QueueCell q)\<rparr>)) (queue_method op args rs q)
           | _ \<Rightarrow> None)
      | Assoc a \<Rightarrow>
          (case cells w a of
             Some (AssocCell m) \<Rightarrow>
               map_option (\<lambda>(v, rs, m). (v, rs, w\<lparr>cells := (cells w)(a \<mapsto> AssocCell m)\<rparr>)) (assoc_method op args rs m)
           | _ \<Rightarrow> None)
      | _ \<Rightarrow> Some (Null, rs, w))"

section \<open>The map laws\<close>

abbreviation btree_ok :: "(AssocKey \<times> Value) list \<Rightarrow> bool" where
  "btree_ok es \<equiv> sorted_wrt (<) (map fst es)"

lemma btree_distinct: "btree_ok es \<Longrightarrow> distinct (map fst es)"
  by (induction es) auto

lemma set_btree_insert: "fst ` set (btree_insert k v es) = insert k (fst ` set es)"
  by (induction k v es rule: btree_insert.induct) (simp_all add: insert_commute)

lemma btree_insert_ok: "btree_ok es \<Longrightarrow> btree_ok (btree_insert k v es)"
proof (induction es)
  case (Cons e es)
  obtain k' v' where e: "e = (k', v')" by fastforce
  have *: "\<forall>x \<in> fst ` set es. k' < x" using Cons.prems by (auto simp: e)
  have "k' < k \<Longrightarrow> \<forall>x \<in> fst ` set (btree_insert k v es). k' < x" using * by (simp add: set_btree_insert)
  then show ?case using Cons * by (auto simp: e)
qed simp

lemma btree_insert_get: "btree_ok es \<Longrightarrow> map_of (btree_insert k v es) = (map_of es)(k \<mapsto> v)"
proof (induction es)
  case (Cons e es)
  then show ?case by (cases e) (auto simp: fun_upd_twist)
qed simp

lemma btree_remove_ok: "btree_ok es \<Longrightarrow> btree_ok (btree_remove k es)"
  unfolding btree_remove_def by (induction es) auto

lemma btree_remove_get: "btree_ok es \<Longrightarrow> map_of (btree_remove k es) = (map_of es)(k := None)"
  unfolding btree_remove_def by (induction es) (auto simp: fun_eq_iff)

lemma first_key_least: "btree_ok es \<Longrightarrow> first_key es = Some k \<longleftrightarrow> k \<in> dom (map_of es) \<and> (\<forall>l \<in> dom (map_of es). k \<le> l)"
  by (cases es) (force simp: first_key_def dom_map_of_conv_image_fst)+

lemma last_key_greatest: "btree_ok es \<Longrightarrow> last_key es = Some k \<longleftrightarrow> k \<in> dom (map_of es) \<and> (\<forall>l \<in> dom (map_of es). l \<le> k)"
  by (cases es rule: rev_cases) (force simp: last_key_def dom_map_of_conv_image_fst sorted_wrt_append)+

lemma filter_ok: "btree_ok es \<Longrightarrow> btree_ok (filter P es)"
  by (induction es) auto

end
