(* ===== verification/Resolve.thy ===== *)
theory Resolve
  imports Nets "HOL-Library.Multiset"
begin

text \<open>
  Resolution of the drivers of one net (\<open>resolve_drivers\<close> and \<open>StrengthValue\<close> in
  \<open>crates/eevee-sched/src/kernel.rs\<close>). A drive is an interval between a point toward 0 and a
  point toward 1, and two drives are combined endpoint by endpoint; a wired AND or OR looks at the
  bits alone. The contract of a resolution, the locale \<open>net_resolution\<close>, is that a \<open>z\<close> driver
  has no effect and that the order of the drivers does not matter.
\<close>

section \<open>Strength values\<close>

record StrengthPoint =
  p_one :: bool
  p_strength :: nat

definition point_high_z :: StrengthPoint where
  "point_high_z = \<lparr>p_one = False, p_strength = 0\<rparr>"

definition coordinate :: "StrengthPoint \<Rightarrow> int" where
  "coordinate p = (if p_one p then int (p_strength p) else - int (p_strength p))"

definition from_coordinate :: "int \<Rightarrow> StrengthPoint" where
  "from_coordinate c = \<lparr>p_one = (c > 0), p_strength = nat \<bar>c\<bar>\<rparr>"

record StrengthValue =
  toward_zero :: StrengthPoint
  toward_one :: StrengthPoint

definition value_high_z :: StrengthValue where
  "value_high_z = \<lparr>toward_zero = point_high_z, toward_one = point_high_z\<rparr>"

definition strength_value :: "Bit \<Rightarrow> DriverStrengths \<Rightarrow> StrengthValue" where
  "strength_value b strengths =
     (let zs = level (zero_s strengths); os = level (one_s strengths)
      in if zs = 0 \<and> os = 0 then value_high_z
         else (let zp = \<lparr>p_one = False, p_strength = zs\<rparr>; op = \<lparr>p_one = True, p_strength = os\<rparr>
               in (case b of
                  Zero \<Rightarrow> \<lparr>toward_zero = zp, toward_one = zp\<rparr>
                | One \<Rightarrow> \<lparr>toward_zero = op, toward_one = op\<rparr>
                | X \<Rightarrow> \<lparr>toward_zero = zp, toward_one = op\<rparr>
                | Z \<Rightarrow> value_high_z)))"

definition is_high_z :: "StrengthValue \<Rightarrow> bool" where
  "is_high_z s \<longleftrightarrow> p_strength (toward_zero s) = 0 \<and> p_strength (toward_one s) = 0"

definition strength_bit :: "StrengthValue \<Rightarrow> Bit" where
  "strength_bit s =
     (if is_high_z s then Z
      else if p_one (toward_zero s) = p_one (toward_one s)
      then (if p_one (toward_zero s) then One else Zero)
      else X)"

definition is_unambiguous :: "StrengthValue \<Rightarrow> bool" where
  "is_unambiguous s \<longleftrightarrow> toward_zero s = toward_one s"

text \<open>The one recursive call swaps the arguments, and the first one is then unambiguous.\<close>

function resolve :: "StrengthValue \<Rightarrow> StrengthValue \<Rightarrow> StrengthValue" where
  "resolve s t =
     (if is_high_z s then t
      else if is_high_z t \<or> s = t then s
      else if is_unambiguous s \<and> is_unambiguous t then
        (if p_strength (toward_zero t) > p_strength (toward_zero s) then t
         else if p_strength (toward_zero t) = p_strength (toward_zero s) then
           (if p_one (toward_zero s)
            then \<lparr>toward_zero = toward_zero t, toward_one = toward_one s\<rparr>
            else \<lparr>toward_zero = toward_zero s, toward_one = toward_one t\<rparr>)
         else s)
      else if is_unambiguous s then
        \<lparr>toward_zero = (if p_strength (toward_zero s) > p_strength (toward_zero t)
                        then toward_zero s else toward_zero t),
         toward_one = (if p_strength (toward_one s) > p_strength (toward_one t)
                       then toward_one s else toward_one t)\<rparr>
      else if is_unambiguous t then resolve t s
      else (let coordinates = [coordinate (toward_zero s), coordinate (toward_one s),
                               coordinate (toward_zero t), coordinate (toward_one t)]
            in \<lparr>toward_zero = from_coordinate (Min (set coordinates)),
                toward_one = from_coordinate (Max (set coordinates))\<rparr>))"
  by pat_completeness auto
termination
  by (relation "measure (\<lambda>(s, t). if is_unambiguous s then 0 else 1)") auto

declare resolve.simps [simp del]

section \<open>Resolution of the drivers\<close>

definition resolve_wire_bit :: "LogicVec list \<Rightarrow> DriverStrengths list \<Rightarrow> nat \<Rightarrow> Bit" where
  "resolve_wire_bit drivers strengths i =
     strength_bit (foldl (\<lambda>resolved (driver, s). resolve resolved (strength_value (get_bit driver i) s))
       value_high_z (zip drivers strengths))"

fun wand_loop :: "Bit list \<Rightarrow> Bit \<Rightarrow> Bit" where
  "wand_loop [] v = v"
| "wand_loop (b # bs) v = (case b of
     Z \<Rightarrow> wand_loop bs v
   | Zero \<Rightarrow> Zero
   | X \<Rightarrow> wand_loop bs X
   | One \<Rightarrow> (if v = Z then wand_loop bs One else wand_loop bs v))"

fun wor_loop :: "Bit list \<Rightarrow> Bit \<Rightarrow> Bit" where
  "wor_loop [] v = v"
| "wor_loop (b # bs) v = (case b of
     Z \<Rightarrow> wor_loop bs v
   | One \<Rightarrow> One
   | X \<Rightarrow> wor_loop bs X
   | Zero \<Rightarrow> (if v = Z then wor_loop bs Zero else wor_loop bs v))"

definition resolve_wand_bit :: "LogicVec list \<Rightarrow> nat \<Rightarrow> Bit" where
  "resolve_wand_bit drivers i = wand_loop (map (\<lambda>d. get_bit d i) drivers) Z"

definition resolve_wor_bit :: "LogicVec list \<Rightarrow> nat \<Rightarrow> Bit" where
  "resolve_wor_bit drivers i = wor_loop (map (\<lambda>d. get_bit d i) drivers) Z"

definition resolve_drivers ::
  "LogicVec list \<Rightarrow> DriverStrengths list \<Rightarrow> nat \<Rightarrow> NetResolution \<Rightarrow> LogicVec" where
  "resolve_drivers drivers strengths w resolution =
     set_bits 0 (\<lambda>_. True)
       (\<lambda>i. (case resolution of
            Wire \<Rightarrow> resolve_wire_bit drivers strengths i
          | Wand \<Rightarrow> resolve_wand_bit drivers i
          | Wor \<Rightarrow> resolve_wor_bit drivers i))
       [0..<w] (all_z w)"

lemma width_resolve_drivers [simp, shape_simps]: "width (resolve_drivers ds ss w r) = w"
  by (simp add: resolve_drivers_def)

lemma wf_resolve_drivers [simp, wf_intros]:
  "1 \<le> w \<Longrightarrow> w < 2 ^ 32 \<Longrightarrow> wf_lv (resolve_drivers ds ss w r)"
  by (simp add: resolve_drivers_def)

lemma get_bit_resolve_drivers [getbit_simps]:
  "1 \<le> w \<Longrightarrow> w < 2 ^ 32 \<Longrightarrow> i < w \<Longrightarrow> get_bit (resolve_drivers ds ss w r) i =
    (case r of Wire \<Rightarrow> resolve_wire_bit ds ss i | Wand \<Rightarrow> resolve_wand_bit ds i | Wor \<Rightarrow> resolve_wor_bit ds i)"
  by (simp add: resolve_drivers_def get_bit_set_bits split: NetResolution.split)

section \<open>The contract of a resolution\<close>

locale net_resolution =
  fixes res :: "'d list \<Rightarrow> Bit" and off :: "'d \<Rightarrow> bool"
  assumes res_Nil: "res [] = Z"
    and res_off: "off d \<Longrightarrow> res (d # ds) = res ds"
    and res_perm: "mset ds = mset es \<Longrightarrow> res ds = res es"
begin

lemma res_prefix: "(\<And>a. a \<in> set as \<Longrightarrow> off a) \<Longrightarrow> res (as @ es) = res es"
  by (induction as) (simp_all add: res_off)

lemma res_filter: "res ds = res (filter (\<lambda>d. \<not> off d) ds)"
proof (induction ds)
  case (Cons d ds)
  show ?case
  proof (cases "off d")
    case True
    with Cons show ?thesis by (simp add: res_off)
  next
    case False
    have "res (d # ds) = res (ds @ [d])" by (rule res_perm) simp
    show ?thesis
    proof -
      have "mset (d # ds) = mset (filter off ds @ d # filter (\<lambda>d. \<not> off d) ds)"
        using multiset_partition [of "mset ds" off] by (simp flip: mset_filter)
      then have "res (d # ds) = res (filter off ds @ d # filter (\<lambda>d. \<not> off d) ds)"
        by (rule res_perm)
      also have "\<dots> = res (d # filter (\<lambda>d. \<not> off d) ds)"
        by (rule res_prefix) simp
      finally show ?thesis using False by simp
    qed
  qed
qed simp

lemma res_undriven: "(\<And>d. d \<in> set ds \<Longrightarrow> off d) \<Longrightarrow> res ds = Z"
  by (subst res_filter) (simp add: filter_empty_conv [THEN iffD2] res_Nil)

end

section \<open>Wired AND and OR\<close>

lemma wand_loop_spec:
  "wand_loop bs v = (if Zero \<in> set bs then Zero
     else if X \<in> set bs then X
     else if One \<in> set bs then (if v = Z then One else v) else v)"
  by (induction bs arbitrary: v) (auto split: Bit.splits)

lemma wor_loop_spec:
  "wor_loop bs v = (if One \<in> set bs then One
     else if X \<in> set bs then X
     else if Zero \<in> set bs then (if v = Z then Zero else v) else v)"
  by (induction bs arbitrary: v) (auto split: Bit.splits)

interpretation wand_net: net_resolution "\<lambda>bs. wand_loop bs Z" "\<lambda>b. b = Z"
  by unfold_locales (auto simp: wand_loop_spec dest: mset_eq_setD)

interpretation wor_net: net_resolution "\<lambda>bs. wor_loop bs Z" "\<lambda>b. b = Z"
  by unfold_locales (auto simp: wor_loop_spec dest: mset_eq_setD)

section \<open>Symmetric strengths\<close>

text \<open>
  The specification for drivers of one strength for 0 and 1: a drive is a level and a bit, the
  higher level wins, and two different bits of one level give \<open>x\<close>. This forms a semilattice, so the
  order of the drivers does not matter.
\<close>

definition win :: "nat \<times> Bit \<Rightarrow> nat \<times> Bit \<Rightarrow> nat \<times> Bit" where
  "win p q =
     (if fst q > fst p then q else if fst q < fst p then p
      else (fst p, if snd p = snd q then snd p else X))"

definition drive_of :: "Bit \<Rightarrow> DriveStrength \<Rightarrow> nat \<times> Bit" where
  "drive_of b s = (if b = Z \<or> s = HighZ then (0, Z) else (level s, b))"

lemma win_commute: "win p q = win q p"
  by (auto simp: win_def prod_eq_iff)

lemma win_left_commute: "win p (win q r) = win q (win p r)"
  by (auto simp: win_def prod_eq_iff)

lemma win_Z: "win (0, Z) (n, b) = (if n = 0 \<and> b \<noteq> Z then (0, X) else (n, b))"
  by (auto simp: win_def)

text \<open>The strength value of a level and a bit, and its resolution: \<open>win\<close> on the specification.\<close>

definition sv :: "nat \<times> Bit \<Rightarrow> StrengthValue" where
  "sv p = (let zp = \<lparr>p_one = False, p_strength = fst p\<rparr>; op = \<lparr>p_one = True, p_strength = fst p\<rparr>
     in (case snd p of
        Zero \<Rightarrow> \<lparr>toward_zero = zp, toward_one = zp\<rparr>
      | One \<Rightarrow> \<lparr>toward_zero = op, toward_one = op\<rparr>
      | X \<Rightarrow> \<lparr>toward_zero = zp, toward_one = op\<rparr>
      | Z \<Rightarrow> value_high_z))"

definition drive_ok :: "nat \<times> Bit \<Rightarrow> bool" where
  "drive_ok p \<longleftrightarrow> (fst p = 0 \<longleftrightarrow> snd p = Z)"

lemma level_0 [simp]: "level s = 0 \<longleftrightarrow> s = HighZ"
  by (cases s) simp_all

lemma drive_ok_drive_of [simp]: "drive_ok (drive_of b s)"
  by (auto simp: drive_ok_def drive_of_def)

lemma drive_ok_win: "drive_ok p \<Longrightarrow> drive_ok q \<Longrightarrow> drive_ok (win p q)"
  by (auto simp: drive_ok_def win_def)

lemma strength_value_symmetric: "strength_value b (symmetric s) = sv (drive_of b s)"
  by (auto simp: strength_value_def symmetric_def drive_of_def sv_def split: Bit.split)

lemma strength_bit_sv: "drive_ok p \<Longrightarrow> strength_bit (sv p) = snd p"
  by (cases "snd p")
    (auto simp: strength_bit_def sv_def drive_ok_def is_high_z_def value_high_z_def point_high_z_def)

lemma is_high_z_sv: "drive_ok p \<Longrightarrow> is_high_z (sv p) \<longleftrightarrow> snd p = Z"
  by (cases "snd p") (auto simp: is_high_z_def sv_def drive_ok_def value_high_z_def point_high_z_def)

lemma is_unambiguous_sv: "drive_ok p \<Longrightarrow> is_unambiguous (sv p) \<longleftrightarrow> snd p \<noteq> X"
  by (cases "snd p") (auto simp: is_unambiguous_def sv_def value_high_z_def)

lemma sv_eq_iff: "drive_ok p \<Longrightarrow> drive_ok q \<Longrightarrow> sv p = sv q \<longleftrightarrow> p = q"
  by (cases p; cases q; cases "snd p"; cases "snd q")
    (auto simp: sv_def drive_ok_def value_high_z_def point_high_z_def)

lemma sv_fields:
  "toward_zero (sv (n, Zero)) = \<lparr>p_one = False, p_strength = n\<rparr>"
  "toward_one (sv (n, Zero)) = \<lparr>p_one = False, p_strength = n\<rparr>"
  "toward_zero (sv (n, One)) = \<lparr>p_one = True, p_strength = n\<rparr>"
  "toward_one (sv (n, One)) = \<lparr>p_one = True, p_strength = n\<rparr>"
  "toward_zero (sv (n, X)) = \<lparr>p_one = False, p_strength = n\<rparr>"
  "toward_one (sv (n, X)) = \<lparr>p_one = True, p_strength = n\<rparr>"
  by (simp_all add: sv_def)

lemma sv_eqI:
  "toward_zero s = toward_zero (sv p) \<Longrightarrow> toward_one s = toward_one (sv p) \<Longrightarrow> s = sv p"
  by simp

lemma resolve_sv_direct:
  assumes "drive_ok p" and "drive_ok q" and "snd p \<noteq> X \<or> snd q = X \<or> snd q = Z"
  shows "resolve (sv p) (sv q) = sv (win p q)"
proof -
  obtain m a n b where p: "p = (m, a)" and q: "q = (n, b)" by (metis surj_pair)
  note ok = assms(1,2) [unfolded p q]
  note tests = is_high_z_sv [OF ok(1)] is_high_z_sv [OF ok(2)] is_unambiguous_sv [OF ok(1)]
    is_unambiguous_sv [OF ok(2)] sv_eq_iff [OF ok] snd_conv prod.inject
  show ?thesis
  proof (cases "a = Z \<or> b = Z")
    case True
    with assms have "win p q = (if a = Z then q else p)"
      by (auto simp: p q drive_ok_def win_def)
    with True have "win (m, a) (n, b) = (if a = Z then (n, b) else (m, a))" by (simp only: p q snd_conv)
    with True show ?thesis
      unfolding p q resolve.simps [of "sv (m, a)" "sv (n, b)"] tests
      by (cases "a = Z") (simp_all only: if_True if_False simp_thms)
  next
    case False
    then have mn: "0 < m" "0 < n" using assms by (auto simp: p q drive_ok_def)
    consider "a = X" "b = X" | "a \<noteq> X"
      using assms(3) False by (auto simp: p q)
    then show ?thesis
    proof cases
      case 1
      have "resolve (sv (m, X)) (sv (n, X)) = sv (win (m, X) (n, X))"
        unfolding resolve.simps [of "sv (m, X)" "sv (n, X)"] tests [unfolded 1]
        using mn by (cases m n rule: linorder_cases)
          (simp_all add: win_def sv_fields coordinate_def from_coordinate_def sv_eqI)
      with 1 show ?thesis by (simp only: p q)
    next
      case 2
      have "resolve (sv (m, a)) (sv (n, b)) = sv (win (m, a) (n, b))"
        unfolding resolve.simps [of "sv (m, a)" "sv (n, b)"] tests
        using mn False 2
        by (cases a; cases b; cases m n rule: linorder_cases)
          (simp_all add: win_def sv_fields sv_eqI)
      then show ?thesis by (simp only: p q)
    qed
  qed
qed

lemma resolve_sv:
  assumes "drive_ok p" and "drive_ok q"
  shows "resolve (sv p) (sv q) = sv (win p q)"
proof (cases "snd p \<noteq> X \<or> snd q = X \<or> snd q = Z")
  case False
  then have f: "snd p = X" "snd q \<noteq> X" "snd q \<noteq> Z" "p \<noteq> q" by auto
  have "resolve (sv p) (sv q) = resolve (sv q) (sv p)"
    unfolding resolve.simps [of "sv p" "sv q"] is_high_z_sv [OF assms(1)] is_high_z_sv [OF assms(2)]
      is_unambiguous_sv [OF assms(1)] is_unambiguous_sv [OF assms(2)] sv_eq_iff [OF assms]
    by (simp only: f if_False if_True simp_thms not_not Bit.distinct)
  with False show ?thesis
    using resolve_sv_direct [OF assms(2,1)] by (simp add: win_commute)
qed (use resolve_sv_direct [OF assms] in blast)

definition resolve_wire :: "(Bit \<times> DriverStrengths) list \<Rightarrow> Bit" where
  "resolve_wire ds = strength_bit (foldl (\<lambda>r (b, s). resolve r (strength_value b s)) value_high_z ds)"

lemma resolve_wire_bit_eq:
  "resolve_wire_bit drivers strengths i =
    resolve_wire (zip (map (\<lambda>d. get_bit d i) drivers) strengths)"
  by (simp add: resolve_wire_bit_def resolve_wire_def zip_map1 foldl_map case_prod_unfold)

definition strongest :: "(Bit \<times> DriveStrength) list \<Rightarrow> nat \<times> Bit" where
  "strongest ds = fold (\<lambda>(b, s). win (drive_of b s)) ds (0, Z)"

abbreviation sym_drives :: "(Bit \<times> DriveStrength) list \<Rightarrow> (Bit \<times> DriverStrengths) list" where
  "sym_drives ds \<equiv> map (\<lambda>(b, s). (b, symmetric s)) ds"

lemma foldl_resolve_sv:
  "drive_ok p \<Longrightarrow> foldl (\<lambda>r (b, s). resolve r (strength_value b s)) (sv p) (sym_drives ds) =
      sv (fold (\<lambda>(b, s). win (drive_of b s)) ds p) \<and>
    drive_ok (fold (\<lambda>(b, s). win (drive_of b s)) ds p)"
proof (induction ds arbitrary: p)
  case (Cons d ds)
  obtain b s where d: "d = (b, s)" by fastforce
  show ?case
    using Cons.IH [of "win (drive_of b s) p"] Cons.prems
    by (simp add: d strength_value_symmetric resolve_sv drive_ok_win win_commute)
qed simp

lemma sv_off: "sv (0, Z) = value_high_z" "drive_ok (0, Z)"
  by (simp_all add: sv_def drive_ok_def)

lemma resolve_wire_sym: "resolve_wire (sym_drives ds) = snd (strongest ds)"
  using foldl_resolve_sv [OF sv_off(2), of ds]
  by (simp add: resolve_wire_def strongest_def sv_off(1) strength_bit_sv)

lemma strongest_perm: "mset ds = mset es \<Longrightarrow> strongest ds = strongest es"
  unfolding strongest_def
  by (rule fun_cong [OF fold_multiset_equiv]) (auto simp: win_left_commute)

interpretation wire_net: net_resolution "\<lambda>ds. resolve_wire (sym_drives ds)" "\<lambda>(b, s). b = Z \<or> s = HighZ"
proof
  show "resolve_wire (sym_drives []) = Z"
    unfolding resolve_wire_sym by (simp add: strongest_def)
  show "resolve_wire (sym_drives (d # ds)) = resolve_wire (sym_drives ds)"
    if "case d of (b, s) \<Rightarrow> b = Z \<or> s = HighZ" for d ds
  proof -
    have "win (0, Z) (0, Z) = (0, Z)" by (simp add: win_def)
    with that show ?thesis
      unfolding resolve_wire_sym strongest_def by (auto simp: drive_of_def)
  qed
  show "resolve_wire (sym_drives ds) = resolve_wire (sym_drives es)" if "mset ds = mset es" for ds es
    using strongest_perm [OF that] by (simp only: resolve_wire_sym)
qed

text \<open>What the winning drive is: of the highest level present, and \<open>x\<close> on a conflict there.\<close>

definition winner :: "(nat \<times> Bit) set \<Rightarrow> nat \<times> Bit \<Rightarrow> bool" where
  "winner D p \<longleftrightarrow> drive_ok p \<and> (\<forall>d \<in> D. fst d \<le> fst p) \<and>
     (fst p \<noteq> 0 \<longrightarrow>
       (if snd p = X then \<exists>d \<in> D. \<exists>e \<in> D. fst d = fst p \<and> fst e = fst p \<and> (snd d \<noteq> snd e \<or> snd d = X)
        else p \<in> D \<and> (\<forall>d \<in> D. fst d = fst p \<longrightarrow> d = p)))"

lemma winner_insert:
  assumes "winner D p" and "drive_ok d"
  shows "winner (insert d D) (win d p)"
proof -
  obtain n b m c where p: "p = (n, b)" and d: "d = (m, c)" by (metis surj_pair)
  consider "m < n" | "n < m" | "m = n" by linarith
  then show ?thesis
  proof cases
    case 1
    then show ?thesis using assms by (auto simp: p d win_def winner_def)
  next
    case 2
    then show ?thesis using assms by (auto simp: p d win_def winner_def)
  next
    case 3
    then have w: "win d p = (n, if c = b then c else X)"
      by (simp add: p d win_def)
    show ?thesis
    proof (cases "n = 0")
      case True
      then show ?thesis using assms 3 by (auto simp: p d win_def winner_def drive_ok_def)
    next
      case False
      have le: "\<forall>x \<in> insert d D. fst x \<le> n" "drive_ok (win d p)"
        using assms 3 by (auto simp: winner_def p d drive_ok_win)
      consider "c = b" "b \<noteq> X" | "win d p = (n, X)"
          "\<exists>x \<in> insert d D. \<exists>y \<in> insert d D. fst x = n \<and> fst y = n \<and> (snd x \<noteq> snd y \<or> snd x = X)"
      proof (cases "c = b \<and> b \<noteq> X")
        case F: False
        then have "win d p = (n, X)" by (auto simp: w)
        moreover have "\<exists>x \<in> insert d D. \<exists>y \<in> insert d D. fst x = n \<and> fst y = n \<and> (snd x \<noteq> snd y \<or> snd x = X)"
        proof (cases "c = X")
          case True
          then show ?thesis using 3 by (auto simp: d)
        next
          case c: False
          show ?thesis
          proof (cases "b = X")
            case True
            then show ?thesis using assms(1) False by (auto simp: winner_def p)
          next
            case b: False
            then have "p \<in> D" "b \<noteq> c" using assms(1) False F by (auto simp: winner_def p)
            then show ?thesis using 3 by (intro bexI [of _ d] bexI [of _ p]) (auto simp: p d)
          qed
        qed
        ultimately show ?thesis using that by blast
      qed (use that in blast)
      then show ?thesis
      proof cases
        case 1
        then have "p \<in> D" using assms(1) False by (simp add: winner_def p)
        moreover have "d = p" "win d p = p" using 1 3 by (simp_all add: p d win_def)
        ultimately show ?thesis using assms(1) by (simp only: insert_absorb)
      next
        case 2
        then show ?thesis using le False unfolding winner_def 2(1) fst_conv snd_conv by simp
      qed
    qed
  qed
qed

lemma winner_strongest: "winner ((\<lambda>(b, s). drive_of b s) ` set ds) (strongest ds)"
proof (induction ds rule: rev_induct)
  case Nil
  then show ?case by (simp add: strongest_def winner_def drive_ok_def)
next
  case (snoc d ds)
  obtain b s where d: "d = (b, s)" by fastforce
  have "strongest (ds @ [d]) = win (drive_of b s) (strongest ds)"
    by (simp add: strongest_def d)
  with winner_insert [OF snoc, of "drive_of b s"] show ?case by (simp add: d)
qed

lemma drive_of_level: "fst (drive_of c t) = 0 \<longleftrightarrow> c = Z \<or> t = HighZ"
  "c \<noteq> Z \<Longrightarrow> t \<noteq> HighZ \<Longrightarrow> drive_of c t = (level t, c)"
  by (auto simp: drive_of_def)

lemma strongest_off: "snd (strongest ds) = Z \<longleftrightarrow> (\<forall>(c, s) \<in> set ds. c = Z \<or> s = HighZ)"
proof -
  define p D where "p = strongest ds" and "D = (\<lambda>(b, s). drive_of b s) ` set ds"
  have w: "winner D p" unfolding p_def D_def by (rule winner_strongest)
  have "snd p = Z \<longleftrightarrow> fst p = 0" using w by (auto simp: winner_def drive_ok_def)
  also have "\<dots> \<longleftrightarrow> (\<forall>d \<in> D. fst d = 0)"
    using w by (fastforce simp: winner_def split: if_splits)
  also have "\<dots> \<longleftrightarrow> (\<forall>(c, s) \<in> set ds. c = Z \<or> s = HighZ)"
    by (simp add: D_def case_prod_unfold drive_of_level)
  finally show ?thesis by (simp only: p_def)
qed

lemma strongest_bit:
  assumes "b = Zero \<or> b = One"
  shows "snd (strongest ds) = b \<longleftrightarrow>
    (\<exists>s. s \<noteq> HighZ \<and> (b, s) \<in> set ds \<and> (\<forall>(c, t) \<in> set ds. level s \<le> level t \<longrightarrow> c = Z \<or> c = b))"
    (is "_ \<longleftrightarrow> ?R")
proof -
  define p D where "p = strongest ds" and "D = (\<lambda>(b, s). drive_of b s) ` set ds"
  have w: "winner D p" unfolding p_def D_def by (rule winner_strongest)
  have inD: "(level t, c) \<in> D" if "(c, t) \<in> set ds" "c \<noteq> Z" "t \<noteq> HighZ" for c t
    using that drive_of_level(2) [OF that(2,3)] by (force simp: D_def)
  have fromD: "\<exists>c t. (c, t) \<in> set ds \<and> c \<noteq> Z \<and> t \<noteq> HighZ \<and> d = (level t, c)" if "d \<in> D" "fst d \<noteq> 0" for d
  proof -
    from that(1) obtain c t where "(c, t) \<in> set ds" "d = drive_of c t" by (auto simp: D_def)
    then show ?thesis using that(2) drive_of_level by metis
  qed
  have "snd p = b \<longleftrightarrow> ?R"
  proof
    assume b: "snd p = b"
    then have pb: "snd p \<noteq> Z" "snd p \<noteq> X" using assms by auto
    moreover have "fst p = 0 \<longleftrightarrow> snd p = Z" using w unfolding winner_def drive_ok_def by blast
    ultimately have n: "fst p \<noteq> 0" "p \<in> D" "\<forall>d \<in> D. fst d \<le> fst p" "\<forall>d \<in> D. fst d = fst p \<longrightarrow> d = p"
      using w unfolding winner_def by metis+
    obtain s where s: "(b, s) \<in> set ds" "s \<noteq> HighZ" "p = (level s, b)"
      using fromD [OF n(2,1)] b by (metis snd_conv)
    have "c = Z \<or> c = b" if "(c, t) \<in> set ds" "level s \<le> level t" for c t
    proof (rule ccontr)
      assume a: "\<not> (c = Z \<or> c = b)"
      then have "t \<noteq> HighZ" using that s(2) by (cases s) auto
      then have "(level t, c) \<in> D" using that a inD by blast
      then have "level t \<le> fst p" and eq: "level t = fst p \<longrightarrow> (level t, c) = p"
        using n(3) n(4) by fastforce+
      then have "(level t, c) = p" using that(2) s(3) by simp
      then show False using s(3) a by simp
    qed
    with s show ?R by blast
  next
    assume ?R
    then obtain s where s: "s \<noteq> HighZ" "(b, s) \<in> set ds"
      "\<And>c t. (c, t) \<in> set ds \<Longrightarrow> level s \<le> level t \<Longrightarrow> c = Z \<or> c = b" by blast
    have "(level s, b) \<in> D" using inD [OF s(2)] s(1) assms by auto
    then have "level s \<le> fst p" using w unfolding winner_def by fastforce
    moreover have "level s \<noteq> 0" using s(1) by simp
    ultimately have ls: "level s \<le> fst p" "fst p \<noteq> 0" by linarith+
    have top: "snd d = b" if "d \<in> D" "fst d = fst p" for d
      using fromD [OF that(1)] that(2) ls s(3) by fastforce
    show "snd p = b"
    proof (cases "snd p = X")
      case True
      then obtain d e where "d \<in> D" "e \<in> D" "fst d = fst p" "fst e = fst p" "snd d \<noteq> snd e \<or> snd d = X"
        using w ls(2) by (auto simp: winner_def)
      then show ?thesis using top [of d] top [of e] assms by auto
    next
      case False
      then have "p \<in> D" using w ls(2) by (simp add: winner_def)
      then show ?thesis using top by simp
    qed
  qed
  then show ?thesis by (simp only: p_def)
qed

text \<open>
  Drivers with two strengths are another matter: three of them, an \<open>x\<close> of strength (strong0, pull1),
  an \<open>x\<close> of (supply0, weak1) and a strong 0, resolve to different values in different orders.
\<close>

lemma wire_order_dependent:
  "resolve_wire [(X, \<lparr>zero_s = Strong, one_s = Pull\<rparr>), (X, \<lparr>zero_s = Supply, one_s = Weak\<rparr>),
     (Zero, symmetric Strong)] = Zero \<and>
   resolve_wire [(X, \<lparr>zero_s = Supply, one_s = Weak\<rparr>), (Zero, symmetric Strong),
     (X, \<lparr>zero_s = Strong, one_s = Pull\<rparr>)] = X"
  by (simp add: resolve_wire_def strength_value_def symmetric_def value_high_z_def point_high_z_def
      resolve.simps is_high_z_def is_unambiguous_def coordinate_def from_coordinate_def strength_bit_def)

section \<open>Properties\<close>

text \<open>
  C18. Resolution of a \<open>wire\<close> whose drivers each have one strength for 0 and 1 (which is every
  driver not declared with two strengths). The net is \<open>z\<close> exactly when no driver is on; it is 0 (or
  1) exactly when some driver drives that value and no driver at least as strong drives another;
  and the order in which the drivers were registered does not matter.
\<close>

theorem wire_strongest_wins:
  "(resolve_wire (sym_drives ds) = Z \<longleftrightarrow> (\<forall>(c, s) \<in> set ds. c = Z \<or> s = HighZ)) \<and>
   (\<forall>b \<in> {Zero, One}. resolve_wire (sym_drives ds) = b \<longleftrightarrow>
      (\<exists>s. s \<noteq> HighZ \<and> (b, s) \<in> set ds \<and> (\<forall>(c, t) \<in> set ds. level s \<le> level t \<longrightarrow> c = Z \<or> c = b))) \<and>
   (mset es = mset ds \<longrightarrow> resolve_wire (sym_drives es) = resolve_wire (sym_drives ds))"
proof (intro conjI ballI impI)
  show "resolve_wire (sym_drives ds) = Z \<longleftrightarrow> (\<forall>(c, s) \<in> set ds. c = Z \<or> s = HighZ)"
    unfolding resolve_wire_sym by (rule strongest_off)
  show "resolve_wire (sym_drives ds) = b \<longleftrightarrow>
      (\<exists>s. s \<noteq> HighZ \<and> (b, s) \<in> set ds \<and> (\<forall>(c, t) \<in> set ds. level s \<le> level t \<longrightarrow> c = Z \<or> c = b))"
    if "b \<in> {Zero, One}" for b
    unfolding resolve_wire_sym using that by (intro strongest_bit) simp
qed (rule wire_net.res_perm)

theorem wire_strongest_wins_witness:
  "resolve_wire (sym_drives [(One, Pull), (Zero, Strong), (X, Weak)]) = Zero \<and>
   resolve_wire (sym_drives [(X, Weak), (One, Pull), (Zero, Strong)]) = Zero"
proof -
  have "resolve_wire (sym_drives [(One, Pull), (Zero, Strong), (X, Weak)]) = Zero"
    using wire_strongest_wins [of "[(One, Pull), (Zero, Strong), (X, Weak)]"]
    by (auto intro!: exI [of _ Strong])
  moreover have "mset [(X, Weak), (One, Pull), (Zero, Strong)] = mset [(One, Pull), (Zero, Strong), (X, Weak)]"
    by simp
  ultimately show ?thesis
    using wire_strongest_wins [of "[(One, Pull), (Zero, Strong), (X, Weak)]" "[(X, Weak), (One, Pull), (Zero, Strong)]"]
    by argo
qed

text \<open>
  C19. The wired nets. A \<open>wand\<close> is 0 as soon as one driver is, a \<open>wor\<close> is 1 as soon as one driver
  is; otherwise an unknown driver makes it \<open>x\<close>, a driver of the other value that value, and with
  every driver at \<open>z\<close> it is \<open>z\<close>: bit by bit over the whole vector.
\<close>

theorem wired_resolution:
  assumes "1 \<le> w" and "w < 2 ^ 32" and "i < w"
  shows "let bs = (\<lambda>d. get_bit d i) ` set ds in
    get_bit (resolve_drivers ds ss w Wand) i =
      (if Zero \<in> bs then Zero else if X \<in> bs then X else if One \<in> bs then One else Z) \<and>
    get_bit (resolve_drivers ds ss w Wor) i =
      (if One \<in> bs then One else if X \<in> bs then X else if Zero \<in> bs then Zero else Z)"
  using assms by (simp add: get_bit_resolve_drivers resolve_wand_bit_def resolve_wor_bit_def
      wand_loop_spec wor_loop_spec)

theorem wired_resolution_witness:
  "get_bit (resolve_drivers [all_z 4, ones 4, all_x 4] [] 4 Wand) 3 = X \<and>
   get_bit (resolve_drivers [all_z 4, ones 4, all_x 4] [] 4 Wor) 3 = One"
  using wired_resolution [of 4 3 "[all_z 4, ones 4, all_x 4]" "[]"] by (simp add: get_bit_filled)

end
