(* ===== verification/Kernel.thy ===== *)
theory Kernel
  imports Resolve "HOL-Library.Product_Lexorder"
begin

text \<open>
  The simulation kernel (\<open>crates/eevee-sched/src/kernel.rs\<close>): nets, continuous drivers, the queues
  of one time slot and the time wheel. \<open>Kernel\<close> has the fields of the struct; every method that
  changes it is a function from a kernel to a kernel.

  Handles index the tables of the kernel and the code panics on a foreign one. The bodies below
  are read under the invariant \<open>kernel_ok\<close> of the theory \<open>Kernel_Inv\<close>, which puts every stored
  handle in range; the \<open>_chk\<close> functions add the test on the caller's handles, \<open>None\<close> being the panic.
  The binary heap of timed events is a list sorted by its order, and a hash map is a partial
  function. Counters that count events (\<open>seq\<close>, the statistics, the wait epochs) are \<open>nat\<close>; the
  generations, which the code increments with \<open>wrapping_add\<close>, are 64-bit words.
\<close>

section \<open>State\<close>

record DriverTarget =
  dnet :: NetId
  dslot :: nat
  dgeneration :: u64

record BitDrive =
  bd_bit :: nat
  bd_value :: Bit
  bd_generation :: u64

record JoinWatch =
  jparent :: ProcId
  jremaining :: "ProcId list"
  jany :: bool

datatype TimedAction =
    Resume ProcId
  | Drive DriverId LogicVec u64
  | DriveBits DriverId "BitDrive list"
  | NetBits NetId "BitDrive list"

record TimedEvent =
  ev_time :: SimTime
  ev_region :: Region
  ev_seq :: nat
  ev_action :: TimedAction

record Stats =
  resumes :: nat
  net_writes :: nat
  nba_applies :: nat
  time_advances :: nat
  wait_epoch_records :: nat

record Kernel =
  time :: SimTime
  timescale :: Timescale
  nets :: "Net list"
  drivers :: "DriverTarget list"
  driver_requests :: "LogicVec list"
  driver_bit_generations :: "u64 list list"
  active :: "ProcId list"
  inactive :: "ProcId list"
  nba :: "(NetId \<times> LogicVec) list"
  nba_waiters :: "ProcId list"
  timed :: "TimedEvent list"
  seq_no :: nat
  stop :: bool
  stats :: Stats
  out :: "string list"
  echo :: bool
  join_watches :: "JoinWatch list"
  runtime_waiters :: "ProcId list"
  event_waiters :: "EventId \<rightharpoonup> ProcId list"
  wait_epochs :: "ProcId \<rightharpoonup> nat"
  net_waits :: "ProcId \<rightharpoonup> NetId list"

definition default_stats :: Stats where
  "default_stats = \<lparr>resumes = 0, net_writes = 0, nba_applies = 0, time_advances = 0, wait_epoch_records = 0\<rparr>"

definition new_kernel :: "Timescale \<Rightarrow> Kernel" where
  "new_kernel ts =
     \<lparr>time = 0, timescale = ts, nets = [], drivers = [], driver_requests = [],
      driver_bit_generations = [], active = [], inactive = [], nba = [], nba_waiters = [], timed = [],
      seq_no = 0, stop = False, stats = default_stats, out = [], echo = True, join_watches = [],
      runtime_waiters = [], event_waiters = Map.empty, wait_epochs = Map.empty, net_waits = Map.empty\<rparr>"

section \<open>The time wheel\<close>

text \<open>The derived order of \<open>TimedEvent\<close>: time, then region, then sequence number.\<close>

definition ev_key :: "TimedEvent \<Rightarrow> nat \<times> Region \<times> nat" where
  "ev_key e = (ev_time e, ev_region e, ev_seq e)"

definition wheel_push :: "TimedEvent \<Rightarrow> TimedEvent list \<Rightarrow> TimedEvent list" where
  "wheel_push e w = insort_key ev_key e w"

fun wheel_peek :: "TimedEvent list \<Rightarrow> TimedEvent option" where
  "wheel_peek [] = None"
| "wheel_peek (e # w) = Some e"

fun wheel_pop :: "TimedEvent list \<Rightarrow> TimedEvent list" where
  "wheel_pop [] = []"
| "wheel_pop (e # w) = w"

definition push_timed_action :: "SimTime \<Rightarrow> Region \<Rightarrow> TimedAction \<Rightarrow> Kernel \<Rightarrow> Kernel" where
  "push_timed_action t r a k =
     (let k = k\<lparr>seq_no := seq_no k + 1\<rparr>
      in k\<lparr>timed := wheel_push \<lparr>ev_time = t, ev_region = r, ev_seq = seq_no k, ev_action = a\<rparr> (timed k)\<rparr>)"

definition push_timed :: "SimTime \<Rightarrow> Region \<Rightarrow> ProcId \<Rightarrow> Kernel \<Rightarrow> Kernel" where
  "push_timed t r p = push_timed_action t r (Resume p)"

section \<open>Nets and drivers\<close>

definition new_net :: "string \<Rightarrow> LogicVec \<Rightarrow> NetResolution \<Rightarrow> Delays option \<Rightarrow> Kernel \<Rightarrow> Kernel \<times> NetId" where
  "new_net name initial resolution dly k =
     (k\<lparr>nets := nets k @ [net_with_resolution name initial resolution dly]\<rparr>, length (nets k))"

definition find_net :: "Kernel \<Rightarrow> string \<Rightarrow> NetId option" where
  "find_net k name = find (\<lambda>i. nname (nets k ! i) = name) [0..<length (nets k)]"

definition upd_net :: "NetId \<Rightarrow> (Net \<Rightarrow> Net) \<Rightarrow> Kernel \<Rightarrow> Kernel" where
  "upd_net n f k = k\<lparr>nets := (nets k)[n := f (nets k ! n)]\<rparr>"

text \<open>\<open>None\<close>: the handle is foreign, or the assertion on the strengths of a wired net fails.\<close>

definition new_driver :: "NetId \<Rightarrow> DriveStrength \<Rightarrow> DriveStrength \<Rightarrow> Kernel \<Rightarrow> (Kernel \<times> DriverId) option" where
  "new_driver net zs os k =
     (if net < length (nets k) \<and> (nresolution (nets k ! net) = Wire \<or> zs = Strong \<and> os = Strong)
      then (let w = width (nvalue (nets k ! net));
                slot = length (driver_values (nets k ! net));
                k = upd_net net (\<lambda>n. n\<lparr>driver_values := driver_values n @ [all_z w],
                      driver_strengths := driver_strengths n @ [\<lparr>zero_s = zs, one_s = os\<rparr>]\<rparr>) k;
                id = length (drivers k)
            in Some (k\<lparr>drivers := drivers k @ [\<lparr>dnet = net, dslot = slot, dgeneration = 0\<rparr>],
                  driver_requests := driver_requests k @ [all_z w],
                  driver_bit_generations := driver_bit_generations k @ [replicate w 0]\<rparr>, id))
      else None)"

section \<open>Writing a net\<close>

definition epoch_of :: "(ProcId \<rightharpoonup> nat) \<Rightarrow> ProcId \<Rightarrow> nat" where
  "epoch_of ep p = (case ep p of None \<Rightarrow> 0 | Some n \<Rightarrow> n)"

definition swap_remove :: "'a list \<Rightarrow> nat \<Rightarrow> 'a list" where
  "swap_remove xs i = (butlast xs)[i := last xs]"

lemma length_swap_remove [simp]: "length (swap_remove xs i) = length xs - 1"
  by (simp add: swap_remove_def)

text \<open>The loop over the waiters: the waiters left, the epochs, and the processes woken in order.\<close>

function wake_loop ::
  "Edges \<Rightarrow> nat \<Rightarrow> Waiter list \<Rightarrow> (ProcId \<rightharpoonup> nat) \<Rightarrow> ProcId list \<Rightarrow> Waiter list \<times> (ProcId \<rightharpoonup> nat) \<times> ProcId list" where
  "wake_loop e i ws ep woken =
     (if i < length ws then
        (let w = ws ! i; current_epoch = epoch_of ep (wproc w)
         in if wepoch w \<noteq> current_epoch then wake_loop e i (swap_remove ws i) ep woken
            else if fires e (wedge w) then
              wake_loop e i (swap_remove ws i) (ep(wproc w \<mapsto> epoch_of ep (wproc w) + 1)) (woken @ [wproc w])
            else wake_loop e (i + 1) ws ep woken)
      else (ws, ep, woken))"
  by pat_completeness auto
termination
  by (relation "measure (\<lambda>(e, i, ws, ep, woken). length ws - i)") auto

declare wake_loop.simps [simp del]

definition retain_others :: "ProcId \<Rightarrow> Net \<Rightarrow> Net" where
  "retain_others p n = n\<lparr>waiters := filter (\<lambda>w. wproc w \<noteq> p) (waiters n)\<rparr>"

definition clear_net_waiters :: "ProcId \<Rightarrow> Kernel \<Rightarrow> Kernel" where
  "clear_net_waiters p k = (case net_waits k p of
     None \<Rightarrow> k
   | Some waited_nets \<Rightarrow>
       (let k = k\<lparr>net_waits := (net_waits k)(p := None)\<rparr>
        in fold (\<lambda>n. upd_net n (retain_others p)) waited_nets k))"

text \<open>\<open>None\<close>: a net on the list is out of range, and indexing \<open>nets\<close> panics.\<close>

definition clear_net_waiters_chk :: "ProcId \<Rightarrow> Kernel \<Rightarrow> Kernel option" where
  "clear_net_waiters_chk p k =
     (if list_all (\<lambda>n. n < length (nets k)) (case net_waits k p of None \<Rightarrow> [] | Some waited_nets \<Rightarrow> waited_nets)
      then Some (clear_net_waiters p k) else None)"

definition write_net :: "NetId \<Rightarrow> LogicVec \<Rightarrow> Kernel \<Rightarrow> Kernel" where
  "write_net net val k =
     (let old = nvalue (nets k ! net);
          k = upd_net net (\<lambda>n. n\<lparr>nvalue := val\<rparr>) k;
          edges = detect_edge old val;
          k = k\<lparr>stats := (stats k)\<lparr>net_writes := net_writes (stats k) + 1\<rparr>\<rparr>;
          k = (if changed edges
               then k\<lparr>active := active k @ runtime_waiters k, runtime_waiters := []\<rparr> else k)
      in if changed edges \<and> waiters (nets k ! net) \<noteq> [] then
           (let (ws, ep, woken) = wake_loop edges 0 (waiters (nets k ! net)) (wait_epochs k) [];
                k = upd_net net (\<lambda>n. n\<lparr>waiters := ws\<rparr>) k;
                k = k\<lparr>wait_epochs := ep, active := active k @ woken\<rparr>
            in fold clear_net_waiters woken k)
         else k)"

definition write_net_chk :: "NetId \<Rightarrow> LogicVec \<Rightarrow> Kernel \<Rightarrow> Kernel option" where
  "write_net_chk net val k = (if net < length (nets k) then Some (write_net net val k) else None)"

section \<open>Continuous drivers\<close>

text \<open>
  The loop over the bits that \<open>schedule_drive_transitions\<close> and \<open>apply_resolved_net\<close> share: bits
  whose request changed get a new generation; those that also differ from the current value change
  at once when the delay is 0, and otherwise join the group of their delay, in order of first use.
\<close>

fun add_delayed :: "nat \<Rightarrow> BitDrive \<Rightarrow> (nat \<times> BitDrive list) list \<Rightarrow> (nat \<times> BitDrive list) list" where
  "add_delayed d u [] = [(d, [u])]"
| "add_delayed d u ((e, us) # rest) =
     (if e = d then (e, us @ [u]) # rest else (e, us) # add_delayed d u rest)"

record BitLoop =
  bl_generations :: "u64 list"
  bl_immediate :: LogicVec
  bl_has_immediate :: bool
  bl_delayed :: "(nat \<times> BitDrive list) list"

definition transition_bit ::
  "LogicVec \<Rightarrow> LogicVec \<Rightarrow> LogicVec \<Rightarrow> Delays \<Rightarrow> nat \<Rightarrow> BitLoop \<Rightarrow> BitLoop" where
  "transition_bit previous current val delays b s =
     (let requested = get_bit val b
      in if get_bit previous b = requested then s
         else (let g = bl_generations s ! b + 1;
                   s = s\<lparr>bl_generations := (bl_generations s)[b := g]\<rparr>
               in if get_bit current b = requested then s
                  else (let delay_fs = for_transition delays (get_bit current b) requested
                        in if delay_fs = 0
                           then s\<lparr>bl_immediate := set_bit (bl_immediate s) b requested, bl_has_immediate := True\<rparr>
                           else s\<lparr>bl_delayed := add_delayed delay_fs
                                   \<lparr>bd_bit = b, bd_value = requested, bd_generation = g\<rparr> (bl_delayed s)\<rparr>)))"

definition transition_loop ::
  "LogicVec \<Rightarrow> LogicVec \<Rightarrow> LogicVec \<Rightarrow> Delays \<Rightarrow> nat \<Rightarrow> u64 list \<Rightarrow> BitLoop" where
  "transition_loop previous current val delays w gens =
     fold (transition_bit previous current val delays) [0..<w]
       \<lparr>bl_generations = gens, bl_immediate = current, bl_has_immediate = False, bl_delayed = []\<rparr>"

definition apply_resolved_net :: "NetId \<Rightarrow> LogicVec \<Rightarrow> Kernel \<Rightarrow> Kernel" where
  "apply_resolved_net net val k = (case ndelay (nets k ! net) of
     None \<Rightarrow> write_net net val k
   | Some delays \<Rightarrow>
       (let w = width (nvalue (nets k ! net));
            val = resize val w False;
            previous = delay_request (nets k ! net)
        in if eq_case previous val then k
           else (let current = nvalue (nets k ! net);
                     k = upd_net net (\<lambda>n. n\<lparr>delay_request := val\<rparr>) k;
                     s = transition_loop previous current val delays w (delay_generations (nets k ! net));
                     k = upd_net net (\<lambda>n. n\<lparr>delay_generations := bl_generations s\<rparr>) k;
                     k = (if bl_has_immediate s then write_net net (bl_immediate s) k else k)
                 in fold (\<lambda>(delay_fs, updates) k.
                      push_timed_action (saturating_add_fs (time k) delay_fs) Active (NetBits net updates) k)
                      (bl_delayed s) k)))"

definition apply_drive :: "DriverId \<Rightarrow> LogicVec \<Rightarrow> Kernel \<Rightarrow> Kernel" where
  "apply_drive driver val k =
     (let target = drivers k ! driver;
          w = width (nvalue (nets k ! dnet target));
          k = upd_net (dnet target)
                (\<lambda>n. n\<lparr>driver_values := (driver_values n)[dslot target := resize val w False]\<rparr>) k;
          resolution = nresolution (nets k ! dnet target);
          resolved = resolve_drivers (driver_values (nets k ! dnet target))
                       (driver_strengths (nets k ! dnet target)) w resolution
      in apply_resolved_net (dnet target) resolved k)"

text \<open>A new request: the driver's generation and those of all its bits move on.\<close>

definition bump_generations :: "DriverId \<Rightarrow> Kernel \<Rightarrow> Kernel" where
  "bump_generations d k =
     k\<lparr>drivers := (drivers k)[d := (drivers k ! d)\<lparr>dgeneration := dgeneration (drivers k ! d) + 1\<rparr>],
       driver_bit_generations :=
         (driver_bit_generations k)[d := map (\<lambda>g. g + 1) (driver_bit_generations k ! d)]\<rparr>"

definition drive_net :: "DriverId \<Rightarrow> LogicVec \<Rightarrow> Kernel \<Rightarrow> Kernel" where
  "drive_net d val k =
     (let target = drivers k ! d;
          w = width (nvalue (nets k ! dnet target));
          val = resize val w False;
          k = bump_generations d k;
          k = k\<lparr>driver_requests := (driver_requests k)[d := val]\<rparr>
      in apply_drive d val k)"

definition schedule_drive :: "DriverId \<Rightarrow> LogicVec \<Rightarrow> nat \<Rightarrow> Kernel \<Rightarrow> Kernel" where
  "schedule_drive d val delay_fs k =
     (let target = drivers k ! d;
          w = width (nvalue (nets k ! dnet target));
          val = resize val w False
      in if eq_case (driver_requests k ! d) val then k
         else (let k = k\<lparr>driver_requests := (driver_requests k)[d := val]\<rparr>;
                   k = bump_generations d k;
                   generation = dgeneration (drivers k ! d)
               in if eq_case (driver_values (nets k ! dnet target) ! dslot target) val then k
                  else if delay_fs = 0 then apply_drive d val k
                  else push_timed_action (saturating_add_fs (time k) delay_fs) Active (Drive d val generation) k))"

definition schedule_drive_transitions :: "DriverId \<Rightarrow> LogicVec \<Rightarrow> Delays \<Rightarrow> Kernel \<Rightarrow> Kernel" where
  "schedule_drive_transitions d val delays k =
     (let target = drivers k ! d;
          w = width (nvalue (nets k ! dnet target));
          val = resize val w False;
          previous = driver_requests k ! d
      in if eq_case previous val then k
         else (let current = driver_values (nets k ! dnet target) ! dslot target;
                   k = k\<lparr>driver_requests := (driver_requests k)[d := val]\<rparr>;
                   k = k\<lparr>drivers := (drivers k)[d := (drivers k ! d)\<lparr>dgeneration := dgeneration (drivers k ! d) + 1\<rparr>]\<rparr>;
                   s = transition_loop previous current val delays w (driver_bit_generations k ! d);
                   k = k\<lparr>driver_bit_generations := (driver_bit_generations k)[d := bl_generations s]\<rparr>;
                   k = (if bl_has_immediate s then apply_drive d (bl_immediate s) k else k)
               in fold (\<lambda>(delay_fs, updates) k.
                    push_timed_action (saturating_add_fs (time k) delay_fs) Active (DriveBits d updates) k)
                    (bl_delayed s) k))"

section \<open>Output, control, non-blocking updates and events\<close>

text \<open>\<open>display\<close> also prints the line when \<open>echo\<close> is set, which the model leaves out.\<close>

definition display :: "string \<Rightarrow> Kernel \<Rightarrow> Kernel" where
  "display line k = k\<lparr>out := out k @ [line]\<rparr>"

definition set_echo :: "bool \<Rightarrow> Kernel \<Rightarrow> Kernel" where
  "set_echo b k = k\<lparr>echo := b\<rparr>"

definition schedule_nba :: "NetId \<Rightarrow> LogicVec \<Rightarrow> Kernel \<Rightarrow> Kernel" where
  "schedule_nba net val k = k\<lparr>nba := nba k @ [(net, val)]\<rparr>"

definition drain_nba :: "Kernel \<Rightarrow> Kernel" where
  "drain_nba k =
     (let batch = nba k;
          k = k\<lparr>nba := []\<rparr>;
          k = fold (\<lambda>(net, val) k.
                write_net net val (k\<lparr>stats := (stats k)\<lparr>nba_applies := nba_applies (stats k) + 1\<rparr>\<rparr>)) batch k
      in k\<lparr>active := active k @ nba_waiters k, nba_waiters := []\<rparr>)"

definition request_stop :: "Kernel \<Rightarrow> Kernel" where
  "request_stop k = k\<lparr>stop := True\<rparr>"

definition notify_runtime_change :: "Kernel \<Rightarrow> Kernel" where
  "notify_runtime_change k = k\<lparr>active := active k @ runtime_waiters k, runtime_waiters := []\<rparr>"

definition trigger_event :: "EventId \<Rightarrow> Kernel \<Rightarrow> Kernel" where
  "trigger_event ev k = (case event_waiters k ev of
     None \<Rightarrow> k
   | Some ws \<Rightarrow> k\<lparr>event_waiters := (event_waiters k)(ev := None), active := active k @ ws\<rparr>)"

definition stats_of :: "Kernel \<Rightarrow> Stats" where
  "stats_of k = (stats k)\<lparr>wait_epoch_records := card (dom (wait_epochs k))\<rparr>"

section \<open>Parking and waking processes\<close>

definition add_waiter :: "ProcId \<Rightarrow> nat \<Rightarrow> NetId \<times> EdgeKind \<Rightarrow> Kernel \<Rightarrow> Kernel" where
  "add_waiter p epoch ne =
     upd_net (fst ne) (\<lambda>n. n\<lparr>waiters := waiters n @ [\<lparr>wproc = p, wedge = snd ne, wepoch = epoch\<rparr>]\<rparr>)"

text \<open>
  \<open>None\<close> is a panic: a net the wait names, or one recorded for an earlier wait of the process, is out
  of range of \<open>nets\<close>, or a \<open>Fork\<close> reaches \<open>arm\<close>, which the code declares unreachable.
\<close>

definition arm :: "ProcId \<Rightarrow> 'p Wait \<Rightarrow> Kernel \<Rightarrow> Kernel option" where
  "arm p wt k =
     (case clear_net_waiters_chk p k of None \<Rightarrow> None | Some k \<Rightarrow>
      (let epoch = epoch_of (wait_epochs k) p + 1;
           k = k\<lparr>wait_epochs := (wait_epochs k)(p \<mapsto> epoch)\<rparr>
      in (case wt of
          Finished \<Rightarrow> Some (k\<lparr>wait_epochs := (wait_epochs k)(p := None)\<rparr>)
        | Delay d \<Rightarrow> Some (push_timed (saturating_add_fs (time k) d) Active p k)
        | Edge net kind \<Rightarrow>
            (if net < length (nets k) then
               (let k = add_waiter p epoch (net, kind) k
                in Some (k\<lparr>net_waits := (net_waits k)(p \<mapsto> [net])\<rparr>))
             else None)
        | Sensitivity l \<Rightarrow>
            (if list_all (\<lambda>ne. fst ne < length (nets k)) l then
               (let (k, waited_nets) = fold (\<lambda>ne (k, waited).
                      (add_waiter p epoch ne k,
                       if fst ne \<in> set waited then waited else waited @ [fst ne])) l (k, [])
                in Some (k\<lparr>net_waits := (net_waits k)(p \<mapsto> waited_nets)\<rparr>))
             else None)
        | Cond ns \<Rightarrow>
            (if list_all (\<lambda>net. net < length (nets k)) ns then
               (let (k, waited_nets) = fold (\<lambda>net (k, waited).
                      (if net \<in> set waited then (k, waited)
                       else (add_waiter p epoch (net, AnyChange) k, waited @ [net]))) ns (k, [])
                in Some (k\<lparr>net_waits := (net_waits k)(p \<mapsto> waited_nets)\<rparr>))
             else None)
        | RuntimeCond \<Rightarrow> Some (k\<lparr>runtime_waiters := runtime_waiters k @ [p]\<rparr>)
        | NbaWait \<Rightarrow> Some (k\<lparr>nba_waiters := nba_waiters k @ [p]\<rparr>)
        | NamedEvent ev \<Rightarrow>
            Some (k\<lparr>event_waiters := (event_waiters k)(ev \<mapsto>
                (case event_waiters k ev of None \<Rightarrow> [] | Some ws \<Rightarrow> ws) @ [p])\<rparr>)
        | Fork cs j \<Rightarrow> None)))"

function notify_loop :: "ProcId \<Rightarrow> nat \<Rightarrow> JoinWatch list \<Rightarrow> ProcId list \<Rightarrow> JoinWatch list \<times> ProcId list" where
  "notify_loop p i ws woken =
     (if i < length ws then
        (let had = length (jremaining (ws ! i));
             w = (ws ! i)\<lparr>jremaining := filter (\<lambda>c. c \<noteq> p) (jremaining (ws ! i))\<rparr>;
             ws = ws[i := w];
             satisfied = (length (jremaining w) < had \<and> (jany w \<or> jremaining w = []))
         in if satisfied then notify_loop p i (swap_remove ws i) (woken @ [jparent w])
            else notify_loop p (i + 1) ws woken)
      else (ws, woken))"
  by pat_completeness auto
termination
  by (relation "measure (\<lambda>(p, i, ws, woken). length ws - i)") auto

declare notify_loop.simps [simp del]

definition notify_finished :: "ProcId \<Rightarrow> Kernel \<Rightarrow> Kernel" where
  "notify_finished p k =
     (let (ws, woken) = notify_loop p 0 (join_watches k) []
      in k\<lparr>join_watches := ws, active := active k @ woken\<rparr>)"

section \<open>Dispatching a time slot\<close>

fun apply_updates :: "u64 list \<Rightarrow> BitDrive list \<Rightarrow> LogicVec \<times> bool \<Rightarrow> LogicVec \<times> bool" where
  "apply_updates gens [] vc = vc"
| "apply_updates gens (u # us) (v, c) =
     (if gens ! bd_bit u = bd_generation u
      then apply_updates gens us (set_bit v (bd_bit u) (bd_value u), True)
      else apply_updates gens us (v, c))"

definition dispatch_event :: "TimedEvent \<Rightarrow> Kernel \<Rightarrow> Kernel" where
  "dispatch_event ev k = (case ev_action ev of
     Resume p \<Rightarrow>
       (case ev_region ev of
          Inactive \<Rightarrow> k\<lparr>inactive := inactive k @ [p]\<rparr>
        | _ \<Rightarrow> k\<lparr>active := active k @ [p]\<rparr>)
   | Drive d val g \<Rightarrow> (if dgeneration (drivers k ! d) = g then apply_drive d val k else k)
   | DriveBits d updates \<Rightarrow>
       (let target = drivers k ! d;
            (val, chg) = apply_updates (driver_bit_generations k ! d) updates
                           (driver_values (nets k ! dnet target) ! dslot target, False)
        in if chg then apply_drive d val k else k)
   | NetBits net updates \<Rightarrow>
       (let (val, chg) = apply_updates (delay_generations (nets k ! net)) updates
                           (nvalue (nets k ! net), False)
        in if chg then write_net net val k else k))"

definition stale :: "Kernel \<Rightarrow> TimedEvent \<Rightarrow> bool" where
  "stale k ev = (case ev_action ev of
     Drive d val g \<Rightarrow> dgeneration (drivers k ! d) \<noteq> g
   | DriveBits d updates \<Rightarrow>
       list_all (\<lambda>u. driver_bit_generations k ! d ! bd_bit u \<noteq> bd_generation u) updates
   | NetBits net updates \<Rightarrow>
       list_all (\<lambda>u. delay_generations (nets k ! net) ! bd_bit u \<noteq> bd_generation u) updates
   | Resume p \<Rightarrow> False)"

definition discard_stale_timed_actions :: "Kernel \<Rightarrow> Kernel" where
  "discard_stale_timed_actions k = k\<lparr>timed := dropWhile (stale k) (timed k)\<rparr>"

section \<open>What the operations leave alone\<close>

lemma upd_net_frame [simp]:
  "time (upd_net n f k) = time k" "timescale (upd_net n f k) = timescale k"
  "drivers (upd_net n f k) = drivers k" "driver_requests (upd_net n f k) = driver_requests k"
  "driver_bit_generations (upd_net n f k) = driver_bit_generations k"
  "active (upd_net n f k) = active k" "inactive (upd_net n f k) = inactive k" "nba (upd_net n f k) = nba k"
  "nba_waiters (upd_net n f k) = nba_waiters k" "timed (upd_net n f k) = timed k"
  "seq_no (upd_net n f k) = seq_no k" "stop (upd_net n f k) = stop k" "stats (upd_net n f k) = stats k"
  "out (upd_net n f k) = out k" "echo (upd_net n f k) = echo k"
  "join_watches (upd_net n f k) = join_watches k" "runtime_waiters (upd_net n f k) = runtime_waiters k"
  "event_waiters (upd_net n f k) = event_waiters k" "wait_epochs (upd_net n f k) = wait_epochs k"
  "net_waits (upd_net n f k) = net_waits k" "length (nets (upd_net n f k)) = length (nets k)"
  by (simp_all add: upd_net_def)

lemma nets_upd_net: "nets (upd_net n f k) ! m = (if m = n \<and> n < length (nets k) then f (nets k ! n) else nets k ! m)"
  by (cases "n < length (nets k)") (auto simp: upd_net_def not_less list_update_beyond)

lemma fold_upd_net_frame:
  "time (fold (\<lambda>n. upd_net n f) l k) = time k" "timescale (fold (\<lambda>n. upd_net n f) l k) = timescale k"
  "drivers (fold (\<lambda>n. upd_net n f) l k) = drivers k" "driver_requests (fold (\<lambda>n. upd_net n f) l k) = driver_requests k"
  "driver_bit_generations (fold (\<lambda>n. upd_net n f) l k) = driver_bit_generations k"
  "active (fold (\<lambda>n. upd_net n f) l k) = active k" "inactive (fold (\<lambda>n. upd_net n f) l k) = inactive k"
  "nba (fold (\<lambda>n. upd_net n f) l k) = nba k"
  "nba_waiters (fold (\<lambda>n. upd_net n f) l k) = nba_waiters k" "timed (fold (\<lambda>n. upd_net n f) l k) = timed k"
  "seq_no (fold (\<lambda>n. upd_net n f) l k) = seq_no k" "stop (fold (\<lambda>n. upd_net n f) l k) = stop k"
  "stats (fold (\<lambda>n. upd_net n f) l k) = stats k"
  "out (fold (\<lambda>n. upd_net n f) l k) = out k" "echo (fold (\<lambda>n. upd_net n f) l k) = echo k"
  "join_watches (fold (\<lambda>n. upd_net n f) l k) = join_watches k"
  "runtime_waiters (fold (\<lambda>n. upd_net n f) l k) = runtime_waiters k"
  "event_waiters (fold (\<lambda>n. upd_net n f) l k) = event_waiters k"
  "wait_epochs (fold (\<lambda>n. upd_net n f) l k) = wait_epochs k"
  "net_waits (fold (\<lambda>n. upd_net n f) l k) = net_waits k"
  "length (nets (fold (\<lambda>n. upd_net n f) l k)) = length (nets k)"
  by (induction l arbitrary: k) simp_all

lemma clear_net_waiters_frame [simp]:
  "time (clear_net_waiters p k) = time k" "timescale (clear_net_waiters p k) = timescale k"
  "drivers (clear_net_waiters p k) = drivers k" "driver_requests (clear_net_waiters p k) = driver_requests k"
  "driver_bit_generations (clear_net_waiters p k) = driver_bit_generations k"
  "active (clear_net_waiters p k) = active k" "inactive (clear_net_waiters p k) = inactive k"
  "nba (clear_net_waiters p k) = nba k"
  "nba_waiters (clear_net_waiters p k) = nba_waiters k" "timed (clear_net_waiters p k) = timed k"
  "seq_no (clear_net_waiters p k) = seq_no k" "stop (clear_net_waiters p k) = stop k"
  "stats (clear_net_waiters p k) = stats k"
  "out (clear_net_waiters p k) = out k" "echo (clear_net_waiters p k) = echo k"
  "join_watches (clear_net_waiters p k) = join_watches k"
  "runtime_waiters (clear_net_waiters p k) = runtime_waiters k"
  "event_waiters (clear_net_waiters p k) = event_waiters k"
  "wait_epochs (clear_net_waiters p k) = wait_epochs k"
  "net_waits (clear_net_waiters p k) = (net_waits k)(p := None)"
  "length (nets (clear_net_waiters p k)) = length (nets k)"
  by (auto simp: clear_net_waiters_def fold_upd_net_frame split: option.split)

lemma fold_clear_frame [simp]:
  "time (fold clear_net_waiters ps k) = time k" "timescale (fold clear_net_waiters ps k) = timescale k"
  "drivers (fold clear_net_waiters ps k) = drivers k" "driver_requests (fold clear_net_waiters ps k) = driver_requests k"
  "driver_bit_generations (fold clear_net_waiters ps k) = driver_bit_generations k"
  "active (fold clear_net_waiters ps k) = active k" "inactive (fold clear_net_waiters ps k) = inactive k"
  "nba (fold clear_net_waiters ps k) = nba k"
  "nba_waiters (fold clear_net_waiters ps k) = nba_waiters k" "timed (fold clear_net_waiters ps k) = timed k"
  "seq_no (fold clear_net_waiters ps k) = seq_no k" "stop (fold clear_net_waiters ps k) = stop k"
  "stats (fold clear_net_waiters ps k) = stats k"
  "out (fold clear_net_waiters ps k) = out k" "echo (fold clear_net_waiters ps k) = echo k"
  "join_watches (fold clear_net_waiters ps k) = join_watches k"
  "runtime_waiters (fold clear_net_waiters ps k) = runtime_waiters k"
  "event_waiters (fold clear_net_waiters ps k) = event_waiters k"
  "wait_epochs (fold clear_net_waiters ps k) = wait_epochs k"
  "length (nets (fold clear_net_waiters ps k)) = length (nets k)"
  by (induction ps arbitrary: k) simp_all

lemma write_net_frame [simp]:
  "time (write_net n v k) = time k" "timescale (write_net n v k) = timescale k"
  "drivers (write_net n v k) = drivers k" "driver_requests (write_net n v k) = driver_requests k"
  "driver_bit_generations (write_net n v k) = driver_bit_generations k"
  "inactive (write_net n v k) = inactive k" "nba (write_net n v k) = nba k"
  "nba_waiters (write_net n v k) = nba_waiters k" "timed (write_net n v k) = timed k"
  "seq_no (write_net n v k) = seq_no k" "stop (write_net n v k) = stop k"
  "out (write_net n v k) = out k" "echo (write_net n v k) = echo k"
  "join_watches (write_net n v k) = join_watches k"
  "event_waiters (write_net n v k) = event_waiters k"
  "length (nets (write_net n v k)) = length (nets k)"
  by (simp_all add: write_net_def split: prod.split)

text \<open>Pushing a group of events changes nothing but the wheel and its counter.\<close>

abbreviation push_groups :: "(BitDrive list \<Rightarrow> TimedAction) \<Rightarrow> (nat \<times> BitDrive list) list \<Rightarrow> Kernel \<Rightarrow> Kernel" where
  "push_groups act \<equiv> fold (\<lambda>(delay_fs, updates) k.
     push_timed_action (saturating_add_fs (time k) delay_fs) Active (act updates) k)"

lemma push_timed_action_frame [simp]:
  "time (push_timed_action t r a k) = time k" "timescale (push_timed_action t r a k) = timescale k"
  "nets (push_timed_action t r a k) = nets k"
  "drivers (push_timed_action t r a k) = drivers k" "driver_requests (push_timed_action t r a k) = driver_requests k"
  "driver_bit_generations (push_timed_action t r a k) = driver_bit_generations k"
  "active (push_timed_action t r a k) = active k" "inactive (push_timed_action t r a k) = inactive k"
  "nba (push_timed_action t r a k) = nba k" "nba_waiters (push_timed_action t r a k) = nba_waiters k"
  "seq_no (push_timed_action t r a k) = Suc (seq_no k)" "stop (push_timed_action t r a k) = stop k"
  "stats (push_timed_action t r a k) = stats k"
  "out (push_timed_action t r a k) = out k" "echo (push_timed_action t r a k) = echo k"
  "join_watches (push_timed_action t r a k) = join_watches k"
  "runtime_waiters (push_timed_action t r a k) = runtime_waiters k"
  "event_waiters (push_timed_action t r a k) = event_waiters k"
  "wait_epochs (push_timed_action t r a k) = wait_epochs k" "net_waits (push_timed_action t r a k) = net_waits k"
  "timed (push_timed_action t r a k) =
    wheel_push \<lparr>ev_time = t, ev_region = r, ev_seq = Suc (seq_no k), ev_action = a\<rparr> (timed k)"
  by (simp_all add: push_timed_action_def)

lemma push_groups_frame [simp]:
  "time (push_groups act gs k) = time k" "timescale (push_groups act gs k) = timescale k"
  "nets (push_groups act gs k) = nets k"
  "drivers (push_groups act gs k) = drivers k" "driver_requests (push_groups act gs k) = driver_requests k"
  "driver_bit_generations (push_groups act gs k) = driver_bit_generations k"
  "active (push_groups act gs k) = active k" "inactive (push_groups act gs k) = inactive k"
  "nba (push_groups act gs k) = nba k" "nba_waiters (push_groups act gs k) = nba_waiters k"
  "stop (push_groups act gs k) = stop k" "stats (push_groups act gs k) = stats k"
  "out (push_groups act gs k) = out k" "echo (push_groups act gs k) = echo k"
  "join_watches (push_groups act gs k) = join_watches k"
  "runtime_waiters (push_groups act gs k) = runtime_waiters k"
  "event_waiters (push_groups act gs k) = event_waiters k"
  "wait_epochs (push_groups act gs k) = wait_epochs k" "net_waits (push_groups act gs k) = net_waits k"
  by (induction gs arbitrary: k) (simp_all add: case_prod_unfold)

lemma set_wheel_push [simp]: "set (wheel_push e w) = insert e (set w)"
  by (simp add: wheel_push_def set_insort_key)

lemma mset_wheel_push [simp]: "mset (wheel_push e w) = add_mset e (mset w)"
  by (simp add: wheel_push_def)

section \<open>The slot loop\<close>

text \<open>
  Dispatching an event can push new ones for the same time only through a saturated addition; it
  still ends, since only a drive pushes events, and what it pushes are net updates.
\<close>

definition is_drive :: "TimedEvent \<Rightarrow> bool" where
  "is_drive ev = (case ev_action ev of Drive _ _ _ \<Rightarrow> True | DriveBits _ _ \<Rightarrow> True | _ \<Rightarrow> False)"

definition drive_count :: "TimedEvent list \<Rightarrow> nat" where
  "drive_count w = size (filter_mset is_drive (mset w))"

lemma drive_count_push [simp]:
  "drive_count (wheel_push e w) = (if is_drive e then Suc (drive_count w) else drive_count w)"
  by (simp add: drive_count_def)

lemma drive_count_Cons [simp]: "drive_count (e # w) = (if is_drive e then Suc (drive_count w) else drive_count w)"
  by (simp add: drive_count_def)

lemma drive_count_push_net: "drive_count (timed (push_groups (NetBits n) gs k)) = drive_count (timed k)"
  by (induction gs arbitrary: k) (simp_all add: case_prod_unfold is_drive_def)

lemma drive_count_apply_resolved [simp]:
  "drive_count (timed (apply_resolved_net n v k)) = drive_count (timed k)"
  by (simp add: apply_resolved_net_def drive_count_push_net split: option.split)

lemma drive_count_apply_drive [simp]: "drive_count (timed (apply_drive d v k)) = drive_count (timed k)"
  by (simp add: apply_drive_def)

lemma dispatch_event_shrinks:
  "if is_drive ev then drive_count (timed (dispatch_event ev k)) = drive_count (timed k)
   else timed (dispatch_event ev k) = timed k"
  by (simp add: dispatch_event_def is_drive_def split: TimedAction.split Region.split prod.split)

function dispatch_time_slot :: "SimTime \<Rightarrow> Kernel \<Rightarrow> Kernel" where
  "dispatch_time_slot t k = (case wheel_peek (timed k) of
     None \<Rightarrow> k
   | Some ev \<Rightarrow>
       (if ev_time ev \<noteq> t then k
        else dispatch_time_slot t (dispatch_event ev (k\<lparr>timed := wheel_pop (timed k)\<rparr>))))"
  by pat_completeness auto
termination
proof (relation "inv_image (less_than <*lex*> less_than) (\<lambda>(t, k). (drive_count (timed k), length (timed k)))")
  fix t and k :: Kernel and ev
  assume "wheel_peek (timed k) = Some ev" and "\<not> ev_time ev \<noteq> t"
  then obtain w where w: "timed k = ev # w" by (cases "timed k") simp_all
  then show "((t, dispatch_event ev (k\<lparr>timed := wheel_pop (timed k)\<rparr>)), t, k)
      \<in> inv_image (less_than <*lex*> less_than) (\<lambda>(t, k). (drive_count (timed k), length (timed k)))"
    using dispatch_event_shrinks [of ev "k\<lparr>timed := w\<rparr>"] by (simp split: if_splits)
qed auto

declare dispatch_time_slot.simps [simp del]

end
