(* ===== verification/IR_Interp.thy ===== *)
theory IR_Interp
  imports IR_Coll Kernel
begin

text \<open>
  The interpreter (\<open>crates/eevee-ir/src/interp.rs\<close>). \<open>run_frame\<close> executes the current frame until it
  waits, calls, returns or forks; \<open>run\<close> switches frames until the process waits; \<open>resume\<close> is the
  step that the scheduler calls. The instructions are executed in groups, in the order of the
  source. \<open>None\<close> is a panic (a null handle, an index out of range, a value of the wrong kind) or a
  frame that never suspends. The execution traces on stderr are not modelled.
\<close>

section \<open>State\<close>

text \<open>What \<open>run_frame\<close> changes: the program counter, the registers, the queued updates, the world and the kernel.\<close>

record Machine =
  pc :: nat
  regs :: "Value list"
  pending_nba :: "(Reg \<times> Value) list"
  world :: World
  kern :: Kernel

record Frame =
  f_prog :: Program
  f_pc :: nat
  f_regs :: "Value list"
  f_ret_dst :: Reg
  f_copy_out :: "(nat \<times> Reg) list"
  f_provided_args :: nat
  f_pending_nba :: "(Reg \<times> Value) list"

text \<open>The fields of \<open>IrProcess\<close> that describe the running frame are those of a \<open>Frame\<close>. The top caller comes first.\<close>

datatype IrProcess = IrProcess (current: Frame) (apply_pending_nba: bool) (callers: "Frame list")

datatype Step =
    WaitStep "IrProcess Wait"
  | CallStep FuncId "Value list" "Reg list" Reg
  | ReturnStep "Value option"
  | ForkStep "(Program \<times> (Reg \<times> Value) list) list" ForkJoin

definition reg :: "Reg \<Rightarrow> Machine \<Rightarrow> Value option" where
  "reg r m = get_reg (regs m) r"

definition lreg :: "Reg \<Rightarrow> Machine \<Rightarrow> LogicVec option" where
  "lreg r m = logic_reg (regs m) r"

definition set_reg :: "Reg \<Rightarrow> Value \<Rightarrow> Machine \<Rightarrow> Machine option" where
  "set_reg r v m = map_option (\<lambda>rs. m\<lparr>regs := rs\<rparr>) (put_reg r v (regs m))"

definition net_value :: "NetId \<Rightarrow> Kernel \<Rightarrow> LogicVec option" where
  "net_value n k = map_option nvalue (at (nets k) n)"

definition to_u32 :: "LogicVec \<Rightarrow> nat" where
  "to_u32 l = unat (to_u64 l) mod 2 ^ 32"

section \<open>Data movement\<close>

text \<open>A second update of one register replaces the first.\<close>

fun queue_update :: "Reg \<Rightarrow> Value \<Rightarrow> (Reg \<times> Value) list \<Rightarrow> (Reg \<times> Value) list" where
  "queue_update dst v [] = [(dst, v)]"
| "queue_update dst v ((d, u) # ps) = (if d = dst then (d, v) # ps else (d, u) # queue_update dst v ps)"

definition exec_data :: "Program \<Rightarrow> DataInst \<Rightarrow> Machine \<Rightarrow> Machine option" where
  "exec_data prog inst m =
     (case inst of
        LoadConst dst ci \<Rightarrow> do { v \<leftarrow> at (pconsts prog) ci; set_reg dst v m }
      | Mov dst src \<Rightarrow> do { v \<leftarrow> reg src m; set_reg dst v m }
      | Resize dst src w sg \<Rightarrow>
          do { l \<leftarrow> lreg src m; l \<leftarrow> resize_chk l w sg; set_reg dst (Logic l) m }
      | Assign dst src \<Rightarrow>
          do { v \<leftarrow> reg src m; (v, w) \<leftarrow> assignment_copy v (world m); set_reg dst v (m\<lparr>world := w\<rparr>) }
      | NbaAssign dst src \<Rightarrow>
          do { v \<leftarrow> reg src m; (v, w) \<leftarrow> assignment_copy v (world m);
               Some (m\<lparr>world := w, pending_nba := queue_update dst v (pending_nba m)\<rparr>) }
      | NetRead dst net \<Rightarrow> do { l \<leftarrow> net_value net (kern m); set_reg dst (Logic l) m }
      | MemoryRead dst memory index \<Rightarrow>
          do { md \<leftarrow> at (memories prog) memory; i \<leftarrow> reg index m; e \<leftarrow> memory_element md i;
               l \<leftarrow> (case e of
                       Some net \<Rightarrow> net_value net (kern m)
                     | None \<Rightarrow> map_option (\<lambda>_. all_x (element_width md)) (zero_chk (element_width md)));
               set_reg dst (Logic l) m })"

section \<open>Four-state ALU\<close>

definition unary :: "(LogicVec \<Rightarrow> LogicVec) \<Rightarrow> Reg \<Rightarrow> Reg \<Rightarrow> Machine \<Rightarrow> Machine option" where
  "unary f dst a m = do { x \<leftarrow> lreg a m; set_reg dst (Logic (f x)) m }"

definition binary :: "(LogicVec \<Rightarrow> LogicVec \<Rightarrow> LogicVec) \<Rightarrow> Reg \<Rightarrow> Reg \<Rightarrow> Reg \<Rightarrow> Machine \<Rightarrow> Machine option" where
  "binary f dst a b m = do { x \<leftarrow> lreg a m; y \<leftarrow> lreg b m; set_reg dst (Logic (f x y)) m }"

definition exec_alu :: "AluInst \<Rightarrow> Machine \<Rightarrow> Machine option" where
  "exec_alu inst m =
     (case inst of
        Not dst a \<Rightarrow> unary bitnot dst a m
      | Add dst a b \<Rightarrow> binary add dst a b m
      | Sub dst a b \<Rightarrow> binary sub dst a b m
      | Mul dst a b \<Rightarrow>
          do { x \<leftarrow> lreg a m; y \<leftarrow> lreg b m; v \<leftarrow> mul x y; set_reg dst (Logic v) m }
      | And dst a b \<Rightarrow> binary bitand dst a b m
      | Or dst a b \<Rightarrow> binary bitor dst a b m
      | Xor dst a b \<Rightarrow> binary bitxor dst a b m
      | Eq dst a b \<Rightarrow> do { x \<leftarrow> reg a m; y \<leftarrow> reg b m; set_reg dst (Logic (eval_eq x y)) m }
      | Neq dst a b \<Rightarrow> do { x \<leftarrow> reg a m; y \<leftarrow> reg b m; set_reg dst (Logic (lognot (eval_eq x y))) m }
      | Lt dst a b \<Rightarrow> binary ult dst a b m
      | Le dst a b \<Rightarrow> binary ule dst a b m
      | Gt dst a b \<Rightarrow> binary ugt dst a b m
      | Ge dst a b \<Rightarrow> binary uge dst a b m
      | SignedLt dst a b \<Rightarrow> binary slt dst a b m
      | SignedLe dst a b \<Rightarrow> binary sle dst a b m
      | SignedGt dst a b \<Rightarrow> binary sgt dst a b m
      | SignedGe dst a b \<Rightarrow> binary sge dst a b m
      | Shl dst a b \<Rightarrow> binary (\<lambda>x y. shl x (to_u32 y)) dst a b m
      | Shr dst a b \<Rightarrow> binary (\<lambda>x y. shr x (to_u32 y)) dst a b m
      | Ashr dst a b \<Rightarrow> binary (\<lambda>x y. ashr x (to_u32 y)) dst a b m
      | LogAnd dst a b \<Rightarrow>
          do { x \<leftarrow> reg a m; y \<leftarrow> (if value_truthy x then reg b m else Some Null);
               set_reg dst (Logic (one (value_truthy x \<and> value_truthy y))) m }
      | LogOr dst a b \<Rightarrow>
          do { x \<leftarrow> reg a m; y \<leftarrow> (if value_truthy x then Some Null else reg b m);
               set_reg dst (Logic (one (value_truthy x \<or> value_truthy y))) m }
      | Select dst condition when_true when_false \<Rightarrow>
          do { c \<leftarrow> lreg condition m; t \<leftarrow> reg when_true m; f \<leftarrow> reg when_false m;
               set_reg dst
                 (case (t, f) of
                    (Logic t, Logic f) \<Rightarrow> Logic (conditional c t f)
                  | _ \<Rightarrow> (if values_identical t f then t else Null)) m }
      | IsKnown dst a \<Rightarrow>
          do { x \<leftarrow> reg a m; set_reg dst (Logic (one (case x of Logic l \<Rightarrow> is_known l | _ \<Rightarrow> True))) m }
      | LogNot dst a \<Rightarrow> unary lognot dst a m
      | Neg dst a \<Rightarrow> unary neg dst a m
      | ReduceAnd dst a \<Rightarrow> unary (\<lambda>x. from_bit (reduce_and x)) dst a m
      | ReduceOr dst a \<Rightarrow> unary (\<lambda>x. from_bit (reduce_or x)) dst a m
      | ReduceXor dst a \<Rightarrow> unary (\<lambda>x. from_bit (reduce_xor x)) dst a m)"

section \<open>Net updates\<close>

definition with_kern :: "(Kernel \<Rightarrow> Kernel) \<Rightarrow> Machine \<Rightarrow> Machine" where
  "with_kern f m = m\<lparr>kern := f (kern m)\<rparr>"

definition exec_net :: "Program \<Rightarrow> NetInst \<Rightarrow> Machine \<Rightarrow> Machine option" where
  "exec_net prog inst m =
     (case inst of
        BlockingWrite net src \<Rightarrow>
          do { l \<leftarrow> lreg src m; k \<leftarrow> write_net_chk net l (kern m); Some (m\<lparr>kern := k\<rparr>) }
      | NbaWrite net src \<Rightarrow> do { l \<leftarrow> lreg src m; Some (with_kern (schedule_nba net l) m) }
      | BlockingMemoryWrite memory index src \<Rightarrow>
          do { md \<leftarrow> at (memories prog) memory; i \<leftarrow> reg index m; e \<leftarrow> memory_element md i;
               (case e of
                  None \<Rightarrow> Some m
                | Some net \<Rightarrow>
                    do { l \<leftarrow> lreg src m; l \<leftarrow> resize_chk l (element_width md) False;
                         k \<leftarrow> write_net_chk net l (kern m); Some (m\<lparr>kern := k\<rparr>) }) }
      | NbaMemoryWrite memory index src \<Rightarrow>
          do { md \<leftarrow> at (memories prog) memory; i \<leftarrow> reg index m; e \<leftarrow> memory_element md i;
               (case e of
                  None \<Rightarrow> Some m
                | Some net \<Rightarrow>
                    do { l \<leftarrow> lreg src m; l \<leftarrow> resize_chk l (element_width md) False;
                         Some (with_kern (schedule_nba net l) m) }) }
      | DriveNet driver src \<Rightarrow>
          do { l \<leftarrow> lreg src m; _ \<leftarrow> at (drivers (kern m)) driver; Some (with_kern (drive_net driver l) m) }
      | ScheduleDrive driver src delay_fs \<Rightarrow>
          do { l \<leftarrow> lreg src m; _ \<leftarrow> at (drivers (kern m)) driver;
               Some (with_kern (schedule_drive driver l delay_fs) m) }
      | ScheduleDriveTransitions driver src delays \<Rightarrow>
          do { l \<leftarrow> lreg src m; _ \<leftarrow> at (drivers (kern m)) driver;
               Some (with_kern (schedule_drive_transitions driver l delays) m) })"

section \<open>Suspension points\<close>

definition event_reg :: "Reg \<Rightarrow> Machine \<Rightarrow> EventId option" where
  "event_reg r m = do { v \<leftarrow> reg r m; (case v of Event e \<Rightarrow> Some e | _ \<Rightarrow> None) }"

text \<open>\<open>iter().map(...).collect()\<close> with a function that may panic.\<close>

fun collect :: "('a \<Rightarrow> 'b option) \<Rightarrow> 'a list \<Rightarrow> 'b list option" where
  "collect f [] = Some []"
| "collect f (x # xs) = do { y \<leftarrow> f x; ys \<leftarrow> collect f xs; Some (y # ys) }"

definition fork_child :: "Program \<Rightarrow> Machine \<Rightarrow> nat \<Rightarrow> (Program \<times> (Reg \<times> Value) list) option" where
  "fork_child prog m i =
     do { captures \<leftarrow> at (fork_captures prog) i;
          vals \<leftarrow> collect (\<lambda>(child, parent). map_option (\<lambda>v. (child, v)) (reg parent m)) captures;
          p \<leftarrow> at (forks prog) i;
          Some (p, vals) }"

definition exec_timing :: "Program \<Rightarrow> TimingInst \<Rightarrow> Machine \<Rightarrow> Step option" where
  "exec_timing prog inst m =
     (case inst of
        Delay t \<Rightarrow> Some (WaitStep (Wait.Delay t))
      | WaitEdge net edge \<Rightarrow> Some (WaitStep (Edge net edge))
      | WaitCond ns \<Rightarrow> do { l \<leftarrow> at (netlists prog) ns; Some (WaitStep (Cond l)) }
      | WaitRuntime \<Rightarrow> Some (WaitStep RuntimeCond)
      | WaitChange val \<Rightarrow>
          (if val \<in> fst ` set (pending_nba m) then Some (WaitStep NbaWait) else Some (WaitStep RuntimeCond))
      | WaitEvent event \<Rightarrow> do { e \<leftarrow> event_reg event m; Some (WaitStep (NamedEvent e)) }
      | Fork grp join \<Rightarrow>
          do { branches \<leftarrow> at (fork_groups prog) grp;
               children \<leftarrow> collect (fork_child prog m) branches;
               Some (ForkStep children join) }
      | Finish \<Rightarrow> Some (WaitStep Finished))"

section \<open>Control flow and calls\<close>

text \<open>A branch changes the program counter, a call or a return leaves the frame.\<close>

definition branch_if :: "bool \<Rightarrow> CodeAddr \<Rightarrow> Machine \<Rightarrow> Machine + Step" where
  "branch_if b target m = Inl (if b then m\<lparr>pc := target\<rparr> else m)"

definition call_step :: "Program \<Rightarrow> FuncId \<Rightarrow> ArgListId \<Rightarrow> Reg \<Rightarrow> Machine \<Rightarrow> Step option" where
  "call_step prog func args ret m =
     do { actuals \<leftarrow> at (arglists prog) args;
          vals \<leftarrow> collect (\<lambda>r. reg r m) actuals;
          Some (CallStep func vals actuals ret) }"

definition exec_flow :: "Linkage \<Rightarrow> Program \<Rightarrow> nat \<Rightarrow> FlowInst \<Rightarrow> Machine \<Rightarrow> (Machine + Step) option" where
  "exec_flow lk prog provided inst m =
     (case inst of
        Jump target \<Rightarrow> Some (Inl (m\<lparr>pc := target\<rparr>))
      | BranchFalse cond target \<Rightarrow> do { c \<leftarrow> reg cond m; Some (branch_if (\<not> value_truthy c) target m) }
      | BranchTrue cond target \<Rightarrow> do { c \<leftarrow> reg cond m; Some (branch_if (value_truthy c) target m) }
      | BranchArgProvided arg target \<Rightarrow> Some (branch_if (arg < provided) target m)
      | Call func args ret \<Rightarrow> map_option Inr (call_step prog func args ret m)
      | CallVirtual obj vslot args ret \<Rightarrow>
          do { v \<leftarrow> reg obj m;
               func \<leftarrow>
                 (case v of
                    Obj a \<Rightarrow>
                      (case cells (world m) a of
                         Some (ObjCell d) \<Rightarrow> do { def \<leftarrow> at (classes lk) (class_of d); at (vtable def) vslot }
                       | _ \<Rightarrow> None)
                  | _ \<Rightarrow> None);
               map_option Inr (call_step prog func args ret m) }
      | Return val \<Rightarrow> do { v \<leftarrow> reg val m; Some (Inr (ReturnStep (Some v))) }
      | ReturnVoid \<Rightarrow> Some (Inr (ReturnStep None)))"

section \<open>Objects, statics and events\<close>

definition get_obj :: "World \<Rightarrow> nat \<Rightarrow> ObjData option" where
  "get_obj w a = (case cells w a of Some (ObjCell d) \<Rightarrow> Some d | _ \<Rightarrow> None)"

definition exec_obj :: "Linkage \<Rightarrow> ObjInst \<Rightarrow> Machine \<Rightarrow> Machine option" where
  "exec_obj lk inst m =
     (case inst of
        New dst cid \<Rightarrow>
          do { (v, w) \<leftarrow> new_instance (classes lk) cid (world m); set_reg dst v (m\<lparr>world := w\<rparr>) }
      | NewEvent dst \<Rightarrow> (let (v, w) = new_event (world m) in set_reg dst v (m\<lparr>world := w\<rparr>))
      | TriggerEvent event \<Rightarrow> do { e \<leftarrow> event_reg event m; Some (with_kern (trigger_event e) m) }
      | ClassCast dst src cid \<Rightarrow>
          do { v \<leftarrow> reg src m;
               ok \<leftarrow>
                 (case v of
                    Obj a \<Rightarrow> do { d \<leftarrow> get_obj (world m) a; class_is_a (class_of d) cid (classes lk) }
                  | _ \<Rightarrow> Some (v = Null));
               set_reg dst (Logic (one ok)) m }
      | GetField dst obj slot \<Rightarrow>
          do { v \<leftarrow> reg obj m;
               x \<leftarrow> (case v of
                       Obj a \<Rightarrow> do { d \<leftarrow> get_obj (world m) a; at (obj_fields d) slot }
                     | _ \<Rightarrow> Some Null);
               set_reg dst x m }
      | SetField obj slot src \<Rightarrow>
          do { v \<leftarrow> reg src m; (v, w) \<leftarrow> assignment_copy v (world m);
               let m = m\<lparr>world := w\<rparr>;
               ob \<leftarrow> reg obj m;
               (case ob of
                  Obj a \<Rightarrow>
                    do { d \<leftarrow> get_obj w a; xs \<leftarrow> set_field (obj_fields d) slot v;
                         Some (with_kern notify_runtime_change
                           (m\<lparr>world := w\<lparr>cells := (cells w)(a \<mapsto> ObjCell (d\<lparr>obj_fields := xs\<rparr>))\<rparr>\<rparr>)) }
                | _ \<Rightarrow> Some m) }
      | StaticGet dst sid \<Rightarrow> do { v \<leftarrow> at (statics (world m)) sid; set_reg dst v m }
      | StaticSet sid src \<Rightarrow>
          do { v \<leftarrow> reg src m; (v, w) \<leftarrow> assignment_copy v (world m);
               xs \<leftarrow> set_field (statics w) sid v;
               Some (with_kern notify_runtime_change (m\<lparr>world := w\<lparr>statics := xs\<rparr>\<rparr>)) })"

section \<open>Arrays and packed selects\<close>

definition index_get :: "Value \<Rightarrow> Value \<Rightarrow> World \<Rightarrow> Value option" where
  "index_get bv idx w =
     (case bv of
        Logic l \<Rightarrow>
          do { i \<leftarrow> as_logic idx;
               Some (if is_known i \<and> unat (to_u64 i) < width l
                     then Logic (from_bit (get_bit l (unat (to_u64 i)))) else Logic (all_x 1)) }
      | Queue a \<Rightarrow>
          do { i \<leftarrow> as_logic idx;
               (case cells w a of
                  Some (QueueCell q) \<Rightarrow> Some (case at q (unat (to_u64 i)) of None \<Rightarrow> Null | Some v \<Rightarrow> v)
                | _ \<Rightarrow> None) }
      | Assoc a \<Rightarrow>
          (case cells w a of
             Some (AssocCell es) \<Rightarrow> Some (case btree_get (value_to_key idx) es of None \<Rightarrow> Null | Some v \<Rightarrow> v)
           | _ \<Rightarrow> None)
      | _ \<Rightarrow> Some Null)"

definition part_select :: "LogicVec \<Rightarrow> nat \<Rightarrow> nat \<Rightarrow> LogicVec option" where
  "part_select l hi lo =
     (if hi \<ge> lo then slice_chk l hi lo
      else (let w = add_u32 (lo - hi) 1
            in map_option (fold (\<lambda>i sel. set_bit sel i (get_bit l (lo - i))) [0..<w]) (zero_chk w)))"

text \<open>
  The write of an element: the new value of the base register, the new world, and whether anything
  changed. An index \<open>i\<close> beyond the queue extends it. A vector cannot have \<open>2 ^ 63\<close> elements, so a
  negative index (a large \<open>usize\<close>) panics.
\<close>

definition index_set :: "Value \<Rightarrow> Value \<Rightarrow> Value \<Rightarrow> World \<Rightarrow> (Value \<times> World \<times> bool) option" where
  "index_set bv idx v w =
     (let key = value_to_key idx;
          i = (case key of IntKey n \<Rightarrow> nat (n mod 2 ^ 64) | _ \<Rightarrow> 0)
      in (case bv of
            Logic l \<Rightarrow>
              (case idx of
                 Logic ix \<Rightarrow>
                   (if is_known ix \<and> unat (to_u64 ix) < width l then
                      do { b \<leftarrow> as_logic v; Some (Logic (set_bit l (unat (to_u64 ix)) (get_bit b 0)), w, True) }
                    else Some (bv, w, False))
               | _ \<Rightarrow> Some (bv, w, False))
          | Queue a \<Rightarrow>
              (case cells w a of
                 Some (QueueCell q) \<Rightarrow>
                   (if i \<ge> 2 ^ 63 then None
                    else (let q = (if i \<ge> length q then q @ replicate (i + 1 - length q) Null else q)
                          in Some (bv, w\<lparr>cells := (cells w)(a \<mapsto> QueueCell (q[i := v]))\<rparr>, True)))
               | _ \<Rightarrow> None)
          | Assoc a \<Rightarrow>
              (case cells w a of
                 Some (AssocCell es) \<Rightarrow>
                   Some (bv, w\<lparr>cells := (cells w)(a \<mapsto> AssocCell (btree_insert key v es))\<rparr>, True)
               | _ \<Rightarrow> None)
          | _ \<Rightarrow> Some (bv, w, False)))"

definition concat_chk :: "LogicVec \<Rightarrow> LogicVec \<Rightarrow> LogicVec option" where
  "concat_chk u v = (if 1 \<le> add_u32 (width u) (width v) then Some (concat_lv u v) else None)"

fun concat_parts :: "LogicVec \<Rightarrow> LogicVec list \<Rightarrow> LogicVec option" where
  "concat_parts u [] = Some u"
| "concat_parts u (v # vs) = do { u \<leftarrow> concat_chk u v; concat_parts u vs }"

definition is_str :: "Value \<Rightarrow> bool" where
  "is_str v = (case v of Str _ \<Rightarrow> True | _ \<Rightarrow> False)"

definition concat_values :: "(u64 \<Rightarrow> string) \<Rightarrow> Value list \<Rightarrow> Value option" where
  "concat_values show vs =
     (if \<exists>v \<in> set vs. is_str v then Some (Str (concat (map (value_to_str show) vs)))
      else do { ls \<leftarrow> collect as_logic vs;
                (case ls of [] \<Rightarrow> Some (Logic (zero 1)) | l # ls \<Rightarrow> map_option Logic (concat_parts l ls)) })"

definition notifies :: "CollOp \<Rightarrow> bool" where
  "notifies op \<longleftrightarrow> op \<in> {PushBack, PushFront, PopBack, PopFront, Insert, Delete}"

definition exec_coll :: "Linkage \<Rightarrow> Program \<Rightarrow> CollInst \<Rightarrow> Machine \<Rightarrow> Machine option" where
  "exec_coll lk prog inst m =
     (case inst of
        NewQueue dst \<Rightarrow> (let (v, w) = new_queue (world m) in set_reg dst v (m\<lparr>world := w\<rparr>))
      | NewAssoc dst \<Rightarrow> (let (v, w) = new_assoc (world m) in set_reg dst v (m\<lparr>world := w\<rparr>))
      | IndexGet dst bv idx \<Rightarrow>
          do { b \<leftarrow> reg bv m; i \<leftarrow> reg idx m; v \<leftarrow> index_get b i (world m); set_reg dst v m }
      | PartSelect dst bv l r \<Rightarrow>
          do { val \<leftarrow> lreg bv m; l \<leftarrow> lreg l m; r \<leftarrow> lreg r m;
               sel \<leftarrow> part_select val (to_u32 l) (to_u32 r);
               set_reg dst (Logic sel) m }
      | IndexSet bv idx src \<Rightarrow>
          do { v \<leftarrow> reg src m; (v, w) \<leftarrow> assignment_copy v (world m);
               i \<leftarrow> reg idx m; b \<leftarrow> reg bv m;
               (b, w, changed) \<leftarrow> index_set b i v w;
               m \<leftarrow> set_reg bv b (m\<lparr>world := w\<rparr>);
               Some (if changed then with_kern notify_runtime_change m else m) }
      | CollMethod dst bv op args \<Rightarrow>
          do { actuals \<leftarrow> at (arglists prog) args; b \<leftarrow> reg bv m;
               (v, rs, w) \<leftarrow> eval_coll_method b op actuals (regs m) (world m);
               m \<leftarrow> set_reg dst v (m\<lparr>regs := rs, world := w\<rparr>);
               Some (if notifies op then with_kern notify_runtime_change m else m) }
      | Concat dst args \<Rightarrow>
          do { actuals \<leftarrow> at (arglists prog) args; vs \<leftarrow> collect (\<lambda>r. reg r m) actuals;
               v \<leftarrow> concat_values (show_f64 lk) vs; set_reg dst v m })"

section \<open>Text, time and host functions\<close>

definition str_or_empty :: "Value \<Rightarrow> string" where
  "str_or_empty v = (case v of Str s \<Rightarrow> s | _ \<Rightarrow> [])"

fun write_back :: "(Reg \<times> Value) list \<Rightarrow> Value list \<Rightarrow> Value list option" where
  "write_back [] rs = Some rs"
| "write_back ((r, v) # vs) rs = do { rs \<leftarrow> put_reg r v rs; write_back vs rs }"

definition exec_text :: "Linkage \<Rightarrow> Program \<Rightarrow> TextInst \<Rightarrow> Machine \<Rightarrow> Machine option" where
  "exec_text lk prog inst m =
     (case inst of
        Display fmt args \<Rightarrow>
          do { f \<leftarrow> at (pconsts prog) fmt; actuals \<leftarrow> at (arglists prog) args;
               line \<leftarrow> format_display (show_f64 lk) (str_or_empty f) actuals (regs m);
               Some (with_kern (display line) m) }
      | DpiCall dst name args \<Rightarrow>
          do { n \<leftarrow> at (pconsts prog) name;
               name \<leftarrow> (case n of Str s \<Rightarrow> Some s | _ \<Rightarrow> None);
               actuals \<leftarrow> at (arglists prog) args;
               vals \<leftarrow> collect (\<lambda>r. reg r m) actuals;
               (vals, result, w) \<leftarrow> dpi_call (dpi lk) name vals (world m);
               rs \<leftarrow> write_back (zip actuals vals) (regs m);
               set_reg dst result (m\<lparr>regs := rs, world := w\<rparr>) }
      | SimTime dst \<Rightarrow> set_reg dst (Logic (from_u64 (of_nat (time (kern m))) 64)) m
      | Format dst fmt args \<Rightarrow>
          do { f \<leftarrow> at (pconsts prog) fmt; actuals \<leftarrow> at (arglists prog) args;
               line \<leftarrow> format_display (show_f64 lk) (str_or_empty f) actuals (regs m);
               set_reg dst (Str line) m }
      | EnumName dst src table \<Rightarrow>
          do { l \<leftarrow> lreg src m; tbl \<leftarrow> at (enum_tables lk) table;
               let v = sint (to_i64 l);
               set_reg dst (Str (case tbl v of Some s \<Rightarrow> s | None \<Rightarrow> show_int v)) m }
      | StringLen dst src \<Rightarrow>
          do { v \<leftarrow> reg src m; set_reg dst (int_val (length (utf8 (str_or_empty v)))) m }
      | StringSub dst src lo hi \<Rightarrow>
          do { v \<leftarrow> reg src m; lo \<leftarrow> index_reg (regs m) lo; hi \<leftarrow> index_reg (regs m) hi;
               let s = str_or_empty v; let lo = min lo (length s); let hi = min ((hi + 1) mod 2 ^ 64) (length s);
               set_reg dst (Str (drop lo (take (max hi lo) s))) m }
      | StringIndex dst src idx \<Rightarrow>
          do { v \<leftarrow> reg src m; i \<leftarrow> index_reg (regs m) idx;
               let ch = (case at (utf8 (str_or_empty v)) i of None \<Rightarrow> 0 | Some c \<Rightarrow> c);
               set_reg dst (Logic (from_u64 (of_nat ch) 8)) m }
      | StringToUpper dst src \<Rightarrow>
          do { v \<leftarrow> reg src m; set_reg dst (Str (map to_ascii_uppercase (str_or_empty v))) m }
      | StringToLower dst src \<Rightarrow>
          do { v \<leftarrow> reg src m; set_reg dst (Str (map to_ascii_lowercase (str_or_empty v))) m }
      | StringAtoi dst src \<Rightarrow>
          do { v \<leftarrow> reg src m;
               let n = (case v of Str s \<Rightarrow> (case parse_i64 (trim s) of None \<Rightarrow> 0 | Some i \<Rightarrow> i) | _ \<Rightarrow> 0);
               set_reg dst (Logic (from_u64 (word_of_int n) 32)) m })"

section \<open>Frames\<close>

definition exec :: "Linkage \<Rightarrow> Program \<Rightarrow> nat \<Rightarrow> Inst \<Rightarrow> Machine \<Rightarrow> (Machine + Machine \<times> Step) option" where
  "exec lk prog provided inst m =
     (case inst of
        DataI i \<Rightarrow> map_option Inl (exec_data prog i m)
      | AluI i \<Rightarrow> map_option Inl (exec_alu i m)
      | NetI i \<Rightarrow> map_option Inl (exec_net prog i m)
      | TimingI i \<Rightarrow> map_option (\<lambda>s. Inr (m, s)) (exec_timing prog i m)
      | FlowI i \<Rightarrow> map_option (\<lambda>r. case r of Inl m \<Rightarrow> Inl m | Inr s \<Rightarrow> Inr (m, s)) (exec_flow lk prog provided i m)
      | ObjI i \<Rightarrow> map_option Inl (exec_obj lk i m)
      | CollI i \<Rightarrow> map_option Inl (exec_coll lk prog i m)
      | TextI i \<Rightarrow> map_option Inl (exec_text lk prog i m))"

partial_function (option) run_frame :: "Linkage \<Rightarrow> Program \<Rightarrow> nat \<Rightarrow> Machine \<Rightarrow> (Machine \<times> Step) option" where
  "run_frame lk prog provided m =
     do {
       inst \<leftarrow> at (pcode prog) (pc m);
       r \<leftarrow> exec lk prog provided inst (m\<lparr>pc := pc m + 1\<rparr>);
       (case r of
          Inl m \<Rightarrow> run_frame lk prog provided m
        | Inr (m, s) \<Rightarrow> Some (m, s))
     }"

section \<open>Processes\<close>

definition new_frame :: "Program \<Rightarrow> Frame" where
  "new_frame prog =
     \<lparr>f_prog = prog, f_pc = 0, f_regs = replicate (n_regs prog) Null, f_ret_dst = 0, f_copy_out = [],
      f_provided_args = 0, f_pending_nba = []\<rparr>"

definition new_process :: "Program \<Rightarrow> IrProcess" where
  "new_process prog = IrProcess (new_frame prog) False []"

definition machine_of :: "Frame \<Rightarrow> World \<Rightarrow> Kernel \<Rightarrow> Machine" where
  "machine_of f w k = \<lparr>pc = f_pc f, regs = f_regs f, pending_nba = f_pending_nba f, world = w, kern = k\<rparr>"

definition frame_of :: "Frame \<Rightarrow> Machine \<Rightarrow> Frame" where
  "frame_of f m = f\<lparr>f_pc := pc m, f_regs := regs m, f_pending_nba := pending_nba m\<rparr>"

text \<open>The argument values go into the formals, and the formals to copy back are recorded.\<close>

fun bind_args :: "ArgMode list \<Rightarrow> Reg list \<Rightarrow> nat \<Rightarrow> Value list \<Rightarrow> Value list \<times> (nat \<times> Reg) list \<Rightarrow>
    (Value list \<times> (nat \<times> Reg) list) option" where
  "bind_args modes actuals i [] (rs, co) = Some (rs, co)"
| "bind_args modes actuals i (v # vs) (rs, co) =
     (if i < length rs then
        (let mode = (if i < length modes then modes ! i else Input);
             rs = (if mode \<noteq> Output then rs[i := v] else rs)
         in if copies_out mode then
              do { a \<leftarrow> at actuals i; bind_args modes actuals (i + 1) vs (rs, co @ [(i, a)]) }
            else bind_args modes actuals (i + 1) vs (rs, co))
      else bind_args modes actuals (i + 1) vs (rs, co))"

definition enter_call :: "Linkage \<Rightarrow> FuncId \<Rightarrow> Value list \<Rightarrow> Reg list \<Rightarrow> Reg \<Rightarrow> Frame option" where
  "enter_call lk func vals actuals ret =
     do { callee \<leftarrow> at (funcs lk) func;
          (rs, co) \<leftarrow> bind_args (arg_modes callee) actuals 0 vals (replicate (n_regs callee) Null, []);
          Some \<lparr>f_prog = callee, f_pc = 0, f_regs = rs, f_ret_dst = ret, f_copy_out = co,
                f_provided_args = length vals, f_pending_nba = []\<rparr> }"

fun copy_back :: "(nat \<times> Reg) list \<Rightarrow> Value list \<Rightarrow> Value list \<Rightarrow> Value list option" where
  "copy_back [] rs caller_regs = Some caller_regs"
| "copy_back ((formal, actual) # co) rs caller_regs =
     do { v \<leftarrow> get_reg rs formal; caller_regs \<leftarrow> put_reg actual v caller_regs; copy_back co rs caller_regs }"

definition return_to :: "Frame \<Rightarrow> Value option \<Rightarrow> Frame \<Rightarrow> Frame option" where
  "return_to f val caller =
     do { rs \<leftarrow> copy_back (f_copy_out f) (f_regs f) (f_regs caller);
          rs \<leftarrow> (case val of None \<Rightarrow> Some rs | Some v \<Rightarrow> put_reg (f_ret_dst f) v rs);
          Some (caller\<lparr>f_regs := rs\<rparr>) }"

definition fork_process :: "Program \<times> (Reg \<times> Value) list \<Rightarrow> IrProcess option" where
  "fork_process child =
     do { rs \<leftarrow> write_back (snd child) (f_regs (new_frame (fst child)));
          Some (IrProcess ((new_frame (fst child))\<lparr>f_regs := rs\<rparr>) False []) }"

partial_function (option) run_loop ::
  "Linkage \<Rightarrow> IrProcess \<Rightarrow> World \<Rightarrow> Kernel \<Rightarrow> (IrProcess \<times> World \<times> Kernel \<times> IrProcess Wait) option" where
  "run_loop lk p w k =
     do {
       (m, step) \<leftarrow> run_frame lk (f_prog (current p)) (f_provided_args (current p)) (machine_of (current p) w k);
       let f = frame_of (current p) m;
       let w = world m;
       let k = kern m;
       (case step of
          WaitStep wt \<Rightarrow>
            Some (IrProcess f (if wt = NbaWait then True else apply_pending_nba p) (callers p), w, k, wt)
        | CallStep func vals actuals ret \<Rightarrow>
            do { callee \<leftarrow> enter_call lk func vals actuals ret;
                 run_loop lk (IrProcess callee (apply_pending_nba p) (f # callers p)) w k }
        | ReturnStep val \<Rightarrow>
            (case callers p of
               caller # rest \<Rightarrow>
                 do { caller \<leftarrow> return_to f val caller;
                      run_loop lk (IrProcess caller (apply_pending_nba p) rest) w k }
             | [] \<Rightarrow> Some (IrProcess f (apply_pending_nba p) [], w, k, Finished))
        | ForkStep children join \<Rightarrow>
            do { ps \<leftarrow> collect fork_process children;
                 Some (IrProcess f (apply_pending_nba p) (callers p), w, k, Wait.Fork ps join) })
     }"

definition run :: "Linkage \<Rightarrow> IrProcess \<Rightarrow> World \<Rightarrow> Kernel \<Rightarrow> (IrProcess \<times> World \<times> Kernel \<times> IrProcess Wait) option" where
  "run lk p w k =
     (if apply_pending_nba p then
        do { rs \<leftarrow> write_back (f_pending_nba (current p)) (f_regs (current p));
             run_loop lk (IrProcess ((current p)\<lparr>f_regs := rs, f_pending_nba := []\<rparr>) False (callers p)) w
               (notify_runtime_change k) }
      else run_loop lk p w k)"

text \<open>\<open>resume\<close> adds the call stack to the report of a panic and lets it propagate.\<close>

definition resume :: "Linkage \<Rightarrow> IrProcess \<Rightarrow> World \<Rightarrow> Kernel \<Rightarrow> (IrProcess \<times> World \<times> Kernel \<times> IrProcess Wait) option" where
  "resume lk p w k = run lk p w k"

end
