(* ===== verification/Wakeups.thy ===== *)
theory Wakeups
  imports Kernel
begin

text \<open>
  Which processes a net write wakes. The invariant \<open>waits_inv\<close> says that the sensitivity lists,
  the wait epochs and the record of the nets a process waits on agree; under it no waiter is ever
  stale, and a write wakes each process whose edge filter matches exactly once and takes it off
  every other list.
\<close>

section \<open>The loop over the waiters\<close>

lemma swap_remove_parts:
  assumes "i < length xs"
  shows "take i (swap_remove xs i) = take i xs"
    and "mset (drop i xs) = add_mset (xs ! i) (mset (drop i (swap_remove xs i)))"
proof -
  define r where "r = drop (Suc i) xs"
  have xs: "xs = take i xs @ xs ! i # r" using assms by (simp add: r_def id_take_nth_drop)
  have li: "length (take i xs) = i" using assms by simp
  have sw: "swap_remove xs i = take i xs @ (if r = [] then [] else last r # butlast r)"
  proof (cases "r = []")
    case True
    then have "xs = take i xs @ [xs ! i]" using xs by simp
    then show ?thesis using True li
      by (metis append_Nil2 butlast_snoc list_update_beyond order_refl swap_remove_def)
  next
    case False
    then have "butlast xs = take i xs @ xs ! i # butlast r" "last xs = last r"
      by (subst xs, simp add: butlast_append, subst xs, simp)
    then show ?thesis using False li by (simp add: swap_remove_def list_update_append)
  qed
  show "take i (swap_remove xs i) = take i xs" using li by (simp add: sw)
  have "drop i (swap_remove xs i) = (if r = [] then [] else last r # butlast r)"
    using li by (simp add: sw)
  moreover have "mset r = mset (if r = [] then [] else last r # butlast r)"
    by (cases r rule: rev_cases) simp_all
  moreover have "drop i xs = xs ! i # r" using assms by (simp add: r_def Cons_nth_drop_Suc)
  ultimately show "mset (drop i xs) = add_mset (xs ! i) (mset (drop i (swap_remove xs i)))" by simp
qed

lemma swap_remove_set:
  assumes "i < length xs"
  shows "set (drop i xs) = insert (xs ! i) (set (drop i (swap_remove xs i)))"
    and "set xs = insert (xs ! i) (set (swap_remove xs i))"
proof -
  show d: "set (drop i xs) = insert (xs ! i) (set (drop i (swap_remove xs i)))"
    using arg_cong [OF swap_remove_parts(2) [OF assms], of set_mset] by simp
  have "set xs = set (take i xs) \<union> set (drop i xs)"
    by (metis append_take_drop_id set_append)
  also have "\<dots> = insert (xs ! i) (set (take i (swap_remove xs i)) \<union> set (drop i (swap_remove xs i)))"
    using d swap_remove_parts(1) [OF assms] by auto
  also have "set (take i (swap_remove xs i)) \<union> set (drop i (swap_remove xs i)) = set (swap_remove xs i)"
    by (metis append_take_drop_id set_append)
  finally show "set xs = insert (xs ! i) (set (swap_remove xs i))" .
qed

definition bump :: "(ProcId \<rightharpoonup> nat) \<Rightarrow> ProcId list \<Rightarrow> (ProcId \<rightharpoonup> nat)" where
  "bump ep ps = (\<lambda>p. if p \<in> set ps then Some (epoch_of ep p + 1) else ep p)"

definition is_current :: "(ProcId \<rightharpoonup> nat) \<Rightarrow> Waiter \<Rightarrow> bool" where
  "is_current ep w \<longleftrightarrow> wepoch w = epoch_of ep (wproc w)"

text \<open>
  The waiters from index \<open>i\<close> on: those that are current and fire are woken, once per process, and
  a current waiter of a process not woken stays.
\<close>

lemma wake_loop_spec:
  assumes "wake_loop e i ws ep woken = (ws', ep', woken')"
    and "\<forall>w \<in> set ws. wepoch w \<le> epoch_of ep (wproc w)"
  shows "\<exists>new. woken' = woken @ new \<and> distinct new \<and>
    set new = wproc ` {w \<in> set (drop i ws). is_current ep w \<and> fires e (wedge w)} \<and>
    ep' = bump ep new \<and> set ws' \<subseteq> set ws \<and>
    (\<forall>w \<in> set ws. is_current ep w \<and> wproc w \<notin> set new \<longrightarrow> w \<in> set ws')"
  using assms
proof (induction e i ws ep woken rule: wake_loop.induct)
  case (1 e i ws ep woken)
  show ?case
  proof (cases "i < length ws")
    case False
    then have "ws' = ws" "ep' = ep" "woken' = woken"
      using 1(4) by (simp_all add: wake_loop.simps)
    with False show ?thesis by (intro exI [of _ "[]"]) (auto simp: bump_def)
  next
    case i: True
    let ?w = "ws ! i"
    note sr = swap_remove_set [OF i]
    show ?thesis
    proof (cases "is_current ep ?w")
      case False
      then have "wake_loop e i (swap_remove ws i) ep woken = (ws', ep', woken')"
        using 1(4) i by (simp add: wake_loop.simps [of e i ws] is_current_def)
      from 1(1) [OF i refl refl _ this] False obtain new where new: "woken' = woken @ new" "distinct new"
        "set new = wproc ` {w \<in> set (drop i (swap_remove ws i)). is_current ep w \<and> fires e (wedge w)}"
        "ep' = bump ep new" "set ws' \<subseteq> set (swap_remove ws i)"
        "\<forall>w \<in> set (swap_remove ws i). is_current ep w \<and> wproc w \<notin> set new \<longrightarrow> w \<in> set ws'"
        using 1(5) sr(2) by (auto simp: is_current_def)
      moreover have "{w \<in> set (drop i (swap_remove ws i)). is_current ep w \<and> fires e (wedge w)} =
          {w \<in> set (drop i ws). is_current ep w \<and> fires e (wedge w)}"
        using False unfolding sr(1) by blast
      ultimately show ?thesis
        using False unfolding sr(2) by (intro exI [of _ new]) auto
    next
      case cur: True
      show ?thesis
      proof (cases "fires e (wedge ?w)")
        case True
        let ?p = "wproc ?w" and ?ep = "ep(wproc ?w \<mapsto> epoch_of ep (wproc ?w) + 1)"
        have call: "wake_loop e i (swap_remove ws i) ?ep (woken @ [?p]) = (ws', ep', woken')"
          using 1(4) i cur True by (simp add: wake_loop.simps [of e i ws] is_current_def)
        have ep: "epoch_of ?ep q = (if q = ?p then epoch_of ep ?p + 1 else epoch_of ep q)" for q
          by (simp add: epoch_of_def)
        have le: "\<forall>w \<in> set (swap_remove ws i). wepoch w \<le> epoch_of ?ep (wproc w)"
          using 1(5) sr(2) unfolding ep by (auto intro: le_SucI)
        have "\<exists>new. woken' = (woken @ [?p]) @ new \<and> distinct new \<and>
          set new = wproc ` {w \<in> set (drop i (swap_remove ws i)). is_current ?ep w \<and> fires e (wedge w)} \<and>
          ep' = bump ?ep new \<and> set ws' \<subseteq> set (swap_remove ws i) \<and>
          (\<forall>w \<in> set (swap_remove ws i). is_current ?ep w \<and> wproc w \<notin> set new \<longrightarrow> w \<in> set ws')"
          by (rule 1(2) [OF i refl refl _ True call le]) (use cur in \<open>simp add: is_current_def\<close>)
        then obtain new where new: "woken' = (woken @ [?p]) @ new" "distinct new"
          "set new = wproc ` {w \<in> set (drop i (swap_remove ws i)). is_current ?ep w \<and> fires e (wedge w)}"
          "ep' = bump ?ep new" "set ws' \<subseteq> set (swap_remove ws i)"
          "\<forall>w \<in> set (swap_remove ws i). is_current ?ep w \<and> wproc w \<notin> set new \<longrightarrow> w \<in> set ws'"
          by blast
        have c: "is_current ?ep w \<longleftrightarrow> is_current ep w \<and> wproc w \<noteq> ?p" if "w \<in> set ws" for w
          using that 1(5) unfolding is_current_def ep by (cases "wproc w = ?p") (auto dest!: bspec)
        have sub: "set (drop i (swap_remove ws i)) \<subseteq> set ws"
          using sr set_drop_subset by fastforce
        have "set new = wproc ` {w \<in> set (drop i (swap_remove ws i)). is_current ep w \<and> fires e (wedge w) \<and> wproc w \<noteq> ?p}"
          unfolding new(3) using sub c by (intro arg_cong [of _ _ "image wproc"]) blast
        then have st: "?p \<notin> set new"
          "set (?p # new) = wproc ` {w \<in> set (drop i ws). is_current ep w \<and> fires e (wedge w)}"
          unfolding sr(1) using cur True by auto
        moreover have "ep' = bump ep (?p # new)"
          unfolding new(4) bump_def ep by (rule ext) (use st(1) in auto)
        moreover have "\<forall>w \<in> set ws. is_current ep w \<and> wproc w \<notin> set (?p # new) \<longrightarrow> w \<in> set ws'"
          using new(6) c sr(2) by auto
        ultimately show ?thesis
          using new(1,2,5) sr(2) by (intro exI [of _ "?p # new"]) auto
      next
        case False
        then have "wake_loop e (i + 1) ws ep woken = (ws', ep', woken')"
          using 1(4) i cur by (simp add: wake_loop.simps [of e i ws] is_current_def)
        moreover have "{w \<in> set (drop i ws). is_current ep w \<and> fires e (wedge w)} =
            {w \<in> set (drop (i + 1) ws). is_current ep w \<and> fires e (wedge w)}"
          using False i by (auto simp: Cons_nth_drop_Suc [symmetric])
        ultimately show ?thesis
          using 1(3) [OF i refl refl _ False] cur 1(5) by (simp add: is_current_def)
      qed
    qed
  qed
qed

section \<open>The invariant of the wait records\<close>

definition waits_inv :: "Kernel \<Rightarrow> bool" where
  "waits_inv k \<longleftrightarrow>
     (\<forall>m < length (nets k). \<forall>w \<in> set (waiters (nets k ! m)).
        wait_epochs k (wproc w) = Some (wepoch w) \<and>
        (\<exists>l. net_waits k (wproc w) = Some l \<and> m \<in> set l)) \<and>
     (\<forall>p l. net_waits k p = Some l \<longrightarrow> set l \<subseteq> {..<length (nets k)})"

lemma waits_invD:
  assumes "waits_inv k" and "m < length (nets k)" and "w \<in> set (waiters (nets k ! m))"
  shows "wait_epochs k (wproc w) = Some (wepoch w)" "\<exists>l. net_waits k (wproc w) = Some l \<and> m \<in> set l"
  using assms by (auto simp: waits_inv_def)

lemma nets_fold_retain:
  assumes "m < length (nets k)"
  shows "nets (fold (\<lambda>n. upd_net n (retain_others p)) l k) ! m =
    (if m \<in> set l then retain_others p (nets k ! m) else nets k ! m)"
  using assms
proof (induction l arbitrary: k)
  case (Cons n l)
  then show ?case by (auto simp: nets_upd_net retain_others_def)
qed simp

lemma nets_clear:
  assumes "m < length (nets k)"
  shows "nets (clear_net_waiters p k) ! m =
    (case net_waits k p of None \<Rightarrow> nets k ! m
     | Some l \<Rightarrow> if m \<in> set l then retain_others p (nets k ! m) else nets k ! m)"
  using assms by (simp add: clear_net_waiters_def nets_fold_retain split: option.split)

text \<open>Under the invariant, clearing a process removes it from every sensitivity list.\<close>

definition registered :: "Kernel \<Rightarrow> bool" where
  "registered k \<longleftrightarrow> (\<forall>m < length (nets k). \<forall>w \<in> set (waiters (nets k ! m)).
     \<exists>l. net_waits k (wproc w) = Some l \<and> m \<in> set l)"

lemma registered_clear:
  assumes "registered k"
  shows "registered (clear_net_waiters p k)"
  using assms
  by (fastforce simp: registered_def nets_clear retain_others_def split: option.splits if_splits)

lemma nets_clear_registered:
  assumes "registered k" and "m < length (nets k)"
  shows "nets (clear_net_waiters p k) ! m = retain_others p (nets k ! m)"
proof -
  have "retain_others p (nets k ! m) = nets k ! m" if "\<nexists>l. net_waits k p = Some l \<and> m \<in> set l"
  proof -
    have "filter (\<lambda>w. wproc w \<noteq> p) (waiters (nets k ! m)) = waiters (nets k ! m)"
      using assms that by (intro filter_True) (auto simp: registered_def)
    then show ?thesis by (simp add: retain_others_def)
  qed
  with assms(2) show ?thesis by (auto simp: nets_clear split: option.split)
qed

lemma nets_fold_clear:
  assumes "registered k" and "m < length (nets k)"
  shows "registered (fold clear_net_waiters ps k) \<and>
    nets (fold clear_net_waiters ps k) ! m =
      (nets k ! m)\<lparr>waiters := filter (\<lambda>w. wproc w \<notin> set ps) (waiters (nets k ! m))\<rparr> \<and>
    net_waits (fold clear_net_waiters ps k) = (\<lambda>p. if p \<in> set ps then None else net_waits k p)"
  using assms
proof (induction ps arbitrary: k)
  case (Cons p ps)
  from Cons.IH [OF registered_clear [OF Cons.prems(1), of p]] Cons.prems show ?case
    by (auto simp: nets_clear_registered retain_others_def conj_commute)
qed simp

lemma waits_registered: "waits_inv k \<Longrightarrow> registered k"
  by (auto simp: waits_inv_def registered_def)

section \<open>What a write does\<close>

text \<open>The processes a write of \<open>val\<close> wakes on the net, in wake order.\<close>

definition woken_by :: "NetId \<Rightarrow> LogicVec \<Rightarrow> Kernel \<Rightarrow> ProcId list" where
  "woken_by net val k = (let e = detect_edge (nvalue (nets k ! net)) val
     in if changed e then snd (snd (wake_loop e 0 (waiters (nets k ! net)) (wait_epochs k) [])) else [])"

lemma woken_by_spec:
  assumes "waits_inv k" and "net < length (nets k)"
  shows "distinct (woken_by net val k)"
    and "set (woken_by net val k) = (let e = detect_edge (nvalue (nets k ! net)) val in
      {p. changed e \<and> (\<exists>w \<in> set (waiters (nets k ! net)). wproc w = p \<and> fires e (wedge w))})"
proof -
  let ?e = "detect_edge (nvalue (nets k ! net)) val" and ?ws = "waiters (nets k ! net)"
  have c: "is_current (wait_epochs k) w" if "w \<in> set ?ws" for w
    using waits_invD(1) [OF assms that] by (simp add: is_current_def epoch_of_def)
  obtain ws' ep' woken' where r: "wake_loop ?e 0 ?ws (wait_epochs k) [] = (ws', ep', woken')" by (metis prod_cases3)
  from wake_loop_spec [OF r] c have "distinct woken'"
    "set woken' = wproc ` {w \<in> set ?ws. is_current (wait_epochs k) w \<and> fires ?e (wedge w)}"
    by (auto simp: is_current_def)
  with c show "distinct (woken_by net val k)"
    and "set (woken_by net val k) = (let e = ?e in
      {p. changed e \<and> (\<exists>w \<in> set ?ws. wproc w = p \<and> fires e (wedge w))})"
    by (auto simp: woken_by_def r)
qed

lemma write_net_effect:
  assumes "waits_inv k" and "net < length (nets k)"
  shows "active (write_net net val k) = active k @
      (if changed (detect_edge (nvalue (nets k ! net)) val) then runtime_waiters k @ woken_by net val k else [])"
    and "runtime_waiters (write_net net val k) =
      (if changed (detect_edge (nvalue (nets k ! net)) val) then [] else runtime_waiters k)"
    and "wait_epochs (write_net net val k) = bump (wait_epochs k) (woken_by net val k)"
    and "net_waits (write_net net val k) = (\<lambda>p. if p \<in> set (woken_by net val k) then None else net_waits k p)"
    and "\<And>m. m < length (nets k) \<Longrightarrow> \<exists>ws. nets (write_net net val k) ! m =
      (nets k ! m)\<lparr>nvalue := (if m = net then val else nvalue (nets k ! m)), waiters := ws\<rparr> \<and>
      set ws = {w \<in> set (waiters (nets k ! m)). wproc w \<notin> set (woken_by net val k)}"
proof -
  let ?e = "detect_edge (nvalue (nets k ! net)) val" and ?ws = "waiters (nets k ! net)"
  define k1 where "k1 = (let k1 = (upd_net net (\<lambda>n. n\<lparr>nvalue := val\<rparr>) k)\<lparr>stats := (stats k)\<lparr>net_writes := net_writes (stats k) + 1\<rparr>\<rparr>
    in if changed ?e then k1\<lparr>active := active k @ runtime_waiters k, runtime_waiters := []\<rparr> else k1)"
  have k1: "nets k1 = nets (upd_net net (\<lambda>n. n\<lparr>nvalue := val\<rparr>) k)" "wait_epochs k1 = wait_epochs k"
    "net_waits k1 = net_waits k" "length (nets k1) = length (nets k)"
    "active k1 = active k @ (if changed ?e then runtime_waiters k else [])"
    "runtime_waiters k1 = (if changed ?e then [] else runtime_waiters k)"
    by (simp_all add: k1_def)
  have n1: "waiters (nets k1 ! m) = waiters (nets k ! m)" "nets k1 ! m = (nets k ! m)\<lparr>nvalue := (if m = net then val else nvalue (nets k ! m))\<rparr>"
    for m using assms(2) by (simp_all add: k1(1) nets_upd_net)
  have reg: "registered k1"
    using waits_registered [OF assms(1)] by (simp add: registered_def k1(3,4) n1(1))
  obtain ws' ep' woken' where r: "wake_loop ?e 0 ?ws (wait_epochs k) [] = (ws', ep', woken')" by (metis prod_cases3)
  let ?go = "changed ?e \<and> ?ws \<noteq> []"
  define k2 where "k2 = (upd_net net (\<lambda>n. n\<lparr>waiters := ws'\<rparr>) k1)\<lparr>wait_epochs := ep', active := active k1 @ woken'\<rparr>"
  have wk: "woken_by net val k = (if ?go then woken' else [])"
    using r by (auto simp: woken_by_def wake_loop.simps [of _ 0 "[]"])
  have eq: "write_net net val k = (if ?go then fold clear_net_waiters woken' k2 else k1)"
    using r assms(2) by (simp add: write_net_def k1_def k2_def nets_upd_net)
  have "\<forall>w \<in> set ?ws. wepoch w \<le> epoch_of (wait_epochs k) (wproc w)"
    using waits_invD(1) [OF assms] by (simp add: epoch_of_def)
  from wake_loop_spec [OF r this] have spec: "ep' = bump (wait_epochs k) woken'" "set ws' \<subseteq> set ?ws"
    "\<And>w. w \<in> set ?ws \<Longrightarrow> wproc w \<notin> set woken' \<Longrightarrow> w \<in> set ws'"
    using waits_invD(1) [OF assms] by (auto simp: is_current_def epoch_of_def)
  have n2: "nets k2 ! m = (if m = net then (nets k1 ! m)\<lparr>waiters := ws'\<rparr> else nets k1 ! m)"
    for m using assms(2) by (simp add: k2_def nets_upd_net k1(4))
  have reg2: "registered k2"
    unfolding registered_def
  proof (intro allI ballI impI)
    fix m w assume "m < length (nets k2)" and "w \<in> set (waiters (nets k2 ! m))"
    moreover have "length (nets k2) = length (nets k1)" by (simp add: k2_def)
    ultimately have "m < length (nets k1) \<and> w \<in> set (waiters (nets k1 ! m))"
      using spec(2) n1(1) [of net] unfolding n2 by (auto split: if_splits)
    then show "\<exists>l. net_waits k2 (wproc w) = Some l \<and> m \<in> set l"
      using reg by (simp add: registered_def k2_def)
  qed
  have len2: "length (nets k2) = length (nets k)" by (simp add: k2_def k1(4))
  note fc = nets_fold_clear [OF reg2, of _ woken', unfolded len2]
  have f0: "net_waits (fold clear_net_waiters woken' k2) = (\<lambda>p. if p \<in> set woken' then None else net_waits k p)"
  proof -
    have "net_waits k2 = net_waits k" by (simp add: k2_def k1(3))
    with fc [OF assms(2)] show ?thesis by metis
  qed
  show "active (write_net net val k) = active k @
      (if changed ?e then runtime_waiters k @ woken_by net val k else [])"
    by (auto simp: eq wk k2_def k1)
  show "runtime_waiters (write_net net val k) = (if changed ?e then [] else runtime_waiters k)"
    by (auto simp: eq wk k2_def k1)
  show "wait_epochs (write_net net val k) = bump (wait_epochs k) (woken_by net val k)"
    by (auto simp: eq wk k2_def k1 spec(1) bump_def)
  show "net_waits (write_net net val k) = (\<lambda>p. if p \<in> set (woken_by net val k) then None else net_waits k p)"
    by (auto simp: eq wk f0 k1)
  show "\<exists>ws. nets (write_net net val k) ! m =
      (nets k ! m)\<lparr>nvalue := (if m = net then val else nvalue (nets k ! m)), waiters := ws\<rparr> \<and>
      set ws = {w \<in> set (waiters (nets k ! m)). wproc w \<notin> set (woken_by net val k)}" if m: "m < length (nets k)" for m
  proof (cases ?go)
    case False
    then show ?thesis unfolding eq wk by (intro exI [of _ "waiters (nets k ! m)"]) (auto simp: n1)
  next
    case True
    let ?w2 = "filter (\<lambda>w. wproc w \<notin> set woken') (waiters (nets k2 ! m))"
    have "nets (write_net net val k) ! m = (nets k2 ! m)\<lparr>waiters := ?w2\<rparr>"
      using fc [OF m] True by (simp add: eq)
    also have "\<dots> = (nets k ! m)\<lparr>nvalue := (if m = net then val else nvalue (nets k ! m)), waiters := ?w2\<rparr>"
      by (simp add: n2 n1)
    finally show ?thesis
      using True spec(2,3) by (intro exI [of _ ?w2]) (auto simp: wk n2 n1)
  qed
qed

lemma write_net_value:
  assumes "waits_inv k" and "net < length (nets k)" and "m < length (nets k)"
  shows "nvalue (nets (write_net net val k) ! m) = (if m = net then val else nvalue (nets k ! m))"
proof -
  from write_net_effect(5) [OF assms] obtain ws where "nets (write_net net val k) ! m =
      (nets k ! m)\<lparr>nvalue := (if m = net then val else nvalue (nets k ! m)), waiters := ws\<rparr>" by blast
  from arg_cong [OF this, of nvalue] show ?thesis by simp
qed

lemma write_net_waiters:
  assumes "waits_inv k" and "net < length (nets k)" and "m < length (nets k)"
  shows "set (waiters (nets (write_net net val k) ! m)) =
    {w \<in> set (waiters (nets k ! m)). wproc w \<notin> set (woken_by net val k)}"
proof -
  from write_net_effect(5) [OF assms, of val] obtain ws where "nets (write_net net val k) ! m =
      (nets k ! m)\<lparr>nvalue := (if m = net then val else nvalue (nets k ! m)), waiters := ws\<rparr>"
      "set ws = {w \<in> set (waiters (nets k ! m)). wproc w \<notin> set (woken_by net val k)}" by blast
  from arg_cong [OF this(1), of waiters] this(2) show ?thesis by simp
qed

lemma waits_inv_write_net:
  assumes "waits_inv k" and "net < length (nets k)"
  shows "waits_inv (write_net net val k)"
proof -
  note eff = write_net_effect [OF assms, where val = val]
  have "wait_epochs (write_net net val k) (wproc w) = Some (wepoch w) \<and>
      (\<exists>l. net_waits (write_net net val k) (wproc w) = Some l \<and> m \<in> set l)"
    if m: "m < length (nets k)" and w: "w \<in> set (waiters (nets (write_net net val k) ! m))" for m w
  proof -
    from eff(5) [OF m] obtain ws where n: "nets (write_net net val k) ! m =
      (nets k ! m)\<lparr>nvalue := (if m = net then val else nvalue (nets k ! m)), waiters := ws\<rparr>"
      and ws: "set ws = {w \<in> set (waiters (nets k ! m)). wproc w \<notin> set (woken_by net val k)}" by blast
    from w ws have "w \<in> set (waiters (nets k ! m))" "wproc w \<notin> set (woken_by net val k)" by (simp_all add: n)
    then show ?thesis using waits_invD [OF assms(1) m] by (simp add: eff(3,4) bump_def)
  qed
  then show ?thesis using assms(1) by (auto simp: waits_inv_def eff(4) split: if_splits)
qed

section \<open>What parking a process does\<close>

text \<open>A kernel that differs only in what the wait records do not mention keeps the invariant.\<close>

lemma waits_inv_cong:
  assumes "waits_inv k" and "length (nets k') = length (nets k)"
    and "\<And>m. m < length (nets k) \<Longrightarrow> waiters (nets k' ! m) = waiters (nets k ! m)"
    and "wait_epochs k' = wait_epochs k" and "net_waits k' = net_waits k"
  shows "waits_inv k'"
  using assms by (simp add: waits_inv_def)

definition wait_ok :: "Kernel \<Rightarrow> 'p Wait \<Rightarrow> bool" where
  "wait_ok k wt = (case wt of
     Edge n e \<Rightarrow> n < length (nets k)
   | Sensitivity l \<Rightarrow> fst ` set l \<subseteq> {..<length (nets k)}
   | Cond l \<Rightarrow> set l \<subseteq> {..<length (nets k)}
   | _ \<Rightarrow> True)"

text \<open>A process being armed: its waiters carry the new epoch and are on the nets recorded so far.\<close>

definition arming :: "ProcId \<Rightarrow> nat \<Rightarrow> NetId list \<Rightarrow> Kernel \<Rightarrow> bool" where
  "arming p e waited k \<longleftrightarrow>
     (\<forall>m < length (nets k). \<forall>w \<in> set (waiters (nets k ! m)).
        if wproc w = p then wepoch w = e \<and> m \<in> set waited
        else wait_epochs k (wproc w) = Some (wepoch w) \<and>
          (\<exists>l. net_waits k (wproc w) = Some l \<and> m \<in> set l)) \<and>
     wait_epochs k p = Some e \<and> set waited \<subseteq> {..<length (nets k)} \<and> net_waits k p = None \<and>
     (\<forall>q l. net_waits k q = Some l \<longrightarrow> set l \<subseteq> {..<length (nets k)})"

lemma waits_inv_clear:
  assumes "waits_inv k"
  shows "waits_inv (clear_net_waiters p k)"
    and "\<And>m w. m < length (nets k) \<Longrightarrow> w \<in> set (waiters (nets (clear_net_waiters p k) ! m)) \<Longrightarrow> wproc w \<noteq> p"
  using assms nets_clear_registered [OF waits_registered [OF assms]]
  by (auto simp: waits_inv_def retain_others_def split: if_splits)

lemma arming_start:
  assumes "waits_inv k"
  shows "arming p e [] ((clear_net_waiters p k)\<lparr>wait_epochs := (wait_epochs k)(p \<mapsto> e)\<rparr>)"
proof -
  let ?k = "clear_net_waiters p k"
  note inv = waits_inv_clear(1) [OF assms, of p]
  have "wproc w \<noteq> p \<and> wait_epochs k (wproc w) = Some (wepoch w) \<and>
      (\<exists>l. net_waits k (wproc w) = Some l \<and> m \<in> set l)"
    if "m < length (nets k)" "w \<in> set (waiters (nets ?k ! m))" for m w
    using waits_invD [OF inv, of m w] waits_inv_clear(2) [OF assms that] that by (simp split: if_splits)
  moreover have "net_waits ?k q = Some l \<Longrightarrow> set l \<subseteq> {..<length (nets k)}" for q l
    using inv by (simp add: waits_inv_def)
  ultimately show ?thesis by (simp add: arming_def)
qed

lemma arming_add:
  assumes "arming p e waited k" and "n < length (nets k)" and "set waited' = insert n (set waited)"
  shows "arming p e waited' (add_waiter p e (n, kind) k)"
  using assms by (auto simp: arming_def add_waiter_def nets_upd_net split: if_splits)

lemma add_waiter_frame [simp]: "length (nets (add_waiter p e ne k)) = length (nets k)"
  "wait_epochs (add_waiter p e ne k) = wait_epochs k" "net_waits (add_waiter p e ne k) = net_waits k"
  by (simp_all add: add_waiter_def)

lemma arming_done: "arming p e waited k \<Longrightarrow> waits_inv (k\<lparr>net_waits := (net_waits k)(p \<mapsto> waited)\<rparr>)"
  by (auto simp: arming_def waits_inv_def split: if_splits)

lemma arming_nothing: "arming p e [] k \<Longrightarrow> waits_inv k"
  by (fastforce simp: arming_def waits_inv_def split: if_splits)

lemma arming_sensitivity:
  assumes "arming p e waited k" and "fst ` set l \<subseteq> {..<length (nets k)}"
    and "fold (\<lambda>ne (k, waited). (add_waiter p e ne k,
           if fst ne \<in> set waited then waited else waited @ [fst ne])) l (k, waited) = (k', waited')"
  shows "arming p e waited' k'"
  using assms
proof (induction l arbitrary: k waited)
  case (Cons ne l)
  let ?w = "if fst ne \<in> set waited then waited else waited @ [fst ne]"
  have "arming p e ?w (add_waiter p e (fst ne, snd ne) k)"
    using Cons.prems(1,2) by (intro arming_add) auto
  from Cons.IH [OF this] Cons.prems(2,3) show ?case by simp
qed simp

lemma arming_cond:
  assumes "arming p e waited k" and "set l \<subseteq> {..<length (nets k)}"
    and "fold (\<lambda>net (k, waited). (if net \<in> set waited then (k, waited)
           else (add_waiter p e (net, AnyChange) k, waited @ [net]))) l (k, waited) = (k', waited')"
  shows "arming p e waited' k'"
  using assms
proof (induction l arbitrary: k waited)
  case (Cons n l)
  show ?case
  proof (cases "n \<in> set waited")
    case True
    with Cons show ?thesis by simp
  next
    case False
    have "arming p e (waited @ [n]) (add_waiter p e (n, AnyChange) k)"
      using Cons.prems(1,2) by (intro arming_add) auto
    from Cons.IH [OF this] Cons.prems(2,3) False show ?thesis by simp
  qed
qed simp

lemma arm_clears: "arm p wt k = Some k' \<Longrightarrow> clear_net_waiters_chk p k = Some (clear_net_waiters p k)"
  by (simp add: arm_def clear_net_waiters_chk_def split: if_splits)

lemma waits_inv_nets: "waits_inv k \<Longrightarrow> net_waits k p = Some l \<Longrightarrow> set l \<subseteq> {..<length (nets k)}"
  unfolding waits_inv_def by blast

text \<open>The nets recorded for a process are in range, so clearing them never panics.\<close>

lemma clear_net_waiters_chk_Some: "waits_inv k \<Longrightarrow> clear_net_waiters_chk p k = Some (clear_net_waiters p k)"
  using waits_inv_nets [of k p]
  by (cases "net_waits k p") (simp_all add: clear_net_waiters_chk_def list_all_iff subset_eq)

text \<open>With the nets of the wait in range, \<open>arm\<close> panics on a \<open>Fork\<close> only.\<close>

lemma arm_returns:
  assumes "waits_inv k" and "wait_ok k wt" and "\<And>cs j. wt \<noteq> Fork cs j"
  shows "\<exists>k'. arm p wt k = Some k'"
  using assms(2,3)
  by (cases wt) (auto simp: arm_def clear_net_waiters_chk_Some [OF assms(1)] wait_ok_def list_all_iff Let_def case_prod_unfold)

lemma waits_inv_arm:
  assumes "waits_inv k" and "wait_ok k wt" and "arm p wt k = Some k'"
  shows "waits_inv k'"
proof -
  define e where "e = epoch_of (wait_epochs k) p + 1"
  define k1 where "k1 = (clear_net_waiters p k)\<lparr>wait_epochs := (wait_epochs k)(p \<mapsto> e)\<rparr>"
  have ar: "arming p e [] k1" unfolding k1_def by (rule arming_start [OF assms(1)])
  have len: "length (nets k1) = length (nets k)" by (simp add: k1_def)
  have inv1: "waits_inv k1" by (rule arming_nothing [OF ar])
  note arm = assms(3) [unfolded arm_def arm_clears [OF assms(3)] option.case Let_def clear_net_waiters_frame, folded e_def, folded k1_def]
  show ?thesis
  proof (cases wt)
    case Finished
    have "wproc w \<noteq> p" if "m < length (nets k1)" "w \<in> set (waiters (nets k1 ! m))" for m w
    proof -
      from ar that have "if wproc w = p then wepoch w = e \<and> m \<in> set [] else True"
        unfolding arming_def by meson
      then show ?thesis by (cases "wproc w = p") simp_all
    qed
    with Finished arm inv1 show ?thesis by (fastforce simp: waits_inv_def)
  next
    case (Edge n kind)
    have "arming p e [n] (add_waiter p e (n, kind) k1)"
      using assms(2) by (intro arming_add [OF ar]) (simp_all add: Edge wait_ok_def len)
    from arming_done [OF this] show ?thesis using arm Edge by (simp split: if_splits)
  next
    case (Sensitivity l)
    obtain k2 waited where f: "fold (\<lambda>ne (k, waited). (add_waiter p e ne k,
           if fst ne \<in> set waited then waited else waited @ [fst ne])) l (k1, []) = (k2, waited)" by fastforce
    have "arming p e waited k2"
      using assms(2) by (intro arming_sensitivity [OF ar _ f]) (simp add: Sensitivity wait_ok_def len)
    from arming_done [OF this] show ?thesis using arm Sensitivity f by (simp split: if_splits)
  next
    case (Cond l)
    obtain k2 waited where f: "fold (\<lambda>net (k, waited). (if net \<in> set waited then (k, waited)
           else (add_waiter p e (net, AnyChange) k, waited @ [net]))) l (k1, []) = (k2, waited)" by fastforce
    have "arming p e waited k2"
      using assms(2) by (intro arming_cond [OF ar _ f]) (simp add: Cond wait_ok_def len)
    from arming_done [OF this] show ?thesis using arm Cond f by (simp split: if_splits)
  qed (use arm inv1 in \<open>auto simp: push_timed_def intro: waits_inv_cong\<close>)
qed

section \<open>Properties\<close>

text \<open>
  C10. A net write wakes exactly the processes that wait for what it did. If the value changes, the
  active queue grows by the processes waiting on runtime state and then by those with a waiter on
  this net whose edge filter matches the transition, each once; if the value stays the same
  nothing is queued. A woken process is gone from the sensitivity lists of every net, so a second
  source of the same wait cannot wake it again, and the wait records stay consistent.
\<close>

theorem write_wakes:
  assumes "waits_inv k" and "net < length (nets k)" and "wf_lv (nvalue (nets k ! net))" and "wf_lv val"
  shows "\<exists>new. active (write_net net val k) =
      active k @ (if val \<noteq> nvalue (nets k ! net) then runtime_waiters k @ new else []) \<and>
    distinct new \<and>
    (\<forall>p. p \<in> set new \<longleftrightarrow> val \<noteq> nvalue (nets k ! net) \<and>
      (\<exists>w \<in> set (waiters (nets k ! net)). wproc w = p \<and> fires (detect_edge (nvalue (nets k ! net)) val) (wedge w))) \<and>
    (\<forall>m < length (nets k). \<forall>w \<in> set (waiters (nets (write_net net val k) ! m)). wproc w \<notin> set new) \<and>
    nvalue (nets (write_net net val k) ! net) = val \<and> waits_inv (write_net net val k)"
proof -
  note eff = write_net_effect [OF assms(1,2), where val = val]
  note wk = woken_by_spec [OF assms(1,2), of val]
  have ch: "changed (detect_edge (nvalue (nets k ! net)) val) \<longleftrightarrow> val \<noteq> nvalue (nets k ! net)"
    using changed_iff [OF assms(3,4)] by auto
  have "wproc w \<notin> set (woken_by net val k)"
    if "m < length (nets k)" "w \<in> set (waiters (nets (write_net net val k) ! m))" for m w
    using that(2) unfolding write_net_waiters [OF assms(1,2) that(1)] by blast
  moreover have "nvalue (nets (write_net net val k) ! net) = val"
    unfolding write_net_value [OF assms(1,2) assms(2)] by simp
  moreover have "active (write_net net val k) = active k @
      (if val \<noteq> nvalue (nets k ! net) then runtime_waiters k @ woken_by net val k else [])"
    unfolding eff(1) ch ..
  moreover have "p \<in> set (woken_by net val k) \<longleftrightarrow> val \<noteq> nvalue (nets k ! net) \<and>
      (\<exists>w \<in> set (waiters (nets k ! net)). wproc w = p \<and> fires (detect_edge (nvalue (nets k ! net)) val) (wedge w))" for p
    unfolding wk(2) Let_def ch mem_Collect_eq ..
  ultimately show ?thesis
    using wk(1) waits_inv_write_net [OF assms(1,2)] by blast
qed

text \<open>Two processes on one clock, one per edge.\<close>

definition two_waiters :: Kernel where
  "two_waiters =
     the (arm 7 (Edge 0 Negedge :: nat Wait) (the (arm 3 (Edge 0 Posedge :: nat Wait)
       (fst (new_net ''clk'' (zero 1) Wire None (new_kernel default_timescale))))))"

lemma two_waiters_inv: "waits_inv two_waiters" "nvalue (nets two_waiters ! 0) = zero 1" "length (nets two_waiters) = 1"
proof -
  define k0 where "k0 = fst (new_net ''clk'' (zero 1) Wire None (new_kernel default_timescale))"
  have k0: "waits_inv k0" "length (nets k0) = 1" "nvalue (nets k0 ! 0) = zero 1" "net_waits k0 = Map.empty"
    by (simp_all add: k0_def waits_inv_def new_net_def new_kernel_def net_with_resolution_def)
  obtain k1 where k1: "arm 3 (Edge 0 Posedge :: nat Wait) k0 = Some k1"
    using arm_returns [OF k0(1), of "Edge 0 Posedge :: nat Wait" 3] by (auto simp: wait_ok_def k0(2))
  have i1: "waits_inv k1" by (rule waits_inv_arm [OF k0(1) _ k1]) (simp add: wait_ok_def k0(2))
  have l1: "length (nets k1) = 1" "nvalue (nets k1 ! 0) = zero 1" "net_waits k1 7 = None"
    using k1 k0
    by (auto simp: arm_def clear_net_waiters_chk_def clear_net_waiters_def add_waiter_def upd_net_def nth_list_update Let_def split: if_splits)
  obtain k2 where k2: "arm 7 (Edge 0 Negedge :: nat Wait) k1 = Some k2"
    using arm_returns [OF i1, of "Edge 0 Negedge :: nat Wait" 7] by (auto simp: wait_ok_def l1(1))
  have "waits_inv k2" by (rule waits_inv_arm [OF i1 _ k2]) (simp add: wait_ok_def l1(1))
  moreover have "length (nets k2) = 1" "nvalue (nets k2 ! 0) = zero 1"
    using k2 l1
    by (auto simp: arm_def clear_net_waiters_chk_def clear_net_waiters_def add_waiter_def upd_net_def nth_list_update Let_def split: if_splits)
  moreover have "two_waiters = k2" by (simp only: two_waiters_def k0_def [symmetric] k1 k2 option.sel)
  ultimately show "waits_inv two_waiters" "nvalue (nets two_waiters ! 0) = zero 1" "length (nets two_waiters) = 1"
    by simp_all
qed

theorem write_wakes_witness:
  "\<exists>new. active (write_net 0 (from_u64 1 1) two_waiters) =
      active two_waiters @ (if from_u64 1 1 \<noteq> zero 1 then runtime_waiters two_waiters @ new else [])"
proof -
  have "wf_lv (zero 1)" "wf_lv (from_u64 1 1)" by (simp_all add: wf_intros)
  then show ?thesis
    using write_wakes [of two_waiters 0 "from_u64 1 1"] two_waiters_inv by auto
qed

end
