(* ===== verification/Kernel_Inv.thy ===== *)
theory Kernel_Inv
  imports Wakeups
begin

text \<open>
  The invariant of the kernel and its preservation by every method that changes it: every stored
  handle is in range and every stored value has the width of its net (\<open>shape_inv\<close>), the time wheel
  is ordered and holds nothing in the past (\<open>wheel_inv\<close>), and the wait records agree
  (\<open>waits_inv\<close>). The time wheel is used through the locale \<open>time_wheel\<close>.
\<close>

section \<open>The contract of the time wheel\<close>

locale time_wheel =
  fixes push :: "'e \<Rightarrow> 'q \<Rightarrow> 'q" and peek :: "'q \<Rightarrow> 'e option" and pop :: "'q \<Rightarrow> 'q"
    and elems :: "'q \<Rightarrow> 'e multiset" and ok :: "'q \<Rightarrow> bool" and key :: "'e \<Rightarrow> 'k::linorder"
  assumes ok_push: "ok q \<Longrightarrow> ok (push e q)"
    and elems_push: "ok q \<Longrightarrow> elems (push e q) = add_mset e (elems q)"
    and peek_None: "ok q \<Longrightarrow> peek q = None \<longleftrightarrow> elems q = {#}"
    and peek_in: "ok q \<Longrightarrow> peek q = Some e \<Longrightarrow> e \<in># elems q"
    and peek_min: "ok q \<Longrightarrow> peek q = Some e \<Longrightarrow> x \<in># elems q \<Longrightarrow> key e \<le> key x"
    and ok_pop: "ok q \<Longrightarrow> ok (pop q)"
    and elems_pop: "ok q \<Longrightarrow> peek q = Some e \<Longrightarrow> elems (pop q) = elems q - {#e#}"
begin

lemma pop_order:
  assumes "ok q" and "peek q = Some e" and "peek (pop q) = Some e'"
  shows "key e \<le> key e'"
proof -
  have "e' \<in># elems q"
    using peek_in [OF ok_pop [OF assms(1)] assms(3)] elems_pop [OF assms(1,2)] by (auto dest: in_diffD)
  then show ?thesis by (rule peek_min [OF assms(1,2)])
qed

text \<open>An event with a larger key does not overtake: the next one stays the next one.\<close>

lemma push_later:
  assumes "ok q" and "peek q = Some e" and "key e < key x"
  shows "\<exists>y. peek (push x q) = Some y \<and> y \<in># elems q \<and> key y = key e"
proof -
  obtain y where y: "peek (push x q) = Some y"
    using peek_None [OF ok_push [OF assms(1)], of x] elems_push [OF assms(1), of x] by fastforce
  have "key y \<le> key e" using peek_min [OF ok_push [OF assms(1)] y] peek_in [OF assms(1,2)]
    by (simp add: elems_push [OF assms(1)])
  moreover have "y \<in># elems q"
    using peek_in [OF ok_push [OF assms(1)] y] \<open>key y \<le> key e\<close> assms(3)
    by (auto simp: elems_push [OF assms(1)])
  ultimately show ?thesis using peek_min [OF assms(1,2)] y by (auto intro: order.antisym)
qed

text \<open>Equal times leave the wheel in the order in which they entered it.\<close>

lemma push_smaller:
  assumes "ok q" and "\<And>y. y \<in># elems q \<Longrightarrow> key x < key y"
  shows "peek (push x q) = Some x"
proof -
  obtain y where y: "peek (push x q) = Some y"
    using peek_None [OF ok_push [OF assms(1)], of x] elems_push [OF assms(1), of x] by fastforce
  have "key y \<le> key x" using peek_min [OF ok_push [OF assms(1)] y]
    by (simp add: elems_push [OF assms(1)])
  then show ?thesis using y peek_in [OF ok_push [OF assms(1)] y] assms(2)
    by (force simp: elems_push [OF assms(1)])
qed

end

definition wheel_sorted :: "TimedEvent list \<Rightarrow> bool" where
  "wheel_sorted w \<longleftrightarrow> sorted (map ev_key w)"

interpretation wheel: time_wheel wheel_push wheel_peek wheel_pop mset wheel_sorted ev_key
proof
  fix q :: "TimedEvent list" and e x
  assume ok: "wheel_sorted q"
  show "wheel_sorted (wheel_push e q)"
    using ok by (simp add: wheel_sorted_def wheel_push_def sorted_insort_key)
  show "mset (wheel_push e q) = add_mset e (mset q)" by simp
  show "wheel_peek q = None \<longleftrightarrow> mset q = {#}" by (cases q) simp_all
  show "wheel_sorted (wheel_pop q)" using ok by (cases q) (simp_all add: wheel_sorted_def)
  show "wheel_peek q = Some e \<Longrightarrow> e \<in># mset q" by (cases q) simp_all
  show "wheel_peek q = Some e \<Longrightarrow> x \<in># mset q \<Longrightarrow> ev_key e \<le> ev_key x"
    using ok by (cases q) (auto simp: wheel_sorted_def)
  show "wheel_peek q = Some e \<Longrightarrow> mset (wheel_pop q) = mset q - {#e#}" by (cases q) simp_all
qed

section \<open>The shape of the tables\<close>

definition net_ok :: "Net \<Rightarrow> bool" where
  "net_ok n \<longleftrightarrow> wf_lv (nvalue n) \<and> wf_lv (delay_request n) \<and> width (delay_request n) = width (nvalue n) \<and>
     length (delay_generations n) = width (nvalue n) \<and>
     length (driver_strengths n) = length (driver_values n) \<and>
     (\<forall>v \<in> set (driver_values n). wf_lv v \<and> width v = width (nvalue n))"

text \<open>The widths of the nets with the number of their drivers, and where each driver belongs.\<close>

type_synonym profile = "(nat \<times> nat) list \<times> (NetId \<times> nat) list"

definition profile_of :: "Kernel \<Rightarrow> profile" where
  "profile_of k = (map (\<lambda>n. (width (nvalue n), length (driver_values n))) (nets k),
     map (\<lambda>d. (dnet d, dslot d)) (drivers k))"

definition driver_width :: "profile \<Rightarrow> DriverId \<Rightarrow> nat" where
  "driver_width P d = fst (fst P ! fst (snd P ! d))"

definition driver_ok :: "profile \<Rightarrow> DriverId \<Rightarrow> bool" where
  "driver_ok P d \<longleftrightarrow> d < length (snd P) \<and> fst (snd P ! d) < length (fst P) \<and>
     snd (snd P ! d) < snd (fst P ! fst (snd P ! d))"

fun action_ok :: "profile \<Rightarrow> TimedAction \<Rightarrow> bool" where
  "action_ok P (Resume p) = True"
| "action_ok P (Drive d v g) = (driver_ok P d \<and> wf_lv v \<and> width v = driver_width P d)"
| "action_ok P (DriveBits d us) = (driver_ok P d \<and> (\<forall>u \<in> set us. bd_bit u < driver_width P d))"
| "action_ok P (NetBits n us) = (n < length (fst P) \<and> (\<forall>u \<in> set us. bd_bit u < fst (fst P ! n)))"

definition value_ok :: "profile \<Rightarrow> NetId \<Rightarrow> LogicVec \<Rightarrow> bool" where
  "value_ok P n v \<longleftrightarrow> n < length (fst P) \<and> wf_lv v \<and> width v = fst (fst P ! n)"

definition shape_inv :: "Kernel \<Rightarrow> bool" where
  "shape_inv k \<longleftrightarrow>
     (\<forall>n \<in> set (nets k). net_ok n) \<and>
     length (driver_requests k) = length (drivers k) \<and>
     length (driver_bit_generations k) = length (drivers k) \<and>
     (\<forall>d < length (drivers k). driver_ok (profile_of k) d \<and>
        wf_lv (driver_requests k ! d) \<and> width (driver_requests k ! d) = driver_width (profile_of k) d \<and>
        length (driver_bit_generations k ! d) = driver_width (profile_of k) d) \<and>
     (\<forall>ev \<in> set (timed k). action_ok (profile_of k) (ev_action ev)) \<and>
     (\<forall>(n, v) \<in> set (nba k). value_ok (profile_of k) n v)"

definition wheel_inv :: "Kernel \<Rightarrow> bool" where
  "wheel_inv k \<longleftrightarrow> wheel_sorted (timed k) \<and> time k \<le> u64_max \<and>
     (\<forall>ev \<in> set (timed k). time k \<le> ev_time ev \<and> ev_time ev \<le> u64_max \<and> ev_seq ev \<le> seq_no k) \<and>
     distinct (map ev_seq (timed k))"

definition kernel_ok :: "Kernel \<Rightarrow> bool" where
  "kernel_ok k \<longleftrightarrow> shape_inv k \<and> wheel_inv k \<and> waits_inv k"

lemma profile_simps:
  "length (fst (profile_of k)) = length (nets k)" "length (snd (profile_of k)) = length (drivers k)"
  "n < length (nets k) \<Longrightarrow> fst (profile_of k) ! n = (width (nvalue (nets k ! n)), length (driver_values (nets k ! n)))"
  "d < length (drivers k) \<Longrightarrow> snd (profile_of k) ! d = (dnet (drivers k ! d), dslot (drivers k ! d))"
  by (simp_all add: profile_of_def)

text \<open>The invariants read a kernel through these parts only.\<close>

lemma shape_inv_cong:
  assumes "shape_inv k" and "profile_of k' = profile_of k"
    and "\<And>n. n < length (nets k) \<Longrightarrow> net_ok (nets k' ! n)"
    and "driver_requests k' = driver_requests k" and "driver_bit_generations k' = driver_bit_generations k"
    and "\<And>ev. ev \<in> set (timed k') \<Longrightarrow> action_ok (profile_of k) (ev_action ev)"
    and "\<And>n v. (n, v) \<in> set (nba k') \<Longrightarrow> value_ok (profile_of k) n v"
  shows "shape_inv k'"
proof -
  have "length (nets k') = length (nets k)" "length (drivers k') = length (drivers k)"
    using assms(2) profile_simps(1,2) by metis+
  then show ?thesis
    using assms by (auto simp: shape_inv_def in_set_conv_nth)
qed

section \<open>Waiters do not matter for the shape\<close>

definition net_strip :: "Net \<Rightarrow> Net" where
  "net_strip n = n\<lparr>waiters := []\<rparr>"

lemma net_strip_simps [simp]:
  "nvalue (net_strip n) = nvalue n" "driver_values (net_strip n) = driver_values n"
  "net_strip (retain_others p n) = net_strip n" "net_strip (n\<lparr>waiters := ws\<rparr>) = net_strip n"
  "net_strip (net_strip n) = net_strip n" "net_ok (net_strip n) = net_ok n"
  by (simp_all add: net_strip_def retain_others_def net_ok_def)

lemma strip_upd_net:
  "n < length (nets k) \<Longrightarrow> map net_strip (nets (upd_net n f k)) = (map net_strip (nets k))[n := net_strip (f (nets k ! n))]"
  by (simp add: upd_net_def map_update)

lemma strip_fold_retain:
  "map net_strip (nets (fold (\<lambda>n. upd_net n (retain_others p)) l k)) = map net_strip (nets k)"
proof (induction l arbitrary: k)
  case (Cons n l)
  have "map net_strip (nets (upd_net n (retain_others p) k)) = map net_strip (nets k)"
  proof (cases "n < length (nets k)")
    case True
    then show ?thesis by (simp add: strip_upd_net list_update_same_conv)
  next
    case False
    then show ?thesis by (simp add: upd_net_def list_update_beyond)
  qed
  then show ?case by (simp add: Cons)
qed simp

lemma strip_clear: "map net_strip (nets (clear_net_waiters p k)) = map net_strip (nets k)"
  by (simp add: clear_net_waiters_def strip_fold_retain split: option.split)

lemma strip_fold_clear: "map net_strip (nets (fold clear_net_waiters ps k)) = map net_strip (nets k)"
  by (induction ps arbitrary: k) (simp_all add: strip_clear)

lemma strip_write:
  assumes "net < length (nets k)"
  shows "map net_strip (nets (write_net net val k)) =
    (map net_strip (nets k))[net := net_strip ((nets k ! net)\<lparr>nvalue := val\<rparr>)]"
proof -
  have s: "net_strip (n\<lparr>nvalue := v, waiters := ws\<rparr>) = net_strip (n\<lparr>nvalue := v\<rparr>)" for n v ws
    by (simp add: net_strip_def)
  show ?thesis
    using assms by (simp add: write_net_def strip_fold_clear strip_upd_net nets_upd_net s split: prod.split)
qed

lemma nth_strip: "map net_strip (nets k') = map net_strip ns \<Longrightarrow> n < length ns \<Longrightarrow> net_strip (nets k' ! n) = net_strip (ns ! n)"
  by (metis length_map nth_map)

lemma profile_strip: "profile_of k = (map (\<lambda>n. (width (nvalue n), length (driver_values n))) (map net_strip (nets k)),
     map (\<lambda>d. (dnet d, dslot d)) (drivers k))"
  by (simp add: profile_of_def comp_def)

lemma net_ok_strip: "(\<forall>n \<in> set (nets k). net_ok n) \<longleftrightarrow> (\<forall>n \<in> set (map net_strip (nets k)). net_ok n)"
  by simp

section \<open>Writing a net keeps the shape\<close>

lemma shape_invD:
  assumes "shape_inv k"
  shows "n < length (nets k) \<Longrightarrow> net_ok (nets k ! n)"
    and "length (driver_requests k) = length (drivers k)"
    and "length (driver_bit_generations k) = length (drivers k)"
    and "d < length (drivers k) \<Longrightarrow> driver_ok (profile_of k) d"
    and "d < length (drivers k) \<Longrightarrow> wf_lv (driver_requests k ! d)"
    and "d < length (drivers k) \<Longrightarrow> width (driver_requests k ! d) = driver_width (profile_of k) d"
    and "d < length (drivers k) \<Longrightarrow> length (driver_bit_generations k ! d) = driver_width (profile_of k) d"
    and "ev \<in> set (timed k) \<Longrightarrow> action_ok (profile_of k) (ev_action ev)"
    and "(n, v) \<in> set (nba k) \<Longrightarrow> value_ok (profile_of k) n v"
  using assms by (auto simp: shape_inv_def)

lemma strip_shape:
  assumes "shape_inv k" and "n < length (nets k)"
    and strip: "map net_strip (nets k') = (map net_strip (nets k))[n := net_strip m]"
    and "net_ok m" and "width (nvalue m) = width (nvalue (nets k ! n))"
    and "length (driver_values m) = length (driver_values (nets k ! n))"
    and "drivers k' = drivers k" and "driver_requests k' = driver_requests k"
    and "driver_bit_generations k' = driver_bit_generations k" and "timed k' = timed k" and "nba k' = nba k"
  shows "shape_inv k' \<and> profile_of k' = profile_of k"
proof -
  have "(map (\<lambda>n. (width (nvalue n), length (driver_values n))) (map net_strip (nets k)))[n := (width (nvalue m), length (driver_values m))]
      = map (\<lambda>n. (width (nvalue n), length (driver_values n))) (map net_strip (nets k))"
    using assms(2,5,6) by (simp add: list_update_same_conv)
  then have P: "profile_of k' = profile_of k"
    unfolding profile_strip [of k'] profile_strip [of k] strip assms(7) by (simp add: map_update)
  have "length (nets k') = length (nets k)" using strip by (metis length_list_update length_map)
  moreover have "net_ok (nets k' ! i)" if "i < length (nets k)" for i
  proof -
    have "net_strip (nets k' ! i) = (if i = n then net_strip m else net_strip (nets k ! i))"
      using that assms(2) strip \<open>length (nets k') = length (nets k)\<close>
      by (metis length_map nth_list_update nth_map)
    then show ?thesis
      using assms(4) shape_invD(1) [OF assms(1) that] net_strip_simps(6) by metis
  qed
  ultimately have "shape_inv k'"
    using assms P by (intro shape_inv_cong [OF assms(1)]) (auto simp: shape_invD(8,9))
  with P show ?thesis by simp
qed

lemma net_ok_width: "net_ok n \<Longrightarrow> 1 \<le> width (nvalue n) \<and> width (nvalue n) < 2 ^ 32"
  by (simp add: net_ok_def wf_lv_iff)

lemma shape_write_net:
  assumes "shape_inv k" and "value_ok (profile_of k) n v"
  shows "shape_inv (write_net n v k) \<and> profile_of (write_net n v k) = profile_of k"
proof -
  have n: "n < length (nets k)" and v: "wf_lv v" "width v = width (nvalue (nets k ! n))"
    using assms(2) by (auto simp: value_ok_def profile_simps)
  have "net_ok ((nets k ! n)\<lparr>nvalue := v\<rparr>)"
    using shape_invD(1) [OF assms(1) n] v by (simp add: net_ok_def)
  then show ?thesis
    using v by (intro strip_shape [OF assms(1) n strip_write [OF n]]) simp_all
qed

lemma shape_upd_net:
  assumes "shape_inv k" and "n < length (nets k)" and "net_ok (f (nets k ! n))"
    and "width (nvalue (f (nets k ! n))) = width (nvalue (nets k ! n))"
    and "length (driver_values (f (nets k ! n))) = length (driver_values (nets k ! n))"
  shows "shape_inv (upd_net n f k) \<and> profile_of (upd_net n f k) = profile_of k"
  using assms by (intro strip_shape [OF assms(1,2) strip_upd_net [OF assms(2)]]) simp_all

lemma shape_push:
  assumes "shape_inv k" and "action_ok (profile_of k) a"
  shows "shape_inv (push_timed_action t r a k) \<and> profile_of (push_timed_action t r a k) = profile_of k"
proof -
  have P: "profile_of (push_timed_action t r a k) = profile_of k" by (simp add: profile_of_def)
  have "shape_inv (push_timed_action t r a k)"
    using assms by (intro shape_inv_cong [OF assms(1) P]) (auto simp: shape_invD)
  with P show ?thesis by simp
qed

lemma shape_push_groups:
  assumes "shape_inv k" and "\<forall>g \<in> set gs. action_ok (profile_of k) (act (snd g))"
  shows "shape_inv (push_groups act gs k) \<and> profile_of (push_groups act gs k) = profile_of k"
  using assms
proof (induction gs arbitrary: k)
  case (Cons g gs)
  obtain d us where g: "g = (d, us)" by fastforce
  have "action_ok (profile_of k) (act us)" using Cons.prems(2) by (simp add: g)
  note sp = shape_push [OF Cons.prems(1) this, of "saturating_add_fs (time k) d" Active]
  show ?case
    using Cons.IH [OF conjunct1 [OF sp]] Cons.prems(2) sp by (simp add: g)
qed simp

section \<open>The loop over the bits of a delayed value\<close>

definition delayed_ok :: "nat \<Rightarrow> (nat \<times> BitDrive list) list \<Rightarrow> bool" where
  "delayed_ok w gs \<longleftrightarrow> (\<forall>(d, us) \<in> set gs. 0 < d \<and> (\<forall>u \<in> set us. bd_bit u < w))"

definition bit_loop_ok :: "nat \<Rightarrow> BitLoop \<Rightarrow> bool" where
  "bit_loop_ok w s \<longleftrightarrow> length (bl_generations s) = w \<and> wf_lv (bl_immediate s) \<and> width (bl_immediate s) = w \<and>
     delayed_ok w (bl_delayed s)"

lemma delayed_okD: "delayed_ok w gs \<Longrightarrow> (d, us) \<in> set gs \<Longrightarrow> 0 < d \<and> (\<forall>u \<in> set us. bd_bit u < w)"
  by (auto simp: delayed_ok_def)

lemma add_delayed_ok:
  "delayed_ok w gs \<Longrightarrow> 0 < d \<Longrightarrow> bd_bit u < w \<Longrightarrow> delayed_ok w (add_delayed d u gs)"
  by (induction d u gs rule: add_delayed.induct) (auto simp: delayed_ok_def)

lemma transition_bit_ok:
  "bit_loop_ok w s \<Longrightarrow> b < w \<Longrightarrow> bit_loop_ok w (transition_bit previous current val delays b s)"
  unfolding transition_bit_def Let_def bit_loop_ok_def by (auto intro!: add_delayed_ok)

lemma transition_loop_ok:
  assumes "wf_lv current" and "width current = w" and "length gens = w"
  shows "bit_loop_ok w (transition_loop previous current val delays w gens)"
proof -
  have step: "bit_loop_ok w (fold (transition_bit previous current val delays) bs s)"
    if "bit_loop_ok w s" "set bs \<subseteq> {..<w}" for bs s
    using that by (induction bs arbitrary: s) (auto intro: transition_bit_ok)
  have "bit_loop_ok w
      \<lparr>bl_generations = gens, bl_immediate = current, bl_has_immediate = False, bl_delayed = []\<rparr>"
    using assms by (simp add: bit_loop_ok_def delayed_ok_def)
  then show ?thesis
    unfolding transition_loop_def by (rule step) auto
qed

section \<open>Resolution and driving keep the shape\<close>

lemma shape_apply_resolved:
  assumes "shape_inv k" and "value_ok (profile_of k) n v"
  shows "shape_inv (apply_resolved_net n v k) \<and> profile_of (apply_resolved_net n v k) = profile_of k"
proof (cases "ndelay (nets k ! n)")
  case None
  then show ?thesis using shape_write_net [OF assms] by (simp add: apply_resolved_net_def)
next
  case (Some delays)
  have n: "n < length (nets k)" and v: "wf_lv v" "width v = width (nvalue (nets k ! n))"
    using assms(2) by (auto simp: value_ok_def profile_simps)
  let ?w = "width (nvalue (nets k ! n))" and ?cur = "nvalue (nets k ! n)"
  have ok: "net_ok (nets k ! n)" by (rule shape_invD(1) [OF assms(1) n])
  have rs: "resize v ?w False = v" using resize_same [of v False] v(2) by simp
  show ?thesis
  proof (cases "eq_case (delay_request (nets k ! n)) v")
    case True
    with assms(1) Some rs show ?thesis by (simp add: apply_resolved_net_def)
  next
    case False
    define s where "s = transition_loop (delay_request (nets k ! n)) ?cur v delays ?w (delay_generations (nets k ! n))"
    have sok: "bit_loop_ok ?w s"
      unfolding s_def using ok by (intro transition_loop_ok) (simp_all add: net_ok_def)
    define k1 where "k1 = upd_net n (\<lambda>m. m\<lparr>delay_request := v\<rparr>) k"
    have k1: "shape_inv k1 \<and> profile_of k1 = profile_of k"
      unfolding k1_def using ok v by (intro shape_upd_net [OF assms(1) n]) (simp_all add: net_ok_def)
    define k2 where "k2 = upd_net n (\<lambda>m. m\<lparr>delay_generations := bl_generations s\<rparr>) k1"
    have "net_ok (nets k1 ! n)" "n < length (nets k1)"
      using k1 n shape_invD(1) [of k1 n] by (simp_all add: k1_def)
    then have k2: "shape_inv k2 \<and> profile_of k2 = profile_of k"
      unfolding k2_def using k1 sok shape_upd_net [of k1 n "\<lambda>m. m\<lparr>delay_generations := bl_generations s\<rparr>"]
      by (simp add: net_ok_def bit_loop_ok_def k1_def nets_upd_net)
    define k3 where "k3 = (if bl_has_immediate s then write_net n (bl_immediate s) k2 else k2)"
    have "value_ok (profile_of k2) n (bl_immediate s)"
      using k2 sok n by (simp add: value_ok_def profile_simps bit_loop_ok_def)
    then have k3: "shape_inv k3 \<and> profile_of k3 = profile_of k"
      unfolding k3_def using k2 shape_write_net [of k2 n "bl_immediate s"] by simp
    have "\<forall>g \<in> set (bl_delayed s). action_ok (profile_of k3) (NetBits n (snd g))"
      using sok k3 n by (auto simp: bit_loop_ok_def profile_simps dest: delayed_okD)
    then have k4: "shape_inv (push_groups (NetBits n) (bl_delayed s) k3) \<and>
        profile_of (push_groups (NetBits n) (bl_delayed s) k3) = profile_of k"
      using shape_push_groups [of k3 "bl_delayed s" "NetBits n"] k3 by simp
    have "apply_resolved_net n v k = push_groups (NetBits n) (bl_delayed s) k3"
      using Some False n by (simp add: apply_resolved_net_def rs k3_def k2_def k1_def s_def nets_upd_net)
    with k4 show ?thesis by simp
  qed
qed

lemma shape_apply_drive:
  assumes "shape_inv k" and "d < length (drivers k)" and "wf_lv v" and "width v = driver_width (profile_of k) d"
  shows "shape_inv (apply_drive d v k) \<and> profile_of (apply_drive d v k) = profile_of k"
proof -
  let ?n = "dnet (drivers k ! d)"
  have n: "?n < length (nets k)" and w: "width v = width (nvalue (nets k ! ?n))"
    using shape_invD(4) [OF assms(1,2)] assms(2,4) by (auto simp: driver_ok_def driver_width_def profile_simps)
  have ok: "net_ok (nets k ! ?n)" by (rule shape_invD(1) [OF assms(1) n])
  have rs: "resize v (width (nvalue (nets k ! ?n))) False = v" using resize_same [of v False] w by simp
  define k1 where "k1 = upd_net ?n (\<lambda>m. m\<lparr>driver_values := (driver_values m)[dslot (drivers k ! d) := v]\<rparr>) k"
  have k1: "shape_inv k1 \<and> profile_of k1 = profile_of k"
    unfolding k1_def using ok w assms(3)
    by (intro shape_upd_net [OF assms(1) n]) (auto simp: net_ok_def dest!: set_update_subset_insert [THEN subsetD])
  let ?r = "resolve_drivers (driver_values (nets k1 ! ?n)) (driver_strengths (nets k1 ! ?n))
    (width (nvalue (nets k ! ?n))) (nresolution (nets k1 ! ?n))"
  have "value_ok (profile_of k1) ?n ?r"
    using k1 n net_ok_width [OF ok] by (simp add: value_ok_def profile_simps)
  moreover have "apply_drive d v k = apply_resolved_net ?n ?r k1"
    by (simp add: apply_drive_def rs k1_def)
  ultimately show ?thesis
    using shape_apply_resolved [of k1 ?n ?r] k1 by simp
qed

section \<open>The wheel and the wait records\<close>

lemma wheel_inv_cong:
  "wheel_inv k \<Longrightarrow> timed k' = timed k \<Longrightarrow> time k' = time k \<Longrightarrow> seq_no k' = seq_no k \<Longrightarrow> wheel_inv k'"
  by (simp add: wheel_inv_def)

lemma wheel_inv_push:
  assumes "wheel_inv k" and "time k \<le> t" and "t \<le> u64_max"
  shows "wheel_inv (push_timed_action t r a k)"
proof -
  let ?e = "\<lparr>ev_time = t, ev_region = r, ev_seq = Suc (seq_no k), ev_action = a\<rparr>"
  have "mset (map ev_seq (wheel_push ?e (timed k))) = mset (map ev_seq (?e # timed k))"
    by simp
  then have "distinct (map ev_seq (wheel_push ?e (timed k))) \<longleftrightarrow> distinct (map ev_seq (?e # timed k))"
    by (rule mset_eq_imp_distinct_iff)
  moreover have "Suc (seq_no k) \<notin> ev_seq ` set (timed k)"
    using assms(1) by (auto simp: wheel_inv_def)
  ultimately have "distinct (map ev_seq (wheel_push ?e (timed k)))"
    using assms(1) by (simp add: wheel_inv_def)
  then show ?thesis
    using assms wheel.ok_push by (auto simp: wheel_inv_def le_SucI)
qed

lemma saturating_add_range:
  "t \<le> u64_max \<Longrightarrow> t \<le> saturating_add_fs t d \<and> saturating_add_fs t d \<le> u64_max"
  by (simp add: saturating_add_ge saturating_add_max)

lemma wheel_inv_push_groups: "wheel_inv k \<Longrightarrow> wheel_inv (push_groups act gs k)"
proof (induction gs arbitrary: k)
  case (Cons g gs)
  have "time k \<le> u64_max" using Cons.prems by (simp add: wheel_inv_def)
  then have "wheel_inv (push_timed_action (saturating_add_fs (time k) (fst g)) Active (act (snd g)) k)"
    using wheel_inv_push [OF Cons.prems] saturating_add_range by blast
  from Cons.IH [OF this] show ?case by (simp add: case_prod_unfold)
qed simp

lemma waits_inv_upd:
  assumes "waits_inv k" and "\<And>n. waiters (f n) = waiters n"
  shows "waits_inv (upd_net n f k)"
  using assms by (intro waits_inv_cong [OF assms(1)]) (auto simp: nets_upd_net)

lemma waits_inv_push_groups: "waits_inv k \<Longrightarrow> waits_inv (push_groups act gs k)"
  by (rule waits_inv_cong) simp_all

section \<open>Every operation keeps the invariant\<close>

lemma kernel_okD: "kernel_ok k \<Longrightarrow> shape_inv k" "kernel_ok k \<Longrightarrow> wheel_inv k" "kernel_ok k \<Longrightarrow> waits_inv k"
  by (simp_all add: kernel_ok_def)

text \<open>What an operation that runs in the middle of a slot keeps.\<close>

definition keeps :: "Kernel \<Rightarrow> Kernel \<Rightarrow> bool" where
  "keeps k k' \<longleftrightarrow> kernel_ok k' \<and> profile_of k' = profile_of k \<and> time k' = time k"

lemma keeps_refl: "kernel_ok k \<Longrightarrow> keeps k k"
  by (simp add: keeps_def)

lemma keeps_trans: "keeps k k' \<Longrightarrow> keeps k' k'' \<Longrightarrow> keeps k k''"
  by (simp add: keeps_def)

lemma keeps_ok: "keeps k k' \<Longrightarrow> kernel_ok k'"
  by (simp add: keeps_def)

lemma keeps_profile: "keeps k k' \<Longrightarrow> profile_of k' = profile_of k"
  by (simp add: keeps_def)

lemma keeps_len: "keeps k k' \<Longrightarrow> length (nets k') = length (nets k) \<and> length (drivers k') = length (drivers k)"
  unfolding keeps_def by (metis profile_simps(1,2))

lemma write_net_keeps:
  assumes "kernel_ok k" and "value_ok (profile_of k) n v"
  shows "keeps k (write_net n v k)"
proof -
  have "n < length (nets k)" using assms(2) by (simp add: value_ok_def profile_simps)
  then show ?thesis
    using assms shape_write_net [of k n v] waits_inv_write_net [of k n v]
    by (auto simp: keeps_def kernel_ok_def intro: wheel_inv_cong)
qed

lemma apply_resolved_keeps:
  assumes "kernel_ok k" and "value_ok (profile_of k) n v"
  shows "keeps k (apply_resolved_net n v k)"
proof -
  have n: "n < length (nets k)" using assms(2) by (simp add: value_ok_def profile_simps)
  have "waits_inv (apply_resolved_net n v k)"
    using kernel_okD(3) [OF assms(1)] n
    by (auto simp: apply_resolved_net_def intro!: waits_inv_push_groups waits_inv_upd waits_inv_write_net
        split: option.split)
  moreover have "wheel_inv (apply_resolved_net n v k)"
    using kernel_okD(2) [OF assms(1)]
    by (auto simp: apply_resolved_net_def intro!: wheel_inv_push_groups elim!: wheel_inv_cong split: option.split)
  moreover have "time (apply_resolved_net n v k) = time k"
    by (simp add: apply_resolved_net_def split: option.split)
  ultimately show ?thesis
    using shape_apply_resolved [OF kernel_okD(1) [OF assms(1)] assms(2)] by (simp add: keeps_def kernel_ok_def)
qed

lemma driver_net:
  assumes "kernel_ok k" and "d < length (drivers k)"
  shows "dnet (drivers k ! d) < length (nets k)"
    and "driver_width (profile_of k) d = width (nvalue (nets k ! dnet (drivers k ! d)))"
    and "dslot (drivers k ! d) < length (driver_values (nets k ! dnet (drivers k ! d)))"
proof -
  have "driver_ok (profile_of k) d" by (rule shape_invD(4) [OF kernel_okD(1) [OF assms(1)] assms(2)])
  then show n: "dnet (drivers k ! d) < length (nets k)"
    using assms(2) by (simp add: driver_ok_def profile_simps)
  show "driver_width (profile_of k) d = width (nvalue (nets k ! dnet (drivers k ! d)))"
    using assms(2) n by (simp add: driver_width_def profile_simps)
  show "dslot (drivers k ! d) < length (driver_values (nets k ! dnet (drivers k ! d)))"
    using \<open>driver_ok (profile_of k) d\<close> assms(2) n by (simp add: driver_ok_def profile_simps)
qed

lemma apply_drive_keeps:
  assumes "kernel_ok k" and "d < length (drivers k)" and "wf_lv v" and "width v = driver_width (profile_of k) d"
  shows "keeps k (apply_drive d v k)"
proof -
  let ?n = "dnet (drivers k ! d)"
  let ?f = "\<lambda>n. n\<lparr>driver_values := (driver_values n)[dslot (drivers k ! d) := resize v (width (nvalue (nets k ! ?n))) False]\<rparr>"
  have n: "?n < length (nets k)" by (rule driver_net [OF assms(1,2)])
  obtain r where e: "apply_drive d v k = apply_resolved_net ?n r (upd_net ?n ?f k)"
    by (auto simp: apply_drive_def)
  have w: "waits_inv (upd_net ?n ?f k)" by (rule waits_inv_upd [OF kernel_okD(3) [OF assms(1)]]) simp
  have "waits_inv (apply_drive d v k)" unfolding e
    using w n by (auto simp: apply_resolved_net_def intro!: waits_inv_push_groups waits_inv_upd waits_inv_write_net
        split: option.split)
  moreover have "wheel_inv (apply_drive d v k)" unfolding e
    using kernel_okD(2) [OF assms(1)]
    by (auto simp: apply_resolved_net_def intro!: wheel_inv_push_groups elim!: wheel_inv_cong split: option.split)
  moreover have "time (apply_drive d v k) = time k" unfolding e
    by (simp add: apply_resolved_net_def split: option.split)
  ultimately show ?thesis
    using shape_apply_drive [OF kernel_okD(1) [OF assms(1)] assms(2-4)] by (simp add: keeps_def kernel_ok_def)
qed

text \<open>Changes to fields the invariants do not read.\<close>

lemma kernel_ok_cong:
  assumes "kernel_ok k" and "nets k' = nets k" and "drivers k' = drivers k"
    and "driver_requests k' = driver_requests k" and "driver_bit_generations k' = driver_bit_generations k"
    and "timed k' = timed k" and "time k' = time k" and "seq_no k' = seq_no k"
    and "wait_epochs k' = wait_epochs k" and "net_waits k' = net_waits k" and "set (nba k') \<subseteq> set (nba k)"
  shows "keeps k k'"
proof -
  have P: "profile_of k' = profile_of k" using assms by (simp add: profile_of_def)
  have "shape_inv k'"
    using assms P shape_invD(9) [OF kernel_okD(1) [OF assms(1)]]
    by (intro shape_inv_cong [OF kernel_okD(1) [OF assms(1)] P]) (auto simp: shape_invD kernel_okD)
  then show ?thesis
    using assms P by (auto simp: keeps_def kernel_ok_def intro: wheel_inv_cong waits_inv_cong)
qed

lemma simple_ops_keep:
  assumes "kernel_ok k"
  shows "keeps k (display line k)" "keeps k (set_echo b k)" "keeps k (request_stop k)"
    "keeps k (notify_runtime_change k)" "keeps k (trigger_event ev k)" "keeps k (notify_finished p k)"
  by (auto simp: display_def set_echo_def request_stop_def notify_runtime_change_def trigger_event_def
      notify_finished_def intro!: kernel_ok_cong [OF assms] keeps_refl [OF assms] split: option.split prod.split)

section \<open>Scheduling drives\<close>

lemma shape_requests:
  assumes "shape_inv k" and "d < length (drivers k)" and "wf_lv v" and "width v = driver_width (profile_of k) d"
    and "length g = driver_width (profile_of k) d"
    and "nets k' = nets k" and "map (\<lambda>d. (dnet d, dslot d)) (drivers k') = map (\<lambda>d. (dnet d, dslot d)) (drivers k)"
    and "driver_requests k' = (driver_requests k)[d := v]"
    and "driver_bit_generations k' = (driver_bit_generations k)[d := g]"
    and "timed k' = timed k" and "nba k' = nba k"
  shows "shape_inv k' \<and> profile_of k' = profile_of k"
proof -
  have P: "profile_of k' = profile_of k" using assms by (simp add: profile_of_def)
  have "length (drivers k') = length (drivers k)" using assms(7) map_eq_imp_length_eq by blast
  then show ?thesis
    using assms P by (auto simp: shape_inv_def nth_list_update)
qed

lemma requests_keep:
  assumes "kernel_ok k" and "d < length (drivers k)" and "wf_lv v" and "width v = driver_width (profile_of k) d"
    and "length g = driver_width (profile_of k) d"
    and "nets k' = nets k" and "map (\<lambda>d. (dnet d, dslot d)) (drivers k') = map (\<lambda>d. (dnet d, dslot d)) (drivers k)"
    and "driver_requests k' = (driver_requests k)[d := v]"
    and "driver_bit_generations k' = (driver_bit_generations k)[d := g]"
    and "timed k' = timed k" and "nba k' = nba k" and "time k' = time k" and "seq_no k' = seq_no k"
    and "wait_epochs k' = wait_epochs k" and "net_waits k' = net_waits k"
  shows "keeps k k'"
  using shape_requests [OF kernel_okD(1) [OF assms(1)] assms(2-11)] assms
  by (auto simp: keeps_def kernel_ok_def intro: wheel_inv_cong waits_inv_cong)

lemma push_keeps:
  assumes "kernel_ok k" and "action_ok (profile_of k) a" and "time k \<le> t" and "t \<le> u64_max"
  shows "keeps k (push_timed_action t r a k)"
proof -
  have "waits_inv (push_timed_action t r a k)" by (rule waits_inv_cong [OF kernel_okD(3) [OF assms(1)]]) simp_all
  then show ?thesis
    using shape_push [OF kernel_okD(1) [OF assms(1)] assms(2)] wheel_inv_push [OF kernel_okD(2) [OF assms(1)] assms(3,4)]
    by (simp add: keeps_def kernel_ok_def)
qed

lemma push_groups_keeps:
  assumes "kernel_ok k" and "\<forall>g \<in> set gs. action_ok (profile_of k) (act (snd g))"
  shows "keeps k (push_groups act gs k)"
  using shape_push_groups [OF kernel_okD(1) [OF assms(1)] assms(2)]
    wheel_inv_push_groups [OF kernel_okD(2) [OF assms(1)]] waits_inv_push_groups [OF kernel_okD(3) [OF assms(1)]]
  by (simp add: keeps_def kernel_ok_def)

lemma time_ok: "kernel_ok k \<Longrightarrow> time k \<le> saturating_add_fs (time k) d \<and> saturating_add_fs (time k) d \<le> u64_max"
  by (rule saturating_add_range) (simp add: kernel_ok_def wheel_inv_def)

lemma driver_targets:
  "map (\<lambda>d. (dnet d, dslot d)) ((drivers k)[d := (drivers k ! d)\<lparr>dgeneration := g\<rparr>]) =
    map (\<lambda>d. (dnet d, dslot d)) (drivers k)"
  by (cases "d < length (drivers k)") (simp_all add: map_update list_update_same_conv list_update_beyond)

lemma request_range:
  assumes "kernel_ok k" and "d < length (drivers k)" and "wf_lv v"
  shows "wf_lv (resize v (width (nvalue (nets k ! dnet (drivers k ! d)))) False)"
    and "width (resize v (width (nvalue (nets k ! dnet (drivers k ! d)))) False) = driver_width (profile_of k) d"
    and "length (driver_bit_generations k ! d) = driver_width (profile_of k) d"
  using driver_net [OF assms(1,2)] assms net_ok_width shape_invD(1,7) [OF kernel_okD(1) [OF assms(1)]]
  by simp_all

lemma bump_requests_keep:
  assumes "kernel_ok k" and "d < length (drivers k)" and "wf_lv v" and "width v = driver_width (profile_of k) d"
  shows "keeps k ((bump_generations d k)\<lparr>driver_requests := (driver_requests k)[d := v]\<rparr>)"
    and "keeps k (bump_generations d (k\<lparr>driver_requests := (driver_requests k)[d := v]\<rparr>))"
  using shape_invD(7) [OF kernel_okD(1) [OF assms(1)] assms(2)]
  by (intro requests_keep [OF assms, of "map (\<lambda>g. g + 1) (driver_bit_generations k ! d)"];
      simp add: bump_generations_def driver_targets)+

lemma drive_net_keeps:
  assumes "kernel_ok k" and "d < length (drivers k)" and "wf_lv v"
  shows "keeps k (drive_net d v k)"
proof -
  let ?v = "resize v (width (nvalue (nets k ! dnet (drivers k ! d)))) False"
  let ?k = "(bump_generations d k)\<lparr>driver_requests := (driver_requests k)[d := ?v]\<rparr>"
  note r = request_range [OF assms]
  have k: "keeps k ?k" by (rule bump_requests_keep [OF assms(1,2) r(1,2)])
  have "keeps ?k (apply_drive d ?v ?k)"
    using k r assms(2) keeps_len [OF k] keeps_profile [OF k]
    by (intro apply_drive_keeps) (simp_all add: keeps_ok)
  moreover have "drive_net d v k = apply_drive d ?v ?k"
    by (simp add: drive_net_def bump_generations_def)
  ultimately show ?thesis using keeps_trans [OF k] by simp
qed

lemma schedule_drive_keeps:
  assumes "kernel_ok k" and "d < length (drivers k)" and "wf_lv v"
  shows "keeps k (schedule_drive d v delay_fs k)"
proof -
  let ?v = "resize v (width (nvalue (nets k ! dnet (drivers k ! d)))) False"
  let ?k = "bump_generations d (k\<lparr>driver_requests := (driver_requests k)[d := ?v]\<rparr>)"
  note r = request_range [OF assms]
  have k: "keeps k ?k" by (rule bump_requests_keep [OF assms(1,2) r(1,2)])
  note kl = keeps_len [OF k] keeps_profile [OF k] keeps_ok [OF k]
  have drv: "driver_ok (profile_of k) d" by (rule shape_invD(4) [OF kernel_okD(1) [OF assms(1)] assms(2)])
  have a: "keeps ?k (apply_drive d ?v ?k)"
    using kl r assms(2) by (intro apply_drive_keeps) simp_all
  have p: "keeps ?k (push_timed_action (saturating_add_fs (time ?k) delay_fs) Active
      (Drive d ?v (dgeneration (drivers ?k ! d))) ?k)"
    using kl r drv time_ok [OF kl(3)] by (intro push_keeps) simp_all
  show ?thesis
    using assms(1) k keeps_trans [OF k a] keeps_trans [OF k p]
    by (simp add: schedule_drive_def Let_def keeps_refl bump_generations_def)
qed

lemma schedule_drive_transitions_keeps:
  assumes "kernel_ok k" and "d < length (drivers k)" and "wf_lv v"
  shows "keeps k (schedule_drive_transitions d v delays k)"
proof -
  let ?n = "dnet (drivers k ! d)"
  let ?w = "width (nvalue (nets k ! ?n))"
  let ?v = "resize v ?w False" and ?cur = "driver_values (nets k ! ?n) ! dslot (drivers k ! d)"
  note r = request_range [OF assms] and dn = driver_net [OF assms(1,2)]
  define s where "s = transition_loop (driver_requests k ! d) ?cur ?v delays ?w (driver_bit_generations k ! d)"
  have "net_ok (nets k ! ?n)" by (rule shape_invD(1) [OF kernel_okD(1) [OF assms(1)] dn(1)])
  then have "wf_lv ?cur \<and> width ?cur = ?w" using dn(3) by (simp add: net_ok_def)
  then have sok: "bit_loop_ok ?w s"
    unfolding s_def using r(3) dn(2) by (intro transition_loop_ok) simp_all
  define k1 where "k1 = k\<lparr>driver_requests := (driver_requests k)[d := ?v],
    drivers := (drivers k)[d := (drivers k ! d)\<lparr>dgeneration := dgeneration (drivers k ! d) + 1\<rparr>],
    driver_bit_generations := (driver_bit_generations k)[d := bl_generations s]\<rparr>"
  have k1: "keeps k k1"
    using sok dn(2) unfolding k1_def
    by (intro requests_keep [OF assms(1,2) r(1,2), of "bl_generations s"]) (simp_all add: bit_loop_ok_def driver_targets)
  note kl = keeps_len [OF k1] keeps_profile [OF k1] keeps_ok [OF k1]
  define k2 where "k2 = (if bl_has_immediate s then apply_drive d (bl_immediate s) k1 else k1)"
  have k2: "keeps k k2"
    using k1 keeps_trans [OF k1 apply_drive_keeps [OF kl(3), of d "bl_immediate s"]] kl assms(2) sok dn(2)
    by (simp add: k2_def bit_loop_ok_def)
  have drv: "driver_ok (profile_of k) d" by (rule shape_invD(4) [OF kernel_okD(1) [OF assms(1)] assms(2)])
  have "\<forall>g \<in> set (bl_delayed s). action_ok (profile_of k2) (DriveBits d (snd g))"
    using sok drv dn(2) keeps_profile [OF k2] by (auto simp: bit_loop_ok_def dest: delayed_okD)
  then have k3: "keeps k2 (push_groups (DriveBits d) (bl_delayed s) k2)"
    by (rule push_groups_keeps [OF keeps_ok [OF k2]])
  have "schedule_drive_transitions d v delays k =
      (if eq_case (driver_requests k ! d) ?v then k else push_groups (DriveBits d) (bl_delayed s) k2)"
    by (simp add: schedule_drive_transitions_def k2_def k1_def s_def)
  then show ?thesis using keeps_trans [OF k2 k3] keeps_refl [OF assms(1)] by simp
qed

section \<open>Non-blocking updates, parking, and the end of a slot\<close>

lemma schedule_nba_keeps:
  assumes "kernel_ok k" and "value_ok (profile_of k) n v"
  shows "keeps k (schedule_nba n v k)"
proof -
  have P: "profile_of (schedule_nba n v k) = profile_of k" by (simp add: schedule_nba_def profile_of_def)
  have "shape_inv (schedule_nba n v k)"
    using assms kernel_okD(1) [OF assms(1)] P
    by (intro shape_inv_cong [OF kernel_okD(1) [OF assms(1)] P]) (auto simp: shape_invD schedule_nba_def)
  then show ?thesis
    using P kernel_okD(2,3) [OF assms(1)]
    by (auto simp: keeps_def kernel_ok_def schedule_nba_def intro: wheel_inv_cong waits_inv_cong)
qed

lemma drain_nba_keeps:
  assumes "kernel_ok k"
  shows "keeps k (drain_nba k)"
proof -
  let ?step = "\<lambda>(net, val) k. write_net net val (k\<lparr>stats := (stats k)\<lparr>nba_applies := nba_applies (stats k) + 1\<rparr>\<rparr>)"
  have loop: "keeps k (fold ?step l k)" if "kernel_ok k" "\<forall>(n, v) \<in> set l. value_ok (profile_of k) n v" for l k
    using that
  proof (induction l arbitrary: k)
    case (Cons nv l)
    obtain n v where nv: "nv = (n, v)" by fastforce
    let ?k = "k\<lparr>stats := (stats k)\<lparr>nba_applies := nba_applies (stats k) + 1\<rparr>\<rparr>"
    have k1: "keeps k ?k" by (rule kernel_ok_cong [OF Cons.prems(1)]) simp_all
    have k2: "keeps k (write_net n v ?k)"
      using Cons.prems(2) keeps_profile [OF k1]
      by (intro keeps_trans [OF k1] write_net_keeps [OF keeps_ok [OF k1]]) (simp add: nv)
    have "keeps (write_net n v ?k) (fold ?step l (write_net n v ?k))"
      using Cons.prems(2) keeps_profile [OF k2] by (intro Cons.IH [OF keeps_ok [OF k2]]) (auto simp: nv)
    then show ?case using keeps_trans [OF k2] by (simp add: nv)
  qed (simp add: keeps_refl)
  let ?k1 = "k\<lparr>nba := []\<rparr>"
  have k1: "keeps k ?k1" by (rule kernel_ok_cong [OF assms]) simp_all
  have "\<forall>(n, v) \<in> set (nba k). value_ok (profile_of ?k1) n v"
    using shape_invD(9) [OF kernel_okD(1) [OF assms]] keeps_profile [OF k1] by auto
  then have k2: "keeps k (fold ?step (nba k) ?k1)"
    by (intro keeps_trans [OF k1] loop keeps_ok [OF k1])
  show ?thesis
    unfolding drain_nba_def Let_def
    by (rule keeps_trans [OF k2], rule kernel_ok_cong [OF keeps_ok [OF k2]]) simp_all
qed

lemma strip_add_waiter: "map net_strip (nets (add_waiter p e ne k)) = map net_strip (nets k)"
proof (cases "fst ne < length (nets k)")
  case True
  then show ?thesis unfolding add_waiter_def by (simp add: strip_upd_net list_update_same_conv)
next
  case False
  then show ?thesis by (simp add: add_waiter_def upd_net_def list_update_beyond)
qed

text \<open>Two kernels that agree on everything but the wait records and the wheel.\<close>

definition same_tables :: "Kernel \<Rightarrow> Kernel \<Rightarrow> bool" where
  "same_tables k k' \<longleftrightarrow> map net_strip (nets k') = map net_strip (nets k) \<and> drivers k' = drivers k \<and>
     driver_requests k' = driver_requests k \<and> driver_bit_generations k' = driver_bit_generations k \<and>
     nba k' = nba k \<and> time k' = time k \<and> seq_no k' = seq_no k \<and> timed k' = timed k"

lemma same_tables_add: "same_tables k k' \<Longrightarrow> same_tables k (add_waiter p e ne k')"
  by (simp add: same_tables_def strip_add_waiter) (simp add: add_waiter_def)

lemma same_tables_keeps:
  assumes "kernel_ok k" and "same_tables k k'" and "waits_inv k'"
  shows "keeps k k'"
proof -
  have P: "profile_of k' = profile_of k"
    using assms(2) by (simp add: profile_strip same_tables_def)
  have len: "length (nets k') = length (nets k)" using assms(2) unfolding same_tables_def by (metis length_map)
  have "net_ok (nets k' ! n)" if "n < length (nets k)" for n
    using shape_invD(1) [OF kernel_okD(1) [OF assms(1)] that] assms(2) that nth_strip [of k' "nets k" n] net_strip_simps(6)
    unfolding same_tables_def by metis
  then have "shape_inv k'"
    using assms(2) P shape_invD [OF kernel_okD(1) [OF assms(1)]]
    by (intro shape_inv_cong [OF kernel_okD(1) [OF assms(1)] P]) (auto simp: same_tables_def)
  then show ?thesis
    using assms P kernel_okD(2) [OF assms(1)]
    by (auto simp: keeps_def kernel_ok_def same_tables_def intro: wheel_inv_cong)
qed

lemma same_tables_sensitivity:
  "same_tables k k' \<Longrightarrow> same_tables k (fst (fold (\<lambda>ne (k, waited). (add_waiter p e ne k,
           if fst ne \<in> set waited then waited else waited @ [fst ne])) l (k', waited)))"
  by (induction l arbitrary: k' waited) (simp_all add: same_tables_add)

lemma same_tables_cond:
  "same_tables k k' \<Longrightarrow> same_tables k (fst (fold (\<lambda>net (k, waited). (if net \<in> set waited then (k, waited)
           else (add_waiter p e (net, AnyChange) k, waited @ [net]))) l (k', waited)))"
  by (induction l arbitrary: k' waited) (auto simp: same_tables_add)

lemma same_tables_fields:
  "same_tables k k' \<Longrightarrow> same_tables k (k'\<lparr>net_waits := nw\<rparr>)"
  "same_tables k k' \<Longrightarrow> same_tables k (k'\<lparr>wait_epochs := ep\<rparr>)"
  "same_tables k k' \<Longrightarrow> same_tables k (k'\<lparr>runtime_waiters := ps\<rparr>)"
  "same_tables k k' \<Longrightarrow> same_tables k (k'\<lparr>nba_waiters := ps\<rparr>)"
  "same_tables k k' \<Longrightarrow> same_tables k (k'\<lparr>event_waiters := ew\<rparr>)"
  by (simp_all add: same_tables_def)

lemma arm_keeps:
  assumes "kernel_ok k" and "wait_ok k wt" and "arm p wt k = Some k'"
  shows "keeps k k'"
proof -
  have w: "waits_inv k'" by (rule waits_inv_arm [OF kernel_okD(3) [OF assms(1)] assms(2,3)])
  define e where "e = epoch_of (wait_epochs k) p + 1"
  define k1 where "k1 = (clear_net_waiters p k)\<lparr>wait_epochs := (wait_epochs k)(p \<mapsto> e)\<rparr>"
  note arm = assms(3) [unfolded arm_def arm_clears [OF assms(3)] option.case Let_def clear_net_waiters_frame, folded e_def, folded k1_def]
  have s1: "same_tables k k1" by (simp add: same_tables_def k1_def strip_clear)
  show ?thesis
  proof (cases wt)
    case (Delay d)
    have w1: "waits_inv k1" unfolding k1_def
      by (rule arming_nothing [OF arming_start [OF kernel_okD(3) [OF assms(1)]]])
    have k1: "keeps k k1" by (rule same_tables_keeps [OF assms(1) s1 w1])
    have "keeps k1 (push_timed_action (saturating_add_fs (time k1) d) Active (Resume p) k1)"
      using time_ok [OF keeps_ok [OF k1]] by (intro push_keeps [OF keeps_ok [OF k1]]) simp_all
    then show ?thesis using keeps_trans [OF k1] arm Delay by (simp add: push_timed_def)
  next
    case (Sensitivity l)
    then have "same_tables k k'"
      using arm same_tables_sensitivity [OF s1, of p e l "[]"] by (auto simp: case_prod_unfold intro: same_tables_fields split: if_splits)
    then show ?thesis by (rule same_tables_keeps [OF assms(1) _ w])
  next
    case (Cond l)
    then have "same_tables k k'"
      using arm same_tables_cond [OF s1, of p e l "[]"] by (auto simp: case_prod_unfold intro: same_tables_fields split: if_splits)
    then show ?thesis by (rule same_tables_keeps [OF assms(1) _ w])
  next
    case (Edge n kind)
    then have "same_tables k k'" using arm s1 by (auto intro!: same_tables_fields same_tables_add split: if_splits)
    then show ?thesis by (rule same_tables_keeps [OF assms(1) _ w])
  next
    case Finished
    then have "same_tables k k'" using arm s1 by (auto intro!: same_tables_fields)
    then show ?thesis by (rule same_tables_keeps [OF assms(1) _ w])
  next
    case RuntimeCond
    then have "same_tables k k'" using arm s1 by (auto intro!: same_tables_fields)
    then show ?thesis by (rule same_tables_keeps [OF assms(1) _ w])
  next
    case NbaWait
    then have "same_tables k k'" using arm s1 by (auto intro!: same_tables_fields)
    then show ?thesis by (rule same_tables_keeps [OF assms(1) _ w])
  next
    case (NamedEvent ev)
    then have "same_tables k k'" using arm s1 by (auto intro!: same_tables_fields)
    then show ?thesis by (rule same_tables_keeps [OF assms(1) _ w])
  qed (use arm in simp)
qed

lemma apply_updates_ok:
  assumes "wf_lv v" and "apply_updates gens us (v, c) = (v', c')"
  shows "wf_lv v' \<and> width v' = width v"
  using assms
proof (induction us arbitrary: v c)
  case (Cons u us)
  show ?case
  proof (cases "gens ! bd_bit u = bd_generation u")
    case True
    with Cons.prems have "apply_updates gens us (set_bit v (bd_bit u) (bd_value u), True) = (v', c')" by simp
    from Cons.IH [OF _ this] Cons.prems(1) show ?thesis by simp
  next
    case False
    with Cons.prems have "apply_updates gens us (v, c) = (v', c')" by simp
    from Cons.IH [OF Cons.prems(1) this] show ?thesis .
  qed
qed simp

lemma dispatch_event_keeps:
  assumes "kernel_ok k" and "action_ok (profile_of k) (ev_action ev)"
  shows "keeps k (dispatch_event ev k)"
proof (cases "ev_action ev")
  case (Resume p)
  have "keeps k (k\<lparr>inactive := inactive k @ [p]\<rparr>)" "keeps k (k\<lparr>active := active k @ [p]\<rparr>)"
    by (rule kernel_ok_cong [OF assms(1)]; simp)+
  then show ?thesis by (simp add: dispatch_event_def Resume split: Region.split)
next
  case (Drive d v g)
  then have d: "d < length (drivers k)" "wf_lv v" "width v = driver_width (profile_of k) d"
    using assms(2) by (simp_all add: driver_ok_def profile_simps)
  then show ?thesis
    using apply_drive_keeps [OF assms(1) d] keeps_refl [OF assms(1)] by (simp add: dispatch_event_def Drive)
next
  case (DriveBits d us)
  then have d: "d < length (drivers k)"
    using assms(2) by (simp add: driver_ok_def profile_simps)
  note dn = driver_net [OF assms(1) d]
  let ?cur = "driver_values (nets k ! dnet (drivers k ! d)) ! dslot (drivers k ! d)"
  obtain v c where u: "apply_updates (driver_bit_generations k ! d) us (?cur, False) = (v, c)" by fastforce
  have "net_ok (nets k ! dnet (drivers k ! d))" by (rule shape_invD(1) [OF kernel_okD(1) [OF assms(1)] dn(1)])
  then have "wf_lv ?cur \<and> width ?cur = driver_width (profile_of k) d" using dn by (simp add: net_ok_def)
  then have "wf_lv v" "width v = driver_width (profile_of k) d" using apply_updates_ok [OF _ u] by auto
  then show ?thesis
    using apply_drive_keeps [OF assms(1) d] keeps_refl [OF assms(1)] u by (simp add: dispatch_event_def DriveBits)
next
  case (NetBits n us)
  then have n: "n < length (nets k)" using assms(2) by (simp add: profile_simps)
  obtain v c where u: "apply_updates (delay_generations (nets k ! n)) us (nvalue (nets k ! n), False) = (v, c)" by fastforce
  have "net_ok (nets k ! n)" by (rule shape_invD(1) [OF kernel_okD(1) [OF assms(1)] n])
  then have "value_ok (profile_of k) n v"
    using apply_updates_ok [OF _ u] n by (auto simp: net_ok_def value_ok_def profile_simps)
  then show ?thesis
    using write_net_keeps [OF assms(1)] keeps_refl [OF assms(1)] u by (simp add: dispatch_event_def NetBits)
qed

lemma timed_sub_keeps:
  assumes "kernel_ok k" and "set w \<subseteq> set (timed k)" and "wheel_sorted w" and "distinct (map ev_seq w)"
  shows "keeps k (k\<lparr>timed := w\<rparr>)"
proof -
  have P: "profile_of (k\<lparr>timed := w\<rparr>) = profile_of k" by (simp add: profile_of_def)
  have "shape_inv (k\<lparr>timed := w\<rparr>)"
    using assms(2) shape_invD [OF kernel_okD(1) [OF assms(1)]]
    by (intro shape_inv_cong [OF kernel_okD(1) [OF assms(1)] P]) auto
  moreover have "wheel_inv (k\<lparr>timed := w\<rparr>)"
    using assms kernel_okD(2) [OF assms(1)] by (auto simp: wheel_inv_def)
  moreover have "waits_inv (k\<lparr>timed := w\<rparr>)"
    by (rule waits_inv_cong [OF kernel_okD(3) [OF assms(1)]]) simp_all
  ultimately show ?thesis using P by (simp add: keeps_def kernel_ok_def)
qed

lemma pop_keeps:
  assumes "kernel_ok k" and "timed k = ev # w"
  shows "keeps k (k\<lparr>timed := w\<rparr>)" and "action_ok (profile_of k) (ev_action ev)"
  using assms kernel_okD(1,2) [OF assms(1)]
  by (auto intro!: timed_sub_keeps simp: wheel_inv_def wheel_sorted_def shape_inv_def)

lemma dispatch_time_slot_keeps:
  assumes "kernel_ok k"
  shows "keeps k (dispatch_time_slot t k)"
  using assms
proof (induction t k rule: dispatch_time_slot.induct)
  case (1 t k)
  show ?case
  proof (cases "timed k")
    case Nil
    then show ?thesis using 1 by (simp add: dispatch_time_slot.simps [of t k] keeps_refl)
  next
    case (Cons ev w)
    show ?thesis
    proof (cases "ev_time ev = t")
      case True
      note pop = pop_keeps [OF 1(2) Cons]
      let ?k = "dispatch_event ev (k\<lparr>timed := w\<rparr>)"
      have k1: "keeps k ?k"
        using pop by (intro keeps_trans [OF pop(1)] dispatch_event_keeps keeps_ok [OF pop(1)]) (simp add: keeps_def)
      have "keeps ?k (dispatch_time_slot t ?k)"
        using 1(1) [of ev] Cons True keeps_ok [OF k1] by simp
      then show ?thesis
        using keeps_trans [OF k1] Cons True by (simp add: dispatch_time_slot.simps [of t k])
    next
      case False
      then show ?thesis using 1(2) Cons by (simp add: dispatch_time_slot.simps [of t k] keeps_refl)
    qed
  qed
qed

text \<open>After the dispatch of the current time, everything left in the wheel is later.\<close>

lemma dispatch_time_slot_done:
  assumes "kernel_ok k" and "time k = t"
  shows "\<forall>ev \<in> set (timed (dispatch_time_slot t k)). t < ev_time ev"
proof -
  let ?k = "dispatch_time_slot t k"
  have head: "case timed (dispatch_time_slot t k) of [] \<Rightarrow> True | ev # w \<Rightarrow> ev_time ev \<noteq> t" for k
  proof (induction t k rule: dispatch_time_slot.induct)
    case (1 t k)
    show ?case
    proof (cases "timed k")
      case Nil
      then show ?thesis by (simp add: dispatch_time_slot.simps [of t k])
    next
      case (Cons ev w)
      with 1 show ?thesis
        by (cases "ev_time ev = t") (simp_all add: dispatch_time_slot.simps [of t k])
    qed
  qed
  have "keeps k ?k" by (rule dispatch_time_slot_keeps [OF assms(1)])
  then have ok: "wheel_inv ?k" "time ?k = t" using assms(2) by (simp_all add: keeps_def kernel_ok_def)
  show ?thesis
  proof (cases "timed ?k")
    case (Cons e w)
    have le: "t \<le> ev_time ev" if "ev \<in> set (timed ?k)" for ev
      using that ok by (auto simp: wheel_inv_def)
    have "e = ev \<or> ev_time e \<le> ev_time ev" if "ev \<in> set (timed ?k)" for ev
      using that ok(1) Cons by (auto simp: wheel_inv_def wheel_sorted_def ev_key_def less_eq_prod_def)
    moreover have "ev_time e \<noteq> t" using head [of k] Cons by simp
    ultimately show ?thesis using le Cons
      by (metis le_neq_implies_less list.set_intros(1) order.strict_trans2)
  qed simp
qed

lemma wheel_dropWhile: "wheel_sorted w \<Longrightarrow> wheel_sorted (dropWhile P w)"
  by (induction w) (simp_all add: wheel_sorted_def)

lemma discard_stale_keeps:
  assumes "kernel_ok k"
  shows "keeps k (discard_stale_timed_actions k)"
proof -
  have "distinct (map ev_seq (dropWhile P w))" if "distinct (map ev_seq w)" for P w
    using that by (induction w) auto
  then show ?thesis
    using kernel_okD(2) [OF assms] unfolding discard_stale_timed_actions_def
    by (intro timed_sub_keeps [OF assms]) (auto simp: wheel_inv_def wheel_dropWhile dest: set_dropWhileD)
qed

lemma new_kernel_ok: "kernel_ok (new_kernel ts)"
  by (simp add: kernel_ok_def shape_inv_def wheel_inv_def waits_inv_def new_kernel_def wheel_sorted_def)

end
