(* ===== verification/Places.thy ===== *)
theory Places
  imports Kernel_Inv
begin

text \<open>
  Where each process is. A process is queued in a region, parked on a wakeup source or waiting for
  its children: \<open>places k p\<close> counts the occurrences of \<open>p\<close> over all of them. The operations a
  running process can call (the relation \<open>api\<close>), the end of a slot and the advance of time move
  processes between places and never drop or duplicate one.
\<close>

definition resume_pids :: "TimedEvent list \<Rightarrow> ProcId list" where
  "resume_pids w = List.map_filter (\<lambda>ev. case ev_action ev of Resume p \<Rightarrow> Some p | _ \<Rightarrow> None) w"

definition places :: "Kernel \<Rightarrow> ProcId \<Rightarrow> nat" where
  "places k p =
     count (mset (active k)) p + count (mset (inactive k)) p + count (mset (nba_waiters k)) p +
     count (mset (resume_pids (timed k))) p + count (mset (runtime_waiters k)) p +
     (\<Sum>ev \<in> dom (event_waiters k). count (mset (the (event_waiters k ev))) p) +
     of_bool (net_waits k p \<noteq> None) + count (mset (map jparent (join_watches k))) p"

definition events_finite :: "Kernel \<Rightarrow> bool" where
  "events_finite k \<longleftrightarrow> finite (dom (event_waiters k))"

lemma places_cong:
  assumes "active k' = active k" and "inactive k' = inactive k" and "nba_waiters k' = nba_waiters k"
    and "mset (resume_pids (timed k')) = mset (resume_pids (timed k))" and "runtime_waiters k' = runtime_waiters k"
    and "event_waiters k' = event_waiters k" and "net_waits k' = net_waits k" and "join_watches k' = join_watches k"
  shows "places k' = places k"
proof (rule ext)
  show "places k' p = places k p" for p
    unfolding places_def assms ..
qed

lemma resume_pids_simps [simp]:
  "resume_pids [] = []"
  "resume_pids (ev # w) = (case ev_action ev of Resume p \<Rightarrow> p # resume_pids w | _ \<Rightarrow> resume_pids w)"
  by (simp_all add: resume_pids_def List.map_filter_def split: TimedAction.split)

lemma resume_pids_append: "resume_pids (v @ w) = resume_pids v @ resume_pids w"
  by (induction v) (simp_all split: TimedAction.split)

lemma resume_pids_push [simp]:
  "mset (resume_pids (wheel_push ev w)) = mset (resume_pids (ev # w))"
proof -
  have "mset (resume_pids w) = {#p. p \<in># image_mset (\<lambda>ev. case ev_action ev of Resume p \<Rightarrow> p | _ \<Rightarrow> 0)
      (filter_mset (\<lambda>ev. case ev_action ev of Resume p \<Rightarrow> True | _ \<Rightarrow> False) (mset w))#}" for w
    by (induction w) (auto split: TimedAction.split)
  then show ?thesis by (metis mset.simps(2) mset_wheel_push)
qed

section \<open>Writing a net\<close>

lemma places_write_net:
  assumes "waits_inv k" and "n < length (nets k)"
  shows "places (write_net n v k) p = places k p"
proof -
  let ?new = "woken_by n v k"
  note eff = write_net_effect [OF assms, where val = v]
  note wk = woken_by_spec [OF assms, of v]
  have parked: "net_waits k q \<noteq> None" if "q \<in> set ?new" for q
    using that waits_invD(2) [OF assms] unfolding wk(2) by (auto simp: Let_def)
  have "count (mset ?new) p = of_bool (p \<in> set ?new)"
    using wk(1) by (simp add: distinct_count_atmost_1)
  moreover have "?new = []" if "\<not> changed (detect_edge (nvalue (nets k ! n)) v)"
    using that by (simp add: woken_by_def)
  ultimately show ?thesis
    using parked [of p] by (auto simp: places_def eff(1,2,4))
qed

lemma events_finite_frame:
  "events_finite (write_net n v k) = events_finite k"
  "events_finite (upd_net n f k) = events_finite k"
  "events_finite (push_timed_action t r a k) = events_finite k"
  "events_finite (push_groups act gs k) = events_finite k"
  by (simp_all add: events_finite_def)

lemma places_upd_net [simp]: "places (upd_net n f k) = places k"
  by (rule places_cong) simp_all

lemma places_push:
  "(\<And>p. a \<noteq> Resume p) \<Longrightarrow> places (push_timed_action t r a k) = places k"
  by (rule places_cong) (simp_all split: TimedAction.split)

lemma places_push_groups:
  "(\<And>us p. act us \<noteq> Resume p) \<Longrightarrow> places (push_groups act gs k) = places k"
proof (induction gs arbitrary: k)
  case (Cons g gs)
  then show ?case by (simp add: case_prod_unfold places_push)
qed simp

lemma places_apply_resolved:
  assumes "waits_inv k" and "n < length (nets k)"
  shows "places (apply_resolved_net n v k) p = places k p"
proof (cases "ndelay (nets k ! n)")
  case None
  then show ?thesis by (simp add: apply_resolved_net_def places_write_net assms)
next
  case (Some d)
  have w: "places (write_net n u (upd_net n f (upd_net n g k))) p = places k p"
    if "\<And>m. waiters (f m) = waiters m" "\<And>m. waiters (g m) = waiters m" for u f g
    using assms that by (subst places_write_net) (auto intro: waits_inv_upd)
  with Some show ?thesis
    by (simp add: apply_resolved_net_def places_push_groups)
qed

lemma events_finite_apply_resolved [simp]: "events_finite (apply_resolved_net n v k) = events_finite k"
  by (simp add: apply_resolved_net_def events_finite_frame split: option.split)

lemma places_apply_drive:
  assumes "kernel_ok k" and "d < length (drivers k)"
  shows "places (apply_drive d v k) p = places k p"
  unfolding apply_drive_def Let_def
  using driver_net(1) [OF assms] kernel_okD(3) [OF assms(1)]
  by (subst places_apply_resolved) (auto intro: waits_inv_upd)

lemma events_finite_apply_drive [simp]: "events_finite (apply_drive d v k) = events_finite k"
  by (simp add: apply_drive_def events_finite_frame)

section \<open>The operations a process calls\<close>

text \<open>
  One call of a running process on the kernel, with the conditions the code's callers meet: handles
  in range and values of the net's width.
\<close>

inductive api :: "Kernel \<Rightarrow> Kernel \<Rightarrow> bool" where
  api_write: "value_ok (profile_of k) n v \<Longrightarrow> api k (write_net n v k)"
| api_nba: "value_ok (profile_of k) n v \<Longrightarrow> api k (schedule_nba n v k)"
| api_drive: "d < length (drivers k) \<Longrightarrow> wf_lv v \<Longrightarrow> api k (drive_net d v k)"
| api_schedule: "d < length (drivers k) \<Longrightarrow> wf_lv v \<Longrightarrow> api k (schedule_drive d v t k)"
| api_transitions: "d < length (drivers k) \<Longrightarrow> wf_lv v \<Longrightarrow> api k (schedule_drive_transitions d v ds k)"
| api_display: "api k (display line k)"
| api_stop: "api k (request_stop k)"
| api_runtime: "api k (notify_runtime_change k)"
| api_event: "api k (trigger_event e k)"

lemma api_keeps: "api k k' \<Longrightarrow> kernel_ok k \<Longrightarrow> keeps k k'"
  by (induction rule: api.induct)
    (auto intro: write_net_keeps schedule_nba_keeps drive_net_keeps schedule_drive_keeps
      schedule_drive_transitions_keeps simple_ops_keep)

lemma apis_keep: "api\<^sup>*\<^sup>* k k' \<Longrightarrow> kernel_ok k \<Longrightarrow> keeps k k'"
  by (induction rule: rtranclp_induct) (auto intro: keeps_refl keeps_trans api_keeps keeps_ok)

lemma places_drive_net:
  assumes "kernel_ok k" and "d < length (drivers k)" and "wf_lv v"
  shows "places (drive_net d v k) p = places k p \<and> events_finite (drive_net d v k) = events_finite k"
proof -
  let ?v = "resize v (width (nvalue (nets k ! dnet (drivers k ! d)))) False"
  let ?k = "(bump_generations d k)\<lparr>driver_requests := (driver_requests k)[d := ?v]\<rparr>"
  have k: "keeps k ?k" by (rule bump_requests_keep [OF assms(1,2) request_range(1,2) [OF assms]])
  have "places ?k = places k" by (rule places_cong) (simp_all add: bump_generations_def)
  moreover have "events_finite ?k = events_finite k" by (simp add: events_finite_def bump_generations_def)
  moreover have "drive_net d v k = apply_drive d ?v ?k" by (simp add: drive_net_def bump_generations_def)
  ultimately show ?thesis
    using places_apply_drive [OF keeps_ok [OF k]] assms(2) keeps_len [OF k] by simp
qed

lemma places_schedule_drive:
  assumes "kernel_ok k" and "d < length (drivers k)" and "wf_lv v"
  shows "places (schedule_drive d v t k) p = places k p \<and> events_finite (schedule_drive d v t k) = events_finite k"
proof -
  let ?v = "resize v (width (nvalue (nets k ! dnet (drivers k ! d)))) False"
  let ?k = "bump_generations d (k\<lparr>driver_requests := (driver_requests k)[d := ?v]\<rparr>)"
  have k: "keeps k ?k" by (rule bump_requests_keep [OF assms(1,2) request_range(1,2) [OF assms]])
  have "places ?k = places k" by (rule places_cong) (simp_all add: bump_generations_def)
  moreover have "events_finite ?k = events_finite k" by (simp add: events_finite_def bump_generations_def)
  ultimately show ?thesis
    using places_apply_drive [OF keeps_ok [OF k], of d] assms(2) keeps_len [OF k]
    by (simp add: schedule_drive_def Let_def places_push events_finite_frame bump_generations_def)
qed

lemma places_schedule_transitions:
  assumes "kernel_ok k" and "d < length (drivers k)" and "wf_lv v"
  shows "places (schedule_drive_transitions d v ds k) p = places k p \<and>
    events_finite (schedule_drive_transitions d v ds k) = events_finite k"
proof -
  let ?n = "dnet (drivers k ! d)"
  let ?w = "width (nvalue (nets k ! ?n))"
  let ?v = "resize v ?w False" and ?cur = "driver_values (nets k ! ?n) ! dslot (drivers k ! d)"
  note r = request_range [OF assms] and dn = driver_net [OF assms(1,2)]
  define s where "s = transition_loop (driver_requests k ! d) ?cur ?v ds ?w (driver_bit_generations k ! d)"
  have "net_ok (nets k ! ?n)" by (rule shape_invD(1) [OF kernel_okD(1) [OF assms(1)] dn(1)])
  then have "wf_lv ?cur \<and> width ?cur = ?w" using dn(3) by (simp add: net_ok_def)
  then have sok: "bit_loop_ok ?w s"
    unfolding s_def using r(3) dn(2) by (intro transition_loop_ok) simp_all
  define k1 where "k1 = k\<lparr>driver_requests := (driver_requests k)[d := ?v],
    drivers := (drivers k)[d := (drivers k ! d)\<lparr>dgeneration := dgeneration (drivers k ! d) + 1\<rparr>],
    driver_bit_generations := (driver_bit_generations k)[d := bl_generations s]\<rparr>"
  have k1: "keeps k k1"
    using sok dn(2) unfolding k1_def
    by (intro requests_keep [OF assms(1,2) r(1,2), of "bl_generations s"]) (simp_all add: bit_loop_ok_def driver_targets)
  have "places k1 = places k" by (rule places_cong) (simp_all add: k1_def)
  moreover have "events_finite k1 = events_finite k" by (simp add: events_finite_def k1_def)
  moreover have "schedule_drive_transitions d v ds k =
      (if eq_case (driver_requests k ! d) ?v then k
       else push_groups (DriveBits d) (bl_delayed s)
         (if bl_has_immediate s then apply_drive d (bl_immediate s) k1 else k1))"
    by (simp add: schedule_drive_transitions_def k1_def s_def)
  ultimately show ?thesis
    using places_apply_drive [OF keeps_ok [OF k1], of d] assms(2) keeps_len [OF k1]
    by (simp add: places_push_groups events_finite_frame)
qed

lemma places_trigger:
  assumes "events_finite k"
  shows "places (trigger_event e k) p = places k p \<and> events_finite (trigger_event e k)"
proof (cases "event_waiters k e")
  case None
  then show ?thesis using assms by (simp add: trigger_event_def)
next
  case (Some ws)
  let ?f = "\<lambda>ev. count (mset (the (event_waiters k ev))) p"
  have "e \<in> dom (event_waiters k)" using Some by blast
  then have "sum ?f (dom (event_waiters k)) = ?f e + sum ?f (dom (event_waiters k) - {e})"
    using assms by (intro sum.remove) (simp_all add: events_finite_def)
  moreover have "(\<Sum>ev \<in> dom (event_waiters k) - {e}. count (mset (the (((event_waiters k)(e := None)) ev))) p) =
      sum ?f (dom (event_waiters k) - {e})"
    by (rule sum.cong) auto
  ultimately show ?thesis
    using assms Some by (simp add: trigger_event_def places_def events_finite_def)
qed

text \<open>A call of a process moves processes between places, and loses none.\<close>

lemma api_places:
  assumes "api k k'" and "kernel_ok k" and "events_finite k"
  shows "places k' p = places k p \<and> events_finite k'"
  using assms
proof cases
  case (api_write n v)
  then show ?thesis
    using assms places_write_net [OF kernel_okD(3) [OF assms(2)], of n v p]
    by (simp add: events_finite_frame value_ok_def profile_simps)
next
  case (api_nba n v)
  have "places (schedule_nba n v k) = places k" by (rule places_cong) (simp_all add: schedule_nba_def)
  then show ?thesis using api_nba assms by (simp add: events_finite_def schedule_nba_def)
next
  case (api_runtime)
  then show ?thesis using assms by (auto simp: notify_runtime_change_def places_def events_finite_def)
next
  case (api_display line)
  have "places (display line k) = places k" by (rule places_cong) (simp_all add: display_def)
  then show ?thesis using api_display assms by (simp add: events_finite_def display_def)
next
  case (api_stop)
  have "places (request_stop k) = places k" by (rule places_cong) (simp_all add: request_stop_def)
  then show ?thesis using api_stop assms by (simp add: events_finite_def request_stop_def)
qed (use assms places_drive_net places_schedule_drive places_schedule_transitions places_trigger in simp_all)

lemma apis_places:
  assumes "api\<^sup>*\<^sup>* k k'" and "kernel_ok k" and "events_finite k"
  shows "places k' p = places k p \<and> events_finite k'"
  using assms
proof (induction rule: rtranclp_induct)
  case (step k1 k2)
  then have "kernel_ok k1" using apis_keep keeps_ok by blast
  with step api_places [of k1 k2 p] show ?case by simp
qed simp

section \<open>Parking, finishing, and the end of a slot\<close>

lemma places_arm:
  assumes "events_finite k" and "places k p = 0" and "arm p wt k = Some k'"
  shows "places k' q = places k q + of_bool (q = p \<and> wt \<noteq> Finished) \<and> events_finite k'"
proof -
  have nw: "net_waits k p = None" using assms(2) by (simp add: places_def split: if_splits)
  define k1 where "k1 = k\<lparr>wait_epochs := (wait_epochs k)(p \<mapsto> epoch_of (wait_epochs k) p + 1)\<rparr>"
  have cl: "clear_net_waiters p k = k" by (simp add: clear_net_waiters_def nw)
  note arm = assms(3) [unfolded arm_def arm_clears [OF assms(3)] option.case Let_def cl, folded k1_def]
  have k1: "places k1 = places k" by (rule places_cong) (simp_all add: k1_def)
  have ef: "events_finite k1" using assms(1) by (simp add: events_finite_def k1_def)
  have nw1: "net_waits k1 p = None" using nw by (simp add: k1_def)
  have park: "places (k2\<lparr>net_waits := (net_waits k2)(p \<mapsto> l)\<rparr>) q = places k1 q + of_bool (q = p)"
    if "places k2 = places k1" "net_waits k2 = net_waits k1" for k2 l
  proof -
    have "places (k2\<lparr>net_waits := (net_waits k2)(p \<mapsto> l)\<rparr>) q = places k2 q + of_bool (q = p)"
      using that(2) nw1 by (simp add: places_def)
    then show ?thesis using that(1) by simp
  qed
  have add: "places (add_waiter p' e ne k2) = places k2" "net_waits (add_waiter p' e ne k2) = net_waits k2"
    "events_finite (add_waiter p' e ne k2) = events_finite k2" "event_waiters (add_waiter p' e ne k2) = event_waiters k2"
    for p' e ne k2 by (simp_all add: add_waiter_def events_finite_frame)
  show ?thesis
  proof (cases wt)
    case Finished
    have "places (k1\<lparr>wait_epochs := (wait_epochs k1)(p := None)\<rparr>) = places k1" by (rule places_cong) simp_all
    then show ?thesis using arm Finished k1 ef by (auto simp: events_finite_def)
  next
    case (Delay d)
    then have "k' = push_timed_action (saturating_add_fs (time k1) d) Active (Resume p) k1"
      using arm by (simp add: push_timed_def)
    moreover have "places (push_timed_action (saturating_add_fs (time k1) d) Active (Resume p) k1) q =
        places k1 q + of_bool (q = p)"
      by (simp add: places_def)
    ultimately show ?thesis using Delay k1 ef by (simp add: events_finite_frame)
  next
    case (Edge n kind)
    then show ?thesis using arm k1 ef park [of "add_waiter p (epoch_of (wait_epochs k) p + 1) (n, kind) k1"]
      by (auto simp: add events_finite_def split: if_splits)
  next
    case (Sensitivity l)
    let ?f = "\<lambda>ne (k, waited). (add_waiter p (epoch_of (wait_epochs k1) p) ne k,
           if fst ne \<in> set waited then waited else waited @ [fst ne])"
    have "places (fst (fold (\<lambda>ne (k, waited). (add_waiter p e ne k,
           if fst ne \<in> set waited then waited else waited @ [fst ne])) l (k2, ws))) = places k2 \<and>
        net_waits (fst (fold (\<lambda>ne (k, waited). (add_waiter p e ne k,
           if fst ne \<in> set waited then waited else waited @ [fst ne])) l (k2, ws))) = net_waits k2 \<and>
        events_finite (fst (fold (\<lambda>ne (k, waited). (add_waiter p e ne k,
           if fst ne \<in> set waited then waited else waited @ [fst ne])) l (k2, ws))) = events_finite k2" for k2 ws e
      by (induction l arbitrary: k2 ws) (simp_all add: add)
    then show ?thesis using arm Sensitivity k1 ef park by (auto simp: case_prod_unfold events_finite_def split: if_splits)
  next
    case (Cond l)
    have "places (fst (fold (\<lambda>net (k, waited). (if net \<in> set waited then (k, waited)
           else (add_waiter p e (net, AnyChange) k, waited @ [net]))) l (k2, ws))) = places k2 \<and>
        net_waits (fst (fold (\<lambda>net (k, waited). (if net \<in> set waited then (k, waited)
           else (add_waiter p e (net, AnyChange) k, waited @ [net]))) l (k2, ws))) = net_waits k2 \<and>
        events_finite (fst (fold (\<lambda>net (k, waited). (if net \<in> set waited then (k, waited)
           else (add_waiter p e (net, AnyChange) k, waited @ [net]))) l (k2, ws))) = events_finite k2" for k2 ws e
      by (induction l arbitrary: k2 ws) (simp_all add: add)
    then show ?thesis using arm Cond k1 ef park by (auto simp: case_prod_unfold events_finite_def split: if_splits)
  next
    case RuntimeCond
    have "places (k1\<lparr>runtime_waiters := runtime_waiters k1 @ [p]\<rparr>) q = places k1 q + of_bool (q = p)"
      by (simp add: places_def)
    then show ?thesis using RuntimeCond arm k1 ef by (auto simp: events_finite_def)
  next
    case NbaWait
    have "places (k1\<lparr>nba_waiters := nba_waiters k1 @ [p]\<rparr>) q = places k1 q + of_bool (q = p)"
      by (simp add: places_def)
    then show ?thesis using NbaWait arm k1 ef by (auto simp: events_finite_def)
  next
    case (NamedEvent e)
    let ?old = "case event_waiters k1 e of None \<Rightarrow> [] | Some ws \<Rightarrow> ws"
    let ?m = "(event_waiters k1)(e \<mapsto> ?old @ [p])"
    have fin: "finite (dom (event_waiters k1))" using ef by (simp add: events_finite_def)
    have "(\<Sum>ev \<in> dom ?m. count (mset (the (?m ev))) q) =
        count (mset ?old) q + of_bool (q = p) + (\<Sum>ev \<in> dom (event_waiters k1) - {e}. count (mset (the (event_waiters k1 ev))) q)"
    proof -
      let ?D = "dom (event_waiters k1) - {e}" and ?f = "\<lambda>ev. count (mset (the (?m ev))) q"
      have "dom ?m = insert e ?D" by auto
      then have "sum ?f (dom ?m) = sum ?f (insert e ?D)" by (simp only:)
      also have "\<dots> = ?f e + sum ?f ?D" by (rule sum.insert) (use fin in auto)
      also have "sum ?f ?D = (\<Sum>ev \<in> ?D. count (mset (the (event_waiters k1 ev))) q)"
        by (rule sum.cong) auto
      also have "?f e = count (mset ?old) q + of_bool (q = p)" by simp
      finally show ?thesis .
    qed
    moreover have "(\<Sum>ev \<in> dom (event_waiters k1). count (mset (the (event_waiters k1 ev))) q) =
        count (mset ?old) q + (\<Sum>ev \<in> dom (event_waiters k1) - {e}. count (mset (the (event_waiters k1 ev))) q)"
      using fin sum.remove [OF fin, of e "\<lambda>ev. count (mset (the (event_waiters k1 ev))) q"]
      by (cases "event_waiters k1 e") (auto simp: dom_def)
    moreover have "k' = k1\<lparr>event_waiters := ?m\<rparr>" using arm NamedEvent by simp
    ultimately have "places k' q = places k1 q + of_bool (q = p)" "events_finite k'"
      using fin by (simp_all add: places_def events_finite_def)
    then show ?thesis using NamedEvent k1 by simp
  qed (use arm in simp)
qed

lemma notify_loop_parents:
  assumes "notify_loop p i ws woken = (ws', woken')"
  shows "mset (map jparent ws') + mset woken' = mset (map jparent ws) + mset woken"
  using assms
proof (induction p i ws woken rule: notify_loop.induct)
  case (1 p i ws woken)
  show ?case
  proof (cases "i < length ws")
    case False
    then show ?thesis using 1(3) by (auto simp: notify_loop.simps [of p i ws])
  next
    case True
    let ?w = "(ws ! i)\<lparr>jremaining := filter (\<lambda>c. c \<noteq> p) (jremaining (ws ! i))\<rparr>"
    let ?ws = "ws[i := ?w]"
    have par: "map jparent ?ws = map jparent ws" using True by (simp add: map_update list_update_same_conv)
    show ?thesis
    proof (cases "length (jremaining ?w) < length (jremaining (ws ! i)) \<and> (jany ?w \<or> jremaining ?w = [])")
      case sat: True
      then have "notify_loop p i (swap_remove ?ws i) (woken @ [jparent ?w]) = (ws', woken')"
        using 1(3) True by (simp add: notify_loop.simps [of p i ws])
      then have "mset (map jparent ws') + mset woken' =
          mset (map jparent (swap_remove ?ws i)) + mset (woken @ [jparent ?w])"
        using 1(1) [OF True refl refl refl refl sat] by simp
      moreover have "mset (map jparent ?ws) = add_mset (jparent ?w) (mset (map jparent (swap_remove ?ws i)))"
      proof -
        have i: "i < length ?ws" using True by simp
        have "mset ?ws = mset (take i ?ws) + mset (drop i ?ws)"
          by (metis append_take_drop_id mset_append)
        also have "\<dots> = add_mset (?ws ! i) (mset (take i (swap_remove ?ws i)) + mset (drop i (swap_remove ?ws i)))"
          using swap_remove_parts [OF i] by simp
        also have "mset (take i (swap_remove ?ws i)) + mset (drop i (swap_remove ?ws i)) = mset (swap_remove ?ws i)"
          by (metis append_take_drop_id mset_append)
        finally show ?thesis using True by simp
      qed
      ultimately show ?thesis unfolding par by simp
    next
      case False
      then have "notify_loop p (i + 1) ?ws woken = (ws', woken')"
        using 1(3) True by (simp add: notify_loop.simps [of p i ws] split: if_splits)
      then show ?thesis using 1(2) [OF True refl refl refl refl False] par by simp
    qed
  qed
qed

lemma places_notify: "places (notify_finished p k) q = places k q"
proof -
  obtain ws woken where r: "notify_loop p 0 (join_watches k) [] = (ws, woken)" by fastforce
  from arg_cong [OF notify_loop_parents [OF r], of "\<lambda>m. count m q"] show ?thesis
    by (simp add: notify_finished_def r places_def)
qed

lemma places_drain_nba:
  assumes "kernel_ok k"
  shows "places (drain_nba k) p = places k p \<and> events_finite (drain_nba k) = events_finite k"
proof -
  let ?step = "\<lambda>(net, val) k. write_net net val (k\<lparr>stats := (stats k)\<lparr>nba_applies := nba_applies (stats k) + 1\<rparr>\<rparr>)"
  have loop: "places (fold ?step l k) p = places k p \<and> events_finite (fold ?step l k) = events_finite k"
    if "kernel_ok k" "\<forall>(n, v) \<in> set l. value_ok (profile_of k) n v" for l k
    using that
  proof (induction l arbitrary: k)
    case (Cons nv l)
    obtain n v where nv: "nv = (n, v)" by fastforce
    let ?k = "k\<lparr>stats := (stats k)\<lparr>nba_applies := nba_applies (stats k) + 1\<rparr>\<rparr>"
    have k1: "keeps k ?k" by (rule kernel_ok_cong [OF Cons.prems(1)]) simp_all
    have v: "value_ok (profile_of ?k) n v" using Cons.prems(2) keeps_profile [OF k1] by (simp add: nv)
    have k2: "keeps k (write_net n v ?k)"
      by (intro keeps_trans [OF k1] write_net_keeps [OF keeps_ok [OF k1] v])
    have "places ?k = places k" by (rule places_cong) simp_all
    moreover have "places (write_net n v ?k) p = places ?k p"
      using v kernel_okD(3) [OF keeps_ok [OF k1]] by (intro places_write_net) (simp_all add: value_ok_def profile_simps)
    moreover have "events_finite (write_net n v ?k) = events_finite k"
      by (simp add: events_finite_frame) (simp add: events_finite_def)
    ultimately show ?case
      using Cons.IH [OF keeps_ok [OF k2]] Cons.prems(2) keeps_profile [OF k2] by (auto simp: nv)
  qed simp
  let ?k1 = "k\<lparr>nba := []\<rparr>"
  have k1: "keeps k ?k1" by (rule kernel_ok_cong [OF assms]) simp_all
  have "\<forall>(n, v) \<in> set (nba k). value_ok (profile_of ?k1) n v"
    using shape_invD(9) [OF kernel_okD(1) [OF assms]] keeps_profile [OF k1] by auto
  from loop [OF keeps_ok [OF k1] this]
  have l: "places (fold ?step (nba k) ?k1) p = places k p" "events_finite (fold ?step (nba k) ?k1) = events_finite k"
    by (simp_all add: places_def events_finite_def)
  have m: "places (k\<lparr>active := active k @ nba_waiters k, nba_waiters := []\<rparr>) p = places k p"
    "events_finite (k\<lparr>active := active k @ nba_waiters k, nba_waiters := []\<rparr>) = events_finite k" for k :: Kernel
    by (simp_all add: places_def events_finite_def)
  show ?thesis using l m by (simp add: drain_nba_def)
qed

lemma places_dispatch_event:
  assumes "kernel_ok k" and "timed k = ev # w"
  shows "places (dispatch_event ev (k\<lparr>timed := w\<rparr>)) p = places k p \<and>
    events_finite (dispatch_event ev (k\<lparr>timed := w\<rparr>)) = events_finite k"
proof -
  let ?k = "k\<lparr>timed := w\<rparr>"
  note pop = pop_keeps [OF assms]
  have ok: "kernel_ok ?k" by (rule keeps_ok [OF pop(1)])
  have a: "action_ok (profile_of ?k) (ev_action ev)" using pop by (simp add: keeps_profile)
  show ?thesis
  proof (cases "ev_action ev")
    case (Resume q)
    then show ?thesis
      using assms(2) by (auto simp: dispatch_event_def places_def events_finite_def split: Region.split)
  next
    case (Drive d v g)
    have pl: "places ?k = places k" "events_finite ?k = events_finite k"
      by (rule places_cong, simp_all add: assms(2) Drive events_finite_def)
    have "d < length (drivers ?k)" using a by (simp add: Drive driver_ok_def profile_simps)
    then show ?thesis
      using places_apply_drive [OF ok] pl by (simp add: dispatch_event_def Drive)
  next
    case (DriveBits d us)
    have pl: "places ?k = places k" "events_finite ?k = events_finite k"
      by (rule places_cong, simp_all add: assms(2) DriveBits events_finite_def)
    have "d < length (drivers ?k)" using a by (simp add: DriveBits driver_ok_def profile_simps)
    then show ?thesis
      using places_apply_drive [OF ok] pl by (simp add: dispatch_event_def DriveBits split: prod.split)
  next
    case (NetBits n us)
    have pl: "places ?k = places k" "events_finite ?k = events_finite k"
      by (rule places_cong, simp_all add: assms(2) NetBits events_finite_def)
    have "n < length (nets ?k)" using a by (simp add: NetBits profile_simps)
    then show ?thesis
      using places_write_net [OF kernel_okD(3) [OF ok]] pl
      by (simp add: dispatch_event_def NetBits events_finite_frame split: prod.split)
  qed
qed

lemma places_dispatch:
  assumes "kernel_ok k"
  shows "places (dispatch_time_slot t k) p = places k p \<and> events_finite (dispatch_time_slot t k) = events_finite k"
  using assms
proof (induction t k rule: dispatch_time_slot.induct)
  case (1 t k)
  show ?case
  proof (cases "timed k")
    case Nil
    then show ?thesis by (simp add: dispatch_time_slot.simps [of t k])
  next
    case (Cons ev w)
    show ?thesis
    proof (cases "ev_time ev = t")
      case True
      note pop = pop_keeps [OF 1(2) Cons]
      let ?k = "dispatch_event ev (k\<lparr>timed := w\<rparr>)"
      have "keeps k ?k"
        using pop by (intro keeps_trans [OF pop(1)] dispatch_event_keeps keeps_ok [OF pop(1)]) (simp add: keeps_def)
      then show ?thesis
        using 1(1) [of ev] Cons True keeps_ok places_dispatch_event [OF 1(2) Cons, of p]
        by (simp add: dispatch_time_slot.simps [of t k])
    next
      case False
      then show ?thesis using Cons by (simp add: dispatch_time_slot.simps [of t k])
    qed
  qed
qed

lemma places_discard: "places (discard_stale_timed_actions k) = places k"
proof (rule places_cong)
  have "resume_pids (dropWhile (stale k) w) = resume_pids w" for w
    by (induction w) (auto simp: stale_def split: TimedAction.splits)
  then show "mset (resume_pids (timed (discard_stale_timed_actions k))) = mset (resume_pids (timed k))"
    by (simp add: discard_stale_timed_actions_def)
qed (simp_all add: discard_stale_timed_actions_def)

end
