(* ===== verification/IR_Sound.thy ===== *)
theory IR_Sound
  imports IR_Typing
begin

text \<open>
  Soundness of the typing, one lemma per group of instructions: executing a well-typed instruction
  in a conforming state gives a conforming state, a store that extends the old one, and a kernel
  that a sequence of \<open>api\<close> calls reaches.
\<close>

section \<open>Conforming states\<close>

definition pending_ok :: "(nat \<rightharpoonup> nat) \<Rightarrow> typing \<Rightarrow> (Reg \<times> Value) list \<Rightarrow> bool" where
  "pending_ok K T ps \<longleftrightarrow> (\<forall>p \<in> set ps. value_wf K (snd p) \<and> (\<forall>n. T n (fst p) = TAny))"

definition st_ok :: "profile \<Rightarrow> typing \<Rightarrow> nat \<Rightarrow> Machine \<Rightarrow> bool" where
  "st_ok P T n m \<longleftrightarrow> world_wf (world m) \<and> kernel_ok (kern m) \<and> profile_of (kern m) = P \<and>
     conforms (kinds (world m)) (T n) (regs m) \<and> pending_ok (kinds (world m)) T (pending_nba m)"

text \<open>A step from \<open>m\<close> to \<open>m'\<close>, whose next instruction is at \<open>n\<close>.\<close>

definition goes :: "profile \<Rightarrow> typing \<Rightarrow> nat \<Rightarrow> Machine \<Rightarrow> Machine \<Rightarrow> bool" where
  "goes P T n m m' \<longleftrightarrow> st_ok P T n m' \<and> extends (world m) (world m') \<and> api\<^sup>*\<^sup>* (kern m) (kern m') \<and> pc m' = n"

lemma conf_value: "conf K t v \<Longrightarrow> value_wf K v"
  by (cases t) auto

lemma conf_any: "value_wf K v \<Longrightarrow> conf K TAny v"
  by simp

lemma conf_mono: "K \<subseteq>\<^sub>m K' \<Longrightarrow> conf K t v \<Longrightarrow> conf K' t v"
  by (cases t) (auto intro: value_wf_mono)

lemma conforms_mono: "K \<subseteq>\<^sub>m K' \<Longrightarrow> conforms K G rs \<Longrightarrow> conforms K' G rs"
  by (auto simp: conforms_def intro: conf_mono)

lemma pending_mono: "K \<subseteq>\<^sub>m K' \<Longrightarrow> pending_ok K T ps \<Longrightarrow> pending_ok K' T ps"
  by (auto simp: pending_ok_def intro: value_wf_mono)

lemma conforms_weaker: "conforms K G rs \<Longrightarrow> weaker G G' \<Longrightarrow> conforms K G' rs"
  unfolding conforms_def weaker_def by (metis conf_any conf_value)

lemma conforms_upd: "conforms K G rs \<Longrightarrow> conf K t v \<Longrightarrow> conforms K (G(d := t)) (rs[d := v])"
  by (auto simp: conforms_def nth_list_update)

lemma forget_insert: "forget (insert d R) G = (forget R G)(d := TAny)"
  by (auto simp: forget_def)

lemma forget_single: "forget {d} G = G(d := TAny)"
  by (auto simp: forget_def)

lemma weaker_refl: "weaker G G" by (simp add: weaker_def)

lemma weaker_forget: "weaker G (forget R G)"
  by (simp add: weaker_def forget_def)

lemma conforms_forget_put:
  assumes "conforms K (forget R G) rs" and "d \<in> R" and "value_wf K v" and "put_reg d v rs = Some rs'"
  shows "conforms K (forget R G) rs'"
  using assms by (auto simp: conforms_def put_reg_def nth_list_update forget_def split: if_splits)

section \<open>Reading and writing registers\<close>

lemma get_reg_conf: "conforms K G rs \<Longrightarrow> get_reg rs r = Some v \<Longrightarrow> conf K (G r) v"
  by (auto simp: conforms_def get_reg_def split: if_splits)

lemma logic_reg_conf:
  assumes "conforms K G rs" and "logic_reg rs r = Some l"
  shows "wf_lv l" and "G r = TBits w \<Longrightarrow> width l = w"
proof -
  obtain v where v: "get_reg rs r = Some v" "as_logic v = Some l"
    using assms(2) by (auto simp: logic_reg_def split: bind_splits)
  have c: "conf K (G r) v" by (rule get_reg_conf [OF assms(1) v(1)])
  show "wf_lv l" using as_logic_wf [OF conf_value [OF c] v(2)] .
  show "width l = w" if "G r = TBits w" using c v(2) that by (auto simp: as_logic_def)
qed

lemma reg_conf: "st_ok P T n m \<Longrightarrow> reg r m = Some v \<Longrightarrow> conf (kinds (world m)) (T n r) v"
  by (auto simp: st_ok_def reg_def intro: get_reg_conf)

lemma lreg_conf:
  assumes "st_ok P T n m" and "lreg r m = Some l"
  shows "wf_lv l" and "T n r = TBits w \<Longrightarrow> width l = w"
  using logic_reg_conf [of "kinds (world m)" "T n" "regs m" r l] assms by (auto simp: st_ok_def lreg_def)

text \<open>The destination gets a value of its type.\<close>

lemma set_reg_goes:
  assumes "st_ok P T n m" and "set_reg d v m = Some m'" and "conf (kinds (world m)) t v"
    and "weaker ((T n)(d := t)) (T n')" and "pc m = n'"
  shows "goes P T n' m m'"
proof -
  have m': "m' = m\<lparr>regs := (regs m)[d := v]\<rparr>"
    using assms(2) by (auto simp: set_reg_def put_reg_def split: if_splits)
  have "conforms (kinds (world m)) ((T n)(d := t)) ((regs m)[d := v])"
    using assms(1,3) by (intro conforms_upd) (simp_all add: st_ok_def)
  then have "conforms (kinds (world m)) (T n') ((regs m)[d := v])" by (rule conforms_weaker [OF _ assms(4)])
  then show ?thesis using assms(1,5) unfolding m' by (simp add: goes_def st_ok_def)
qed

lemma set_reg_any:
  assumes "st_ok P T n m" and "set_reg d v m = Some m'" and "value_wf (kinds (world m)) v"
    and "weaker (forget {d} (T n)) (T n')" and "pc m = n'"
  shows "goes P T n' m m'"
  using set_reg_goes [OF assms(1,2), of TAny] assms(3-5) by (simp add: forget_single)

lemma st_ok_weaker: "st_ok P T n m \<Longrightarrow> weaker (T n) (T n') \<Longrightarrow> st_ok P T n' m"
  by (auto simp: st_ok_def intro: conforms_weaker)

lemma goes_same: "st_ok P T n m \<Longrightarrow> weaker (T n) (T n') \<Longrightarrow> pc m = n' \<Longrightarrow> goes P T n' m m"
  by (simp add: goes_def st_ok_weaker)

lemma st_ok_world:
  assumes "st_ok P T n m" and "world_wf w" and "extends (world m) w"
  shows "st_ok P T n (m\<lparr>world := w\<rparr>)"
  using assms conforms_mono [OF extends_kinds [OF assms(3)]] pending_mono [OF extends_kinds [OF assms(3)]]
  by (simp add: st_ok_def)

lemma goes_world:
  assumes "goes P T n (m\<lparr>world := w\<rparr>) m'" and "extends (world m) w"
  shows "goes P T n m m'"
  using assms extends_trans by (auto simp: goes_def)

lemma st_ok_kern:
  assumes "st_ok P T n m" and "api (kern m) k"
  shows "st_ok P T n (m\<lparr>kern := k\<rparr>)"
proof -
  have "keeps (kern m) k" using assms by (auto simp: st_ok_def intro: api_keeps)
  then show ?thesis using assms(1) by (simp add: st_ok_def keeps_def)
qed

lemma goes_kern:
  assumes "st_ok P T n m" and "api (kern m) k" and "weaker (T n) (T n')" and "pc m = n'"
  shows "goes P T n' m (m\<lparr>kern := k\<rparr>)"
  using st_ok_weaker [OF st_ok_kern [OF assms(1,2)] assms(3)] assms(2,4) by (auto simp: goes_def)

lemma goes_notify:
  assumes "goes P T n m m'"
  shows "goes P T n m (with_kern notify_runtime_change m')"
proof -
  have "api (kern m') (notify_runtime_change (kern m'))" by (rule api_runtime)
  moreover have "st_ok P T n m'" "api\<^sup>*\<^sup>* (kern m) (kern m')" "extends (world m) (world m')" "pc m' = n"
    using assms by (simp_all add: goes_def)
  ultimately show ?thesis
    using st_ok_kern rtranclp.rtrancl_into_rtrancl by (simp add: goes_def with_kern_def)
qed

section \<open>Data movement\<close>

lemma net_value_ok:
  assumes "kernel_ok k" and "net_value net k = Some l"
  shows "wf_lv l \<and> width l = net_width (profile_of k) net \<and> net < length (nets k)"
proof -
  have net: "net < length (nets k)" "l = nvalue (nets k ! net)"
    using assms(2) by (auto simp: net_value_def at_def split: if_splits)
  have "net_ok (nets k ! net)" using shape_invD(1) [OF kernel_okD(1) [OF assms(1)] net(1)] .
  then show ?thesis using net by (simp add: net_ok_def net_width_def profile_simps)
qed

lemma queue_update_set: "set (queue_update d v ps) \<subseteq> insert (d, v) (set ps)"
  by (induction ps rule: queue_update.induct) auto

lemma pending_ok_update:
  "pending_ok K T ps \<Longrightarrow> value_wf K v \<Longrightarrow> \<forall>n. T n d = TAny \<Longrightarrow> pending_ok K T (queue_update d v ps)"
  using queue_update_set [of d v ps] by (fastforce simp: pending_ok_def)

lemma closed_value: "value_wf Map.empty v \<Longrightarrow> value_wf K v"
  by (rule value_wf_mono [of Map.empty]) (simp_all add: map_le_def)

text \<open>A copy conforms to the type of the original.\<close>

lemma copy_conf:
  assumes "assignment_copy v w = Some (v', w')" and "world_wf w" and "conf (kinds w) t v"
  shows "conf (kinds w') t v' \<and> world_wf w' \<and> extends w w'"
proof -
  note spec = assignment_copy_spec [OF assms(1,2) conf_value [OF assms(3)]]
  show ?thesis
  proof (cases t)
    case (TBits n)
    then have "array_addr v = None" using assms(3) by auto
    then show ?thesis using assms by (auto simp: assignment_copy_id)
  qed (use spec in simp)
qed

lemma exec_data_goes:
  assumes "exec_data prog i m = Some m'" and "st_ok P T n m" and "wt_data P prog T n i" and "wt_body P prog T"
    and "pc m = Suc n"
  shows "goes P T (Suc n) m m'"
proof -
  have W: "world_wf (world m)" and K: "kernel_ok (kern m)" and P: "profile_of (kern m) = P"
    using assms(2) by (simp_all add: st_ok_def)
  have copy: "st_ok P T n (m\<lparr>world := w\<rparr>) \<and> extends (world m) w \<and> conf (kinds w) (T n s) v'"
    if "reg s m = Some v" "assignment_copy v (world m) = Some (v', w)" for s v v' w
    using copy_conf [OF that(2) W reg_conf [OF assms(2) that(1)]] st_ok_world [OF assms(2)] by blast
  show ?thesis
  proof (cases i)
    case (LoadConst d k)
    then obtain v where v: "at (pconsts prog) k = Some v" "set_reg d v m = Some m'"
      using assms(1) by (auto simp: exec_data_def split: bind_splits)
    have "value_wf Map.empty v"
      using v(1) assms(4) by (auto simp: at_def wt_body_def list_all_length split: if_splits)
    then have "conf (kinds (world m)) (const_type prog k) v"
      using closed_value v(1) by (cases v) (auto simp: const_type_def)
    then show ?thesis using set_reg_goes [OF assms(2) v(2)] assms(3,5) LoadConst by (simp add: wt_data_def)
  next
    case (Mov d s)
    then obtain v where v: "reg s m = Some v" "set_reg d v m = Some m'"
      using assms(1) by (auto simp: exec_data_def split: bind_splits)
    show ?thesis
      using set_reg_goes [OF assms(2) v(2) reg_conf [OF assms(2) v(1)]] assms(3,5) Mov by (simp add: wt_data_def)
  next
    case (Resize d s w sg)
    then obtain l r where l: "lreg s m = Some l" "resize_chk l w sg = Some r" "set_reg d (Logic r) m = Some m'"
      using assms(1) by (auto simp: exec_data_def split: bind_splits)
    have "wf_lv r \<and> width r = w"
      using resize_chk_shape [OF lreg_conf(1) [OF assms(2) l(1)] l(2)] assms(3) Resize by (simp add: wt_data_def)
    then show ?thesis
      using set_reg_goes [OF assms(2) l(3), of "TBits w"] assms(3,5) Resize by (simp add: wt_data_def)
  next
    case (Assign d s)
    then obtain v v' w where v: "reg s m = Some v" "assignment_copy v (world m) = Some (v', w)"
      "set_reg d v' (m\<lparr>world := w\<rparr>) = Some m'"
      using assms(1) by (auto simp: exec_data_def split: bind_splits)
    note c = copy [OF v(1,2)]
    have "goes P T (Suc n) (m\<lparr>world := w\<rparr>) m'"
      using set_reg_goes [OF _ v(3), of P T n "T n s"] c assms(3,5) Assign by (simp add: wt_data_def)
    then show ?thesis using c goes_world by blast
  next
    case (NbaAssign d s)
    then obtain v v' w where v: "reg s m = Some v" "assignment_copy v (world m) = Some (v', w)"
      and m': "m' = m\<lparr>world := w, pending_nba := queue_update d v' (pending_nba m)\<rparr>"
      using assms(1) by (auto simp: exec_data_def split: bind_splits)
    note c = copy [OF v(1,2)]
    have wt: "\<forall>n. T n d = TAny" "weaker (T n) (T (Suc n))" using assms(3) NbaAssign by (simp_all add: wt_data_def)
    have "st_ok P T (Suc n) (m\<lparr>world := w\<rparr>)" using st_ok_weaker c wt(2) by blast
    then have "st_ok P T (Suc n) m'"
      using pending_ok_update [of "kinds w" T "pending_nba m" v' d] c wt(1) conf_value by (auto simp: st_ok_def m')
    then show ?thesis using c assms(5) by (simp add: goes_def m')
  next
    case (NetRead d net)
    then obtain l where l: "net_value net (kern m) = Some l" "set_reg d (Logic l) m = Some m'"
      using assms(1) by (auto simp: exec_data_def split: bind_splits)
    show ?thesis
      using set_reg_goes [OF assms(2) l(2), of "TBits (net_width P net)"] net_value_ok [OF K l(1)] P assms(3,5) NetRead
      by (simp add: wt_data_def)
  next
    case (MemoryRead d mem ix)
    then obtain md v e l where md: "at (memories prog) mem = Some md" "memory_element md v = Some e"
      "set_reg d (Logic l) m = Some m'"
      "(case e of Some net \<Rightarrow> net_value net (kern m)
        | None \<Rightarrow> map_option (\<lambda>_. all_x (element_width md)) (zero_chk (element_width md))) = Some l"
      using assms(1) by (auto simp: exec_data_def split: bind_splits)
    have mok: "memory_ok P md"
      using md(1) assms(4) by (auto simp: at_def wt_body_def list_all_length split: if_splits)
    have "wf_lv l \<and> width l = element_width md"
    proof (cases e)
      case None
      then show ?thesis using md(4) mok by (auto simp: zero_chk_def memory_ok_def split: if_splits)
    next
      case (Some net)
      then have "net_value net (kern m) = Some l" using md(4) by simp
      from net_value_ok [OF K this] show ?thesis
        using memory_element_in [of md v net] md(2) Some mok P by (simp add: memory_ok_def)
    qed
    then show ?thesis
      using set_reg_goes [OF assms(2) md(3), of "TBits (element_width md)"] assms(3,5) MemoryRead md(1)
      by (simp add: wt_data_def)
  qed
qed

section \<open>Four-state ALU\<close>

lemma unary_goes:
  assumes "unary f d a m = Some m'" and "st_ok P T n m" and "pc m = n'" and "weaker ((T n)(d := t)) (T n')"
    and "\<And>x. wf_lv x \<Longrightarrow> (\<And>w. T n a = TBits w \<Longrightarrow> width x = w) \<Longrightarrow> conf (kinds (world m)) t (Logic (f x))"
  shows "goes P T n' m m'"
proof -
  obtain x where x: "lreg a m = Some x" "set_reg d (Logic (f x)) m = Some m'"
    using assms(1) by (auto simp: unary_def split: bind_splits)
  show ?thesis
    by (rule set_reg_goes [OF assms(2) x(2) assms(5) assms(4,3)]) (use lreg_conf [OF assms(2) x(1)] in auto)
qed

lemma binary_goes:
  assumes "binary f d a b m = Some m'" and "st_ok P T n m" and "pc m = n'" and "weaker ((T n)(d := t)) (T n')"
    and "\<And>x y. wf_lv x \<Longrightarrow> wf_lv y \<Longrightarrow> (\<And>w. T n a = TBits w \<Longrightarrow> width x = w) \<Longrightarrow>
      (\<And>w. T n b = TBits w \<Longrightarrow> width y = w) \<Longrightarrow> conf (kinds (world m)) t (Logic (f x y))"
  shows "goes P T n' m m'"
proof -
  obtain x y where x: "lreg a m = Some x" "lreg b m = Some y" "set_reg d (Logic (f x y)) m = Some m'"
    using assms(1) by (auto simp: binary_def split: bind_splits)
  show ?thesis
    by (rule set_reg_goes [OF assms(2) x(3) assms(5) assms(4,3)])
      (use lreg_conf [OF assms(2) x(1)] lreg_conf [OF assms(2) x(2)] in auto)
qed

text \<open>The width of a result is that of its operand, that of the wider operand, or 1.\<close>

lemma unary_same:
  assumes "unary f d a m = Some m'" and "st_ok P T n m" and "pc m = n'" and "weaker ((T n)(d := T n a)) (T n')"
    and "\<And>x. wf_lv x \<Longrightarrow> wf_lv (f x) \<and> width (f x) = width x"
  shows "goes P T n' m m'"
  by (rule unary_goes [OF assms(1-4)]) (use assms(5) in \<open>cases "T n a"; simp\<close>)

lemma unary_bit:
  assumes "unary f d a m = Some m'" and "st_ok P T n m" and "pc m = n'" and "weaker ((T n)(d := TBits 1)) (T n')"
    and "\<And>x. wf_lv x \<Longrightarrow> wf_lv (f x) \<and> width (f x) = 1"
  shows "goes P T n' m m'"
  by (rule unary_goes [OF assms(1-4)]) (use assms(5) in simp)

lemma conf_wider:
  "wf_lv l \<and> width l = max (width x) (width y) \<Longrightarrow> (\<And>w. t = TBits w \<Longrightarrow> width x = w) \<Longrightarrow>
    (\<And>w. u = TBits w \<Longrightarrow> width y = w) \<Longrightarrow> conf K (wider t u) (Logic l)"
  by (cases "(t, u)" rule: wider.cases) simp_all

lemma binary_wider:
  assumes "binary f d a b m = Some m'" and "st_ok P T n m" and "pc m = n'"
    and "weaker ((T n)(d := wider (T n a) (T n b))) (T n')"
    and "\<And>x y. wf_lv x \<Longrightarrow> wf_lv y \<Longrightarrow> wf_lv (f x y) \<and> width (f x y) = max (width x) (width y)"
  shows "goes P T n' m m'"
proof (rule binary_goes [OF assms(1-4)])
  fix x y assume "wf_lv x" "wf_lv y" and "\<And>w. T n a = TBits w \<Longrightarrow> width x = w" "\<And>w. T n b = TBits w \<Longrightarrow> width y = w"
  then show "conf (kinds (world m)) (wider (T n a) (T n b)) (Logic (f x y))"
    by (intro conf_wider [of _ x y]) (use assms(5) in auto)
qed

lemma binary_first:
  assumes "binary f d a b m = Some m'" and "st_ok P T n m" and "pc m = n'" and "weaker ((T n)(d := T n a)) (T n')"
    and "\<And>x y. wf_lv x \<Longrightarrow> wf_lv y \<Longrightarrow> wf_lv (f x y) \<and> width (f x y) = width x"
  shows "goes P T n' m m'"
  by (rule binary_goes [OF assms(1-4)]) (use assms(5) in \<open>cases "T n a"; simp\<close>)

lemma binary_bit:
  assumes "binary f d a b m = Some m'" and "st_ok P T n m" and "pc m = n'" and "weaker ((T n)(d := TBits 1)) (T n')"
    and "\<And>x y. wf_lv x \<Longrightarrow> wf_lv y \<Longrightarrow> wf_lv (f x y) \<and> width (f x y) = 1"
  shows "goes P T n' m m'"
  by (rule binary_goes [OF assms(1-4)]) (use assms(5) in simp)

lemma conf_bit: "wf_lv l \<and> width l = 1 \<Longrightarrow> conf K (TBits 1) (Logic l)"
  by simp

lemma select_conf:
  assumes "conf K t x" and "conf K u y"
  shows "conf K (wider t u) (case (x, y) of (Logic a, Logic b) \<Rightarrow> Logic (conditional c a b)
      | _ \<Rightarrow> (if values_identical x y then x else Null))"
proof (cases "\<exists>a b. x = Logic a \<and> y = Logic b")
  case True
  then show ?thesis
    using assms conf_value [OF assms(1)] conf_value [OF assms(2)] by (cases "(t, u)" rule: wider.cases) auto
next
  case False
  then have "wider t u = TAny" using assms by (cases "(t, u)" rule: wider.cases) auto
  then show ?thesis using False conf_value [OF assms(1)] by (cases x; cases y) auto
qed

lemma exec_alu_goes:
  assumes "exec_alu i m = Some m'" and "st_ok P T n m" and "pc m = n'"
    and "weaker ((T n)(fst (alu_type (T n) i) := snd (alu_type (T n) i))) (T n')"
  shows "goes P T n' m m'"
proof -
  note facts = assms(2,3) and alu = assms(1,4) [unfolded exec_alu_def alu_type_def]
  show ?thesis
  proof (cases i)
    case (Mul d a b)
    then obtain x y r where x: "lreg a m = Some x" "lreg b m = Some y" "mul x y = Some r" "set_reg d (Logic r) m = Some m'"
      using assms(1) by (auto simp: exec_alu_def split: bind_splits)
    have "conf (kinds (world m)) (wider (T n a) (T n b)) (Logic r)"
      by (rule conf_wider [of r x y])
        (use lreg_conf [OF assms(2) x(1)] lreg_conf [OF assms(2) x(2)] wf_arith(3) [OF _ _ x(3)] in auto)
    from set_reg_goes [OF assms(2) x(4) this _ assms(3)] show ?thesis using assms(4) by (simp add: Mul alu_type_def)
  next
    case (Eq d a b)
    then obtain x y where x: "set_reg d (Logic (eval_eq x y)) m = Some m'"
      using assms(1) by (auto simp: exec_alu_def split: bind_splits)
    show ?thesis
      by (rule set_reg_goes [OF assms(2) x conf_bit [OF wf_eval_eq]]) (use assms(3,4) in \<open>simp_all add: Eq alu_type_def\<close>)
  next
    case (Neq d a b)
    then obtain x y where x: "set_reg d (Logic (lognot (eval_eq x y))) m = Some m'"
      using assms(1) by (auto simp: exec_alu_def split: bind_splits)
    show ?thesis
      by (rule set_reg_goes [OF assms(2) x conf_bit]) (use assms(3,4) in \<open>simp_all add: Neq alu_type_def\<close>)
  next
    case (LogAnd d a b)
    then obtain v where x: "set_reg d (Logic (one v)) m = Some m'"
      using assms(1) by (auto simp: exec_alu_def split: bind_splits)
    show ?thesis
      by (rule set_reg_goes [OF assms(2) x conf_bit [OF wf_one]]) (use assms(3,4) in \<open>simp_all add: LogAnd alu_type_def\<close>)
  next
    case (LogOr d a b)
    then obtain v where x: "set_reg d (Logic (one v)) m = Some m'"
      using assms(1) by (auto simp: exec_alu_def split: bind_splits)
    show ?thesis
      by (rule set_reg_goes [OF assms(2) x conf_bit [OF wf_one]]) (use assms(3,4) in \<open>simp_all add: LogOr alu_type_def\<close>)
  next
    case (IsKnown d a)
    then obtain v where x: "set_reg d (Logic (one v)) m = Some m'"
      using assms(1) by (auto simp: exec_alu_def split: bind_splits)
    show ?thesis
      by (rule set_reg_goes [OF assms(2) x conf_bit [OF wf_one]]) (use assms(3,4) in \<open>simp_all add: IsKnown alu_type_def\<close>)
  next
    case (Select d c t f)
    then obtain l x y where x: "lreg c m = Some l" "reg t m = Some x" "reg f m = Some y" and
      s: "set_reg d (case (x, y) of (Logic a, Logic b) \<Rightarrow> Logic (conditional l a b)
         | _ \<Rightarrow> (if values_identical x y then x else Null)) m = Some m'"
      using assms(1) by (auto simp: exec_alu_def split: bind_splits)
    from set_reg_goes [OF assms(2) s select_conf [OF reg_conf [OF assms(2) x(2)] reg_conf [OF assms(2) x(3)]] _ assms(3)]
    show ?thesis using assms(4) by (simp add: Select alu_type_def)
  next
    case (Not d a)
    note op = alu [unfolded Not AluInst.case fst_conv snd_conv]
    show ?thesis by (rule unary_same [OF op(1) facts op(2)]) simp_all
  next
    case (Add d a b)
    note op = alu [unfolded Add AluInst.case fst_conv snd_conv]
    show ?thesis by (rule binary_wider [OF op(1) facts op(2)]) (simp_all add: wf_arith(1))
  next
    case (Sub d a b)
    note op = alu [unfolded Sub AluInst.case fst_conv snd_conv]
    show ?thesis by (rule binary_wider [OF op(1) facts op(2)]) (simp_all add: wf_arith(2))
  next
    case (And d a b)
    note op = alu [unfolded And AluInst.case fst_conv snd_conv]
    show ?thesis by (rule binary_wider [OF op(1) facts op(2)]) simp_all
  next
    case (Or d a b)
    note op = alu [unfolded Or AluInst.case fst_conv snd_conv]
    show ?thesis by (rule binary_wider [OF op(1) facts op(2)]) simp_all
  next
    case (Xor d a b)
    note op = alu [unfolded Xor AluInst.case fst_conv snd_conv]
    show ?thesis by (rule binary_wider [OF op(1) facts op(2)]) simp_all
  next
    case (Lt d a b)
    note op = alu [unfolded Lt AluInst.case fst_conv snd_conv]
    show ?thesis by (rule binary_bit [OF op(1) facts op(2)]) (simp_all add: wf_compares)
  next
    case (Le d a b)
    note op = alu [unfolded Le AluInst.case fst_conv snd_conv]
    show ?thesis by (rule binary_bit [OF op(1) facts op(2)]) (simp_all add: wf_compares)
  next
    case (Gt d a b)
    note op = alu [unfolded Gt AluInst.case fst_conv snd_conv]
    show ?thesis by (rule binary_bit [OF op(1) facts op(2)]) (simp_all add: wf_compares)
  next
    case (Ge d a b)
    note op = alu [unfolded Ge AluInst.case fst_conv snd_conv]
    show ?thesis by (rule binary_bit [OF op(1) facts op(2)]) (simp_all add: wf_compares)
  next
    case (SignedLt d a b)
    note op = alu [unfolded SignedLt AluInst.case fst_conv snd_conv]
    show ?thesis by (rule binary_bit [OF op(1) facts op(2)]) (simp_all add: wf_compares)
  next
    case (SignedLe d a b)
    note op = alu [unfolded SignedLe AluInst.case fst_conv snd_conv]
    show ?thesis by (rule binary_bit [OF op(1) facts op(2)]) (simp_all add: wf_compares)
  next
    case (SignedGt d a b)
    note op = alu [unfolded SignedGt AluInst.case fst_conv snd_conv]
    show ?thesis by (rule binary_bit [OF op(1) facts op(2)]) (simp_all add: wf_compares)
  next
    case (SignedGe d a b)
    note op = alu [unfolded SignedGe AluInst.case fst_conv snd_conv]
    show ?thesis by (rule binary_bit [OF op(1) facts op(2)]) (simp_all add: wf_compares)
  next
    case (Shl d a b)
    note op = alu [unfolded Shl AluInst.case fst_conv snd_conv]
    show ?thesis by (rule binary_first [OF op(1) facts op(2)]) simp_all
  next
    case (Shr d a b)
    note op = alu [unfolded Shr AluInst.case fst_conv snd_conv]
    show ?thesis by (rule binary_first [OF op(1) facts op(2)]) simp_all
  next
    case (Ashr d a b)
    note op = alu [unfolded Ashr AluInst.case fst_conv snd_conv]
    show ?thesis by (rule binary_first [OF op(1) facts op(2)]) simp_all
  next
    case (LogNot d a)
    note op = alu [unfolded LogNot AluInst.case fst_conv snd_conv]
    show ?thesis by (rule unary_bit [OF op(1) facts op(2)]) simp_all
  next
    case (Neg d a)
    note op = alu [unfolded Neg AluInst.case fst_conv snd_conv]
    show ?thesis by (rule unary_same [OF op(1) facts op(2)]) (simp_all add: wf_arith(4))
  next
    case (ReduceAnd d a)
    note op = alu [unfolded ReduceAnd AluInst.case fst_conv snd_conv]
    show ?thesis by (rule unary_bit [OF op(1) facts op(2)]) simp_all
  next
    case (ReduceOr d a)
    note op = alu [unfolded ReduceOr AluInst.case fst_conv snd_conv]
    show ?thesis by (rule unary_bit [OF op(1) facts op(2)]) simp_all
  next
    case (ReduceXor d a)
    note op = alu [unfolded ReduceXor AluInst.case fst_conv snd_conv]
    show ?thesis by (rule unary_bit [OF op(1) facts op(2)]) simp_all
  qed
qed

section \<open>Net updates\<close>

lemma lreg_value_ok:
  "st_ok P T n m \<Longrightarrow> lreg s m = Some l \<Longrightarrow> net < length (fst P) \<Longrightarrow> T n s = TBits (net_width P net) \<Longrightarrow> value_ok P net l"
  using lreg_conf [of P T n m s l] by (simp add: value_ok_def net_width_def)

lemma element_value_ok:
  assumes "wt_body P prog T" and "at (memories prog) mem = Some md" and "memory_element md v = Some (Some net)"
    and "wf_lv l" and "resize_chk l (element_width md) False = Some r"
  shows "value_ok P net r"
proof -
  have "memory_ok P md" using assms(1) at_in [OF assms(2)] by (auto simp: wt_body_def list_all_iff)
  then show ?thesis
    using resize_chk_shape [OF assms(4,5)] memory_element_in [OF assms(3)]
    by (simp add: memory_ok_def value_ok_def net_width_def)
qed

lemma exec_net_goes:
  assumes "exec_net prog i m = Some m'" and "st_ok P T n m" and "wt_net P T n i" and "wt_body P prog T"
    and "pc m = Suc n"
  shows "goes P T (Suc n) m m'"
proof -
  have P: "profile_of (kern m) = P" using assms(2) by (simp add: st_ok_def)
  have fl: "weaker (T n) (T (Suc n))" using assms(3) by (simp add: wt_net_def)
  have api: "goes P T (Suc n) m (m\<lparr>kern := k\<rparr>)" if "api (kern m) k" for k
    by (rule goes_kern [OF assms(2) that fl assms(5)])
  have drv: "d < length (drivers (kern m))" if "at (drivers (kern m)) d = Some x" for d x
    using that by (auto simp: at_def split: if_splits)
  show ?thesis
  proof (cases i)
    case (BlockingWrite net s)
    then obtain l where l: "lreg s m = Some l" "m' = m\<lparr>kern := write_net net l (kern m)\<rparr>"
      using assms(1) by (auto simp: exec_net_def write_net_chk_def split: bind_splits if_splits)
    have "value_ok P net l" using lreg_value_ok [OF assms(2) l(1)] assms(3) by (simp add: BlockingWrite wt_net_def)
    then show ?thesis using api [OF api_write] l(2) P by simp
  next
    case (NbaWrite net s)
    then obtain l where l: "lreg s m = Some l" "m' = m\<lparr>kern := schedule_nba net l (kern m)\<rparr>"
      using assms(1) by (auto simp: exec_net_def with_kern_def split: bind_splits if_splits)
    have "value_ok P net l" using lreg_value_ok [OF assms(2) l(1)] assms(3) by (simp add: NbaWrite wt_net_def)
    then show ?thesis using api [OF api_nba] l(2) P by simp
  next
    case (BlockingMemoryWrite mem ix s)
    then obtain md v e where e: "at (memories prog) mem = Some md" "memory_element md v = Some e" and
      m': "(case e of None \<Rightarrow> Some m | Some net \<Rightarrow>
        do { l \<leftarrow> lreg s m; l \<leftarrow> resize_chk l (element_width md) False;
             k \<leftarrow> write_net_chk net l (kern m); Some (m\<lparr>kern := k\<rparr>) }) = Some m'"
      using assms(1) by (auto simp: exec_net_def split: bind_splits)
    show ?thesis
    proof (cases e)
      case None
      then show ?thesis using m' goes_same [OF assms(2) fl assms(5)] by simp
    next
      case (Some net)
      then obtain l r where l: "lreg s m = Some l" "resize_chk l (element_width md) False = Some r"
        "m' = m\<lparr>kern := write_net net r (kern m)\<rparr>"
        using m' by (auto simp: write_net_chk_def split: bind_splits if_splits)
      have "value_ok P net r"
        using element_value_ok [OF assms(4) e(1) _ lreg_conf(1) [OF assms(2) l(1)] l(2)] e(2) Some by simp
      then show ?thesis using api [OF api_write] l(3) P by simp
    qed
  next
    case (NbaMemoryWrite mem ix s)
    then obtain md v e where e: "at (memories prog) mem = Some md" "memory_element md v = Some e" and
      m': "(case e of None \<Rightarrow> Some m | Some net \<Rightarrow>
        do { l \<leftarrow> lreg s m; l \<leftarrow> resize_chk l (element_width md) False;
             Some (with_kern (schedule_nba net l) m) }) = Some m'"
      using assms(1) by (auto simp: exec_net_def split: bind_splits)
    show ?thesis
    proof (cases e)
      case None
      then show ?thesis using m' goes_same [OF assms(2) fl assms(5)] by simp
    next
      case (Some net)
      then obtain l r where l: "lreg s m = Some l" "resize_chk l (element_width md) False = Some r"
        "m' = m\<lparr>kern := schedule_nba net r (kern m)\<rparr>"
        using m' by (auto simp: with_kern_def split: bind_splits if_splits)
      have "value_ok P net r"
        using element_value_ok [OF assms(4) e(1) _ lreg_conf(1) [OF assms(2) l(1)] l(2)] e(2) Some by simp
      then show ?thesis using api [OF api_nba] l(3) P by simp
    qed
  next
    case (DriveNet d s)
    then obtain l x where l: "lreg s m = Some l" "at (drivers (kern m)) d = Some x"
      "m' = m\<lparr>kern := drive_net d l (kern m)\<rparr>"
      using assms(1) by (auto simp: exec_net_def with_kern_def split: bind_splits)
    then show ?thesis using api [OF api_drive [OF drv [OF l(2)] lreg_conf(1) [OF assms(2) l(1)]]] by simp
  next
    case (ScheduleDrive d s t)
    then obtain l x where l: "lreg s m = Some l" "at (drivers (kern m)) d = Some x"
      "m' = m\<lparr>kern := schedule_drive d l t (kern m)\<rparr>"
      using assms(1) by (auto simp: exec_net_def with_kern_def split: bind_splits)
    then show ?thesis using api [OF api_schedule [OF drv [OF l(2)] lreg_conf(1) [OF assms(2) l(1)]]] by simp
  next
    case (ScheduleDriveTransitions d s ds)
    then obtain l x where l: "lreg s m = Some l" "at (drivers (kern m)) d = Some x"
      "m' = m\<lparr>kern := schedule_drive_transitions d l ds (kern m)\<rparr>"
      using assms(1) by (auto simp: exec_net_def with_kern_def split: bind_splits)
    then show ?thesis using api [OF api_transitions [OF drv [OF l(2)] lreg_conf(1) [OF assms(2) l(1)]]] by simp
  qed
qed

section \<open>Suspension points and control flow\<close>

text \<open>What a step out of a frame carries is well formed.\<close>

fun step_ok :: "profile \<Rightarrow> Program \<Rightarrow> (nat \<rightharpoonup> nat) \<Rightarrow> (Reg \<Rightarrow> ty) \<Rightarrow> Step \<Rightarrow> bool" where
  "step_ok P prog K G (WaitStep wt) =
     (case wt of
        Edge net e \<Rightarrow> net < length (fst P)
      | Cond l \<Rightarrow> (\<forall>net \<in> set l. net < length (fst P))
      | Sensitivity l \<Rightarrow> False
      | Wait.Fork cs j \<Rightarrow> False
      | _ \<Rightarrow> True)"
| "step_ok P prog K G (CallStep f vals actuals ret) =
     (list_all (value_wf K) vals \<and> (\<forall>r \<in> insert ret (set actuals). G r = TAny))"
| "step_ok P prog K G (ReturnStep val) = (case val of None \<Rightarrow> True | Some v \<Rightarrow> value_wf K v)"
| "step_ok P prog K G (ForkStep cs j) =
     (\<forall>c \<in> set cs. fst c \<in> set (forks prog) \<and> (\<forall>p \<in> set (snd c). value_wf K (snd p)))"

lemma collect_in: "collect f xs = Some ys \<Longrightarrow> y \<in> set ys \<Longrightarrow> \<exists>x \<in> set xs. f x = Some y"
  by (induction xs arbitrary: ys) (auto split: bind_splits)

lemma collect_regs_wf:
  "st_ok P T n m \<Longrightarrow> collect (\<lambda>r. reg r m) rs = Some vs \<Longrightarrow> list_all (value_wf (kinds (world m))) vs"
  using collect_in [of "\<lambda>r. reg r m" rs vs] reg_conf conf_value by (fastforce simp: list_all_iff)

lemma fork_child_ok:
  assumes "fork_child prog m i = Some c" and "st_ok P T n m"
  shows "fst c \<in> set (forks prog) \<and> (\<forall>p \<in> set (snd c). value_wf (kinds (world m)) (snd p))"
proof -
  obtain caps vals q where c: "at (forks prog) i = Some q" "c = (q, vals)"
    "collect (\<lambda>(child, parent). map_option (\<lambda>v. (child, v)) (reg parent m)) caps = Some vals"
    using assms(1) by (auto simp: fork_child_def split: bind_splits)
  have "value_wf (kinds (world m)) (snd p)" if "p \<in> set vals" for p
    using collect_in [OF c(3) that] reg_conf [OF assms(2)] conf_value by fastforce
  then show ?thesis using c at_in by auto
qed

lemma exec_timing_ok:
  assumes "exec_timing prog i m = Some s" and "st_ok P T n m" and "wt_timing P prog T n i"
  shows "st_ok P T (Suc n) m \<and> step_ok P prog (kinds (world m)) (T (Suc n)) s"
proof -
  have "st_ok P T (Suc n) m" using assms(2,3) by (auto simp: wt_timing_def intro: st_ok_weaker)
  moreover have "step_ok P prog (kinds (world m)) (T (Suc n)) s"
  proof (cases i)
    case (Fork g j)
    then obtain bs cs where cs: "collect (fork_child prog m) bs = Some cs" "s = ForkStep cs j"
      using assms(1) by (auto simp: exec_timing_def split: bind_splits)
    then show ?thesis using collect_in [OF cs(1)] fork_child_ok [OF _ assms(2)] by fastforce
  next
    case (WaitCond l)
    then show ?thesis using assms(1,3) by (auto simp: exec_timing_def wt_timing_def at_def split: bind_splits if_splits)
  qed (use assms(1,3) in \<open>auto simp: exec_timing_def wt_timing_def split: bind_splits if_splits\<close>)
  ultimately show ?thesis by blast
qed

lemma call_step_ok:
  assumes "call_step prog f args ret m = Some s" and "st_ok P T n m"
    and "weaker (forget (insert ret (arg_regs prog args)) (T n)) (T (Suc n))"
  shows "st_ok P T (Suc n) m \<and> step_ok P prog (kinds (world m)) (T (Suc n)) s"
proof -
  let ?R = "insert ret (arg_regs prog args)"
  obtain actuals vals where s: "at (arglists prog) args = Some actuals" "collect (\<lambda>r. reg r m) actuals = Some vals"
    "s = CallStep f vals actuals ret"
    using assms(1) by (auto simp: call_step_def split: bind_splits)
  have "T (Suc n) r = TAny" if "r \<in> ?R" for r using assms(3) that by (auto simp: weaker_def forget_def)
  moreover have "weaker (T n) (T (Suc n))" using assms(3) by (auto simp: weaker_def forget_def split: if_splits)
  ultimately show ?thesis
    using st_ok_weaker [OF assms(2)] collect_regs_wf [OF assms(2) s(2)] s by (simp add: arg_regs_def)
qed

lemma exec_flow_ok:
  assumes "exec_flow lk prog provided i m = Some r" and "st_ok P T n m" and "wt_flow prog T n i" and "pc m = Suc n"
  shows "case r of Inl m' \<Rightarrow> goes P T (pc m') m m'
    | Inr s \<Rightarrow> st_ok P T (Suc n) m \<and> step_ok P prog (kinds (world m)) (T (Suc n)) s"
proof -
  have jump: "goes P T t m (m\<lparr>pc := t\<rparr>)" if "weaker (T n) (T t)" for t
    using st_ok_weaker [OF assms(2) that] by (simp add: goes_def st_ok_def)
  have branch: "goes P T (pc m') m m'"
    if "branch_if b t m = Inl m'" "weaker (T n) (T t)" "weaker (T n) (T (Suc n))" for b t m'
    using that jump [of t] goes_same [OF assms(2) that(3) assms(4)] assms(4)
    by (auto simp: branch_if_def split: if_splits)
  have ret: "st_ok P T (Suc n) m" if "weaker (T n) (T (Suc n))" using st_ok_weaker [OF assms(2) that] .
  show ?thesis
  proof (cases i)
    case (Jump t)
    then show ?thesis using assms(1,3) jump by (auto simp: exec_flow_def wt_flow_def)
  next
    case (BranchFalse c t)
    then obtain b where b: "r = branch_if b t m" using assms(1) by (auto simp: exec_flow_def split: bind_splits)
    show ?thesis
      using branch [OF _ _ _, of b t] assms(3) by (simp add: b branch_if_def BranchFalse wt_flow_def)
  next
    case (BranchTrue c t)
    then obtain b where b: "r = branch_if b t m" using assms(1) by (auto simp: exec_flow_def split: bind_splits)
    show ?thesis
      using branch [OF _ _ _, of b t] assms(3) by (simp add: b branch_if_def BranchTrue wt_flow_def)
  next
    case (BranchArgProvided a t)
    then obtain b where b: "r = branch_if b t m" using assms(1) by (auto simp: exec_flow_def split: bind_splits)
    show ?thesis
      using branch [OF _ _ _, of b t] assms(3) by (simp add: b branch_if_def BranchArgProvided wt_flow_def)
  next
    case (Call f args ret)
    then obtain s where "call_step prog f args ret m = Some s" "r = Inr s" using assms(1) by (auto simp: exec_flow_def)
    then show ?thesis using call_step_ok [OF _ assms(2)] assms(3) by (simp add: Call wt_flow_def)
  next
    case (CallVirtual ob vs args ret)
    then obtain f s where "call_step prog f args ret m = Some s" "r = Inr s"
      using assms(1) by (auto simp: exec_flow_def split: bind_splits)
    then show ?thesis using call_step_ok [OF _ assms(2)] assms(3) by (simp add: CallVirtual wt_flow_def)
  next
    case (Return v)
    then obtain x where x: "reg v m = Some x" "r = Inr (ReturnStep (Some x))"
      using assms(1) by (auto simp: exec_flow_def split: bind_splits)
    then show ?thesis using conf_value [OF reg_conf [OF assms(2) x(1)]] ret assms(3) by (simp add: Return wt_flow_def)
  next
    case ReturnVoid
    then show ?thesis using assms(1,3) ret by (auto simp: exec_flow_def wt_flow_def)
  qed
qed

end
