(* ===== verification/IR_Objects.thy ===== *)
theory IR_Objects
  imports IR_Sound
begin

text \<open>
  Soundness of the typing for the instructions that work on the store: objects and statics, arrays,
  text and host functions.
\<close>

section \<open>New instances\<close>

definition store_ok :: "World \<Rightarrow> World \<Rightarrow> Value list \<Rightarrow> bool" where
  "store_ok w w' vs \<longleftrightarrow> world_wf w' \<and> extends w w' \<and> list_all (value_wf (kinds w')) vs"

lemma store_ok_trans: "store_ok w w1 us \<Longrightarrow> store_ok w1 w2 vs \<Longrightarrow> store_ok w w2 vs"
  by (auto simp: store_ok_def intro: extends_trans)

lemma store_ok_keep: "store_ok w w1 us \<Longrightarrow> list_all (value_wf (kinds w)) vs \<Longrightarrow> store_ok w w1 vs"
  by (auto simp: store_ok_def intro: values_wf_mono extends_kinds)

lemma list_update_wf: "list_all P xs \<Longrightarrow> P v \<Longrightarrow> list_all P (xs[i := v])"
  unfolding list_all_iff using set_update_subset_insert by fastforce

lemma set_field_wf: "set_field xs i v = Some ys \<Longrightarrow> list_all P xs \<Longrightarrow> P v \<Longrightarrow> list_all P ys"
  by (auto simp: set_field_def list_update_wf split: if_splits)

lemma set_fields_wf: "set_fields vs xs = Some ys \<Longrightarrow> list_all P xs \<Longrightarrow> list_all P (map snd vs) \<Longrightarrow> list_all P ys"
  by (induction vs xs rule: set_fields.induct) (auto split: bind_splits dest: set_field_wf)

lemma new_value_ok:
  assumes "world_wf w"
  shows "new_queue w = (v, w') \<Longrightarrow> store_ok w w' [v]" and "new_assoc w = (v, w') \<Longrightarrow> store_ok w w' [v]"
    and "new_event w = (v, w') \<Longrightarrow> store_ok w w' [v]"
proof -
  show "store_ok w w' [v]" if q: "new_queue w = (v, w')"
  proof -
    obtain a where a: "alloc (QueueCell []) w = (a, w')" "v = Queue a"
      using q by (cases "alloc (QueueCell []) w") (simp add: new_queue_def)
    show ?thesis using alloc_wf [OF assms _ a(1)] by (simp add: store_ok_def a(2))
  qed
  show "store_ok w w' [v]" if q: "new_assoc w = (v, w')"
  proof -
    obtain a where a: "alloc (AssocCell []) w = (a, w')" "v = Assoc a"
      using q by (cases "alloc (AssocCell []) w") (simp add: new_assoc_def)
    show ?thesis using alloc_wf [OF assms _ a(1)] by (simp add: store_ok_def a(2))
  qed
  show "store_ok w w' [v]" if "new_event w = (v, w')"
    using that assms by (auto simp: store_ok_def new_event_def frame_wf)
qed

lemma store_ok_set_field:
  assumes "store_ok w w1 [v]" and "set_field xs i v = Some ys" and "list_all (value_wf (kinds w)) xs"
  shows "store_ok w w1 ys"
  using store_ok_keep [OF assms(1,3)] set_field_wf [OF assms(2)] assms(1) by (auto simp: store_ok_def)

lemma init_colls_ok:
  "init_colls cs xs w = Some (ys, w') \<Longrightarrow> world_wf w \<Longrightarrow> list_all (value_wf (kinds w)) xs \<Longrightarrow> store_ok w w' ys"
proof (induction cs xs w rule: init_colls.induct)
  case (2 slot b cs xs w)
  obtain v w1 where v: "(if b then new_assoc w else new_queue w) = (v, w1)" by fastforce
  then obtain zs where zs: "set_field xs slot v = Some zs" "init_colls cs zs w1 = Some (ys, w')"
    using "2.prems"(1) by (auto split: bind_splits)
  have "store_ok w w1 [v]" using v new_value_ok [OF "2.prems"(2)] by (cases b) simp_all
  then have ok: "store_ok w w1 zs" by (rule store_ok_set_field [OF _ zs(1) "2.prems"(3)])
  then have "store_ok w1 w' ys" using "2.IH" [OF v [symmetric] refl zs] by (simp add: store_ok_def)
  with ok show ?case by (rule store_ok_trans)
qed (simp add: store_ok_def)

lemma init_events_ok:
  "init_events ss xs w = Some (ys, w') \<Longrightarrow> world_wf w \<Longrightarrow> list_all (value_wf (kinds w)) xs \<Longrightarrow> store_ok w w' ys"
proof (induction ss xs w rule: init_events.induct)
  case (2 slot ss xs w)
  obtain v w1 where v: "new_event w = (v, w1)" by fastforce
  then obtain zs where zs: "set_field xs slot v = Some zs" "init_events ss zs w1 = Some (ys, w')"
    using "2.prems"(1) by (auto split: bind_splits)
  have ok: "store_ok w w1 zs" by (rule store_ok_set_field [OF new_value_ok(3) [OF "2.prems"(2) v] zs(1) "2.prems"(3)])
  then have "store_ok w1 w' ys" using "2.IH" [OF v [symmetric] refl zs] by (simp add: store_ok_def)
  with ok show ?case by (rule store_ok_trans)
qed (simp add: store_ok_def)

text \<open>Every object a call creates has its class.\<close>

definition has_class :: "World \<Rightarrow> Value \<Rightarrow> ClassId \<Rightarrow> bool" where
  "has_class w v cid \<longleftrightarrow> (\<exists>a d. v = Obj a \<and> cells w a = Some (ObjCell d) \<and> class_of d = cid)"

lemma has_class_extends: "has_class w v cid \<Longrightarrow> extends w w' \<Longrightarrow> has_class w' v cid"
  by (fastforce simp: has_class_def extends_def)

lemma list_all_closed: "list_all (value_wf Map.empty) vs \<Longrightarrow> list_all (value_wf K) vs"
  by (auto simp: list_all_iff intro: closed_value)

lemma new_instances_ok:
  assumes "new_instances defs cids w = Some r" and "world_wf w"
    and "\<forall>def \<in> set defs. list_all (value_wf Map.empty) (field_defaults def)"
  shows "store_ok w (snd r) (fst r) \<and> list_all2 (has_class (snd r)) (fst r) cids"
  using assms
proof (induction arbitrary: rule: new_instances.raw_induct [rotated, consumes 1, case_names new])
  case (new inst defs cids w r)
  show ?case
  proof (cases cids)
    case Nil
    then show ?thesis using new(2,3) by (auto simp: store_ok_def)
  next
    case (Cons cid rest)
    define def where "def = defs ! cid"
    obtain xs w1 subs w2 ys zs w3 a w4 vs w5 where
      cid: "cid < length defs" and
      xs: "init_colls (coll_fields def) (field_defaults def) w = Some (xs, w1)" and
      subs: "inst defs (map snd (struct_fields def)) w1 = Some (subs, w2)" and
      ys: "set_fields (zip (map fst (struct_fields def)) subs) xs = Some ys" and
      zs: "init_events (event_fields def) ys w2 = Some (zs, w3)" and
      a: "alloc (ObjCell \<lparr>class_of = cid, obj_fields = zs\<rparr>) w3 = (a, w4)" and
      vs: "inst defs rest w4 = Some (vs, w5)" and r: "r = (Obj a # vs, w5)"
      using new(2) unfolding Cons def_def by (auto split: bind_splits if_splits prod.splits)
    have "list_all (value_wf (kinds w)) (field_defaults def)"
      using new(4) cid by (simp add: def_def list_all_closed)
    then have s1: "store_ok w w1 xs" by (rule init_colls_ok [OF xs new(3)])
    then have "store_ok w1 w2 subs"
      using new(1) [OF subs _ new(4)] by (simp add: store_ok_def)
    then have s2: "store_ok w w2 subs" "extends w1 w2" using store_ok_trans [OF s1] by (simp_all add: store_ok_def)
    then have "list_all (value_wf (kinds w2)) xs" using s1
      by (auto simp: store_ok_def intro: values_wf_mono [OF extends_kinds])
    moreover have "list_all (value_wf (kinds w2)) (map snd (zip (map fst (struct_fields def)) subs))"
      using s2 by (auto simp: store_ok_def list_all_iff dest: set_zip_rightD)
    ultimately have "list_all (value_wf (kinds w2)) ys" by (rule set_fields_wf [OF ys])
    then have "store_ok w2 w3 zs" using init_events_ok [OF zs] s2 by (simp add: store_ok_def)
    then have s3: "store_ok w w3 zs" by (rule store_ok_trans [OF s2(1)])
    then have w3: "world_wf w3" "cell_wf (kinds w3) (ObjCell \<lparr>class_of = cid, obj_fields = zs\<rparr>)"
      by (simp_all add: store_ok_def)
    note al = alloc_wf [OF w3 a]
    then have s4: "store_ok w w4 [Obj a]" using s3 by (auto simp: store_ok_def intro: extends_trans)
    have "store_ok w4 w5 vs \<and> list_all2 (has_class w5) vs rest"
      using new(1) [OF vs al(1) new(4)] by simp
    moreover from this have "store_ok w w5 [Obj a]"
      using s4 store_ok_trans [OF s4 store_ok_keep [of w4 w5 vs "[Obj a]"]] by (simp add: store_ok_def)
    moreover have "has_class w5 (Obj a) cid"
      by (rule has_class_extends [of w4]) (use al(6) calculation in \<open>simp_all add: has_class_def store_ok_def\<close>)
    ultimately show ?thesis by (simp add: Cons r store_ok_def)
  qed
qed

lemma new_instance_ok:
  assumes "new_instance defs cid w = Some (v, w')" and "world_wf w"
    and "\<forall>def \<in> set defs. list_all (value_wf Map.empty) (field_defaults def)"
  shows "store_ok w w' [v] \<and> has_class w' v cid"
proof -
  obtain vs where vs: "new_instances defs [cid] w = Some (vs, w')" "v = hd vs"
    using assms(1) by (auto simp: new_instance_def)
  from new_instances_ok [OF vs(1) assms(2,3)] obtain u where "vs = [u]" by (auto simp: list_all2_Cons2)
  then show ?thesis using new_instances_ok [OF vs(1) assms(2,3)] vs(2) by simp
qed

section \<open>Objects and statics\<close>

lemma goes_store:
  assumes "st_ok P T n m" and "store_ok (world m) w [v]" and "set_reg d v (m\<lparr>world := w\<rparr>) = Some m'"
    and "weaker (forget {d} (T n)) (T n')" and "pc m = n'"
  shows "goes P T n' m m'"
proof -
  have "st_ok P T n (m\<lparr>world := w\<rparr>)" using assms(1,2) st_ok_world by (simp add: store_ok_def)
  from set_reg_any [OF this assms(3)] have "goes P T n' (m\<lparr>world := w\<rparr>) m'"
    using assms(2,4,5) by (simp add: store_ok_def)
  then show ?thesis using assms(2) goes_world by (auto simp: store_ok_def)
qed

lemma goes_store_only:
  assumes "st_ok P T n m" and "world_wf w" and "extends (world m) w" and "weaker (T n) (T n')" and "pc m = n'"
  shows "goes P T n' m (m\<lparr>world := w\<rparr>)"
  using st_ok_weaker [OF st_ok_world [OF assms(1-3)] assms(4)] assms(3,5) by (simp add: goes_def)

lemma set_statics_wf:
  assumes "world_wf w" and "set_field (statics w) i v = Some xs" and "value_wf (kinds w) v"
  shows "world_wf (w\<lparr>statics := xs\<rparr>) \<and> extends w (w\<lparr>statics := xs\<rparr>)"
proof -
  have "list_all (value_wf (kinds w)) xs"
    using set_field_wf [OF assms(2)] assms(1,3) by (simp add: world_wf_def)
  moreover have "length xs = length (statics w)" using assms(2) by (auto simp: set_field_def split: if_splits)
  ultimately show ?thesis using assms(1) by (simp add: world_wf_def extends_def frame_wf)
qed

lemma set_obj_wf:
  assumes "world_wf w" and "cells w a = Some (ObjCell d)" and "cell_wf (kinds w) (ObjCell (d\<lparr>obj_fields := xs\<rparr>))"
  shows "world_wf (w\<lparr>cells := (cells w)(a \<mapsto> ObjCell (d\<lparr>obj_fields := xs\<rparr>))\<rparr>)"
    and "extends w (w\<lparr>cells := (cells w)(a \<mapsto> ObjCell (d\<lparr>obj_fields := xs\<rparr>))\<rparr>)"
proof -
  have k: "cell_kind (ObjCell (d\<lparr>obj_fields := xs\<rparr>)) = cell_kind (ObjCell d)" by simp
  have "class_of e' = class_of e" if e: "ObjCell d = ObjCell e" "ObjCell (d\<lparr>obj_fields := xs\<rparr>) = ObjCell e'" for e e'
    using e by auto
  note set_cell_wf [OF assms k this]
  then show "world_wf (w\<lparr>cells := (cells w)(a \<mapsto> ObjCell (d\<lparr>obj_fields := xs\<rparr>))\<rparr>)"
    and "extends w (w\<lparr>cells := (cells w)(a \<mapsto> ObjCell (d\<lparr>obj_fields := xs\<rparr>))\<rparr>)" by blast+
qed

lemma event_reg_goes:
  "st_ok P T n m \<Longrightarrow> weaker (T n) (T n') \<Longrightarrow> pc m = n' \<Longrightarrow> goes P T n' m (with_kern (trigger_event e) m)"
  unfolding with_kern_def by (rule goes_kern [OF _ api_event])

lemma exec_obj_goes:
  assumes "exec_obj lk i m = Some m'" and "st_ok P T n m" and "wt_obj T n i" and "linkage_ok P lk" and "pc m = Suc n"
  shows "goes P T (Suc n) m m'"
proof -
  have W: "world_wf (world m)" using assms(2) by (simp add: st_ok_def)
  have reg: "value_wf (kinds (world m)) v" if "reg r m = Some v" for r v
    using conf_value [OF reg_conf [OF assms(2) that]] .
  have copy: "store_ok (world m) w [v']" if "reg s m = Some v" "assignment_copy v (world m) = Some (v', w)" for s v v' w
    using assignment_copy_spec [OF that(2) W reg [OF that(1)]] by (simp add: store_ok_def)
  show ?thesis
  proof (cases i)
    case (New d c)
    then obtain v w where v: "new_instance (classes lk) c (world m) = Some (v, w)" "set_reg d v (m\<lparr>world := w\<rparr>) = Some m'"
      using assms(1) by (auto simp: exec_obj_def split: bind_splits)
    have "store_ok (world m) w [v]" using new_instance_ok [OF v(1) W] assms(4) by (simp add: linkage_ok_def)
    from goes_store [OF assms(2) this v(2)] show ?thesis using assms(3,5) by (simp add: New wt_obj_def)
  next
    case (NewEvent d)
    then obtain v w where v: "new_event (world m) = (v, w)" "set_reg d v (m\<lparr>world := w\<rparr>) = Some m'"
      using assms(1) by (cases "new_event (world m)") (auto simp: exec_obj_def)
    from goes_store [OF assms(2) new_value_ok(3) [OF W v(1)] v(2)] show ?thesis
      using assms(3,5) by (simp add: NewEvent wt_obj_def)
  next
    case (TriggerEvent e)
    then obtain x where "m' = with_kern (trigger_event x) m"
      using assms(1) by (auto simp: exec_obj_def split: bind_splits)
    then show ?thesis using event_reg_goes [OF assms(2)] assms(3,5) by (simp add: TriggerEvent wt_obj_def)
  next
    case (ClassCast d s c)
    then obtain b where b: "set_reg d (Logic (one b)) m = Some m'"
      using assms(1) by (auto simp: exec_obj_def split: bind_splits)
    show ?thesis
      by (rule set_reg_goes [OF assms(2) b conf_bit [OF wf_one]]) (use assms(3,5) in \<open>simp_all add: ClassCast wt_obj_def\<close>)
  next
    case (GetField d ob sl)
    then obtain v x where v: "reg ob m = Some v" "set_reg d x m = Some m'" and
      x: "(case v of Obj a \<Rightarrow> do { d \<leftarrow> get_obj (world m) a; at (obj_fields d) sl } | _ \<Rightarrow> Some Null) = Some x"
      using assms(1) by (auto simp: exec_obj_def split: bind_splits)
    have "value_wf (kinds (world m)) x"
    proof (cases "\<exists>a. v = Obj a")
      case True
      then obtain a o' where o': "cells (world m) a = Some (ObjCell o')" "at (obj_fields o') sl = Some x"
        using x by (auto simp: get_obj_def split: bind_splits option.splits Cell.splits)
      then show ?thesis using world_wf_cell [OF W o'(1)] at_in [OF o'(2)] by (simp add: list_all_iff)
    next
      case False
      then show ?thesis using x by (cases v) auto
    qed
    from set_reg_any [OF assms(2) v(2) this] show ?thesis using assms(3,5) by (simp add: GetField wt_obj_def)
  next
    case (SetField ob sl s)
    then obtain v v' w u where v: "reg s m = Some v" "assignment_copy v (world m) = Some (v', w)" and
      u: "reg ob (m\<lparr>world := w\<rparr>) = Some u" and
      m': "(case u of
                  Obj a \<Rightarrow>
                    do { d \<leftarrow> get_obj w a; xs \<leftarrow> set_field (obj_fields d) sl v';
                         Some (with_kern notify_runtime_change
                           (m\<lparr>world := w\<lparr>cells := (cells w)(a \<mapsto> ObjCell (d\<lparr>obj_fields := xs\<rparr>))\<rparr>\<rparr>)) }
                | _ \<Rightarrow> Some (m\<lparr>world := w\<rparr>)) = Some m'"
      using assms(1) by (auto simp: exec_obj_def split: bind_splits)
    have s: "world_wf w" "extends (world m) w" "value_wf (kinds w) v'" using copy [OF v] by (simp_all add: store_ok_def)
    have fl: "weaker (T n) (T (Suc n))" using assms(3) by (simp add: SetField wt_obj_def)
    show ?thesis
    proof (cases "\<exists>a. u = Obj a")
      case True
      then obtain a o' xs where o': "cells w a = Some (ObjCell o')" "set_field (obj_fields o') sl v' = Some xs" and
        eq: "m' = with_kern notify_runtime_change
           (m\<lparr>world := w\<lparr>cells := (cells w)(a \<mapsto> ObjCell (o'\<lparr>obj_fields := xs\<rparr>))\<rparr>\<rparr>)"
        using m' by (auto simp: get_obj_def split: bind_splits option.splits Cell.splits)
      have "cell_wf (kinds w) (ObjCell (o'\<lparr>obj_fields := xs\<rparr>))"
        using set_field_wf [OF o'(2)] world_wf_cell [OF s(1) o'(1)] s(3) by simp
      note c = set_obj_wf [OF s(1) o'(1) this]
      show ?thesis
        unfolding eq
        by (intro goes_notify goes_store_only [OF assms(2) _ _ fl assms(5)])
          (use c extends_trans [OF s(2)] in auto)
    next
      case False
      then have "m' = m\<lparr>world := w\<rparr>" using m' by (cases u) auto
      then show ?thesis using goes_store_only [OF assms(2) s(1,2) fl assms(5)] by simp
    qed
  next
    case (StaticGet d sid)
    then obtain v where v: "at (statics (world m)) sid = Some v" "set_reg d v m = Some m'"
      using assms(1) by (auto simp: exec_obj_def split: bind_splits)
    have "value_wf (kinds (world m)) v" using W at_in [OF v(1)] by (simp add: world_wf_def list_all_iff)
    from set_reg_any [OF assms(2) v(2) this] show ?thesis using assms(3,5) by (simp add: StaticGet wt_obj_def)
  next
    case (StaticSet sid s)
    then obtain v v' w xs where v: "reg s m = Some v" "assignment_copy v (world m) = Some (v', w)" and
      xs: "set_field (statics w) sid v' = Some xs" and
      m': "m' = with_kern notify_runtime_change (m\<lparr>world := w\<lparr>statics := xs\<rparr>\<rparr>)"
      using assms(1) by (auto simp: exec_obj_def split: bind_splits)
    have s: "world_wf w" "extends (world m) w" "value_wf (kinds w) v'" using copy [OF v] by (simp_all add: store_ok_def)
    note st = set_statics_wf [OF s(1) xs s(3)]
    show ?thesis
      unfolding m'
      by (intro goes_notify goes_store_only [OF assms(2)]) (use st extends_trans [OF s(2)] assms(3,5) in \<open>auto simp: StaticSet wt_obj_def\<close>)
  qed
qed

end
