(* ===== verification/IR_Arrays.thy ===== *)
theory IR_Arrays
  imports IR_Objects
begin

text \<open>
  Soundness of the typing for the instructions on arrays, text and host functions.
\<close>

section \<open>The methods\<close>

text \<open>What a method may return: a value, registers of which it wrote those of \<open>R\<close>, and contents.\<close>

definition method_ok :: "(nat \<rightharpoonup> nat) \<Rightarrow> (Reg \<Rightarrow> ty) \<Rightarrow> ('c \<Rightarrow> bool) \<Rightarrow> Value \<times> Value list \<times> 'c \<Rightarrow> bool" where
  "method_ok K G ok r \<longleftrightarrow> value_wf K (fst r) \<and> conforms K G (fst (snd r)) \<and> ok (snd (snd r))"

lemma int_val_wf [simp]: "value_wf K (int_val n)"
  by (simp add: int_val_def)

lemma get_reg_wf: "get_reg rs r = Some v \<Longrightarrow> conforms K G rs \<Longrightarrow> value_wf K v"
  by (blast dest: get_reg_conf conf_value)

lemma put_arg: "put_reg a v rs = Some rs' \<Longrightarrow> conforms K (forget R G) rs \<Longrightarrow> a \<in> R \<Longrightarrow> value_wf K v \<Longrightarrow>
    conforms K (forget R G) rs'"
  by (rule conforms_forget_put)

lemma list_all_take_drop: "list_all P xs \<Longrightarrow> list_all P (take n xs) \<and> list_all P (drop n xs) \<and> list_all P (butlast xs)"
  by (auto simp: list_all_iff dest: in_set_takeD in_set_dropD in_set_butlastD)

lemma queue_method_ok:
  assumes "queue_method op args rs q = Some r" and "conforms K (forget R G) rs" and "set args \<subseteq> R"
    and "list_all (value_wf K) q"
  shows "method_ok K (forget R G) (list_all (value_wf K)) r"
proof -
  note td = list_all_take_drop [OF assms(4)]
  have v: "value_wf K v" if "get_reg rs r = Some v" for r v using get_reg_wf [OF that assms(2)] .
  have p: "conforms K (forget R G) rs'" if "put_reg a (int_val n) rs = Some rs'" "a \<in> R" for a n rs'
    using put_arg [OF that(1) assms(2) that(2)] by simp
  have l: "q \<noteq> [] \<Longrightarrow> value_wf K (last q)" using assms(4) by (simp add: list_all_iff)
  show ?thesis
    using assms td l
    by (cases op) (auto simp: method_ok_def dest: v intro: p split: bind_splits if_splits list.splits)
qed

lemma key_to_value_wf: "key_wf K k \<Longrightarrow> value_wf K (key_to_value k)"
  by (cases k) (simp_all add: from_i64_bits)

lemma value_to_key_wf: "value_wf K v \<Longrightarrow> key_wf K (value_to_key v)"
  by (cases v) simp_all

abbreviation entries_wf :: "(nat \<rightharpoonup> nat) \<Rightarrow> (AssocKey \<times> Value) list \<Rightarrow> bool" where
  "entries_wf K es \<equiv> cell_wf K (AssocCell es)"

lemma entries_Nil: "entries_wf K []"
  by simp

lemma key_result_ok:
  assumes "key_result args key rs = Some r" and "conforms K (forget R G) rs" and "set args \<subseteq> R"
    and "\<And>k. key = Some k \<Longrightarrow> key_wf K k" and "ok m"
  shows "method_ok K (forget R G) ok (case r of (v, rs) \<Rightarrow> (v, rs, m))"
proof -
  have p: "conforms K (forget R G) rs'" if "put_reg a (key_to_value k) rs = Some rs'" "a \<in> R" "key = Some k" for a k rs'
    using put_arg [OF that(1) assms(2) that(2)] key_to_value_wf [OF assms(4) [OF that(3)]] by simp
  show ?thesis
    using assms(1,2,3,5) by (cases args; cases key) (auto simp: key_result_def method_ok_def intro: p split: bind_splits)
qed

lemma found_key_wf:
  assumes "entries_wf K m"
  shows "first_key (filter P m) = Some k \<Longrightarrow> key_wf K k" "last_key (filter P m) = Some k \<Longrightarrow> key_wf K k"
proof -
  have *: "key_wf K (fst e)" if "e \<in> set (filter P m)" for e
    using assms that by (auto simp: list_all_iff)
  show "first_key (filter P m) = Some k \<Longrightarrow> key_wf K k"
    using * by (cases "filter P m") (auto simp: first_key_def)
  show "last_key (filter P m) = Some k \<Longrightarrow> key_wf K k"
    using * [OF last_in_set] by (auto simp: last_key_def split: if_splits)
qed

lemma btree_remove_wf: "entries_wf K m \<Longrightarrow> entries_wf K (btree_remove k m)"
  using btree_remove_ok [of m k] by (auto simp: btree_remove_def list_all_iff)

lemma btree_insert_values: "list_all P (map snd es) \<Longrightarrow> P v \<Longrightarrow> list_all P (map snd (btree_insert k v es))"
  by (induction k v es rule: btree_insert.induct) auto

lemma btree_insert_wf: "entries_wf K m \<Longrightarrow> key_wf K k \<Longrightarrow> value_wf K v \<Longrightarrow> entries_wf K (btree_insert k v m)"
  using btree_insert_ok [of m k v] btree_insert_values [of "value_wf K" m v k] set_btree_insert [of k v m]
  by (auto simp: list_all_iff)

lemma btree_get_wf: "entries_wf K m \<Longrightarrow> btree_get k m = Some v \<Longrightarrow> value_wf K v"
  by (auto simp: btree_get_def list_all_iff dest!: map_of_SomeD)

lemma assoc_method_ok:
  assumes "assoc_method op args rs m = Some r" and "conforms K (forget R G) rs" and "set args \<subseteq> R"
    and "entries_wf K m"
  shows "method_ok K (forget R G) (entries_wf K) r"
proof -
  have same: "method_ok K (forget R G) (entries_wf K) (v, rs, m)" if "value_wf K v" for v
    using that assms(2,4) by (simp add: method_ok_def)
  have key: "method_ok K (forget R G) (entries_wf K) r"
    if kr: "map_option (\<lambda>(v, rs). (v, rs, m)) (key_result args key rs) = Some r" and kw: "\<And>k. key = Some k \<Longrightarrow> key_wf K k" for key
  proof -
    obtain s where s: "key_result args key rs = Some s" "r = (case s of (v, rs) \<Rightarrow> (v, rs, m))"
      using kr by (auto simp del: split_paired_Ex)
    show ?thesis
      using key_result_ok [where ok = "entries_wf K" and m = m, OF s(1) assms(2,3) kw] assms(4) by (simp add: s(2))
  qed
  show ?thesis
  proof (cases op)
    case Delete
    then show ?thesis
      using assms btree_remove_wf [OF assms(4)] entries_Nil [of K]
      by (cases args) (auto simp: method_ok_def simp del: cell_wf.simps(3) split: bind_splits)
  next
    case First
    then show ?thesis using assms(1) found_key_wf(1) [OF assms(4), of "\<lambda>_. True"] by (intro key [of "first_key m"]) auto
  next
    case Last
    then show ?thesis using assms(1) found_key_wf(2) [OF assms(4), of "\<lambda>_. True"] by (intro key [of "last_key m"]) auto
  next
    case Next
    show ?thesis
    proof (cases args)
      case (Cons a as)
      then obtain v where "map_option (\<lambda>(v, rs). (v, rs, m)) (key_result args (next_key (value_to_key v) m) rs) = Some r"
        using assms(1) Next by (auto split: bind_splits)
      then show ?thesis by (rule key) (unfold next_key_def, rule found_key_wf(1) [OF assms(4)])
    qed (use assms(1) Next same in auto)
  next
    case Prev
    show ?thesis
    proof (cases args)
      case (Cons a as)
      then obtain v where "map_option (\<lambda>(v, rs). (v, rs, m)) (key_result args (prev_key (value_to_key v) m) rs) = Some r"
        using assms(1) Prev by (auto split: bind_splits)
      then show ?thesis by (rule key) (unfold prev_key_def, rule found_key_wf(2) [OF assms(4)])
    qed (use assms(1) Prev same in auto)
  qed (use assms(1) same in \<open>auto split: list.splits bind_splits\<close>)
qed

lemma set_array_wf:
  assumes "world_wf w" and "cells w a = Some c" and "cell_wf (kinds w) c'" and "cell_kind c' = cell_kind c"
    and "cell_kind c \<noteq> 0"
  shows "world_wf (w\<lparr>cells := (cells w)(a \<mapsto> c')\<rparr>) \<and> extends w (w\<lparr>cells := (cells w)(a \<mapsto> c')\<rparr>) \<and>
    kinds (w\<lparr>cells := (cells w)(a \<mapsto> c')\<rparr>) = kinds w"
proof -
  have "class_of d' = class_of d" if "c = ObjCell d" for d d' using that assms(5) by simp
  note set_cell_wf [OF assms(1-4) this]
  then show ?thesis by blast
qed

lemma eval_coll_method_ok:
  assumes "eval_coll_method b op args rs w = Some (v, rs', w')" and "world_wf w"
    and "conforms (kinds w) (forget R G) rs" and "set args \<subseteq> R"
  shows "world_wf w' \<and> extends w w' \<and> kinds w' = kinds w \<and> value_wf (kinds w) v \<and> conforms (kinds w) (forget R G) rs'"
proof -
  consider a where "b = Queue a" | a where "b = Assoc a" | "(v, rs', w') = (Null, rs, w)"
    using assms(1) by (cases b) (auto simp: eval_coll_method_def)
  then show ?thesis
  proof cases
    case 1
    then obtain q q' where q: "cells w a = Some (QueueCell q)" "queue_method op args rs q = Some (v, rs', q')"
      "w' = w\<lparr>cells := (cells w)(a \<mapsto> QueueCell q')\<rparr>"
      using assms(1) by (auto simp: eval_coll_method_def split: option.splits Cell.splits)
    have "method_ok (kinds w) (forget R G) (list_all (value_wf (kinds w))) (v, rs', q')"
      using queue_method_ok [OF q(2) assms(3,4)] world_wf_cell [OF assms(2) q(1)] by simp
    then show ?thesis using set_array_wf [OF assms(2) q(1), of "QueueCell q'"] q(3) by (simp add: method_ok_def)
  next
    case 2
    then obtain m m' where m: "cells w a = Some (AssocCell m)" "assoc_method op args rs m = Some (v, rs', m')"
      "w' = w\<lparr>cells := (cells w)(a \<mapsto> AssocCell m')\<rparr>"
      using assms(1) by (auto simp: eval_coll_method_def split: option.splits Cell.splits)
    have "method_ok (kinds w) (forget R G) (entries_wf (kinds w)) (v, rs', m')"
      using assoc_method_ok [OF m(2) assms(3,4) world_wf_cell [OF assms(2) m(1)]] .
    then show ?thesis
      using set_array_wf [OF assms(2) m(1), of "AssocCell m'"] m(3) by (simp add: method_ok_def del: cell_wf.simps(3))
  next
    case 3
    then show ?thesis using assms(2,3) by simp
  qed
qed

section \<open>Elements\<close>

lemma index_get_wf:
  assumes "index_get b i w = Some v" and "world_wf w" and "value_wf (kinds w) b"
  shows "value_wf (kinds w) v"
proof (cases b)
  case (Logic l)
  then show ?thesis using assms(1) by (auto simp: index_get_def split: bind_splits if_splits)
next
  case (Queue a)
  then obtain i' q where q: "cells w a = Some (QueueCell q)"
    "v = Null \<or> at q i' = Some v"
    using assms(1) by (auto simp: index_get_def split: bind_splits option.splits Cell.splits)
  then show ?thesis using world_wf_cell [OF assms(2) q(1)] at_in [of q i'] by (auto simp: list_all_iff)
next
  case (Assoc a)
  then obtain es where es: "cells w a = Some (AssocCell es)"
    "v = (case btree_get (value_to_key i) es of None \<Rightarrow> Null | Some v \<Rightarrow> v)"
    using assms(1) by (auto simp: index_get_def split: option.splits Cell.splits)
  then show ?thesis using world_wf_cell [OF assms(2) es(1)] btree_get_wf by (simp split: option.split)
qed (use assms(1) in \<open>auto simp: index_get_def\<close>)

lemma index_set_ok:
  assumes "index_set b i v w = Some (b', w', c)" and "world_wf w" and "conf (kinds w) t b"
    and "value_wf (kinds w) i" and "value_wf (kinds w) v"
  shows "world_wf w' \<and> extends w w' \<and> conf (kinds w') t b'"
proof (cases b)
  case (Logic l)
  have same: "conf (kinds w) t (Logic (set_bit l n x))" for n x using assms(3) Logic by (cases t) simp_all
  then show ?thesis
    using assms(1-3) by (auto simp: Logic index_set_def split: bind_splits if_splits Value.splits)
next
  case (Queue a)
  define n where "n = (case value_to_key i of IntKey n \<Rightarrow> nat (n mod 2 ^ 64) | _ \<Rightarrow> 0)"
  obtain q where q: "cells w a = Some (QueueCell q)" "b' = b"
    "w' = w\<lparr>cells := (cells w)(a \<mapsto> QueueCell ((if n \<ge> length q then q @ replicate (n + 1 - length q) Null else q)[n := v]))\<rparr>"
    using assms(1) unfolding index_set_def Let_def n_def [symmetric]
    by (auto simp: Queue split: if_splits option.splits Cell.splits)
  have "list_all (value_wf (kinds w)) ((if n \<ge> length q then q @ replicate (n + 1 - length q) Null else q)[n := v])"
    using world_wf_cell [OF assms(2) q(1)] assms(5) by (intro list_update_wf) (simp_all add: list_all_iff)
  then show ?thesis using set_array_wf [OF assms(2) q(1)] assms(3) by (simp add: q)
next
  case (Assoc a)
  then obtain es where es: "cells w a = Some (AssocCell es)" "b' = b"
    "w' = w\<lparr>cells := (cells w)(a \<mapsto> AssocCell (btree_insert (value_to_key i) v es))\<rparr>"
    using assms(1) by (auto simp: index_set_def split: option.splits Cell.splits)
  have "entries_wf (kinds w) (btree_insert (value_to_key i) v es)"
    by (rule btree_insert_wf [OF world_wf_cell [OF assms(2) es(1)] value_to_key_wf [OF assms(4)] assms(5)])
  then show ?thesis using set_array_wf [OF assms(2) es(1)] assms(3) by (simp add: es del: cell_wf.simps(3))
qed (use assms(1-3) in \<open>auto simp: index_set_def\<close>)

section \<open>Arrays and packed selects\<close>

text \<open>An instruction that writes its arguments back forgets their types.\<close>

lemma write_goes:
  assumes "st_ok P T n m" and "world_wf w \<and> extends (world m) w \<and> value_wf (kinds w) v"
    and "conforms (kinds w) (forget R (T n)) rs" and "d \<in> R" and "weaker (forget R (T n)) (T (Suc n)) \<and> pc m = Suc n"
    and "set_reg d v (m\<lparr>regs := rs, world := w\<rparr>) = Some m'"
  shows "goes P T (Suc n) m m'"
proof -
  obtain rs' where rs': "put_reg d v rs = Some rs'" "m' = m\<lparr>regs := rs', world := w\<rparr>"
    using assms(6) by (auto simp: set_reg_def)
  have "conforms (kinds w) (forget R (T n)) rs'"
    using conforms_forget_put [OF assms(3,4) _ rs'(1)] assms(2) by simp
  then have "conforms (kinds w) (T (Suc n)) rs'" using conforms_weaker assms(5) by blast
  moreover have "pending_ok (kinds w) T (pending_nba m)"
    using assms(1,2) pending_mono [OF extends_kinds] by (auto simp: st_ok_def)
  ultimately show ?thesis using assms(1,2,5) by (simp add: goes_def st_ok_def rs'(2))
qed

lemma concat_values_wf:
  assumes "concat_values show vs = Some v" and "list_all (value_wf K) vs"
  shows "value_wf K v"
proof (cases "\<exists>v \<in> set vs. is_str v")
  case True
  then show ?thesis using assms(1) by (auto simp: concat_values_def)
next
  case False
  then obtain ls where ls: "collect as_logic vs = Some ls"
    "(case ls of [] \<Rightarrow> Some (Logic (zero (Suc 0))) | l # ls \<Rightarrow> map_option Logic (concat_parts l ls)) = Some v"
    using assms(1) by (auto simp: concat_values_def split: bind_splits)
  show ?thesis
  proof (cases ls)
    case (Cons l ls')
    then obtain u where u: "concat_parts l ls' = Some u" "v = Logic u" using ls(2) by auto
    obtain x where "x \<in> set vs" "as_logic x = Some l" using collect_in [OF ls(1)] Cons by auto
    then have "wf_lv l" using as_logic_wf assms(2) by (fastforce simp: list_all_iff)
    then show ?thesis using concat_parts_wf u by simp
  qed (use ls(2) in auto)
qed

lemma exec_coll_goes:
  assumes "exec_coll lk prog i m = Some m'" and "st_ok P T n m" and "wt_coll prog T n i" and "pc m = Suc n"
  shows "goes P T (Suc n) m m'"
proof -
  have W: "world_wf (world m)" using assms(2) by (simp add: st_ok_def)
  have reg: "value_wf (kinds (world m)) v" if "reg r m = Some v" for r v
    using conf_value [OF reg_conf [OF assms(2) that]] .
  have put: "goes P T (Suc n) m m'" if "set_reg d v m = Some m'" "value_wf (kinds (world m)) v"
    "weaker (forget {d} (T n)) (T (Suc n))" for d v
    using set_reg_any [OF assms(2) that assms(4)] .
  have logic: "lreg r m = Some l \<Longrightarrow> wf_lv l" for r l by (rule lreg_conf(1) [OF assms(2)])
  show ?thesis
  proof (cases i)
    case (NewQueue d)
    then obtain v w where v: "new_queue (world m) = (v, w)" "set_reg d v (m\<lparr>world := w\<rparr>) = Some m'"
      using assms(1) by (cases "new_queue (world m)") (auto simp: exec_coll_def)
    from goes_store [OF assms(2) new_value_ok(1) [OF W v(1)] v(2)] show ?thesis
      using assms(3,4) by (simp add: NewQueue wt_coll_def)
  next
    case (NewAssoc d)
    then obtain v w where v: "new_assoc (world m) = (v, w)" "set_reg d v (m\<lparr>world := w\<rparr>) = Some m'"
      using assms(1) by (cases "new_assoc (world m)") (auto simp: exec_coll_def)
    from goes_store [OF assms(2) new_value_ok(2) [OF W v(1)] v(2)] show ?thesis
      using assms(3,4) by (simp add: NewAssoc wt_coll_def)
  next
    case (IndexGet d bv ix)
    then obtain b j v where v: "reg bv m = Some b" "index_get b j (world m) = Some v" "set_reg d v m = Some m'"
      using assms(1) by (auto simp: exec_coll_def split: bind_splits)
    show ?thesis
      using put [OF v(3) index_get_wf [OF v(2) W reg [OF v(1)]]] assms(3) by (simp add: IndexGet wt_coll_def)
  next
    case (PartSelect d bv l r)
    then obtain val x y sel where v: "part_select val x y = Some sel" "set_reg d (Logic sel) m = Some m'"
      using assms(1) by (auto simp: exec_coll_def split: bind_splits)
    show ?thesis using put [OF v(2)] part_select_wf [OF v(1)] assms(3) by (simp add: PartSelect wt_coll_def)
  next
    case (IndexSet bv ix s)
    then obtain v v' w j b b' w' c m1 where v: "reg s m = Some v" "assignment_copy v (world m) = Some (v', w)" and
      b: "reg ix m = Some j" "reg bv m = Some b" "index_set b j v' w = Some (b', w', c)" and
      m1: "set_reg bv b' (m\<lparr>world := w'\<rparr>) = Some m1" "m' = (if c then with_kern notify_runtime_change m1 else m1)"
      using assms(1) by (auto simp: exec_coll_def split: bind_splits)
    have s: "world_wf w" "extends (world m) w" "value_wf (kinds w) v'"
      using assignment_copy_spec [OF v(2) W reg [OF v(1)]] by simp_all
    have b': "conf (kinds w) (T n bv) b" "value_wf (kinds w) j"
      using conf_mono [OF extends_kinds [OF s(2)] reg_conf [OF assms(2) b(2)]] extends_value [OF s(2) reg [OF b(1)]]
      by simp_all
    have st: "world_wf w'" "extends w w'" "conf (kinds w') (T n bv) b'"
      using index_set_ok [OF b(3) s(1) b' s(3)] by simp_all
    have ext: "extends (world m) w'" by (rule extends_trans [OF s(2) st(2)])
    have "goes P T (Suc n) (m\<lparr>world := w'\<rparr>) m1"
      using set_reg_goes [OF st_ok_world [OF assms(2) st(1) ext] m1(1), of "T n bv"] st(3) assms(3,4)
      by (simp add: IndexSet wt_coll_def)
    then have "goes P T (Suc n) m m1" by (rule goes_world [OF _ ext])
    then show ?thesis using goes_notify m1(2) by simp
  next
    case (CollMethod d bv opn args)
    then obtain acts b v rs w m1 where a: "at (arglists prog) args = Some acts" "reg bv m = Some b"
      "eval_coll_method b opn acts (regs m) (world m) = Some (v, rs, w)" and
      m1: "set_reg d v (m\<lparr>regs := rs, world := w\<rparr>) = Some m1"
        "m' = (if notifies opn then with_kern notify_runtime_change m1 else m1)"
      using assms(1) by (auto simp: exec_coll_def split: bind_splits)
    let ?R = "insert d (arg_regs prog args)"
    have cf: "conforms (kinds (world m)) (forget ?R (T n)) (regs m)"
      using assms(2) by (auto simp: st_ok_def intro: conforms_weaker [OF _ weaker_forget])
    have ev: "world_wf w \<and> extends (world m) w \<and> kinds w = kinds (world m) \<and> value_wf (kinds (world m)) v \<and>
        conforms (kinds (world m)) (forget ?R (T n)) rs"
      by (rule eval_coll_method_ok [OF a(3) W cf]) (use a(1) in \<open>auto simp: arg_regs_def\<close>)
    have "goes P T (Suc n) m m1" by (rule write_goes [OF assms(2) _ _ _ _ m1(1)]) (use ev assms(3,4) in \<open>simp_all add: CollMethod wt_coll_def\<close>)
    then show ?thesis using goes_notify m1(2) by simp
  next
    case (Concat d args)
    then obtain acts vs v where v: "collect (\<lambda>r. reg r m) acts = Some vs" "concat_values (show_f64 lk) vs = Some v"
      "set_reg d v m = Some m'"
      using assms(1) by (auto simp: exec_coll_def split: bind_splits)
    show ?thesis
      using put [OF v(3) concat_values_wf [OF v(2) collect_regs_wf [OF assms(2) v(1)]]] assms(3)
      by (simp add: Concat wt_coll_def)
  qed
qed

section \<open>Text, time and host functions\<close>

lemma write_back_ok:
  "write_back vs rs = Some rs' \<Longrightarrow> conforms K (forget R G) rs \<Longrightarrow> fst ` set vs \<subseteq> R \<Longrightarrow>
    (\<forall>p \<in> set vs. value_wf K (snd p)) \<Longrightarrow> conforms K (forget R G) rs'"
proof (induction vs rs rule: write_back.induct)
  case (2 r v vs rs)
  then obtain rs1 where rs1: "put_reg r v rs = Some rs1" "write_back vs rs1 = Some rs'" by (auto split: bind_splits)
  have "conforms K (forget R G) rs1" using conforms_forget_put [OF "2.prems"(2) _ _ rs1(1)] "2.prems"(3,4) by simp
  then show ?case using "2.IH" [OF rs1] "2.prems"(3,4) by simp
qed simp

lemma exec_text_goes:
  assumes "exec_text lk prog i m = Some m'" and "st_ok P T n m" and "wt_text prog T n i" and "linkage_ok P lk"
    and "pc m = Suc n"
  shows "goes P T (Suc n) m m'"
proof -
  have W: "world_wf (world m)" using assms(2) by (simp add: st_ok_def)
  have put: "goes P T (Suc n) m m'" if "set_reg d v m = Some m'" "value_wf (kinds (world m)) v"
    "weaker (forget {d} (T n)) (T (Suc n))" for d v
    using set_reg_any [OF assms(2) that assms(5)] .
  have bits: "goes P T (Suc n) m m'" if "set_reg d (Logic l) m = Some m'" "wf_lv l"
    "weaker ((T n)(d := TBits (width l))) (T (Suc n))" for d l
    by (rule set_reg_goes [OF assms(2) that(1) _ that(3) assms(5)]) (use that(2) in simp)
  show ?thesis
  proof (cases i)
    case (Display f args)
    then obtain l where "m' = with_kern (display l) m"
      using assms(1) by (auto simp: exec_text_def split: bind_splits)
    then show ?thesis
      using goes_kern [OF assms(2) api_display _ assms(5)] assms(3) by (simp add: Display wt_text_def with_kern_def)
  next
    case (DpiCall d nm args)
    then obtain name acts vals vals' r w rs where a: "at (arglists prog) args = Some acts"
      "collect (\<lambda>r. reg r m) acts = Some vals" and
      call: "dpi_call (dpi lk) name vals (world m) = Some (vals', r, w)" and
      rs: "write_back (zip acts vals') (regs m) = Some rs" "set_reg d r (m\<lparr>regs := rs, world := w\<rparr>) = Some m'"
      using assms(1) by (auto simp: exec_text_def split: bind_splits)
    have vals: "list_all (value_wf (kinds (world m))) vals" by (rule collect_regs_wf [OF assms(2) a(2)])
    obtain f where f: "dpi lk name = Some f" "f vals (world m) = Some (vals', r, w)"
      using call by (auto simp: dpi_call_def split: option.splits)
    have ok: "world_wf w" "extends (world m) w" "list_all (value_wf (kinds w)) vals'" "value_wf (kinds w) r"
      using f W vals assms(4) unfolding linkage_ok_def dpi_ok_def by blast+
    let ?R = "insert d (arg_regs prog args)"
    have "conforms (kinds w) (T n) (regs m)"
      using assms(2) conforms_mono [OF extends_kinds [OF ok(2)]] by (simp add: st_ok_def)
    then have cf: "conforms (kinds w) (forget ?R (T n)) (regs m)" by (rule conforms_weaker [OF _ weaker_forget])
    have "conforms (kinds w) (forget ?R (T n)) rs"
      by (rule write_back_ok [OF rs(1) cf])
        (use a(1) ok(3) in \<open>auto simp: arg_regs_def list_all_iff dest: set_zip_leftD set_zip_rightD\<close>)
    from write_goes [OF assms(2) _ this _ _ rs(2)] show ?thesis
      using ok assms(3,5) by (simp add: DpiCall wt_text_def)
  next
    case (SimTime d)
    then show ?thesis using assms(1,3) bits [of d] by (simp add: exec_text_def wt_text_def)
  next
    case (Format d f args)
    then obtain l where "set_reg d (Str l) m = Some m'"
      using assms(1) by (auto simp: exec_text_def split: bind_splits)
    from put [OF this] show ?thesis using assms(3) by (simp add: Format wt_text_def)
  next
    case (EnumName d s t)
    then obtain l where "set_reg d (Str l) m = Some m'"
      using assms(1) by (auto simp: exec_text_def split: bind_splits)
    from put [OF this] show ?thesis using assms(3) by (simp add: EnumName wt_text_def)
  next
    case (StringLen d s)
    then obtain k where "set_reg d (int_val k) m = Some m'"
      using assms(1) by (auto simp: exec_text_def split: bind_splits)
    from bits [OF this [unfolded int_val_def]] show ?thesis using assms(3) by (simp add: StringLen wt_text_def)
  next
    case (StringSub d s lo hi)
    then obtain l where "set_reg d (Str l) m = Some m'"
      using assms(1) by (auto simp: exec_text_def split: bind_splits)
    from put [OF this] show ?thesis using assms(3) by (simp add: StringSub wt_text_def)
  next
    case (StringIndex d s ix)
    then obtain k where "set_reg d (Logic (from_u64 k 8)) m = Some m'"
      using assms(1) by (auto simp: exec_text_def split: bind_splits)
    from bits [OF this] show ?thesis using assms(3) by (simp add: StringIndex wt_text_def)
  next
    case (StringToUpper d s)
    then obtain l where "set_reg d (Str l) m = Some m'"
      using assms(1) by (auto simp: exec_text_def split: bind_splits)
    from put [OF this] show ?thesis using assms(3) by (simp add: StringToUpper wt_text_def)
  next
    case (StringToLower d s)
    then obtain l where "set_reg d (Str l) m = Some m'"
      using assms(1) by (auto simp: exec_text_def split: bind_splits)
    from put [OF this] show ?thesis using assms(3) by (simp add: StringToLower wt_text_def)
  next
    case (StringAtoi d s)
    then obtain k where "set_reg d (Logic (from_u64 k 32)) m = Some m'"
      using assms(1) by (auto simp: exec_text_def split: bind_splits)
    from bits [OF this] show ?thesis using assms(3) by (simp add: StringAtoi wt_text_def)
  qed
qed

section \<open>One instruction, one frame\<close>

lemma exec_ok:
  assumes "exec lk prog provided i m = Some r" and "st_ok P T n m" and "wt_inst P prog T n i" and "wt_body P prog T"
    and "linkage_ok P lk" and "pc m = Suc n"
  shows "case r of Inl m' \<Rightarrow> goes P T (pc m') m m'
    | Inr (m', s) \<Rightarrow> goes P T (pc m') m m' \<and> step_ok P prog (kinds (world m')) (T (pc m')) s"
proof (cases i)
  case (DataI j)
  then show ?thesis using assms exec_data_goes [OF _ assms(2) _ assms(4,6)]
    by (auto simp: exec_def wt_inst_def goes_def)
next
  case (AluI j)
  then show ?thesis using assms exec_alu_goes [OF _ assms(2,6)]
    by (auto simp: exec_def wt_inst_def goes_def)
next
  case (NetI j)
  then show ?thesis using assms exec_net_goes [OF _ assms(2) _ assms(4,6)]
    by (auto simp: exec_def wt_inst_def goes_def)
next
  case (TimingI j)
  then show ?thesis using assms exec_timing_ok [OF _ assms(2)]
    by (auto simp: exec_def wt_inst_def goes_def)
next
  case (FlowI j)
  then obtain q where q: "exec_flow lk prog provided j m = Some q"
      "r = (case q of Inl m \<Rightarrow> Inl m | Inr s \<Rightarrow> Inr (m, s))"
    using assms(1) by (auto simp: exec_def)
  have "wt_flow prog T n j" using assms(3) by (simp add: FlowI wt_inst_def)
  from exec_flow_ok [OF q(1) assms(2) this assms(6)] show ?thesis
    using assms(6) unfolding q(2) by (cases q) (simp_all add: goes_def)
next
  case (ObjI j)
  then show ?thesis using assms exec_obj_goes [OF _ assms(2) _ assms(5,6)]
    by (auto simp: exec_def wt_inst_def goes_def)
next
  case (CollI j)
  then show ?thesis using assms exec_coll_goes [OF _ assms(2) _ assms(6)]
    by (auto simp: exec_def wt_inst_def goes_def)
next
  case (TextI j)
  then show ?thesis using assms exec_text_goes [OF _ assms(2) _ assms(5,6)]
    by (auto simp: exec_def wt_inst_def goes_def)
qed

lemma run_frame_ok:
  assumes "run_frame lk prog provided m = Some (m', s)" and "st_ok P T (pc m) m" and "wt_body P prog T" and "linkage_ok P lk"
  shows "goes P T (pc m') m m' \<and> step_ok P prog (kinds (world m')) (T (pc m')) s"
proof -
  have "goes P T (pc (fst r)) m (fst r) \<and> step_ok P prog (kinds (world (fst r))) (T (pc (fst r))) (snd r)"
    if "run_frame lk prog provided m = Some r" "st_ok P T (pc m) m" "wt_body P prog T" "linkage_ok P lk" for r
    using that
  proof (induction arbitrary: rule: run_frame.raw_induct [rotated, consumes 1, case_names step])
    case (step run lk prog provided m r)
    let ?m = "m\<lparr>pc := Suc (pc m)\<rparr>"
    obtain i q where i: "at (pcode prog) (pc m) = Some i" "exec lk prog provided i ?m = Some q" and
      rest: "(case q of Inl m \<Rightarrow> run lk prog provided m | Inr (m, s) \<Rightarrow> Some (m, s)) = Some r"
      using step(2) by (auto split: bind_splits)
    have "wt_inst P prog T (pc m) i" using i(1) step(4) by (auto simp: at_def wt_body_def split: if_splits)
    moreover have "st_ok P T (pc m) ?m" using step(3) by (simp add: st_ok_def)
    ultimately have ok: "case q of Inl m' \<Rightarrow> goes P T (pc m') ?m m'
        | Inr (m', s) \<Rightarrow> goes P T (pc m') ?m m' \<and> step_ok P prog (kinds (world m')) (T (pc m')) s"
      by (intro exec_ok [OF i(2) _ _ step(4,5)]) simp_all
    have pc: "goes P T n ?m m' \<Longrightarrow> goes P T n m m'" for n m' by (simp add: goes_def)
    show ?case
    proof (cases q)
      case (Inl m1)
      have g: "goes P T (pc m1) m m1" using ok pc by (simp add: Inl)
      have "goes P T (pc (fst r)) m1 (fst r) \<and> step_ok P prog (kinds (world (fst r))) (T (pc (fst r))) (snd r)"
        by (rule step(1)) (use rest g step(4,5) in \<open>simp_all add: Inl goes_def\<close>)
      then show ?thesis using g extends_trans by (auto simp: goes_def)
    next
      case (Inr p)
      then show ?thesis using ok pc rest by (cases p) auto
    qed
  qed
  from this [OF assms] show ?thesis by simp
qed

end
