(* ===== verification/Sim.thy ===== *)
theory Sim
  imports Places "HOL-Library.Monad_Syntax"
begin

text \<open>
  The simulation driver (\<open>Sim\<close> in \<open>crates/eevee-sched/src/kernel.rs\<close>): the process table, the run
  loop over Active, Inactive and NBA and the advance of time. A process is anything with a
  \<open>resume\<close>, the code's trait \<open>Process\<close>: the interface is the locale \<open>process\<close>. A run may go on
  forever, so \<open>drain_active\<close>, \<open>settle\<close> and \<open>run_until\<close> are partial functions, \<open>None\<close> being a run
  that does not return or a panic.
\<close>

section \<open>State and operations\<close>

text \<open>
  \<open>Process::resume\<close> changes the process and the kernel. Processes of one design may also share
  memory behind reference-counted cells, which the kernel never reads: it is the component \<open>shared\<close>
  of the state and the second argument of \<open>resume\<close>.
\<close>

type_synonym ('p, 'h) resumption = "'p \<Rightarrow> 'h \<Rightarrow> Kernel \<Rightarrow> ('p \<times> 'h \<times> Kernel \<times> 'p Wait) option"

record ('p, 'h) Sim =
  kernel :: Kernel
  procs :: "'p list"
  shared :: 'h

definition new_sim :: "'h \<Rightarrow> Timescale \<Rightarrow> ('p, 'h) Sim" where
  "new_sim h ts = \<lparr>kernel = new_kernel ts, procs = [], shared = h\<rparr>"

definition push_active :: "ProcId \<Rightarrow> Kernel \<Rightarrow> Kernel" where
  "push_active p k = k\<lparr>active := active k @ [p]\<rparr>"

definition add_process :: "'p \<Rightarrow> ('p, 'h) Sim \<Rightarrow> ('p, 'h) Sim \<times> ProcId" where
  "add_process p s =
     (let id = length (procs s)
      in (s\<lparr>procs := procs s @ [p], kernel := push_active id (kernel s)\<rparr>, id))"

fun add_children :: "'p list \<Rightarrow> ('p, 'h) Sim \<Rightarrow> ProcId list \<Rightarrow> ('p, 'h) Sim \<times> ProcId list" where
  "add_children [] s ids = (s, ids)"
| "add_children (c # cs) s ids = (let (s, id) = add_process c s in add_children cs s (ids @ [id]))"

definition spawn_fork :: "ProcId \<Rightarrow> 'p list \<Rightarrow> ForkJoin \<Rightarrow> ('p, 'h) Sim \<Rightarrow> ('p, 'h) Sim" where
  "spawn_fork parent children join s =
     (let (s, ids) = add_children children s []
      in if join = JoinNone \<or> ids = [] then s\<lparr>kernel := push_active parent (kernel s)\<rparr>
         else s\<lparr>kernel := (kernel s)\<lparr>join_watches := join_watches (kernel s) @
                  [\<lparr>jparent = parent, jremaining = ids, jany = (join = Any)\<rparr>]\<rparr>\<rparr>)"

text \<open>One turn of the loop in \<open>drain_active\<close>, for a queue that is not empty.\<close>

definition drain_step :: "('p, 'h) resumption \<Rightarrow> ('p, 'h) Sim \<Rightarrow> ('p, 'h) Sim option" where
  "drain_step resume s = (case active (kernel s) of
     [] \<Rightarrow> None
   | pid # rest \<Rightarrow>
       (let k = kernel s; k = k\<lparr>active := rest\<rparr>;
            k = k\<lparr>stats := (stats k)\<lparr>resumes := resumes (stats k) + 1\<rparr>\<rparr>
        in if pid < length (procs s) then
             do {
               (p, h, k, wt) \<leftarrow> resume (procs s ! pid) (shared s) k;
               let s = s\<lparr>kernel := k, procs := (procs s)[pid := p], shared := h\<rparr>;
               (case wt of
                  Fork children join \<Rightarrow> Some (spawn_fork pid children join s)
                | Finished \<Rightarrow>
                    do { k \<leftarrow> arm pid (Finished :: 'p Wait) (kernel s);
                         Some (s\<lparr>kernel := notify_finished pid k\<rparr>) }
                | other \<Rightarrow> do { k \<leftarrow> arm pid other (kernel s); Some (s\<lparr>kernel := k\<rparr>) })
             }
           else None))"

partial_function (option) drain_active ::
  "('p, 'h) resumption \<Rightarrow> ('p, 'h) Sim \<Rightarrow> ('p, 'h) Sim option" where
  "drain_active resume s =
     (if active (kernel s) = [] then Some s
      else do {
        s \<leftarrow> drain_step resume s;
        if stop (kernel s) then Some s else drain_active resume s
      })"

definition promote_inactive :: "Kernel \<Rightarrow> Kernel" where
  "promote_inactive k = k\<lparr>active := active k @ inactive k, inactive := []\<rparr>"

text \<open>The inner loop of \<open>run_until\<close>; the flag says that a stop was requested.\<close>

partial_function (option) settle ::
  "('p, 'h) resumption \<Rightarrow> ('p, 'h) Sim \<Rightarrow> (('p, 'h) Sim \<times> bool) option" where
  "settle resume s =
     (if active (kernel s) \<noteq> [] then
        do {
          s \<leftarrow> drain_active resume s;
          if stop (kernel s) then Some (s, True) else settle resume s
        }
      else if inactive (kernel s) \<noteq> [] then settle resume (s\<lparr>kernel := promote_inactive (kernel s)\<rparr>)
      else if nba (kernel s) \<noteq> [] \<or> nba_waiters (kernel s) \<noteq> []
        then settle resume (s\<lparr>kernel := drain_nba (kernel s)\<rparr>)
      else Some (s, False))"

definition advance :: "SimTime \<Rightarrow> Kernel \<Rightarrow> Kernel" where
  "advance t k =
     (let k = k\<lparr>time := t\<rparr>;
          k = k\<lparr>stats := (stats k)\<lparr>time_advances := time_advances (stats k) + 1\<rparr>\<rparr>
      in dispatch_time_slot t k)"

partial_function (option) run_until ::
  "('p, 'h) resumption \<Rightarrow> SimTime option \<Rightarrow> ('p, 'h) Sim \<Rightarrow> ('p, 'h) Sim option" where
  "run_until resume limit s =
     do {
       (s, stopped) \<leftarrow> settle resume s;
       if stopped then Some s
       else (let k = discard_stale_timed_actions (kernel s)
             in (case wheel_peek (timed k) of
                   None \<Rightarrow> Some (s\<lparr>kernel := k\<rparr>)
                 | Some ev \<Rightarrow>
                     (let next_t = ev_time ev
                      in (case limit of
                            Some l \<Rightarrow>
                              (if next_t > l then Some (s\<lparr>kernel := k\<lparr>time := l\<rparr>\<rparr>)
                               else run_until resume limit (s\<lparr>kernel := advance next_t k\<rparr>))
                          | None \<Rightarrow> run_until resume limit (s\<lparr>kernel := advance next_t k\<rparr>)))))
     }"

section \<open>The invariant\<close>

text \<open>
  Every process is in at most one place, no place holds a process that does not exist, and the
  kernel is well formed.
\<close>

definition sim_inv :: "(profile \<Rightarrow> 'h \<Rightarrow> 'p \<Rightarrow> bool) \<Rightarrow> ('p, 'h) Sim \<Rightarrow> bool" where
  "sim_inv p_ok s \<longleftrightarrow>
     kernel_ok (kernel s) \<and> events_finite (kernel s) \<and>
     (\<forall>p \<in> set (procs s). p_ok (profile_of (kernel s)) (shared s) p) \<and>
     (\<forall>i. places (kernel s) i \<le> of_bool (i < length (procs s)))"

text \<open>What a step does to a process: it stays in as many places, unless it was resumed and finished.\<close>

lemma push_active_keeps: "kernel_ok k \<Longrightarrow> keeps k (push_active p k)"
  by (rule kernel_ok_cong) (simp_all add: push_active_def)

lemma places_push_active: "places (push_active p k) q = places k q + of_bool (q = p)"
  "events_finite (push_active p k) = events_finite k"
  by (simp_all add: places_def push_active_def events_finite_def)

lemma add_children_spec:
  assumes "add_children cs s ids = (s', ids')" and "kernel_ok (kernel s)"
  shows "keeps (kernel s) (kernel s') \<and> procs s' = procs s @ cs \<and> shared s' = shared s \<and>
    ids' = ids @ [length (procs s)..<length (procs s) + length cs] \<and>
    events_finite (kernel s') = events_finite (kernel s) \<and>
    (\<forall>q. places (kernel s') q = places (kernel s) q + of_bool (length (procs s) \<le> q \<and> q < length (procs s) + length cs))"
  using assms
proof (induction cs arbitrary: s ids)
  case (Cons c cs)
  let ?n = "length (procs s)"
  let ?s = "s\<lparr>procs := procs s @ [c], kernel := push_active ?n (kernel s)\<rparr>"
  have k: "keeps (kernel s) (push_active ?n (kernel s))"
    by (rule push_active_keeps [OF Cons.prems(2)])
  have "add_children cs ?s (ids @ [?n]) = (s', ids')"
    using Cons.prems(1) by (simp add: add_process_def)
  from Cons.IH [OF this] keeps_ok [OF k]
  have IH: "keeps (push_active ?n (kernel s)) (kernel s')" "procs s' = procs s @ c # cs" "shared s' = shared s"
    "ids' = ids @ ?n # [Suc ?n..<Suc ?n + length cs]" "events_finite (kernel s') = events_finite (kernel s)"
    "\<And>q. places (kernel s') q = places (kernel s) q + of_bool (q = ?n) +
      of_bool (Suc ?n \<le> q \<and> q < Suc ?n + length cs)"
    by (simp_all add: places_push_active del: upt_Suc)
  have "[?n..<?n + length (c # cs)] = ?n # [Suc ?n..<Suc ?n + length cs]"
    by (simp add: upt_conv_Cons del: upt_Suc)
  moreover have "of_bool (q = ?n) + of_bool (Suc ?n \<le> q \<and> q < Suc ?n + length cs) =
      (of_bool (?n \<le> q \<and> q < ?n + length (c # cs)) :: nat)" for q
    by auto
  ultimately show ?case
    using IH keeps_trans [OF k IH(1)] by (metis add.assoc)
qed (auto simp: keeps_refl)

lemma spawn_fork_spec:
  assumes "kernel_ok (kernel s)"
  shows "keeps (kernel s) (kernel (spawn_fork parent cs j s)) \<and> procs (spawn_fork parent cs j s) = procs s @ cs \<and>
    shared (spawn_fork parent cs j s) = shared s \<and>
    events_finite (kernel (spawn_fork parent cs j s)) = events_finite (kernel s) \<and>
    (\<forall>q. places (kernel (spawn_fork parent cs j s)) q = places (kernel s) q + of_bool (q = parent) +
       of_bool (length (procs s) \<le> q \<and> q < length (procs s) + length cs))"
proof -
  obtain s' ids where f: "add_children cs s [] = (s', ids)"
    by fastforce
  note ap = add_children_spec [OF f assms]
  let ?w = "\<lparr>jparent = parent, jremaining = ids, jany = (j = Any)\<rparr>"
  let ?k = "(kernel s')\<lparr>join_watches := join_watches (kernel s') @ [?w]\<rparr>"
  have k: "keeps (kernel s') ?k" using ap keeps_ok by (intro kernel_ok_cong) auto
  have "places ?k q = places (kernel s') q + of_bool (q = parent)" "events_finite ?k = events_finite (kernel s')" for q
    by (simp_all add: places_def events_finite_def)
  moreover have "spawn_fork parent cs j s = (if j = JoinNone \<or> ids = []
      then s'\<lparr>kernel := push_active parent (kernel s')\<rparr> else s'\<lparr>kernel := ?k\<rparr>)"
    by (simp add: spawn_fork_def f)
  ultimately show ?thesis
    using ap k push_active_keeps [of "kernel s'" parent] keeps_ok
    by (auto simp: places_push_active intro: keeps_trans)
qed

section \<open>The steps of a run\<close>

text \<open>
  The run as a state machine: a process of the active queue is resumed, the inactive queue is
  promoted, the non-blocking updates are applied, or time advances to the next event. The guards
  are the tests of \<open>run_until\<close>, in its order.
\<close>

inductive sim_step ::
  "('p, 'h) resumption \<Rightarrow> ('p, 'h) Sim \<Rightarrow> ('p, 'h) Sim \<Rightarrow> bool" for resume where
  step_resume: "active (kernel s) \<noteq> [] \<Longrightarrow> drain_step resume s = Some s' \<Longrightarrow> sim_step resume s s'"
| step_inactive: "active (kernel s) = [] \<Longrightarrow> inactive (kernel s) \<noteq> [] \<Longrightarrow>
    sim_step resume s (s\<lparr>kernel := promote_inactive (kernel s)\<rparr>)"
| step_nba: "active (kernel s) = [] \<Longrightarrow> inactive (kernel s) = [] \<Longrightarrow>
    nba (kernel s) \<noteq> [] \<or> nba_waiters (kernel s) \<noteq> [] \<Longrightarrow>
    sim_step resume s (s\<lparr>kernel := drain_nba (kernel s)\<rparr>)"
| step_time: "active (kernel s) = [] \<Longrightarrow> inactive (kernel s) = [] \<Longrightarrow> nba (kernel s) = [] \<Longrightarrow>
    nba_waiters (kernel s) = [] \<Longrightarrow>
    wheel_peek (timed (discard_stale_timed_actions (kernel s))) = Some ev \<Longrightarrow>
    sim_step resume s (s\<lparr>kernel := advance (ev_time ev) (discard_stale_timed_actions (kernel s))\<rparr>)"

inductive_cases sim_stepE: "sim_step resume s s'"

definition quiet :: "Kernel \<Rightarrow> bool" where
  "quiet k \<longleftrightarrow> active k = [] \<and> inactive k = [] \<and> nba k = [] \<and> nba_waiters k = []"

lemma promote_keeps: "kernel_ok k \<Longrightarrow> keeps k (promote_inactive k)"
  by (rule kernel_ok_cong) (simp_all add: promote_inactive_def)

lemma places_promote: "places (promote_inactive k) q = places k q" "events_finite (promote_inactive k) = events_finite k"
  by (simp_all add: promote_inactive_def places_def events_finite_def)

lemma events_finite_discard: "events_finite (discard_stale_timed_actions k) = events_finite k"
  by (simp add: discard_stale_timed_actions_def events_finite_def)

text \<open>The time may be set to any value that no event of the wheel precedes.\<close>

lemma set_time_ok:
  assumes "kernel_ok k" and "\<And>e. e \<in> set (timed k) \<Longrightarrow> t \<le> ev_time e" and "t \<le> u64_max"
  shows "kernel_ok (k\<lparr>time := t, stats := st\<rparr>) \<and> profile_of (k\<lparr>time := t, stats := st\<rparr>) = profile_of k \<and>
    places (k\<lparr>time := t, stats := st\<rparr>) = places k \<and> events_finite (k\<lparr>time := t, stats := st\<rparr>) = events_finite k"
proof -
  let ?k = "k\<lparr>time := t, stats := st\<rparr>"
  note inv = kernel_okD [OF assms(1)]
  have P: "profile_of ?k = profile_of k" by (simp add: profile_of_def)
  have "shape_inv ?k"
    using shape_invD [OF inv(1)] by (intro shape_inv_cong [OF inv(1) P]) auto
  moreover have "wheel_inv ?k" using inv(2) assms(2,3) by (auto simp: wheel_inv_def)
  moreover have "waits_inv ?k" by (rule waits_inv_cong [OF inv(3)]) simp_all
  ultimately have "kernel_ok ?k" by (simp add: kernel_ok_def)
  moreover have "places ?k = places k" by (rule places_cong) simp_all
  ultimately show ?thesis by (simp add: P events_finite_def)
qed

lemma wheel_peek_least:
  assumes "kernel_ok k" and "wheel_peek (timed k) = Some ev"
  shows "ev \<in> set (timed k) \<and> time k \<le> ev_time ev \<and> ev_time ev \<le> u64_max \<and> (\<forall>e \<in> set (timed k). ev_time ev \<le> ev_time e)"
proof -
  have inv: "wheel_inv k" using kernel_okD [OF assms(1)] by simp
  have "ev \<in> set (timed k)" using assms(2) by (cases "timed k"; simp)
  moreover have "ev_time ev \<le> ev_time e" if "e \<in> set (timed k)" for e
    using wheel.peek_min [of "timed k" ev e] assms(2) inv that
    by (auto simp: wheel_inv_def ev_key_def less_eq_prod_def)
  ultimately show ?thesis using inv by (auto simp: wheel_inv_def)
qed

text \<open>Time moves to the earliest event of the wheel, never back.\<close>

lemma advance_spec:
  assumes "kernel_ok k" and "wheel_peek (timed k) = Some ev"
  shows "kernel_ok (advance (ev_time ev) k) \<and> profile_of (advance (ev_time ev) k) = profile_of k \<and>
    time (advance (ev_time ev) k) = ev_time ev \<and> time k \<le> ev_time ev \<and>
    (\<forall>e \<in> set (timed (advance (ev_time ev) k)). ev_time ev < ev_time e) \<and>
    (\<forall>q. places (advance (ev_time ev) k) q = places k q) \<and>
    events_finite (advance (ev_time ev) k) = events_finite k"
proof -
  note least = wheel_peek_least [OF assms]
  define st where "st = (stats k)\<lparr>time_advances := time_advances (stats k) + 1\<rparr>"
  let ?k = "k\<lparr>time := ev_time ev, stats := st\<rparr>"
  have ok: "kernel_ok ?k \<and> profile_of ?k = profile_of k \<and> places ?k = places k \<and> events_finite ?k = events_finite k"
    using least by (intro set_time_ok [OF assms(1)]) blast+
  have adv: "advance (ev_time ev) k = dispatch_time_slot (ev_time ev) ?k" by (simp add: advance_def st_def)
  have k: "keeps ?k (dispatch_time_slot (ev_time ev) ?k)" using ok by (intro dispatch_time_slot_keeps) simp
  show ?thesis
    using k ok least dispatch_time_slot_done [of ?k "ev_time ev"] places_dispatch [of ?k "ev_time ev"]
    unfolding adv by (simp add: keeps_def)
qed

abbreviation popped_kernel :: "ProcId list \<Rightarrow> Kernel \<Rightarrow> Kernel" where
  "popped_kernel rest k \<equiv> k\<lparr>active := rest, stats := (stats k)\<lparr>resumes := resumes (stats k) + 1\<rparr>\<rparr>"

lemma drain_step_eq:
  fixes s :: "('p, 'h) Sim"
  assumes "active (kernel s) = pid # rest" and "pid < length (procs s)"
    and "resume (procs s ! pid) (shared s) (popped_kernel rest (kernel s)) = Some (p, h, k, wt)"
  shows "drain_step resume s =
    (let s = s\<lparr>kernel := k, procs := (procs s)[pid := p], shared := h\<rparr>
     in case wt of
          Fork children join \<Rightarrow> Some (spawn_fork pid children join s)
        | Finished \<Rightarrow> map_option (\<lambda>k. s\<lparr>kernel := notify_finished pid k\<rparr>) (arm pid (Finished :: 'p Wait) k)
        | other \<Rightarrow> map_option (\<lambda>k. s\<lparr>kernel := k\<rparr>) (arm pid other k))"
  using assms by (simp add: drain_step_def map_conv_bind_option comp_def split: Wait.split)

lemma drain_step_resumed:
  assumes "active (kernel s) = pid # rest" and "drain_step resume s = Some s'"
  shows "pid < length (procs s) \<and> (\<exists>r. resume (procs s ! pid) (shared s) (popped_kernel rest (kernel s)) = Some r)"
  using assms by (auto simp: drain_step_def split: bind_splits if_splits)

section \<open>Runs are sequences of steps\<close>

lemma drain_active_steps:
  assumes "drain_active resume s = Some s'"
  shows "(sim_step resume)\<^sup>*\<^sup>* s s' \<and> (stop (kernel s') \<or> active (kernel s') = [])"
  using assms
proof (induction rule: drain_active.raw_induct [rotated, consumes 1, case_names loop])
  case (loop drain resume s s')
  show ?case
  proof (cases "active (kernel s) = []")
    case True
    then show ?thesis using loop(2) by simp
  next
    case False
    then obtain s1 where s1: "drain_step resume s = Some s1"
      and rest: "(if stop (kernel s1) then Some s1 else drain resume s1) = Some s'"
      using loop(2) by (auto split: bind_splits)
    have step: "sim_step resume s s1" by (rule step_resume [OF False s1])
    show ?thesis
    proof (cases "stop (kernel s1)")
      case True
      then show ?thesis using rest step by auto
    next
      case False
      then have "drain resume s1 = Some s'" using rest by simp
      from loop(1) [OF this] show ?thesis using step by (auto intro: converse_rtranclp_into_rtranclp)
    qed
  qed
qed

lemma settle_steps:
  assumes "settle resume s = Some (s', b)"
  shows "(sim_step resume)\<^sup>*\<^sup>* s s' \<and> (if b then stop (kernel s') else quiet (kernel s'))"
proof -
  have "(sim_step resume)\<^sup>*\<^sup>* s (fst r) \<and> (if snd r then stop (kernel (fst r)) else quiet (kernel (fst r)))"
    if "settle resume s = Some r" for r
    using that
  proof (induction rule: settle.raw_induct [rotated, consumes 1, case_names loop])
    case (loop settle resume s r)
    consider (active) "active (kernel s) \<noteq> []"
      | (inactive) "active (kernel s) = []" "inactive (kernel s) \<noteq> []"
      | (nba) "active (kernel s) = []" "inactive (kernel s) = []" "nba (kernel s) \<noteq> [] \<or> nba_waiters (kernel s) \<noteq> []"
      | (quiet) "active (kernel s) = []" "inactive (kernel s) = []" "nba (kernel s) = []" "nba_waiters (kernel s) = []"
      by blast
    then show ?case
    proof cases
      case active
      then obtain s1 where s1: "drain_active resume s = Some s1"
        and rest: "(if stop (kernel s1) then Some (s1, True) else settle resume s1) = Some r"
        using loop(2) by (auto split: bind_splits)
      show ?thesis
      proof (cases "stop (kernel s1)")
        case True
        then show ?thesis using rest drain_active_steps [OF s1] by auto
      next
        case False
        then have "settle resume s1 = Some r" using rest by simp
        from loop(1) [OF this] show ?thesis using drain_active_steps [OF s1] by (auto intro: rtranclp_trans)
      qed
    next
      case inactive
      then have "settle resume (s\<lparr>kernel := promote_inactive (kernel s)\<rparr>) = Some r" using loop(2) by simp
      from loop(1) [OF this] show ?thesis
        using step_inactive [OF inactive] by (auto intro: converse_rtranclp_into_rtranclp)
    next
      case nba
      then have "settle resume (s\<lparr>kernel := drain_nba (kernel s)\<rparr>) = Some r" using loop(2) by simp
      from loop(1) [OF this] show ?thesis
        using step_nba [OF nba] by (auto intro: converse_rtranclp_into_rtranclp)
    next
      case quiet
      then show ?thesis using loop(2) by (auto simp: quiet_def)
    qed
  qed
  from this [OF assms, unfolded fst_conv snd_conv] show ?thesis .
qed

text \<open>
  How a run ends: a stop was requested; or all is quiet and no event is left; or all is quiet and
  the next event lies beyond the limit, which becomes the time.
\<close>

definition run_end :: "SimTime option \<Rightarrow> ('p, 'h) Sim \<Rightarrow> ('p, 'h) Sim \<Rightarrow> bool" where
  "run_end limit s s' \<longleftrightarrow>
     stop (kernel s) \<and> s' = s \<or>
     quiet (kernel s) \<and>
       (let k = discard_stale_timed_actions (kernel s)
        in (timed k = [] \<and> s' = s\<lparr>kernel := k\<rparr>) \<or>
           (\<exists>ev l. wheel_peek (timed k) = Some ev \<and> limit = Some l \<and> l < ev_time ev \<and>
              s' = s\<lparr>kernel := k\<lparr>time := l\<rparr>\<rparr>))"

lemma run_until_steps:
  assumes "run_until resume limit s = Some s'"
  shows "\<exists>s1. (sim_step resume)\<^sup>*\<^sup>* s s1 \<and> run_end limit s1 s'"
  using assms
proof (induction rule: run_until.raw_induct [rotated, consumes 1, case_names loop])
  case (loop run resume limit s s')
  then obtain s1 b where s1: "settle resume s = Some (s1, b)" by (auto split: bind_splits)
  note st = settle_steps [OF s1]
  let ?k = "discard_stale_timed_actions (kernel s1)"
  show ?case
  proof (cases b)
    case True
    then show ?thesis using loop(2) st by (auto simp: s1 run_end_def)
  next
    case False
    then have q: "quiet (kernel s1)" using st by simp
    show ?thesis
    proof (cases "wheel_peek (timed ?k)")
      case None
      then have "timed ?k = []" by (cases "timed ?k") simp_all
      moreover have "s' = s1\<lparr>kernel := ?k\<rparr>" using loop(2) None False by (simp add: s1)
      ultimately have "run_end limit s1 s'" using q by (simp add: run_end_def)
      then show ?thesis using st by blast
    next
      case (Some ev)
      show ?thesis
      proof (cases "\<exists>l. limit = Some l \<and> l < ev_time ev")
        case True
        then obtain l where l: "limit = Some l" "l < ev_time ev" by blast
        then have "s' = s1\<lparr>kernel := ?k\<lparr>time := l\<rparr>\<rparr>" using loop(2) Some False by (simp add: s1)
        then have "run_end limit s1 s'" using q Some l unfolding run_end_def Let_def by blast
        then show ?thesis using st by blast
      next
        case le: False
        let ?s = "s1\<lparr>kernel := advance (ev_time ev) ?k\<rparr>"
        have "run resume limit ?s = Some s'"
          using loop(2) Some False le by (auto simp: s1 split: option.splits if_splits)
        from loop(1) [OF this] obtain s2 where s2: "(sim_step resume)\<^sup>*\<^sup>* ?s s2" "run_end limit s2 s'" by blast
        have "sim_step resume s1 ?s" using q by (intro step_time [OF _ _ _ _ Some]) (simp_all add: quiet_def)
        then have "(sim_step resume)\<^sup>*\<^sup>* s s2"
          using st s2(1) by (meson rtranclp.rtrancl_into_rtrancl rtranclp_trans)
        then show ?thesis using s2(2) by blast
      qed
    qed
  qed
qed

section \<open>The interface of a process\<close>

text \<open>
  A process may only change the kernel through its calls (\<open>api\<close>), may wait only for nets that
  exist, and stays valid. Whatever keeps this contract, the simulation is safe.
\<close>

locale process =
  fixes resume :: "('p, 'h) resumption" and p_ok :: "profile \<Rightarrow> 'h \<Rightarrow> 'p \<Rightarrow> bool"
  assumes resume_api: "kernel_ok k \<Longrightarrow> p_ok (profile_of k) h p \<Longrightarrow> resume p h k = Some (p', h', k', wt) \<Longrightarrow>
      api\<^sup>*\<^sup>* k k'"
    and resume_ok: "kernel_ok k \<Longrightarrow> p_ok (profile_of k) h p \<Longrightarrow> resume p h k = Some (p', h', k', wt) \<Longrightarrow>
      p_ok (profile_of k) h' p'"
    and resume_others: "kernel_ok k \<Longrightarrow> p_ok (profile_of k) h p \<Longrightarrow> resume p h k = Some (p', h', k', wt) \<Longrightarrow>
      p_ok (profile_of k) h q \<Longrightarrow> p_ok (profile_of k) h' q"
    and resume_wait: "kernel_ok k \<Longrightarrow> p_ok (profile_of k) h p \<Longrightarrow> resume p h k = Some (p', h', k', wt) \<Longrightarrow>
      wait_ok k wt"
    and resume_children: "kernel_ok k \<Longrightarrow> p_ok (profile_of k) h p \<Longrightarrow>
      resume p h k = Some (p', h', k', Fork cs j) \<Longrightarrow> c \<in> set cs \<Longrightarrow> p_ok (profile_of k) h' c"
begin

lemma popped:
  assumes "sim_inv p_ok s" and "active (kernel s) = pid # rest"
  defines "k \<equiv> popped_kernel rest (kernel s)"
  shows "pid < length (procs s)" and "keeps (kernel s) k" and "places k pid = 0"
    and "places (kernel s) q = places k q + of_bool (q = pid)" and "events_finite k"
    and "p_ok (profile_of k) (shared s) (procs s ! pid)"
proof -
  have pl: "places (kernel s) q = places k q + of_bool (q = pid)" for q
    using assms(2) by (simp add: places_def k_def)
  have le: "places (kernel s) pid \<le> of_bool (pid < length (procs s))"
    using assms(1) by (simp add: sim_inv_def)
  with pl [of pid] show lt: "pid < length (procs s)" by (cases "pid < length (procs s)") simp_all
  show "places k pid = 0" using le pl [of pid] lt by simp
  show k: "keeps (kernel s) k"
    using assms(1) unfolding k_def by (intro kernel_ok_cong) (simp_all add: sim_inv_def)
  show "places (kernel s) q = places k q + of_bool (q = pid)" by (rule pl)
  show "events_finite k" using assms(1) by (simp add: sim_inv_def k_def events_finite_def)
  show "p_ok (profile_of k) (shared s) (procs s ! pid)"
    using assms(1) lt keeps_profile [OF k] by (simp add: sim_inv_def)
qed

text \<open>
  Resuming the process at the head of the queue: the kernel itself does not panic, the other
  processes stay where they are or move, and the resumed one is somewhere again unless it finished.
\<close>

lemma drain_step_spec:
  assumes "sim_inv p_ok s" and "active (kernel s) = pid # rest" and "drain_step resume s = Some s'"
  shows "sim_inv p_ok s' \<and> profile_of (kernel s') = profile_of (kernel s) \<and> time (kernel s') = time (kernel s) \<and>
    length (procs s) \<le> length (procs s') \<and>
    (\<forall>q < length (procs s). q \<noteq> pid \<longrightarrow> places (kernel s') q = places (kernel s) q) \<and>
    (\<forall>q. length (procs s) \<le> q \<and> q < length (procs s') \<longrightarrow> places (kernel s') q = 1) \<and>
    (\<exists>p h k wt. resume (procs s ! pid) (shared s) (popped_kernel rest (kernel s)) = Some (p, h, k, wt) \<and>
       places (kernel s') pid = of_bool (wt \<noteq> Finished))"
proof -
  define k where "k = popped_kernel rest (kernel s)"
  note pop = popped [OF assms(1,2), folded k_def]
  have kok: "kernel_ok k" by (rule keeps_ok [OF pop(2)])
  obtain p h k1 wt where r: "resume (procs s ! pid) (shared s) k = Some (p, h, k1, wt)"
    using drain_step_resumed [OF assms(2,3)] by (auto simp: k_def)
  note eq = trans [OF drain_step_eq [where resume = resume, OF assms(2) pop(1) r [unfolded k_def], symmetric] assms(3)]
  let ?s = "s\<lparr>kernel := k1, procs := (procs s)[pid := p], shared := h\<rparr>"
  have api: "api\<^sup>*\<^sup>* k k1" by (rule resume_api [OF kok pop(6) r])
  have k1: "keeps (kernel s) k1" by (rule keeps_trans [OF pop(2) apis_keep [OF api kok]])
  have pl1: "places k1 q = places k q" and ef1: "events_finite k1" for q
    using apis_places [OF api kok pop(5)] by simp_all
  have P: "profile_of k = profile_of (kernel s)" by (rule keeps_profile [OF pop(2)])
  have procs1: "\<forall>q \<in> set ((procs s)[pid := p]). p_ok (profile_of (kernel s)) h q"
    using assms(1) resume_ok [OF kok pop(6) r] resume_others [OF kok pop(6) r] P
    by (auto simp: sim_inv_def dest!: set_update_subset_insert [THEN subsetD])
  have wok: "wait_ok k1 wt"
    using resume_wait [OF kok pop(6) r] keeps_len [OF apis_keep [OF api kok]]
    by (auto simp: wait_ok_def split: Wait.splits)
  have zero: "places k1 pid = 0" using pl1 pop(3) by simp
  have others: "places k1 q = places (kernel s) q" if "q \<noteq> pid" for q using that pl1 pop(4) [of q] by simp
  have bound: "places (kernel s) q \<le> of_bool (q < length (procs s))" for q
    using assms(1) by (simp add: sim_inv_def)
  have armed: "sim_inv p_ok (?s\<lparr>kernel := k2\<rparr>) \<and> profile_of k2 = profile_of (kernel s) \<and> time k2 = time (kernel s) \<and>
      (\<forall>q < length (procs s). q \<noteq> pid \<longrightarrow> places k2 q = places (kernel s) q) \<and> places k2 pid = of_bool b"
    if "keeps k1 k2" "events_finite k2" "\<And>q. places k2 q = places k1 q + of_bool (q = pid \<and> b)" for k2 b
  proof -
    have kk: "keeps (kernel s) k2" by (rule keeps_trans [OF k1 that(1)])
    have "places k2 q \<le> of_bool (q < length (procs s))" for q
      using that(3) [of q] others [of q] zero bound [of q] pop(1) by (cases "q = pid") auto
    then show ?thesis
      using kk that(2,3) procs1 others zero by (auto simp: sim_inv_def keeps_def)
  qed

  show ?thesis
  proof (cases "\<exists>cs j. wt = Fork cs j")
    case True
    then obtain cs j where wt: "wt = Fork cs j" by blast
    have s': "s' = spawn_fork pid cs j ?s"
      using eq by (simp add: wt)
    note sp = spawn_fork_spec [of ?s pid cs j]
    have ok1: "kernel_ok (kernel ?s)" using keeps_ok [OF k1] by simp
    have kk: "keeps (kernel s) (kernel s')" using sp [OF ok1] keeps_trans [OF k1] by (simp add: s')
    have pl: "places (kernel s') q = places k1 q + of_bool (q = pid) +
        of_bool (length (procs s) \<le> q \<and> q < length (procs s) + length cs)" for q
      using sp [OF ok1] by (simp add: s')
    have "\<forall>c \<in> set (procs s'). p_ok (profile_of (kernel s)) h c"
      using sp [OF ok1] procs1 resume_children [OF kok pop(6), of p h k1 cs j] r P by (auto simp: s' wt)
    moreover have "places (kernel s') q \<le> of_bool (q < length (procs s'))" for q
      using pl [of q] others [of q] zero bound [of q] pop(1) sp [OF ok1]
      by (cases "q = pid"; cases "q < length (procs s)") (auto simp: s')
    moreover have "places (kernel s') q = places (kernel s) q" if "q < length (procs s)" "q \<noteq> pid" for q
      using that pl [of q] others [of q] by simp
    moreover have "places (kernel s') q = 1" if "length (procs s) \<le> q \<and> q < length (procs s')" for q
      using that pl [of q] others [of q] bound [of q] pop(1) sp [OF ok1] by (simp add: s')
    moreover have one: "places (kernel s') pid = 1" using pl [of pid] zero pop(1) by simp
    moreover have "(\<exists>p h k wt. resume (procs s ! pid) (shared s) (popped_kernel rest (kernel s)) = Some (p, h, k, wt) \<and>
       places (kernel s') pid = of_bool (wt \<noteq> Finished))"
      using r one by (simp add: wt k_def)
    ultimately show ?thesis
      using kk ef1 sp [OF ok1] by (simp add: sim_inv_def keeps_def s')
  next
    case False
    then obtain k2 where k2: "arm pid wt k1 = Some k2"
      using arm_returns [OF kernel_okD(3) [OF keeps_ok [OF k1]] wok] by metis
    note kp = arm_keeps [OF keeps_ok [OF k1] wok k2] and pa = places_arm [OF ef1 zero k2]
    show ?thesis
    proof (cases "wt = Finished")
      case True
      then have s': "s' = ?s\<lparr>kernel := notify_finished pid k2\<rparr>"
        using eq k2 by simp
      have "keeps k1 (notify_finished pid k2)"
        by (rule keeps_trans [OF kp simple_ops_keep(6) [OF keeps_ok [OF kp]]])
      moreover have "events_finite (notify_finished pid k2)"
        using pa by (simp add: notify_finished_def events_finite_def split: prod.split)
      ultimately show ?thesis
        using armed [of "notify_finished pid k2" False] pa True r by (simp add: s' places_notify k_def)
    next
      case False
      then have s': "s' = ?s\<lparr>kernel := k2\<rparr>"
        using eq k2 \<open>\<nexists>cs j. wt = Fork cs j\<close> by (cases wt) simp_all
      show ?thesis using armed [of k2 True] kp pa False r by (simp add: s' k_def)
    qed
  qed
qed

text \<open>
  Only a panic of the process stops a step: the nets of the wait it returns are in range, and so are
  those recorded for its earlier waits.
\<close>

lemma drain_step_total:
  assumes "sim_inv p_ok s" and "active (kernel s) = pid # rest"
    and "resume (procs s ! pid) (shared s) (popped_kernel rest (kernel s)) \<noteq> None"
  shows "drain_step resume s \<noteq> None"
proof -
  obtain p h k wt where r: "resume (procs s ! pid) (shared s) (popped_kernel rest (kernel s)) = Some (p, h, k, wt)"
    using assms(3) by auto
  note eq = drain_step_eq [where resume = resume, OF assms(2) popped(1) [OF assms(1,2)] r]
  note pop = popped [OF assms(1,2)]
  note kok = keeps_ok [OF pop(2)]
  have k: "keeps (popped_kernel rest (kernel s)) k" by (rule apis_keep [OF resume_api [OF kok pop(6) r] kok])
  have wok: "wait_ok k wt"
    using resume_wait [OF kok pop(6) r] keeps_len [OF k] by (auto simp: wait_ok_def split: Wait.splits)
  show ?thesis
  proof (cases "\<exists>cs j. wt = Fork cs j")
    case True
    then show ?thesis unfolding eq by auto
  next
    case False
    then obtain k2 where "arm pid wt k = Some k2"
      using arm_returns [OF kernel_okD(3) [OF keeps_ok [OF k]] wok] by metis
    with False show ?thesis unfolding eq by (cases wt) simp_all
  qed
qed

text \<open>Every step keeps the invariant, and time never goes back.\<close>

lemma sim_step_spec:
  assumes "sim_inv p_ok s" and "sim_step resume s s'"
  shows "sim_inv p_ok s' \<and> profile_of (kernel s') = profile_of (kernel s) \<and> time (kernel s) \<le> time (kernel s') \<and>
    length (procs s) \<le> length (procs s')"
  using assms(2)
proof cases
  case step_resume
  then obtain pid rest where "active (kernel s) = pid # rest" by (cases "active (kernel s)") blast+
  from drain_step_spec [OF assms(1) this step_resume(2)] show ?thesis by simp
next
  case step_inactive
  show ?thesis
    using assms(1) promote_keeps [of "kernel s"] unfolding step_inactive(1)
    by (simp add: sim_inv_def keeps_def places_promote)
next
  case step_nba
  show ?thesis
    using assms(1) drain_nba_keeps [of "kernel s"] places_drain_nba [of "kernel s"] unfolding step_nba(1)
    by (simp add: sim_inv_def keeps_def)
next
  case (step_time ev)
  let ?k = "discard_stale_timed_actions (kernel s)"
  have k: "keeps (kernel s) ?k" using assms(1) by (intro discard_stale_keeps) (simp add: sim_inv_def)
  note adv = advance_spec [OF keeps_ok [OF k] step_time(6)]
  show ?thesis
    using assms(1) k adv unfolding step_time(1)
    by (simp add: sim_inv_def keeps_def places_discard events_finite_discard)
qed

lemma sim_steps_spec:
  assumes "sim_inv p_ok s" and "(sim_step resume)\<^sup>*\<^sup>* s s'"
  shows "sim_inv p_ok s' \<and> profile_of (kernel s') = profile_of (kernel s) \<and> time (kernel s) \<le> time (kernel s') \<and>
    length (procs s) \<le> length (procs s')"
  using assms(2)
proof induction
  case (step s1 s2)
  then show ?case using sim_step_spec [of s1 s2] assms(1) by fastforce
qed (use assms(1) in simp)

text \<open>
  What a run leaves: a valid state in which a stop was requested, or nothing is left to do up to the
  limit: no process is ready, no update is pending, and every event of the wheel lies beyond.
\<close>

lemma run_until_spec:
  assumes "sim_inv p_ok s" and "run_until resume limit s = Some s'"
  shows "sim_inv p_ok s' \<and> length (procs s) \<le> length (procs s') \<and>
    (stop (kernel s') \<or>
     quiet (kernel s') \<and>
     (timed (kernel s') = [] \<or>
      (\<exists>l. limit = Some l \<and> time (kernel s') = l \<and> (\<forall>e \<in> set (timed (kernel s')). l < ev_time e))))"
proof -
  obtain s1 where s1: "(sim_step resume)\<^sup>*\<^sup>* s s1" and e: "run_end limit s1 s'"
    using run_until_steps [OF assms(2)] by blast
  note st = sim_steps_spec [OF assms(1) s1]
  let ?k = "discard_stale_timed_actions (kernel s1)"
  have ok1: "kernel_ok (kernel s1)" using st by (simp add: sim_inv_def)
  note k = discard_stale_keeps [OF ok1]
  have inv: "sim_inv p_ok (s1\<lparr>kernel := ?k\<rparr>)"
    using st k by (auto simp: sim_inv_def keeps_def places_discard events_finite_discard)
  have quiet: "quiet (kernel s1) \<Longrightarrow> quiet ?k" by (simp add: quiet_def discard_stale_timed_actions_def)
  consider "stop (kernel s1)" "s' = s1" | "quiet (kernel s1)" "timed ?k = []" "s' = s1\<lparr>kernel := ?k\<rparr>"
    | ev l where "quiet (kernel s1)" "wheel_peek (timed ?k) = Some ev" "limit = Some l" "l < ev_time ev"
        "s' = s1\<lparr>kernel := ?k\<lparr>time := l\<rparr>\<rparr>"
    using e unfolding run_end_def Let_def by blast
  then show ?thesis
  proof cases
    case 1
    show ?thesis using 1(1) st unfolding 1(2) by simp
  next
    case 2
    show ?thesis using quiet [OF 2(1)] 2(2) inv st unfolding 2(3) by simp
  next
    case (3 ev l)
    have later: "l < ev_time e'" if "e' \<in> set (timed ?k)" for e'
      using wheel_peek_least [OF keeps_ok [OF k] 3(2)] that 3(4) by fastforce
    have "l \<le> u64_max" using wheel_peek_least [OF keeps_ok [OF k] 3(2)] 3(4) by simp
    then have t: "kernel_ok (?k\<lparr>time := l\<rparr>) \<and> profile_of (?k\<lparr>time := l\<rparr>) = profile_of ?k \<and>
        places (?k\<lparr>time := l\<rparr>) = places ?k \<and> events_finite (?k\<lparr>time := l\<rparr>) = events_finite ?k"
      using set_time_ok [OF keeps_ok [OF k], of l "stats ?k"] later by (simp add: less_imp_le)
    have "sim_inv p_ok (s1\<lparr>kernel := ?k\<lparr>time := l\<rparr>\<rparr>)"
      using t inv by (simp add: sim_inv_def)
    moreover have "quiet (?k\<lparr>time := l\<rparr>)" using quiet [OF 3(1)] by (simp add: quiet_def)
    ultimately show ?thesis using 3(3) later st unfolding 3(5) by auto
  qed
qed

end

end
