(* ===== verification/IR_Process.thy ===== *)
theory IR_Process
  imports IR_Arrays Sim
begin

text \<open>
  The interpreter keeps the contract of a process: whatever a well-typed program does, its frames
  conform to their typings, it changes the kernel only through its calls, and it waits only for nets
  that exist. The locale \<open>process\<close> is interpreted on \<open>resume\<close>; its facts are those of the whole
  simulation of a well-typed design.
\<close>

section \<open>Valid processes\<close>

text \<open>A suspended frame conforms to a typing in which nothing is assumed of the registers \<open>R\<close>.\<close>

definition frame_ok :: "profile \<Rightarrow> (nat \<rightharpoonup> nat) \<Rightarrow> Frame \<Rightarrow> Reg set \<Rightarrow> bool" where
  "frame_ok P K f R \<longleftrightarrow> (\<forall>q \<in> set (forks (f_prog f)). wt_prog P q) \<and>
     (\<exists>T. wt_body P (f_prog f) T \<and> conforms K (T (f_pc f)) (f_regs f) \<and> pending_ok K T (f_pending_nba f) \<and>
        (\<forall>r \<in> R. T (f_pc f) r = TAny))"

text \<open>The registers of the caller that a return writes.\<close>

definition result_regs :: "Frame \<Rightarrow> Reg set" where
  "result_regs f = insert (f_ret_dst f) (snd ` set (f_copy_out f))"

fun chain_ok :: "profile \<Rightarrow> (nat \<rightharpoonup> nat) \<Rightarrow> Frame \<Rightarrow> Frame list \<Rightarrow> bool" where
  "chain_ok P K f [] = True"
| "chain_ok P K f (c # cs) = (frame_ok P K c (result_regs f) \<and> chain_ok P K c cs)"

definition ir_ok :: "Linkage \<Rightarrow> profile \<Rightarrow> World \<Rightarrow> IrProcess \<Rightarrow> bool" where
  "ir_ok lk P w p \<longleftrightarrow> linkage_ok P lk \<and> world_wf w \<and> frame_ok P (kinds w) (current p) {} \<and>
     chain_ok P (kinds w) (current p) (callers p)"

lemma frame_ok_mono: "K \<subseteq>\<^sub>m K' \<Longrightarrow> frame_ok P K f R \<Longrightarrow> frame_ok P K' f R"
  unfolding frame_ok_def using conforms_mono pending_mono by blast

lemma frame_ok_less: "frame_ok P K f R \<Longrightarrow> Q \<subseteq> R \<Longrightarrow> frame_ok P K f Q"
  unfolding frame_ok_def by blast

lemma chain_ok_mono: "K \<subseteq>\<^sub>m K' \<Longrightarrow> chain_ok P K f cs \<Longrightarrow> chain_ok P K' f cs"
  by (induction cs arbitrary: f) (auto intro: frame_ok_mono)

text \<open>Only the destination and the copy-out list of the callee matter to its callers.\<close>

lemma chain_ok_cong: "result_regs f = result_regs g \<Longrightarrow> chain_ok P K f cs = chain_ok P K g cs"
  by (cases cs) simp_all

lemma ir_ok_extends: "ir_ok lk P w p \<Longrightarrow> world_wf w' \<Longrightarrow> extends w w' \<Longrightarrow> ir_ok lk P w' p"
  unfolding ir_ok_def using frame_ok_mono chain_ok_mono extends_kinds by blast

section \<open>Entering and leaving frames\<close>

lemma new_frame_ok:
  assumes "wt_prog P prog" and "list_all (value_wf K) rs"
  shows "frame_ok P K \<lparr>f_prog = prog, f_pc = 0, f_regs = rs, f_ret_dst = d, f_copy_out = co,
    f_provided_args = n, f_pending_nba = []\<rparr> {}"
proof -
  obtain T where T: "wt_body P prog T" "\<forall>q \<in> set (forks prog). wt_prog P q" using assms(1) by (blast elim: wt_progE)
  then have "conforms K (T 0) rs" using assms(2) by (simp add: wt_body_def conforms_def list_all_length)
  then show ?thesis using T by (auto simp: frame_ok_def pending_ok_def)
qed

lemma bind_args_ok:
  "bind_args modes actuals i vals (rs, co) = Some (rs', co') \<Longrightarrow> list_all (value_wf K) vals \<Longrightarrow>
    list_all (value_wf K) rs \<Longrightarrow> snd ` set co \<subseteq> set actuals \<Longrightarrow>
    list_all (value_wf K) rs' \<and> snd ` set co' \<subseteq> set actuals"
proof (induction vals arbitrary: i rs co)
  case (Cons v vs)
  let ?mode = "if i < length modes then modes ! i else Input"
  define rs1 where "rs1 = (if i < length rs \<and> ?mode \<noteq> Output then rs[i := v] else rs)"
  have rs1: "list_all (value_wf K) rs1" using Cons.prems(2,3) by (auto simp: rs1_def intro: list_update_wf)
  obtain co1 where co1: "bind_args modes actuals (i + 1) vs (rs1, co1) = Some (rs', co')"
    "co1 = co \<or> (\<exists>x. at actuals i = Some x \<and> co1 = co @ [(i, x)])"
    using Cons.prems(1) by (auto simp: rs1_def split: if_splits bind_splits)
  then have "snd ` set co1 \<subseteq> set actuals" using Cons.prems(4) at_in by fastforce
  then show ?case using Cons.IH [OF co1(1) _ rs1] Cons.prems(2) by simp
qed simp

lemma enter_call_ok:
  assumes "enter_call lk func vals actuals ret = Some f" and "linkage_ok P lk" and "list_all (value_wf K) vals"
  shows "frame_ok P K f {} \<and> result_regs f \<subseteq> insert ret (set actuals)"
proof -
  obtain callee rs co where c: "at (funcs lk) func = Some callee"
    "bind_args (arg_modes callee) actuals 0 vals (replicate (n_regs callee) Null, []) = Some (rs, co)"
    "f = \<lparr>f_prog = callee, f_pc = 0, f_regs = rs, f_ret_dst = ret, f_copy_out = co,
        f_provided_args = length vals, f_pending_nba = []\<rparr>"
    using assms(1) by (auto simp: enter_call_def split: bind_splits)
  have "list_all (value_wf K) rs \<and> snd ` set co \<subseteq> set actuals"
    by (rule bind_args_ok [OF c(2) assms(3)]) (simp_all add: list_all_iff)
  moreover have "wt_prog P callee" using assms(2) at_in [OF c(1)] by (simp add: linkage_ok_def list_all_iff)
  ultimately show ?thesis using new_frame_ok by (auto simp: c(3) result_regs_def)
qed

lemma copy_back_ok:
  "copy_back co rs crs = Some crs' \<Longrightarrow> list_all (value_wf K) rs \<Longrightarrow> conforms K (forget R G) crs \<Longrightarrow>
    snd ` set co \<subseteq> R \<Longrightarrow> conforms K (forget R G) crs'"
proof (induction co rs crs rule: copy_back.induct)
  case (2 formal actual co rs crs)
  then obtain v crs1 where v: "get_reg rs formal = Some v" "put_reg actual v crs = Some crs1"
    "copy_back co rs crs1 = Some crs'"
    by (auto split: bind_splits)
  have "value_wf K v" using v(1) "2.prems"(2) by (auto simp: get_reg_def list_all_length split: if_splits)
  then have "conforms K (forget R G) crs1" using conforms_forget_put [OF "2.prems"(3) _ _ v(2)] "2.prems"(4) by simp
  then show ?case using "2.IH" [OF v] "2.prems"(2,4) by simp
qed simp

lemma conforms_values: "conforms K G rs \<Longrightarrow> list_all (value_wf K) rs"
  by (auto simp: conforms_def list_all_length intro: conf_value)

lemma frame_ok_values: "frame_ok P K f R \<Longrightarrow> list_all (value_wf K) (f_regs f)"
  unfolding frame_ok_def using conforms_values by blast

lemma return_to_ok:
  assumes "return_to f val caller = Some c" and "frame_ok P K f {}" and "frame_ok P K caller (result_regs f)"
    and "case val of None \<Rightarrow> True | Some v \<Rightarrow> value_wf K v"
  shows "frame_ok P K c {} \<and> result_regs c = result_regs caller"
proof -
  obtain rs rs' where rs: "copy_back (f_copy_out f) (f_regs f) (f_regs caller) = Some rs"
    "(case val of None \<Rightarrow> Some rs | Some v \<Rightarrow> put_reg (f_ret_dst f) v rs) = Some rs'" "c = caller\<lparr>f_regs := rs'\<rparr>"
    using assms(1) by (auto simp: return_to_def split: bind_splits)
  obtain T where T: "wt_body P (f_prog caller) T" "conforms K (T (f_pc caller)) (f_regs caller)"
    "pending_ok K T (f_pending_nba caller)" "\<forall>r \<in> result_regs f. T (f_pc caller) r = TAny"
    "\<forall>q \<in> set (forks (f_prog caller)). wt_prog P q"
    using assms(3) unfolding frame_ok_def by blast
  have G: "forget (result_regs f) (T (f_pc caller)) = T (f_pc caller)" using T(4) by (auto simp: forget_def)
  have "conforms K (T (f_pc caller)) rs"
    using copy_back_ok [OF rs(1) frame_ok_values [OF assms(2)], of "result_regs f" "T (f_pc caller)"] T(2)
    unfolding G by (auto simp: result_regs_def)
  then have "conforms K (T (f_pc caller)) rs'"
    using rs(2) assms(4) conforms_forget_put [of K "result_regs f" "T (f_pc caller)" rs "f_ret_dst f"]
    unfolding G by (auto simp: result_regs_def split: option.splits)
  then show ?thesis using T by (auto simp: frame_ok_def rs(3) result_regs_def)
qed

lemma fork_process_ok:
  assumes "fork_process c = Some p" and "linkage_ok P lk" and "world_wf w" and "wt_prog P (fst c)"
    and "\<forall>q \<in> set (snd c). value_wf (kinds w) (snd q)"
  shows "ir_ok lk P w p"
proof -
  obtain rs where rs: "write_back (snd c) (replicate (n_regs (fst c)) Null) = Some rs"
    "p = IrProcess ((new_frame (fst c))\<lparr>f_regs := rs\<rparr>) False []"
    using assms(1) by (auto simp: fork_process_def new_frame_def split: bind_splits)
  have "conforms (kinds w) (forget UNIV G) rs" for G
    by (rule write_back_ok [OF rs(1)]) (use assms(5) in \<open>simp_all add: conforms_def forget_def\<close>)
  then have "list_all (value_wf (kinds w)) rs" by (rule conforms_values)
  then show ?thesis using new_frame_ok [OF assms(4)] assms(2,3) by (simp add: ir_ok_def rs(2) new_frame_def)
qed


section \<open>A resumption\<close>

lemma machine_of_simps [simp]:
  "pc (machine_of f w k) = f_pc f" "regs (machine_of f w k) = f_regs f" "world (machine_of f w k) = w"
  "pending_nba (machine_of f w k) = f_pending_nba f" "kern (machine_of f w k) = k"
  by (simp_all add: machine_of_def)

lemma frame_of_simps [simp]:
  "f_prog (frame_of f m) = f_prog f" "f_pc (frame_of f m) = pc m" "f_regs (frame_of f m) = regs m"
  "f_pending_nba (frame_of f m) = pending_nba m" "result_regs (frame_of f m) = result_regs f"
  by (simp_all add: frame_of_def result_regs_def)

text \<open>Running a valid frame to its next transition.\<close>

lemma step_ok_forget: "step_ok P prog K G s \<Longrightarrow> step_ok P prog K (\<lambda>_. TAny) s"
  by (cases s) simp_all

lemma run_frame_frame_ok:
  assumes "run_frame lk (f_prog f) n (machine_of f w k) = Some (m, s)" and "linkage_ok P lk"
    and "frame_ok P (kinds w) f {}" and "world_wf w" and "kernel_ok k" and "profile_of k = P"
  shows "extends w (world m) \<and> world_wf (world m) \<and> api\<^sup>*\<^sup>* k (kern m) \<and> keeps k (kern m)"
    and "frame_ok P (kinds (world m)) (frame_of f m) (case s of CallStep _ _ actuals ret \<Rightarrow> insert ret (set actuals) | _ \<Rightarrow> {})"
    and "step_ok P (f_prog f) (kinds (world m)) (\<lambda>_. TAny) s"
proof -
  obtain T where T: "wt_body P (f_prog f) T" "conforms (kinds w) (T (f_pc f)) (f_regs f)"
    "pending_ok (kinds w) T (f_pending_nba f)" "\<forall>q \<in> set (forks (f_prog f)). wt_prog P q"
    using assms(3) unfolding frame_ok_def by blast
  have "st_ok P T (pc (machine_of f w k)) (machine_of f w k)" using T assms(4-6) by (simp add: st_ok_def)
  note ok = run_frame_ok [OF assms(1) this T(1) assms(2)]
  have api: "api\<^sup>*\<^sup>* k (kern m)" using ok by (simp add: goes_def)
  then show "extends w (world m) \<and> world_wf (world m) \<and> api\<^sup>*\<^sup>* k (kern m) \<and> keeps k (kern m)"
    using ok apis_keep [OF api assms(5)] by (simp add: goes_def st_ok_def)
  show "step_ok P (f_prog f) (kinds (world m)) (\<lambda>_. TAny) s" using ok step_ok_forget by blast
  have "\<forall>r \<in> (case s of CallStep _ _ actuals ret \<Rightarrow> insert ret (set actuals) | _ \<Rightarrow> {}). T (pc m) r = TAny"
    using ok by (cases s) simp_all
  then show "frame_ok P (kinds (world m)) (frame_of f m)
      (case s of CallStep _ _ actuals ret \<Rightarrow> insert ret (set actuals) | _ \<Rightarrow> {})"
    unfolding frame_ok_def frame_of_simps using T ok by (auto simp: goes_def st_ok_def)
qed

text \<open>What a resumption leaves behind.\<close>

definition resumed_ok :: "Linkage \<Rightarrow> World \<Rightarrow> Kernel \<Rightarrow> IrProcess \<times> World \<times> Kernel \<times> IrProcess Wait \<Rightarrow> bool" where
  "resumed_ok lk w k r \<longleftrightarrow> (case r of (p, w', k', wt) \<Rightarrow>
     ir_ok lk (profile_of k) w' p \<and> extends w w' \<and> world_wf w' \<and> api\<^sup>*\<^sup>* k k' \<and> wait_ok k' wt \<and>
     (\<forall>cs j. wt = Wait.Fork cs j \<longrightarrow> (\<forall>c \<in> set cs. ir_ok lk (profile_of k) w' c)))"

lemma resumed_ok_trans:
  assumes "resumed_ok lk w1 k1 r" and "extends w w1" and "api\<^sup>*\<^sup>* k k1" and "profile_of k1 = profile_of k"
  shows "resumed_ok lk w k r"
  using assms extends_trans by (auto simp: resumed_ok_def intro: rtranclp_trans)

lemma collect_forks_ok:
  assumes "collect fork_process cs = Some ps" and "linkage_ok P lk" and "world_wf w"
    and "\<forall>c \<in> set cs. wt_prog P (fst c) \<and> (\<forall>p \<in> set (snd c). value_wf (kinds w) (snd p))"
  shows "\<forall>p \<in> set ps. ir_ok lk P w p"
  using collect_in [OF assms(1)] fork_process_ok [OF _ assms(2,3)] assms(4) by blast

lemma wait_step_ok: "step_ok P prog K G (WaitStep wt) \<Longrightarrow> P = profile_of k \<Longrightarrow> wait_ok k wt \<and> (\<forall>cs j. wt \<noteq> Wait.Fork cs j)"
  by (cases wt) (auto simp: wait_ok_def profile_of_def)

lemma run_loop_ok:
  assumes "run_loop lk p w k = Some r" and "ir_ok lk (profile_of k) w p" and "kernel_ok k"
  shows "resumed_ok lk w k r"
  using assms
proof (induction arbitrary: rule: run_loop.raw_induct [rotated, consumes 1, case_names loop])
  case (loop run lk p w k r)
  define P where "P = profile_of k"
  let ?f = "current p"
  have ir: "linkage_ok P lk" "world_wf w" "frame_ok P (kinds w) ?f {}" "chain_ok P (kinds w) ?f (callers p)"
    using loop(3) by (simp_all add: ir_ok_def P_def)
  obtain m step where m: "run_frame lk (f_prog ?f) (f_provided_args ?f) (machine_of ?f w k) = Some (m, step)"
    using loop(2) by (auto split: bind_splits)
  note body = loop(2) [unfolded m]
  note fr = run_frame_frame_ok [OF m ir(1,3,2) loop(4) P_def [symmetric]]
  let ?g = "frame_of ?f m" and ?w = "world m" and ?k = "kern m"
  have k: "kernel_ok ?k" "profile_of ?k = P" using fr(1) by (simp_all add: keeps_def P_def)
  have chain: "chain_ok P (kinds ?w) ?f (callers p)"
    using chain_ok_mono [OF extends_kinds ir(4)] fr(1) by blast
  have chain': "chain_ok P (kinds ?w) ?g (callers p)" using chain chain_ok_cong [of ?g ?f] by simp
  have ok: "ir_ok lk P ?w (IrProcess ?g b (callers p))" for b
    using ir(1) fr(1) frame_ok_less [OF fr(2)] chain' by (simp add: ir_ok_def)
  have cont: "resumed_ok lk w k r" if "run lk q ?w ?k = Some r" "ir_ok lk P ?w q" for q
    using resumed_ok_trans [OF loop(1) [OF that(1)]] that(2) k fr(1) by (simp add: P_def)
  show ?case
  proof (cases step)
    case (WaitStep wt)
    then have r: "r = (IrProcess ?g (if wt = NbaWait then True else apply_pending_nba p) (callers p), ?w, ?k, wt)"
      using body by simp
    show ?thesis unfolding r using ok fr(1) wait_step_ok [of P "f_prog ?f" "kinds ?w" "\<lambda>_. TAny" wt ?k] fr(3) k
      by (simp add: WaitStep resumed_ok_def P_def)
  next
    case (CallStep func vals actuals ret)
    then obtain callee where c: "enter_call lk func vals actuals ret = Some callee"
      "run lk (IrProcess callee (apply_pending_nba p) (?g # callers p)) ?w ?k = Some r"
      using body by (auto split: bind_splits)
    have "list_all (value_wf (kinds ?w)) vals" using fr(3) by (simp add: CallStep)
    note en = enter_call_ok [OF c(1) ir(1) this]
    have "frame_ok P (kinds ?w) ?g (result_regs callee)"
      using fr(2) en by (auto simp: CallStep intro: frame_ok_less)
    then show ?thesis using cont [OF c(2)] en ir(1) fr(1) chain' by (simp add: ir_ok_def)
  next
    case (ReturnStep val)
    show ?thesis
    proof (cases "callers p")
      case Nil
      then have "r = (IrProcess ?g (apply_pending_nba p) [], ?w, ?k, Finished)" using body by (simp add: ReturnStep)
      then show ?thesis using ok [of "apply_pending_nba p"] fr(1) by (simp add: Nil resumed_ok_def wait_ok_def P_def)
    next
      case (Cons c cs)
      then obtain c' where c': "return_to ?g val c = Some c'"
        "run lk (IrProcess c' (apply_pending_nba p) cs) ?w ?k = Some r"
        using body by (auto simp: ReturnStep split: bind_splits)
      have "frame_ok P (kinds ?w) ?g {}" using fr(2) by (simp add: ReturnStep)
      moreover have "frame_ok P (kinds ?w) c (result_regs ?g)" "chain_ok P (kinds ?w) c cs" using chain' Cons by simp_all
      ultimately have "frame_ok P (kinds ?w) c' {} \<and> result_regs c' = result_regs c"
        using return_to_ok [OF c'(1)] fr(3) by (simp add: ReturnStep)
      then show ?thesis
        using cont [OF c'(2)] ir(1) fr(1) \<open>chain_ok P (kinds ?w) c cs\<close> chain_ok_cong [of c' c] by (simp add: ir_ok_def)
    qed
  next
    case (ForkStep cs j)
    then obtain ps where ps: "collect fork_process cs = Some ps"
      "r = (IrProcess ?g (apply_pending_nba p) (callers p), ?w, ?k, Wait.Fork ps j)"
      using body by (auto split: bind_splits)
    have forks: "wt_prog P q" if "q \<in> set (forks (f_prog ?f))" for q using ir(3) that by (simp add: frame_ok_def)
    have "\<forall>p \<in> set ps. ir_ok lk P ?w p"
      by (rule collect_forks_ok [OF ps(1) ir(1)]) (use fr(1,3) forks in \<open>auto simp: ForkStep\<close>)
    then show ?thesis using ok fr(1) by (simp add: ps(2) resumed_ok_def wait_ok_def P_def)
  qed
qed

lemma resume_contract:
  assumes "resume lk p w k = Some r" and "ir_ok lk (profile_of k) w p" and "kernel_ok k"
  shows "resumed_ok lk w k r"
proof (cases "apply_pending_nba p")
  case True
  let ?f = "current p"
  obtain rs where rs: "write_back (f_pending_nba ?f) (f_regs ?f) = Some rs" and
    run: "run_loop lk (IrProcess (?f\<lparr>f_regs := rs, f_pending_nba := []\<rparr>) False (callers p)) w (notify_runtime_change k) = Some r"
    using assms(1) True by (auto simp: resume_def run_def split: bind_splits)
  let ?k = "notify_runtime_change k" and ?P = "profile_of k"
  have api: "api k ?k" by (rule api_runtime)
  have k: "kernel_ok ?k" "profile_of ?k = ?P" using api_keeps [OF api assms(3)] by (simp_all add: keeps_def)
  obtain T where T: "wt_body ?P (f_prog ?f) T" "conforms (kinds w) (T (f_pc ?f)) (f_regs ?f)"
    "pending_ok (kinds w) T (f_pending_nba ?f)" "\<forall>q \<in> set (forks (f_prog ?f)). wt_prog ?P q"
    using assms(2) unfolding ir_ok_def frame_ok_def by blast
  let ?R = "fst ` set (f_pending_nba ?f)"
  have G: "forget ?R (T (f_pc ?f)) = T (f_pc ?f)" using T(3) unfolding forget_def pending_ok_def by fastforce
  have "conforms (kinds w) (T (f_pc ?f)) rs"
    using write_back_ok [OF rs, of "kinds w" ?R "T (f_pc ?f)"] T(2,3) unfolding G by (auto simp: pending_ok_def)
  then have "frame_ok ?P (kinds w) (?f\<lparr>f_regs := rs, f_pending_nba := []\<rparr>) {}"
    using T by (auto simp: frame_ok_def pending_ok_def)
  moreover have "chain_ok ?P (kinds w) (?f\<lparr>f_regs := rs, f_pending_nba := []\<rparr>) (callers p)"
    using assms(2) chain_ok_cong [of "?f\<lparr>f_regs := rs, f_pending_nba := []\<rparr>" ?f]
    by (simp add: ir_ok_def result_regs_def)
  ultimately have "resumed_ok lk w ?k r"
    using run_loop_ok [OF run] assms(2) k by (simp add: ir_ok_def)
  then show ?thesis by (rule resumed_ok_trans) (use api k in auto)
next
  case False
  then show ?thesis using assms run_loop_ok by (simp add: resume_def run_def)
qed

interpretation ir: process "resume lk" "ir_ok lk" for lk
proof
  fix k p w p' w' k' and wt :: "IrProcess Wait" and q c cs j
  assume k: "kernel_ok k" and p: "ir_ok lk (profile_of k) w p"
  note contract = resume_contract [OF _ p k]
  show "resume lk p w k = Some (p', w', k', wt) \<Longrightarrow> api\<^sup>*\<^sup>* k k'"
    and "resume lk p w k = Some (p', w', k', wt) \<Longrightarrow> ir_ok lk (profile_of k) w' p'"
    using contract by (auto simp: resumed_ok_def)
  show "wait_ok k wt" if r: "resume lk p w k = Some (p', w', k', wt)"
  proof -
    have c: "api\<^sup>*\<^sup>* k k'" "wait_ok k' wt" using contract [OF r] by (simp_all add: resumed_ok_def)
    have "length (nets k') = length (nets k)" using keeps_len [OF apis_keep [OF c(1) k]] by simp
    then show ?thesis using c(2) by (cases wt) (simp_all add: wait_ok_def)
  qed
  show "resume lk p w k = Some (p', w', k', wt) \<Longrightarrow> ir_ok lk (profile_of k) w q \<Longrightarrow> ir_ok lk (profile_of k) w' q"
    using contract ir_ok_extends by (auto simp: resumed_ok_def)
  show "resume lk p w k = Some (p', w', k', Wait.Fork cs j) \<Longrightarrow> c \<in> set cs \<Longrightarrow> ir_ok lk (profile_of k) w' c"
    using contract by (auto simp: resumed_ok_def)
qed

end
