(* ===== verification/Design.thy ===== *)
theory Design
  imports IR_Process
begin

text \<open>
  A design: the elaborator creates the nets and drivers of a kernel and adds the processes. The
  kernel it builds satisfies the invariant, and so does every state of its simulation.
\<close>

section \<open>Building the kernel\<close>

text \<open>Adding nets and drivers only extends the profile.\<close>

definition profile_le :: "profile \<Rightarrow> profile \<Rightarrow> bool" where
  "profile_le P Q \<longleftrightarrow>
     length (fst P) \<le> length (fst Q) \<and> length (snd P) \<le> length (snd Q) \<and>
     (\<forall>n < length (fst P). fst (fst Q ! n) = fst (fst P ! n) \<and> snd (fst P ! n) \<le> snd (fst Q ! n)) \<and>
     (\<forall>d < length (snd P). snd Q ! d = snd P ! d)"

lemma driver_ok_le: "profile_le P Q \<Longrightarrow> driver_ok P d \<Longrightarrow> driver_ok Q d \<and> driver_width Q d = driver_width P d"
  by (auto simp: profile_le_def driver_ok_def driver_width_def intro: less_le_trans)

lemma value_ok_le: "profile_le P Q \<Longrightarrow> value_ok P n v \<Longrightarrow> value_ok Q n v"
  by (auto simp: profile_le_def value_ok_def)

lemma action_ok_le: "profile_le P Q \<Longrightarrow> action_ok P a \<Longrightarrow> action_ok Q a"
  using driver_ok_le [of P Q] by (cases a) (auto simp: profile_le_def)

lemma net_with_resolution_ok: "wf_lv v \<Longrightarrow> net_ok (net_with_resolution name v res d)"
  by (simp add: net_ok_def net_with_resolution_def)

text \<open>The tables may grow if every new entry is well formed.\<close>

lemma kernel_ok_grow:
  assumes "kernel_ok k" and "profile_le (profile_of k) (profile_of k')"
    and "\<And>n. n < length (nets k') \<Longrightarrow> net_ok (nets k' ! n)"
    and "length (driver_requests k') = length (drivers k')" and "length (driver_bit_generations k') = length (drivers k')"
    and "\<And>d. d < length (drivers k') \<Longrightarrow> driver_ok (profile_of k') d \<and> wf_lv (driver_requests k' ! d) \<and>
      width (driver_requests k' ! d) = driver_width (profile_of k') d \<and>
      length (driver_bit_generations k' ! d) = driver_width (profile_of k') d"
    and "timed k' = timed k" and "nba k' = nba k" and "time k' = time k" and "seq_no k' = seq_no k"
    and "\<And>n. n < length (nets k') \<Longrightarrow> waiters (nets k' ! n) = (if n < length (nets k) then waiters (nets k ! n) else [])"
    and "wait_epochs k' = wait_epochs k" and "net_waits k' = net_waits k" and "length (nets k) \<le> length (nets k')"
  shows "kernel_ok k'"
proof -
  note inv = kernel_okD [OF assms(1)]
  have "shape_inv k'"
    using assms(3-8) shape_invD(8,9) [OF inv(1)] action_ok_le [OF assms(2)] value_ok_le [OF assms(2)]
    by (auto simp: shape_inv_def in_set_conv_nth [of _ "nets k'"])
  moreover have "wheel_inv k'" using inv(2) assms(7,9,10) by (simp add: wheel_inv_def)
  moreover have "waits_inv k'"
    using inv(3) assms(11-14) by (fastforce simp: waits_inv_def split: if_splits)
  ultimately show ?thesis by (simp add: kernel_ok_def)
qed

lemma new_net_ok:
  assumes "kernel_ok k" and "wf_lv v" and "new_net name v res d k = (k', n)"
  shows "kernel_ok k'" and "profile_of k' = (fst (profile_of k) @ [(width v, 0)], snd (profile_of k))" and "n = length (nets k)"
proof -
  have k': "k' = k\<lparr>nets := nets k @ [net_with_resolution name v res d]\<rparr>" and "n = length (nets k)"
    using assms(3) by (simp_all add: new_net_def)
  then show "n = length (nets k)" by simp
  show P: "profile_of k' = (fst (profile_of k) @ [(width v, 0)], snd (profile_of k))"
    by (simp add: k' profile_of_def net_with_resolution_def)
  then have le: "profile_le (profile_of k) (profile_of k')" by (simp add: profile_le_def nth_append)
  note sh = shape_invD [OF kernel_okD(1) [OF assms(1)]]
  show "kernel_ok k'"
  proof (rule kernel_ok_grow [OF assms(1) le])
    fix m assume "m < length (nets k')"
    then show "net_ok (nets k' ! m)"
      using sh(1) net_with_resolution_ok [OF assms(2)] by (auto simp: k' nth_append less_Suc_eq)
  next
    fix e assume "e < length (drivers k')"
    then have e: "e < length (drivers k)" by (simp add: k')
    show "driver_ok (profile_of k') e \<and> wf_lv (driver_requests k' ! e) \<and>
      width (driver_requests k' ! e) = driver_width (profile_of k') e \<and>
      length (driver_bit_generations k' ! e) = driver_width (profile_of k') e"
      using driver_ok_le [OF le sh(4) [OF e]] sh(5-7) [OF e] by (simp add: k')
  qed (auto simp: k' sh(2,3) nth_append less_Suc_eq net_with_resolution_def)
qed

lemma new_driver_ok:
  assumes "kernel_ok k" and "new_driver net zs os k = Some (k', d)"
  shows "kernel_ok k'" and "d = length (drivers k)" and "net < length (nets k)"
    and "profile_of k' = ((fst (profile_of k))[net := (width (nvalue (nets k ! net)), Suc (length (driver_values (nets k ! net))))],
      snd (profile_of k) @ [(net, length (driver_values (nets k ! net)))])"
proof -
  let ?n = "nets k ! net"
  let ?w = "width (nvalue ?n)"
  have net: "net < length (nets k)" and d: "d = length (drivers k)" and
    k': "nets k' = (nets k)[net := ?n\<lparr>driver_values := driver_values ?n @ [all_z ?w],
        driver_strengths := driver_strengths ?n @ [\<lparr>zero_s = zs, one_s = os\<rparr>]\<rparr>]"
      "drivers k' = drivers k @ [\<lparr>dnet = net, dslot = length (driver_values ?n), dgeneration = 0\<rparr>]"
      "driver_requests k' = driver_requests k @ [all_z ?w]"
      "driver_bit_generations k' = driver_bit_generations k @ [replicate ?w 0]"
      "timed k' = timed k" "nba k' = nba k" "time k' = time k" "seq_no k' = seq_no k"
      "wait_epochs k' = wait_epochs k" "net_waits k' = net_waits k"
    using assms(2) by (auto simp: new_driver_def upd_net_def split: if_splits)
  show "d = length (drivers k)" "net < length (nets k)" by (rule d, rule net)
  show P: "profile_of k' = ((fst (profile_of k))[net := (?w, Suc (length (driver_values ?n)))],
      snd (profile_of k) @ [(net, length (driver_values ?n))])"
    by (simp add: profile_of_def k' map_update)
  have le: "profile_le (profile_of k) (profile_of k')"
    using net unfolding P by (simp add: profile_le_def profile_simps nth_list_update nth_append)
  note sh = shape_invD [OF kernel_okD(1) [OF assms(1)]]
  have w: "1 \<le> ?w" "?w < 2 ^ 32" using net_ok_width [OF sh(1) [OF net]] by simp_all
  have ok: "net_ok (?n\<lparr>driver_values := driver_values ?n @ [all_z ?w],
      driver_strengths := driver_strengths ?n @ [\<lparr>zero_s = zs, one_s = os\<rparr>]\<rparr>)"
    using sh(1) [OF net] w by (auto simp: net_ok_def)
  show "kernel_ok k'"
  proof (rule kernel_ok_grow [OF assms(1) le])
    fix m assume "m < length (nets k')"
    then show "net_ok (nets k' ! m)" using sh(1) ok net by (cases "m = net") (simp_all add: k')
  next
    fix e assume "e < length (drivers k')"
    then consider "e < length (drivers k)" | "e = length (drivers k)" by (force simp: k')
    then show "driver_ok (profile_of k') e \<and> wf_lv (driver_requests k' ! e) \<and>
      width (driver_requests k' ! e) = driver_width (profile_of k') e \<and>
      length (driver_bit_generations k' ! e) = driver_width (profile_of k') e"
    proof cases
      case 1
      then show ?thesis using driver_ok_le [OF le sh(4) [OF 1]] sh(2,3) sh(5-7) [OF 1] by (simp add: k' nth_append)
    next
      case 2
      then show ?thesis
        using net w sh(2,3) unfolding P by (simp add: driver_ok_def driver_width_def nth_append profile_simps k')
    qed
  next
    fix m assume "m < length (nets k')"
    then show "waiters (nets k' ! m) = (if m < length (nets k) then waiters (nets k ! m) else [])"
      by (cases "m = net") (simp_all add: k')
  qed (use sh(2,3) in \<open>simp_all add: k'\<close>)
qed


text \<open>The calls of the elaborator on the kernel, before the simulation starts.\<close>

inductive elab_call :: "Kernel \<Rightarrow> Kernel \<Rightarrow> bool" where
  elab_net: "wf_lv v \<Longrightarrow> elab_call k (fst (new_net name v res d k))"
| elab_driver: "new_driver net zs os k = Some (k', d) \<Longrightarrow> elab_call k k'"
| elab_echo: "elab_call k (set_echo b k)"

text \<open>Before the start no process is anywhere.\<close>

lemma elab_call_spec:
  assumes "elab_call k k'" and "kernel_ok k" and "events_finite k" and "\<And>p. places k p = 0"
  shows "kernel_ok k' \<and> events_finite k' \<and> (\<forall>p. places k' p = 0)"
  using assms(1)
proof cases
  case (elab_net v name res d)
  have k': "k' = k\<lparr>nets := nets k @ [net_with_resolution name v res d]\<rparr>"
    by (simp add: elab_net(1) new_net_def)
  have "kernel_ok k'" by (rule new_net_ok(1) [OF assms(2) elab_net(2)]) (simp add: elab_net(1) prod_eq_iff)
  moreover have "places k' p = places k p" for p
    by (simp add: k' places_def net_with_resolution_def)
  ultimately show ?thesis using assms(3,4) by (simp add: k' events_finite_def)
next
  case (elab_driver net zs os d)
  have "places k' = places k"
    by (rule places_cong) (use elab_driver in \<open>auto simp: new_driver_def split: if_splits\<close>)
  moreover have "event_waiters k' = event_waiters k" using elab_driver by (auto simp: new_driver_def split: if_splits)
  ultimately show ?thesis using new_driver_ok(1) [OF assms(2) elab_driver] assms(3,4) by (simp add: events_finite_def)
next
  case (elab_echo b)
  have "places k' = places k" by (rule places_cong) (simp_all add: elab_echo set_echo_def)
  then show ?thesis
    using keeps_ok [OF simple_ops_keep(2) [OF assms(2)]] assms(3,4) by (simp add: elab_echo set_echo_def events_finite_def)
qed

lemma elab_calls_spec:
  assumes "elab_call\<^sup>*\<^sup>* (new_kernel ts) k"
  shows "kernel_ok k \<and> events_finite k \<and> (\<forall>p. places k p = 0)"
  using assms
proof induction
  case base
  have "places (new_kernel ts) p = 0" for p by (simp add: new_kernel_def places_def)
  then show ?case by (simp add: new_kernel_ok) (simp add: new_kernel_def events_finite_def)
qed (use elab_call_spec in blast)

section \<open>Starting the simulation\<close>

definition start :: "Program list \<Rightarrow> World \<Rightarrow> Kernel \<Rightarrow> (IrProcess, World) Sim" where
  "start progs w k = fold (\<lambda>prog s. fst (add_process (new_process prog) s)) progs \<lparr>kernel = k, procs = [], shared = w\<rparr>"

lemma new_process_ok:
  assumes "linkage_ok P lk" and "world_wf w" and "wt_prog P prog"
  shows "ir_ok lk P w (new_process prog)"
  using assms new_frame_ok [OF assms(3), of "kinds w" "replicate (n_regs prog) Null"]
  by (simp add: ir_ok_def new_process_def new_frame_def list_all_iff)

lemma add_process_inv:
  assumes "sim_inv p_ok s" and "p_ok (profile_of (kernel s)) (shared s) p"
  shows "sim_inv p_ok (fst (add_process p s)) \<and> profile_of (kernel (fst (add_process p s))) = profile_of (kernel s) \<and>
    shared (fst (add_process p s)) = shared s \<and> procs (fst (add_process p s)) = procs s @ [p] \<and>
    time (kernel (fst (add_process p s))) = time (kernel s)"
proof -
  have k: "kernel_ok (kernel s)" using assms(1) by (simp add: sim_inv_def)
  let ?k = "push_active (length (procs s)) (kernel s)"
  have none: "places (kernel s) q = 0" if "length (procs s) \<le> q" for q
    using assms(1) that unfolding sim_inv_def by (metis le_zero_eq not_le of_bool_eq(1))
  have "places ?k q \<le> of_bool (q < length (procs s @ [p]))" for q
  proof -
    have "places (kernel s) q \<le> of_bool (q < length (procs s))" using assms(1) by (simp add: sim_inv_def)
    then show ?thesis using none [of q] by (cases "q < length (procs s)") (auto simp: places_push_active)
  qed
  moreover note push_active_keeps [OF k, of "length (procs s)"]
  moreover have "time ?k = time (kernel s)" by (simp add: push_active_def)
  ultimately show ?thesis
    using assms by (auto simp: add_process_def sim_inv_def places_push_active(2) keeps_def)
qed

lemma start_inv:
  assumes "elab_call\<^sup>*\<^sup>* (new_kernel ts) k" and "linkage_ok (profile_of k) lk" and "world_wf w"
    and "list_all (wt_prog (profile_of k)) progs"
  shows "sim_inv (ir_ok lk) (start progs w k)"
proof -
  have *: "sim_inv (ir_ok lk) (fold (\<lambda>prog s. fst (add_process (new_process prog) s)) progs s)"
    if "sim_inv (ir_ok lk) s" "profile_of (kernel s) = profile_of k" "shared s = w" for s
    using assms(4) that
  proof (induction progs arbitrary: s)
    case (Cons prog progs)
    have "ir_ok lk (profile_of (kernel s)) (shared s) (new_process prog)"
      using new_process_ok [OF assms(2,3)] Cons.prems by simp
    from add_process_inv [OF Cons.prems(2) this] show ?case using Cons.IH Cons.prems by simp
  qed simp
  show ?thesis
    unfolding start_def by (rule *) (use elab_calls_spec [OF assms(1)] in \<open>simp_all add: sim_inv_def\<close>)
qed


end
