(* ===== verification/Example.thy ===== *)
theory Example
  imports Design
begin

text \<open>
  A small design, \<open>initial #5 clk = 1;\<close> and \<open>initial @(posedge clk) q <= 1;\<close> for two one-bit nets, built
  with the kernel's calls. It is well typed, and its simulation is evaluated step by step with the
  definitions: a delay, an edge, a non-blocking update and the end of both processes.
\<close>

definition clock_prog :: Program where
  "clock_prog = Program
     [DataI (LoadConst 0 0), TimingI (Delay 5), NetI (BlockingWrite 0 0), TimingI Finish]
     [Logic (from_u64 1 1)] [] [] [] [] [] [] 1 [] ''clock''"

definition flop_prog :: Program where
  "flop_prog = Program
     [DataI (LoadConst 0 0), TimingI (WaitEdge 0 Posedge), NetI (NbaWrite 1 0), TimingI Finish]
     [Logic (from_u64 1 1)] [] [] [] [] [] [] 1 [] ''flop''"

definition example_kernel :: Kernel where
  "example_kernel = fst (new_net ''q'' (zero 1) Wire None (fst (new_net ''clk'' (zero 1) Wire None (new_kernel default_timescale))))"

definition example_world :: World where
  "example_world = \<lparr>cells = Map.empty, next_cell = 0, next_event = 1, statics = [], arg_index = 0\<rparr>"

definition example_linkage :: Linkage where
  "example_linkage = empty_linkage (\<lambda>_. [])"

definition example_start :: "(IrProcess, World) Sim" where
  "example_start = start [clock_prog, flop_prog] example_world example_kernel"

section \<open>The design is well typed\<close>

lemma example_kernel_built: "elab_call\<^sup>*\<^sup>* (new_kernel default_timescale) example_kernel"
  unfolding example_kernel_def
  by (rule rtranclp.rtrancl_into_rtrancl [OF r_into_rtranclp [where r = elab_call, OF elab_net] elab_net]) simp_all

lemma example_profile: "profile_of example_kernel = ([(1, 0), (1, 0)], [])"
  by (simp add: example_kernel_def new_net_def new_kernel_def net_with_resolution_def profile_of_def)

lemma example_linkage_ok: "linkage_ok P example_linkage"
  by (simp add: linkage_ok_def example_linkage_def empty_linkage_def)

lemma example_world_wf: "world_wf example_world"
  by (simp add: world_wf_def example_world_def)

text \<open>Register 0 holds one bit from the first instruction on.\<close>

definition example_typing :: typing where
  "example_typing n r = (if 1 \<le> n \<and> r = 0 then TBits 1 else TAny)"

lemma example_typing_weaker: "weaker (example_typing (Suc n)) (example_typing (Suc (Suc n)))"
  by (simp add: weaker_def example_typing_def)

lemma example_progs_wt: "list_all (wt_prog (profile_of example_kernel)) [clock_prog, flop_prog]"
proof -
  have start: "weaker ((example_typing 0)(0 := TBits (Suc 0))) (example_typing (Suc 0))"
    by (simp add: weaker_def example_typing_def)
  have bit: "example_typing (Suc n) 0 = TBits (Suc 0)" for n by (simp add: example_typing_def)
  have zero: "example_typing 0 = (\<lambda>_. TAny)" by (simp add: example_typing_def fun_eq_iff)
  have wt: "wt_body (profile_of example_kernel) clock_prog example_typing" "wt_body (profile_of example_kernel) flop_prog example_typing"
    using start example_typing_weaker [of 0] example_typing_weaker [of 1] example_typing_weaker [of "Suc (Suc 0)"] bit [of 1] zero
    by (simp_all add: wt_body_def clock_prog_def flop_prog_def example_profile wt_inst_def wt_data_def wt_timing_def
        wt_net_def const_type_def at_def net_width_def All_less_Suc)

  have "wt_prog (profile_of example_kernel) clock_prog" by (rule wt_prog [OF wt(1)]) (simp add: clock_prog_def)
  moreover have "wt_prog (profile_of example_kernel) flop_prog" by (rule wt_prog [OF wt(2)]) (simp add: flop_prog_def)
  ultimately show ?thesis by simp
qed

section \<open>Its simulation\<close>

lemma bind_weak_cong: "x = y \<Longrightarrow> Option.bind x f = Option.bind y f"
  by simp

lemmas eval_congs = bind_weak_cong sum.case_cong_weak option.case_cong_weak prod.case_cong_weak list.case_cong_weak

lemmas design_simps = clock_prog_def flop_prog_def example_kernel_def example_world_def example_linkage_def
  empty_linkage_def example_start_def new_net_def new_kernel_def net_with_resolution_def start_def add_process_def
  push_active_def new_process_def new_frame_def default_stats_def

lemmas machine_simps = run_loop.simps run_frame.simps resume_def run_def at_def exec_def exec_data_def exec_net_def
  exec_timing_def machine_of_def frame_of_def set_reg_def put_reg_def get_reg_def reg_def lreg_def logic_reg_def
  as_logic_def with_kern_def

lemmas kernel_simps = arm_def clear_net_waiters_chk_def push_timed_def push_timed_action_def wheel_push_def discard_stale_timed_actions_def
  stale_def advance_def dispatch_time_slot.simps dispatch_event_def write_net_chk_def write_net_def upd_net_def
  detect_edge_def fires_def wake_loop.simps swap_remove_def add_waiter_def schedule_nba_def drain_nba_def promote_inactive_def
  notify_finished_def notify_loop.simps clear_net_waiters_def retain_others_def epoch_of_def saturating_add_fs_def u64_max_def

lemmas driver_simps = run_until.simps settle.simps drain_active.simps drain_step_def

lemmas vector_simps = eq_case_def zero_def from_u64_def get_bit_def word_mask_def from_planes_def

lemma example_run:
  "\<exists>s. run_until (resume example_linkage) None example_start = Some s \<and> time (kernel s) = 5 \<and> timed (kernel s) = [] \<and>
    map nvalue (nets (kernel s)) = [from_u64 1 1, from_u64 1 1]"
  by (simp add: design_simps machine_simps kernel_simps driver_simps vector_simps cong: eval_congs)

text \<open>The first step: the clock process waits for its delay.\<close>

lemma example_step:
  "\<exists>s. drain_step (resume example_linkage) example_start = Some s \<and> active (kernel s) = [1] \<and>
    map ev_action (timed (kernel s)) = [Resume 0] \<and> length (procs s) = 2"
  by (simp add: design_simps machine_simps kernel_simps driver_simps vector_simps cong: eval_congs)

lemma example_inv: "sim_inv (ir_ok example_linkage) example_start"
  unfolding example_start_def
  by (rule start_inv [OF example_kernel_built example_linkage_ok example_world_wf example_progs_wt])

end
