(* ===== verification/Kernel_Props.thy ===== *)
theory Kernel_Props
  imports Example
begin

text \<open>
  Properties of the kernel's operations: every call keeps the invariant, a drive shows the resolution
  of all drivers, a newer request cancels a scheduled one, the last queued update of a net wins,
  joins release their parents, waits end on their edge, and a slot is dispatched completely.
\<close>

section \<open>A net with two drivers\<close>

definition bus_kernel :: Kernel where
  "bus_kernel =
     (let k = fst (new_net ''bus'' (all_z 1) Wire None (new_kernel default_timescale));
          k = fst (the (new_driver 0 Strong Strong k))
      in fst (the (new_driver 0 Strong Strong k)))"

lemma bus_kernel_ok: "kernel_ok bus_kernel"
proof -
  define k where "k = fst (new_net ''bus'' (all_z 1) Wire None (new_kernel default_timescale))"
  have k: "kernel_ok k" unfolding k_def by (rule new_net_ok(1) [OF new_kernel_ok]) (simp_all add: prod_eq_iff)
  obtain k1 d1 where k1: "new_driver 0 Strong Strong k = Some (k1, d1)"
    by (simp add: k_def new_driver_def new_net_def net_with_resolution_def)
  obtain k2 d2 where k2: "new_driver 0 Strong Strong k1 = Some (k2, d2)"
    using k1 by (auto simp: k_def new_driver_def new_net_def net_with_resolution_def new_kernel_def upd_net_def)
  have "bus_kernel = k2" using k1 k2 by (simp add: bus_kernel_def k_def)
  then show ?thesis using new_driver_ok(1) [OF new_driver_ok(1) [OF k k1] k2] by simp
qed

lemma bus_kernel_tables:
  "nets bus_kernel = [\<lparr>nvalue = all_z 1, nresolution = Wire, ndelay = None, delay_request = all_z 1,
      delay_generations = [0], driver_values = [all_z 1, all_z 1],
      driver_strengths = [\<lparr>zero_s = Strong, one_s = Strong\<rparr>, \<lparr>zero_s = Strong, one_s = Strong\<rparr>],
      waiters = [], nname = ''bus''\<rparr>]"
  "drivers bus_kernel = [\<lparr>dnet = 0, dslot = 0, dgeneration = 0\<rparr>, \<lparr>dnet = 0, dslot = 1, dgeneration = 0\<rparr>]"
  "driver_requests bus_kernel = [all_z 1, all_z 1]"
  "active bus_kernel = []" "runtime_waiters bus_kernel = []"
  by (simp_all add: bus_kernel_def new_driver_def new_net_def net_with_resolution_def new_kernel_def upd_net_def)

lemma example_kernel_ok: "kernel_ok example_kernel"
  using elab_calls_spec [OF example_kernel_built] by simp

section \<open>Drivers\<close>

lemma apply_drive_frame [simp]:
  "drivers (apply_drive d v k) = drivers k" "driver_requests (apply_drive d v k) = driver_requests k"
  "driver_bit_generations (apply_drive d v k) = driver_bit_generations k"
  by (simp_all add: apply_drive_def apply_resolved_net_def split: option.split)

text \<open>The value a driver shows on its net: the resolution of all drivers, with this one's replaced.\<close>

definition driven_value :: "DriverId \<Rightarrow> LogicVec \<Rightarrow> Kernel \<Rightarrow> LogicVec" where
  "driven_value d v k =
     (let n = nets k ! dnet (drivers k ! d); w = width (nvalue n)
      in resolve_drivers ((driver_values n)[dslot (drivers k ! d) := resize v w False]) (driver_strengths n) w (nresolution n))"

lemma apply_drive_value:
  assumes "kernel_ok k" and "d < length (drivers k)" and "ndelay (nets k ! dnet (drivers k ! d)) = None"
    and "m < length (nets k)"
  shows "nvalue (nets (apply_drive d v k) ! m) = (if m = dnet (drivers k ! d) then driven_value d v k else nvalue (nets k ! m))"
proof -
  let ?n = "dnet (drivers k ! d)"
  let ?f = "\<lambda>n. n\<lparr>driver_values := (driver_values n)[dslot (drivers k ! d) := resize v (width (nvalue (nets k ! ?n))) False]\<rparr>"
  let ?k = "upd_net ?n ?f k"
  have n: "?n < length (nets k)" by (rule driver_net [OF assms(1,2)])
  have inv: "waits_inv ?k" by (rule waits_inv_upd [OF kernel_okD(3) [OF assms(1)]]) simp
  have "apply_drive d v k = write_net ?n (driven_value d v k) ?k"
    using n assms(3) by (simp add: apply_drive_def apply_resolved_net_def driven_value_def nets_upd_net)
  then show ?thesis using write_net_value [OF inv, of ?n m] n assms(4) by (simp add: nets_upd_net)
qed

lemma resize_twice: "resize (resize v w s) w False = resize v w s"
  using resize_same [of "resize v w s" False] by (simp add: width_resize)

text \<open>
  C16. A net shows the resolution of its drivers. Driving a net that has no delay with a value
  of any width sets the net to the resolution, by the net's kind and the strengths, of the values of
  all its drivers, this one's cut or extended to the net's width; no other net changes.
\<close>

theorem drive_resolves:
  assumes "kernel_ok k" and "d < length (drivers k)" and "wf_lv v" and "ndelay (nets k ! dnet (drivers k ! d)) = None"
    and "m < length (nets k)"
  shows "nvalue (nets (drive_net d v k) ! m) =
    (if m = dnet (drivers k ! d) then driven_value d v k else nvalue (nets k ! m))"
proof -
  let ?n = "dnet (drivers k ! d)"
  let ?w = "width (nvalue (nets k ! ?n))"
  let ?k = "(bump_generations d k)\<lparr>driver_requests := (driver_requests k)[d := resize v ?w False]\<rparr>"
  note r = request_range [OF assms(1-3)]
  have k: "kernel_ok ?k" using keeps_ok bump_requests_keep(1) [OF assms(1,2) r(1,2)] by blast
  define k1 where "k1 = ?k"
  have same: "nets k1 = nets k" "dnet (drivers k1 ! d) = ?n" "dslot (drivers k1 ! d) = dslot (drivers k ! d)"
    "length (drivers k1) = length (drivers k)"
    using assms(2) by (simp_all add: bump_generations_def k1_def)
  have "drive_net d v k = apply_drive d (resize v ?w False) k1" by (simp add: drive_net_def bump_generations_def k1_def)
  moreover have "driven_value d (resize v ?w False) k1 = driven_value d v k"
    by (simp add: driven_value_def resize_twice same)
  ultimately show ?thesis
    using apply_drive_value [OF k [folded k1_def], of d m "resize v ?w False"] assms(2,4,5) by (simp add: same)
qed

theorem drive_resolves_witness:
  "nvalue (nets (drive_net 0 (from_u64 1 1) bus_kernel) ! 0) = driven_value 0 (from_u64 1 1) bus_kernel"
  using drive_resolves [OF bus_kernel_ok, of 0 "from_u64 1 1" 0] by (simp add: bus_kernel_tables)

section \<open>Inertial delay\<close>

lemma resize_request_eq:
  assumes "kernel_ok k" and "d < length (drivers k)" and "wf_lv v"
  shows "eq_case (driver_requests k ! d) (resize v (width (nvalue (nets k ! dnet (drivers k ! d)))) False) \<longleftrightarrow>
    driver_requests k ! d = resize v (width (nvalue (nets k ! dnet (drivers k ! d)))) False"
  using eq_case_iff shape_invD(5) [OF kernel_okD(1) [OF assms(1)] assms(2)] request_range(1) [OF assms] by blast


text \<open>A new request leaves all generations of its driver behind.\<close>

lemma newer_generation: "(g :: u64) + 1 \<noteq> g"
  by simp

lemma schedule_drive_generations:
  assumes "kernel_ok k" and "d < length (drivers k)" and "wf_lv v"
    and "driver_requests k ! d \<noteq> resize v (width (nvalue (nets k ! dnet (drivers k ! d)))) False"
  shows "dgeneration (drivers (schedule_drive d v t k) ! d) = dgeneration (drivers k ! d) + 1"
    and "driver_bit_generations (schedule_drive d v t k) ! d = map (\<lambda>g. g + 1) (driver_bit_generations k ! d)"
proof -
  let ?v = "resize v (width (nvalue (nets k ! dnet (drivers k ! d)))) False"
  have ne: "\<not> eq_case (driver_requests k ! d) ?v" using resize_request_eq [OF assms(1-3)] assms(4) by simp
  have len: "d < length (driver_bit_generations k)"
    using assms(2) shape_invD(3) [OF kernel_okD(1) [OF assms(1)]] by simp
  show "dgeneration (drivers (schedule_drive d v t k) ! d) = dgeneration (drivers k ! d) + 1"
    and "driver_bit_generations (schedule_drive d v t k) ! d = map (\<lambda>g. g + 1) (driver_bit_generations k ! d)"
    using ne assms(2) len by (simp_all add: schedule_drive_def bump_generations_def)
qed

text \<open>
  C17. Delays are inertial. Let a driver have updates in the wheel that were scheduled by its latest
  request (they carry its current generations). Once a different value is requested, these updates
  are stale: the run loop discards them, and if one is dispatched it changes nothing. A request for
  the value already requested changes nothing at all.
\<close>

theorem newer_request_cancels:
  assumes "kernel_ok k" and "d < length (drivers k)" and "wf_lv v"
    and "ev_action ev = Drive d u (dgeneration (drivers k ! d)) \<or>
      ev_action ev = DriveBits d us \<and> us \<noteq> [] \<and>
        (\<forall>u \<in> set us. bd_bit u < width (nvalue (nets k ! dnet (drivers k ! d))) \<and>
           bd_generation u = driver_bit_generations k ! d ! bd_bit u)"
  shows "if driver_requests k ! d = resize v (width (nvalue (nets k ! dnet (drivers k ! d)))) False
    then schedule_drive d v t k = k
    else stale (schedule_drive d v t k) ev \<and> dispatch_event ev (schedule_drive d v t k) = schedule_drive d v t k"
proof (cases "driver_requests k ! d = resize v (width (nvalue (nets k ! dnet (drivers k ! d)))) False")
  case True
  then show ?thesis using resize_request_eq [OF assms(1-3)] by (simp add: schedule_drive_def)
next
  case False
  let ?k = "schedule_drive d v t k"
  note gen = schedule_drive_generations [OF assms(1-3) False, of t]
  have keep: "apply_updates gens us vc = vc" if "\<forall>u \<in> set us. gens ! bd_bit u \<noteq> bd_generation u" for gens us vc
    using that by (induction gens us vc rule: apply_updates.induct) simp_all
  have bits: "driver_bit_generations ?k ! d ! bd_bit u \<noteq> bd_generation u"
    if "u \<in> set us" "ev_action ev = DriveBits d us" for u
    using that assms(4) gen(2) request_range(3) [OF assms(1-3)] driver_net(2) [OF assms(1,2)] newer_generation by auto
  have "stale ?k ev" using assms(4) gen(1) bits by (auto simp: stale_def list_all_iff)
  moreover have "dispatch_event ev ?k = ?k"
    using assms(4) gen(1) bits keep by (auto simp: dispatch_event_def)
  ultimately show ?thesis using False by simp
qed

theorem newer_request_cancels_witness:
  "stale (schedule_drive 0 (from_u64 1 1) 10 bus_kernel) \<lparr>ev_time = 5, ev_region = Active, ev_seq = 1, ev_action = Drive 0 (zero 1) 0\<rparr>"
proof -
  have "get_bit (all_z 1) 0 \<noteq> get_bit (resize (from_u64 1 1) 1 False) 0"
    using resize_same [of "from_u64 1 1" False] by (simp add: get_bit_from_u64 get_bit_filled)
  then have "all_z 1 \<noteq> resize (from_u64 1 1) 1 False" by metis
  then show ?thesis
    using newer_request_cancels [OF bus_kernel_ok, where d = 0 and v = "from_u64 1 1" and t = 10 and us = "[]" and u = "zero 1"
        and ev = "\<lparr>ev_time = 5, ev_region = Active, ev_seq = 1, ev_action = Drive 0 (zero 1) 0\<rparr>"]
    by (simp add: bus_kernel_tables del: One_nat_def)
qed

section \<open>Joins\<close>

definition drop_child :: "ProcId \<Rightarrow> JoinWatch \<Rightarrow> JoinWatch" where
  "drop_child p w = w\<lparr>jremaining := filter (\<lambda>c. c \<noteq> p) (jremaining w)\<rparr>"

text \<open>A watch is satisfied by the end of a child of its own that is the last, or when any will do.\<close>

definition satisfied_by :: "ProcId \<Rightarrow> JoinWatch \<Rightarrow> bool" where
  "satisfied_by p w \<longleftrightarrow> p \<in> set (jremaining w) \<and> (jany w \<or> set (jremaining w) \<subseteq> {p})"

lemma satisfied_loop:
  "length (jremaining (drop_child p w)) < length (jremaining w) \<and> (jany w \<or> jremaining (drop_child p w) = []) \<longleftrightarrow>
    satisfied_by p w"
proof -
  have "length (filter (\<lambda>c. c \<noteq> p) l) < length l \<longleftrightarrow> p \<in> set l" for l :: "ProcId list"
    by (induction l) (auto simp: less_Suc_eq_le)
  moreover have "filter (\<lambda>c. c \<noteq> p) l = [] \<longleftrightarrow> set l \<subseteq> {p}" for l :: "ProcId list"
    by (auto simp: filter_empty_conv)
  ultimately show ?thesis by (simp add: satisfied_by_def drop_child_def)
qed

lemma notify_loop_spec:
  assumes "notify_loop p i ws woken = (ws', woken')"
  shows "mset woken' = mset woken + image_mset jparent (filter_mset (satisfied_by p) (mset (drop i ws))) \<and>
    mset ws' = mset (take i ws) + image_mset (drop_child p) (filter_mset (\<lambda>w. \<not> satisfied_by p w) (mset (drop i ws)))"
  using assms
proof (induction p i ws woken rule: notify_loop.induct)
  case (1 p i ws woken)
  show ?case
  proof (cases "i < length ws")
    case False
    then show ?thesis using 1(3) by (simp add: notify_loop.simps [of p i ws])
  next
    case True
    let ?w = "drop_child p (ws ! i)"
    let ?ws = "ws[i := ?w]"
    have i: "i < length ?ws" using True by simp
    have here: "mset (drop i ws) = add_mset (ws ! i) (mset (drop (Suc i) ws))"
      using True by (simp add: Cons_nth_drop_Suc [symmetric])
    show ?thesis
    proof (cases "satisfied_by p (ws ! i)")
      case sat: True
      note parts = swap_remove_parts [OF i]
      have r: "notify_loop p i (swap_remove ?ws i) (woken @ [jparent ?w]) = (ws', woken')"
        using 1(3) True sat satisfied_loop [of p "ws ! i"] by (simp add: notify_loop.simps [of p i ws] drop_child_def)
      have cond: "length (jremaining ?w) < length (jremaining (ws ! i)) \<and> (jany ?w \<or> jremaining ?w = [])"
        using sat satisfied_loop [of p "ws ! i"] by (simp add: drop_child_def)
      note IH = 1(1) [OF True refl refl refl refl, folded drop_child_def, OF cond r]
      have "mset (drop i (swap_remove ?ws i)) = mset (drop (Suc i) ws)"
        using parts(2) True by (simp add: Cons_nth_drop_Suc [symmetric] drop_update_swap)
      then show ?thesis using IH parts(1) sat by (simp add: here drop_child_def)
    next
      case False
      have r: "notify_loop p (i + 1) ?ws woken = (ws', woken')"
        using 1(3) True False satisfied_loop [of p "ws ! i"]
        by (auto simp: notify_loop.simps [of p i ws] drop_child_def split: if_splits)
      have cond: "\<not> (length (jremaining ?w) < length (jremaining (ws ! i)) \<and> (jany ?w \<or> jremaining ?w = []))"
        using False satisfied_loop [of p "ws ! i"] by (simp add: drop_child_def)
      note IH = 1(2) [OF True refl refl refl refl, folded drop_child_def, OF cond r]
      have "mset (take (Suc i) ?ws) = add_mset ?w (mset (take i ws))"
        using True by (simp add: take_Suc_conv_app_nth)
      then show ?thesis using IH False by (simp add: here)
    qed
  qed
qed

text \<open>
  C15. A join releases its parent exactly when it should. When a process finishes, the parents of
  the watches it satisfies are queued, each once per watch: a \<open>join_any\<close> of which it is a child, or a
  \<open>join\<close> of which it is the last child left. Every other watch stays, without this child.
\<close>

theorem join_releases:
  "\<exists>woken. active (notify_finished p k) = active k @ woken \<and>
    mset woken = image_mset jparent (filter_mset (satisfied_by p) (mset (join_watches k))) \<and>
    mset (join_watches (notify_finished p k)) =
      image_mset (drop_child p) (filter_mset (\<lambda>w. \<not> satisfied_by p w) (mset (join_watches k)))"
proof -
  obtain ws woken where r: "notify_loop p 0 (join_watches k) [] = (ws, woken)" by fastforce
  from notify_loop_spec [OF r] show ?thesis by (simp add: notify_finished_def r)
qed


section \<open>Non-blocking updates\<close>

lemma drain_loop_values:
  assumes "kernel_ok k" and "\<forall>(n, v) \<in> set l. value_ok (profile_of k) n v" and "m < length (nets k)"
  shows "nvalue (nets (fold (\<lambda>(net, val) k. write_net net val
      (k\<lparr>stats := (stats k)\<lparr>nba_applies := nba_applies (stats k) + 1\<rparr>\<rparr>)) l k) ! m) =
    (case map_of (rev l) m of None \<Rightarrow> nvalue (nets k ! m) | Some v \<Rightarrow> v)"
  using assms
proof (induction l arbitrary: k)
  case (Cons nv l)
  obtain n v where nv: "nv = (n, v)" by fastforce
  let ?k = "k\<lparr>stats := (stats k)\<lparr>nba_applies := nba_applies (stats k) + 1\<rparr>\<rparr>"
  have k1: "keeps k ?k" by (rule kernel_ok_cong [OF Cons.prems(1)]) simp_all
  have v: "value_ok (profile_of k) n v" using Cons.prems(2) by (simp add: nv)
  then have n: "n < length (nets ?k)" by (simp add: value_ok_def profile_simps)
  have k2: "keeps k (write_net n v ?k)"
    using v keeps_profile [OF k1] by (intro keeps_trans [OF k1] write_net_keeps [OF keeps_ok [OF k1]]) simp
  have val: "nvalue (nets (write_net n v ?k) ! m) = (if m = n then v else nvalue (nets k ! m))"
    using write_net_value [OF kernel_okD(3) [OF keeps_ok [OF k1]] n, of m] Cons.prems(3) by simp
  have "\<forall>(n', v') \<in> set l. value_ok (profile_of (write_net n v ?k)) n' v'"
    using Cons.prems(2) keeps_profile [OF k2] by auto
  from Cons.IH [OF keeps_ok [OF k2] this] keeps_len [OF k2] Cons.prems(3) val
  show ?case by (auto simp: nv map_add_def split: option.split)
qed simp

text \<open>
  C13. Queued updates are applied together, and the last one of a net wins. After the non-blocking
  region no update and no process waiting for it is left; a net has the value of the last update
  queued for it, or its old value if there is none.
\<close>

theorem nba_last_wins:
  assumes "kernel_ok k" and "m < length (nets k)"
  shows "nvalue (nets (drain_nba k) ! m) =
      (case map_of (rev (nba k)) m of None \<Rightarrow> nvalue (nets k ! m) | Some v \<Rightarrow> v) \<and>
    nba (drain_nba k) = [] \<and> nba_waiters (drain_nba k) = []"
proof -
  let ?step = "\<lambda>(net, val) k. write_net net val (k\<lparr>stats := (stats k)\<lparr>nba_applies := nba_applies (stats k) + 1\<rparr>\<rparr>)"
  let ?k = "k\<lparr>nba := []\<rparr>"
  have k: "keeps k ?k" by (rule kernel_ok_cong [OF assms(1)]) simp_all
  have "\<forall>(n, v) \<in> set (nba k). value_ok (profile_of ?k) n v"
    using shape_invD(9) [OF kernel_okD(1) [OF assms(1)]] keeps_profile [OF k] by auto
  from drain_loop_values [OF keeps_ok [OF k] this, of m] assms(2)
  have "nvalue (nets (fold ?step (nba k) ?k) ! m) =
      (case map_of (rev (nba k)) m of None \<Rightarrow> nvalue (nets k ! m) | Some v \<Rightarrow> v)"
    by (simp split: option.split)
  moreover have "nba (fold ?step l k) = nba k" for l k by (induction l arbitrary: k) (simp_all add: case_prod_unfold)
  ultimately show ?thesis by (simp add: drain_nba_def)
qed

theorem nba_last_wins_witness:
  "nvalue (nets (drain_nba (schedule_nba 0 (from_u64 1 1) (schedule_nba 0 (zero 1) example_kernel))) ! 0) = from_u64 1 1"
proof -
  let ?k = "schedule_nba 0 (zero 1) example_kernel"
  have v: "value_ok (profile_of example_kernel) 0 (zero 1)" "value_ok (profile_of example_kernel) 0 (from_u64 1 1)"
    by (simp_all add: value_ok_def example_profile)
  have k: "keeps example_kernel ?k" by (rule schedule_nba_keeps [OF example_kernel_ok v(1)])
  have ok: "kernel_ok (schedule_nba 0 (from_u64 1 1) ?k)"
    by (rule keeps_ok [OF schedule_nba_keeps [OF keeps_ok [OF k]]]) (subst keeps_profile [OF k], rule v(2))
  have "0 < length (nets (schedule_nba 0 (from_u64 1 1) ?k))"
    by (simp add: schedule_nba_def design_simps)
  from nba_last_wins [OF ok this] show ?thesis by (simp add: schedule_nba_def design_simps)
qed

section \<open>Waiting for an edge\<close>

lemma arm_edge:
  assumes "waits_inv k" and "n < length (nets k)" and "arm p (Edge n kind :: 'p Wait) k = Some k'"
  shows "nets k' ! n = (nets k ! n)\<lparr>waiters := filter (\<lambda>w. wproc w \<noteq> p) (waiters (nets k ! n)) @
      [\<lparr>wproc = p, wedge = kind, wepoch = epoch_of (wait_epochs k) p + 1\<rparr>]\<rparr>"
    and "active k' = active k" and "runtime_waiters k' = runtime_waiters k" and "length (nets k') = length (nets k)"
proof -
  have n: "nets (clear_net_waiters p k) ! n = retain_others p (nets k ! n)"
    by (rule nets_clear_registered [OF waits_registered [OF assms(1)] assms(2)])
  define e where "e = epoch_of (wait_epochs k) p + 1"
  note eq = assms(3) [unfolded arm_def arm_clears [OF assms(3)] option.case Let_def]
  have k': "k' = (add_waiter p e (n, kind) ((clear_net_waiters p k)\<lparr>wait_epochs := (wait_epochs k)(p \<mapsto> e)\<rparr>))
      \<lparr>net_waits := (net_waits (clear_net_waiters p k))(p \<mapsto> [n])\<rparr>"
    using eq assms(2) by (simp add: e_def)
  show "nets k' ! n = (nets k ! n)\<lparr>waiters := filter (\<lambda>w. wproc w \<noteq> p) (waiters (nets k ! n)) @
      [\<lparr>wproc = p, wedge = kind, wepoch = epoch_of (wait_epochs k) p + 1\<rparr>]\<rparr>"
    using n assms(2) by (simp add: k' add_waiter_def nets_upd_net retain_others_def e_def)
  show "active k' = active k" "runtime_waiters k' = runtime_waiters k" "length (nets k') = length (nets k)"
    by (simp_all add: k' add_waiter_def)
qed

text \<open>
  C11. A wait for an edge ends on that edge and on nothing less. A process that is not queued and
  parks on an edge of a net is queued by the next write of that net if and only if the transition
  is the edge it asked for.
\<close>

theorem edge_wait_wakes:
  assumes "kernel_ok k" and "arm p (Edge n kind :: 'p Wait) k = Some k'" and "value_ok (profile_of k) n v"
    and "p \<notin> set (active k)" and "p \<notin> set (runtime_waiters k)"
  shows "p \<in> set (active (write_net n v k')) \<longleftrightarrow> fires (detect_edge (nvalue (nets k ! n)) v) kind"
proof -
  have n: "n < length (nets k)" using assms(3) by (simp add: value_ok_def profile_simps)
  note inv = kernel_okD(3) [OF assms(1)]
  note ar = arm_edge [OF inv n assms(2)]
  have inv': "waits_inv k'" by (rule waits_inv_arm [OF inv _ assms(2)]) (use n in \<open>simp add: wait_ok_def\<close>)
  have n': "n < length (nets k')" using n ar(4) by simp
  have old: "nvalue (nets k' ! n) = nvalue (nets k ! n)" by (simp add: ar(1))
  let ?e = "detect_edge (nvalue (nets k ! n)) v"
  have "p \<in> set (woken_by n v k') \<longleftrightarrow> changed ?e \<and> fires ?e kind"
    using woken_by_spec(2) [OF inv' n', of v] by (auto simp: old ar(1))
  moreover have "fires ?e kind \<Longrightarrow> changed ?e"
    by (simp add: detect_edge_def fires_def split: EdgeKind.splits if_splits)
  ultimately show ?thesis
    using write_net_effect(1) [OF inv' n', of v] assms(4,5) by (auto simp: old ar(2,3))
qed

theorem edge_wait_wakes_witness:
  "\<exists>k. arm 7 (Edge 0 Posedge :: nat Wait) example_kernel = Some k \<and> 7 \<in> set (active (write_net 0 (from_u64 1 1) k))"
proof -
  obtain k where k: "arm 7 (Edge 0 Posedge :: nat Wait) example_kernel = Some k"
    using arm_returns [OF kernel_okD(3) [OF example_kernel_ok], of "Edge 0 Posedge :: nat Wait" 7]
    by (auto simp: wait_ok_def design_simps)
  have "7 \<in> set (active (write_net 0 (from_u64 1 1) k))"
    using edge_wait_wakes [OF example_kernel_ok k, of "from_u64 1 1"]
    by (simp add: value_ok_def example_profile) (simp add: design_simps vector_simps detect_edge_def fires_def)
  with k show ?thesis by blast
qed

section \<open>The end of a slot\<close>

lemma write_net_queues:
  "set (active k) \<subseteq> set (active (write_net n v k)) \<and> inactive (write_net n v k) = inactive k \<and>
    timed (write_net n v k) = timed k"
  by (auto simp: write_net_def split: prod.split)

lemma push_groups_timed: "set (timed k) \<subseteq> set (timed (push_groups act gs k))"
  by (induction gs arbitrary: k) fastforce+

lemma apply_resolved_queues:
  "set (active k) \<subseteq> set (active (apply_resolved_net n v k)) \<and> inactive (apply_resolved_net n v k) = inactive k \<and>
    set (timed k) \<subseteq> set (timed (apply_resolved_net n v k))"
proof (cases "ndelay (nets k ! n)")
  case None
  then show ?thesis using write_net_queues by (simp add: apply_resolved_net_def)
next
  case (Some ds)
  have step: "set (active k) \<subseteq> set (active (if c then write_net n x (upd_net n f (upd_net n g k)) else upd_net n f (upd_net n g k))) \<and>
      inactive (if c then write_net n x (upd_net n f (upd_net n g k)) else upd_net n f (upd_net n g k)) = inactive k \<and>
      set (timed k) \<subseteq> set (timed (push_groups (NetBits n) l
        (if c then write_net n x (upd_net n f (upd_net n g k)) else upd_net n f (upd_net n g k))))" for c x f g l
    using push_groups_timed write_net_queues [of "upd_net n f (upd_net n g k)" n x] by fastforce
  show ?thesis
    by (cases "eq_case (delay_request (nets k ! n)) (resize v (width (nvalue (nets k ! n))) False)")
      (simp_all add: apply_resolved_net_def Some step)
qed

lemma apply_drive_queues:
  "set (active k) \<subseteq> set (active (apply_drive d v k)) \<and> inactive (apply_drive d v k) = inactive k \<and>
    set (timed k) \<subseteq> set (timed (apply_drive d v k))"
proof -
  obtain n r f where "apply_drive d v k = apply_resolved_net n r (upd_net n f k)" by (auto simp: apply_drive_def Let_def)
  then show ?thesis using apply_resolved_queues [of "upd_net n f k" n r] by simp
qed

lemma dispatch_event_queues:
  "set (active k) \<subseteq> set (active (dispatch_event ev k)) \<and> set (inactive k) \<subseteq> set (inactive (dispatch_event ev k)) \<and>
    set (timed k) \<subseteq> set (timed (dispatch_event ev k))"
proof (cases "ev_action ev")
  case (Resume p)
  then show ?thesis by (cases "ev_region ev") (auto simp: dispatch_event_def)
qed (use apply_drive_queues write_net_queues in \<open>auto simp: dispatch_event_def split: prod.split\<close>)

lemma dispatch_slot_grows:
  "set (active k) \<subseteq> set (active (dispatch_time_slot t k)) \<and> set (inactive k) \<subseteq> set (inactive (dispatch_time_slot t k))"
proof (induction t k rule: dispatch_time_slot.induct)
  case (1 t k)
  show ?case
  proof (cases "timed k")
    case (Cons ev w)
    with 1 [of ev] dispatch_event_queues [of "k\<lparr>timed := w\<rparr>" ev] show ?thesis
      by (cases "ev_time ev = t") (auto simp: dispatch_time_slot.simps [of t k])
  qed (simp add: dispatch_time_slot.simps [of t k])
qed

lemma dispatch_slot_queues:
  assumes "kernel_ok k" and "time k = t" and "e \<in> set (timed k)"
  shows "(t < ev_time e \<longrightarrow> e \<in> set (timed (dispatch_time_slot t k))) \<and>
    (ev_time e = t \<longrightarrow> (\<forall>p. ev_action e = Resume p \<longrightarrow>
       (if ev_region e = Inactive then p \<in> set (inactive (dispatch_time_slot t k)) else p \<in> set (active (dispatch_time_slot t k)))))"
  using assms
proof (induction t k rule: dispatch_time_slot.induct)
  case (1 t k)
  obtain ev w where w: "timed k = ev # w" using 1(4) by (cases "timed k") simp_all
  show ?case
  proof (cases "ev_time ev = t")
    case False
    then have halt: "dispatch_time_slot t k = k" by (simp add: dispatch_time_slot.simps [of t k] w)
    have "t < ev_time e" using dispatch_time_slot_done [OF 1(2,3)] 1(4) by (simp add: halt)
    then show ?thesis using 1(4) by (simp add: halt)
  next
    case True
    let ?k = "dispatch_event ev (k\<lparr>timed := w\<rparr>)"
    have d: "dispatch_time_slot t k = dispatch_time_slot t ?k"
      by (simp add: dispatch_time_slot.simps [of t k] w True)
    note pop = pop_keeps [OF 1(2) w]
    have k: "keeps k ?k"
      using pop by (intro keeps_trans [OF pop(1)] dispatch_event_keeps [OF keeps_ok [OF pop(1)]]) (simp add: keeps_profile)
    then have ok: "kernel_ok ?k" "time ?k = t" using 1(3) by (simp_all add: keeps_def)
    note q = dispatch_event_queues [of "k\<lparr>timed := w\<rparr>" ev]
    have pop_w: "wheel_pop (timed k) = w" by (simp add: w)
    note IH = 1(1) [of ev, unfolded pop_w]
    show ?thesis
    proof (cases "e = ev")
      case here: True
      have now: "ev_action e = Resume p \<Longrightarrow> if ev_region e = Inactive then p \<in> set (inactive ?k) else p \<in> set (active ?k)" for p
        by (cases "ev_region e") (simp_all add: here dispatch_event_def)
      show ?thesis using now dispatch_slot_grows [of ?k t] True unfolding d by (auto simp: here split: if_splits)
    next
      case False
      then have "e \<in> set (timed ?k)" using 1(4) q w by auto
      with IH ok show ?thesis unfolding d by (simp add: w True)
    qed
  qed
qed

text \<open>
  C12. A time slot is dispatched completely. When time advances to the earliest event of the wheel,
  every event of that time is consumed, and each process it resumes is queued, in the inactive queue
  if the event is for the inactive region and in the active queue otherwise; every later event stays
  in the wheel.
\<close>

theorem slot_complete:
  assumes "kernel_ok k" and "wheel_peek (timed k) = Some ev" and "e \<in> set (timed k)"
  shows "if ev_time e = ev_time ev
    then e \<notin> set (timed (advance (ev_time ev) k)) \<and> (\<forall>p. ev_action e = Resume p \<longrightarrow>
      (if ev_region e = Inactive then p \<in> set (inactive (advance (ev_time ev) k)) else p \<in> set (active (advance (ev_time ev) k))))
    else ev_time ev < ev_time e \<and> e \<in> set (timed (advance (ev_time ev) k))"
proof -
  note least = wheel_peek_least [OF assms(1,2)] and adv = advance_spec [OF assms(1,2)]
  define st where "st = (stats k)\<lparr>time_advances := time_advances (stats k) + 1\<rparr>"
  let ?k = "k\<lparr>time := ev_time ev, stats := st\<rparr>"
  have ok: "kernel_ok ?k" using least set_time_ok [OF assms(1)] by blast
  have eq: "advance (ev_time ev) k = dispatch_time_slot (ev_time ev) ?k" by (simp add: advance_def st_def)
  have le: "ev_time ev \<le> ev_time e" using least assms(3) by blast
  show ?thesis
  proof (cases "ev_time e = ev_time ev")
    case True
    moreover have "e \<notin> set (timed (advance (ev_time ev) k))" using adv True by fastforce
    ultimately show ?thesis using dispatch_slot_queues [OF ok, of "ev_time ev" e] assms(3) unfolding eq by simp
  next
    case False
    with le dispatch_slot_queues [OF ok, of "ev_time ev" e] assms(3) show ?thesis unfolding eq by simp
  qed
qed

theorem slot_complete_witness:
  "3 \<in> set (active (advance 5 (push_timed 5 Active 3 example_kernel)))"
proof -
  let ?e = "\<lparr>ev_time = 5, ev_region = Active, ev_seq = 1, ev_action = Resume 3\<rparr>"
  have "kernel_ok (push_timed 5 Active 3 example_kernel)"
    unfolding push_timed_def by (rule keeps_ok [OF push_keeps [OF example_kernel_ok]]) (simp_all add: design_simps u64_max_def)
  moreover have "timed (push_timed 5 Active 3 example_kernel) = [?e]"
    by (simp add: design_simps push_timed_def wheel_push_def)
  ultimately show ?thesis using slot_complete [of "push_timed 5 Active 3 example_kernel" ?e ?e] by simp
qed

section \<open>The invariant\<close>

text \<open>The elaborator's calls add a net or a driver and leave those there are as they are.\<close>

definition grows :: "Kernel \<Rightarrow> Kernel \<Rightarrow> bool" where
  "grows k k' \<longleftrightarrow> kernel_ok k' \<and> profile_le (profile_of k) (profile_of k') \<and> time k' = time k"

lemma new_net_grows: "kernel_ok k \<Longrightarrow> wf_lv v \<Longrightarrow> grows k (fst (new_net name v res d k))"
proof -
  assume k: "kernel_ok k" "wf_lv v"
  obtain k' n where r: "new_net name v res d k = (k', n)" by fastforce
  have "profile_le (profile_of k) (profile_of k')"
    unfolding new_net_ok(2) [OF k r] by (simp add: profile_le_def nth_append)
  moreover have "time k' = time k" using r by (auto simp: new_net_def)
  ultimately show ?thesis using new_net_ok(1) [OF k r] by (simp add: grows_def r)
qed

lemma new_driver_grows: "kernel_ok k \<Longrightarrow> new_driver net zs os k = Some (k', d) \<Longrightarrow> grows k k'"
proof -
  assume k: "kernel_ok k" and r: "new_driver net zs os k = Some (k', d)"
  have "profile_le (profile_of k) (profile_of k')"
    unfolding new_driver_ok(4) [OF k r] using new_driver_ok(3) [OF k r]
    by (simp add: profile_le_def profile_simps nth_list_update nth_append)
  moreover have "time k' = time k" using r by (auto simp: new_driver_def split: if_splits)
  ultimately show ?thesis using new_driver_ok(1) [OF k r] by (simp add: grows_def)
qed

text \<open>The run loop advances to the earliest event.\<close>

lemma advance_moves:
  assumes "kernel_ok k" and "wheel_peek (timed k) = Some ev"
  shows "kernel_ok (advance (ev_time ev) k) \<and> profile_of (advance (ev_time ev) k) = profile_of k \<and>
    time (advance (ev_time ev) k) = ev_time ev \<and> time k \<le> ev_time ev"
  using advance_spec [OF assms] by blast

text \<open>
  C9. Every call that changes the kernel keeps it valid. Nets keep their width and their drivers,
  handles stay in range, the wheel stays ordered and free of past events, and the wait records stay
  consistent, for every call with arguments in range: the creation of nets and drivers by the
  elaborator (which adds to the tables), the calls of a process, and those of the driver of the
  simulation. Only the advance to the next event changes the time, and never backwards. (The private
  methods \<open>apply_drive\<close>, \<open>apply_resolved_net\<close> and \<open>clear_net_waiters\<close> are parts of these calls.)
\<close>

theorem kernel_calls_keep:
  assumes "kernel_ok k"
  shows "(\<forall>name v res dl. wf_lv v \<longrightarrow> grows k (fst (new_net name v res dl k))) \<and>
    (\<forall>net zs os k' d. new_driver net zs os k = Some (k', d) \<longrightarrow> grows k k') \<and>
    (\<forall>n v. value_ok (profile_of k) n v \<longrightarrow> keeps k (write_net n v k) \<and> keeps k (schedule_nba n v k)) \<and>
    (\<forall>d v t ds. d < length (drivers k) \<and> wf_lv v \<longrightarrow>
      keeps k (drive_net d v k) \<and> keeps k (schedule_drive d v t k) \<and> keeps k (schedule_drive_transitions d v ds k)) \<and>
    (\<forall>t r a. action_ok (profile_of k) a \<and> time k \<le> t \<and> t \<le> u64_max \<longrightarrow> keeps k (push_timed_action t r a k)) \<and>
    (\<forall>p wt k'. wait_ok k (wt :: 'p Wait) \<and> arm p wt k = Some k' \<longrightarrow> keeps k k') \<and>
    (\<forall>p e t. keeps k (notify_finished p k) \<and> keeps k (notify_runtime_change k) \<and> keeps k (trigger_event e k) \<and>
      keeps k (drain_nba k) \<and> keeps k (dispatch_time_slot t k) \<and> keeps k (discard_stale_timed_actions k)) \<and>
    (\<forall>l b. keeps k (display l k) \<and> keeps k (set_echo b k) \<and> keeps k (request_stop k) \<and> keeps k (promote_inactive k)) \<and>
    (\<forall>ev. wheel_peek (timed k) = Some ev \<longrightarrow>
      kernel_ok (advance (ev_time ev) k) \<and> profile_of (advance (ev_time ev) k) = profile_of k \<and>
      time (advance (ev_time ev) k) = ev_time ev \<and> time k \<le> ev_time ev)"
  by (intro conjI allI impI; (elim conjE)?)
    (assumption | rule assms new_net_grows new_driver_grows write_net_keeps schedule_nba_keeps drive_net_keeps
      schedule_drive_keeps schedule_drive_transitions_keeps push_keeps arm_keeps simple_ops_keep drain_nba_keeps
      dispatch_time_slot_keeps discard_stale_keeps promote_keeps advance_moves [THEN conjunct1]
      advance_moves [THEN conjunct2, THEN conjunct1] advance_moves [THEN conjunct2, THEN conjunct2, THEN conjunct1]
      advance_moves [THEN conjunct2, THEN conjunct2, THEN conjunct2])+

theorem kernel_calls_keep_witness:
  "kernel_ok (drain_nba example_kernel) \<and> kernel_ok (fst (new_net ''d'' (zero 4) Wire None example_kernel))"
proof -
  note calls = kernel_calls_keep [OF example_kernel_ok, THEN conjunct2, THEN conjunct2]
  have "keeps example_kernel (drain_nba example_kernel)"
    by (rule calls [THEN conjunct2, THEN conjunct2, THEN conjunct2, THEN conjunct2, THEN conjunct1, rule_format,
        THEN conjunct2, THEN conjunct2, THEN conjunct2, THEN conjunct1])
  moreover have "grows example_kernel (fst (new_net ''d'' (zero 4) Wire None example_kernel))"
    by (rule kernel_calls_keep [OF example_kernel_ok, THEN conjunct1, rule_format]) simp
  ultimately show ?thesis by (simp add: keeps_ok grows_def)
qed

end
