(* ===== verification/Syntax.thy ===== *)
theory Syntax
  imports Logic_Ops
begin

text \<open>
  The syntax tree (\<open>crates/eevee-ast/src/lib.rs\<close>) that the front end produces and the elaborator
  reads: expressions, statements, declarations, modules. It is plain data. Structs are records, with a
  prefix for the fields of each, since several have the same field names; the two structs that are part
  of a recursive type (\<open>TypeRef\<close>, \<open>GenerateBlock\<close>) are datatypes with selectors.
\<close>

section \<open>Expressions\<close>

datatype UnaryOp = BitNot | LogNot | Neg | Plus | ReduceAnd | ReduceOr | ReduceXor

datatype BinOp =
    Add | Sub | Mul | And | Or | Xor | Eq | Neq | Lt | Gt | Le | Ge | Shl | Shr | Sar | LogAnd | LogOr

datatype TypeRef = TypeRef (tr_name: string) (tr_args: "TypeRef list")

definition simple_type :: "string \<Rightarrow> TypeRef" where
  "simple_type name = TypeRef name []"

datatype Expr =
    Literal LogicVec
  | SignedLiteral LogicVec
  | Fill Bit
  | Str string
  | Ref string
  | Unary UnaryOp Expr
  | Binary BinOp Expr Expr
  | Conditional Expr Expr Expr
  | Call string "Expr list"
  | Field Expr string
  | MethodCall Expr string "Expr list"
  | StaticCall string "TypeRef list" string "Expr list"
  | StaticRef string string
  | Index Expr Expr
  | PartSelect Expr Expr Expr
  | New "Expr list"
  | Null
  | Concat "Expr list"
  | SysCall string "Expr list"

section \<open>Declarations\<close>

record PackedRange =
  pr_left :: Expr
  pr_right :: Expr

datatype PortDir = Input | Output | Inout | RefDir

datatype ContinuousDelay = Single Expr | RiseFall Expr Expr | RiseFallTurnOff Expr Expr Expr

datatype StrengthLevel = HighZ | Weak | Pull | Strong | Supply

record DriveStrengthSpec =
  ds_zero :: StrengthLevel
  ds_one :: StrengthLevel

datatype NetKind = Wire | Wand | Wor | Tri0 | Tri1 | Supply0 | Supply1

datatype CollKind = Queue | Fixed | Assoc

record VarDecl =
  v_name :: string
  v_width :: nat
  v_packed_range :: "PackedRange option"
  v_unpacked_range :: "PackedRange option"
  v_signed :: bool
  v_class_name :: "string option"
  v_type_scope :: "string option"
  v_type_args :: "TypeRef list"
  v_is_string :: bool
  v_is_event :: bool
  v_coll :: "CollKind option"
  v_key_class_name :: "string option"
  v_is_static :: bool
  v_init :: "Expr option"

record NetDecl =
  nd_name :: string
  nd_width :: nat
  nd_packed_range :: "PackedRange option"
  nd_signed :: bool
  nd_kind :: NetKind
  nd_delay :: "ContinuousDelay option"

record Port =
  pt_name :: string
  pt_dir :: PortDir
  pt_width :: nat
  pt_packed_range :: "PackedRange option"
  pt_signed :: bool
  pt_net_kind :: "NetKind option"

record ModuleParameter =
  mp_name :: string
  mp_width :: nat
  mp_signed :: bool
  mp_default :: Expr

record ParameterOverride =
  po_parameter :: "string option"
  po_value :: Expr

record PortConnection =
  pc_port :: "string option"
  pc_expr :: Expr

record ModuleInstance =
  mi_module_name :: string
  mi_name :: string
  mi_parameters :: "ParameterOverride list"
  mi_connections :: "PortConnection list"

record TypeAlias =
  ta_alias :: string
  ta_target :: TypeRef

record CollectionAlias =
  ca_alias :: string
  ca_kind :: CollKind
  ca_element :: "TypeRef option"
  ca_key :: "TypeRef option"

record ParamDecl =
  pd_name :: string
  pd_is_type :: bool
  pd_default :: "string option"

record Param =
  p_name :: string
  p_dir :: PortDir
  p_width :: nat
  p_signed :: bool
  p_is_string :: bool
  p_packed_range :: "PackedRange option"
  p_class_name :: "string option"
  p_type_scope :: "string option"
  p_type_args :: "TypeRef list"
  p_coll :: "CollKind option"
  p_key_class_name :: "string option"
  p_default :: "Expr option"

section \<open>Statements\<close>

record Lvalue =
  lv_name :: string
  lv_receiver :: "Expr option"
  lv_index :: "Expr option"
  lv_scope :: "string option"

datatype Edge = Posedge | Negedge | AnyChange

record EventExpr =
  ev_edge :: Edge
  ev_expr :: Expr

datatype TimingControl = Delay Expr | Event "EventExpr list" | Wait Expr

datatype ForkJoin = All | Any | Detached

datatype Stmt =
    Block "Stmt list"
  | VarDeclStmt VarDecl
  | Timed TimingControl Stmt
  | Blocking Lvalue Expr
  | Nonblocking Lvalue Expr
  | IfStmt Expr Stmt "Stmt option"
  | While Expr Stmt
  | DoWhile Expr Stmt
  | Case Expr "(Expr list \<times> Stmt) list" "Stmt option"
  | Foreach Expr string Stmt
  | SysCallStmt string "Expr list"
  | ExprStmt Expr
  | Trigger Expr
  | Return "Expr option"
  | Break
  | Continue
  | Fork "Stmt list" ForkJoin
  | NullStmt

datatype AlwaysKind = Plain | Comb | Ff | Latch

record AlwaysBlock =
  ab_kind :: AlwaysKind
  ab_body :: Stmt

section \<open>Functions, classes, modules\<close>

record FuncDecl =
  f_name :: string
  ret_width :: nat
  ret_signed :: bool
  ret_is_string :: bool
  ret_packed_range :: "PackedRange option"
  ret_class :: "string option"
  class_scope :: "string option"
  dpi_name :: "string option"
  is_void :: bool
  is_virtual :: bool
  f_params :: "Param list"
  f_body :: Stmt

record ClassDecl =
  cd_name :: string
  cd_base :: "string option"
  cd_fields :: "VarDecl list"
  cd_methods :: "FuncDecl list"
  cd_constructor :: "FuncDecl option"
  cd_type_aliases :: "TypeAlias list"
  cd_collection_aliases :: "CollectionAlias list"
  cd_params :: "ParamDecl list"
  cd_base_args :: "TypeRef list"
  cd_consts :: "(string \<times> LogicVec) list"
  cd_is_struct :: bool

datatype ModuleItem =
    Var VarDecl
  | Net NetDecl
  | Instance ModuleInstance
  | Genvar string
  | Generate GenerateConstruct
  | ContinuousAssign Lvalue Expr "ContinuousDelay option" "DriveStrengthSpec option"
  | Always AlwaysBlock
  | Initial Stmt
  | Func FuncDecl
  | Class ClassDecl
  | EnumConst string LogicVec
  | EnumType string "(string \<times> LogicVec) list"
  | TypeAliasItem TypeAlias
and GenerateConstruct =
    GenIf Expr GenerateBlock "GenerateBlock option"
  | GenCase Expr "(Expr list \<times> GenerateBlock) list" "GenerateBlock option"
  | GenFor string bool Expr Expr string Expr GenerateBlock
and GenerateBlock = GenerateBlock (gb_name: "string option") (gb_items: "ModuleItem list")

record Package =
  pk_name :: string
  pk_items :: "ModuleItem list"

record Module =
  m_name :: string
  m_parameters :: "ModuleParameter list"
  m_ports :: "Port list"
  m_items :: "ModuleItem list"

datatype Item = ModuleDecl Module | PackageItem Package | ClassItem ClassDecl | FuncItem FuncDecl

record SourceFile =
  sf_items :: "Item list"

end
