(* ===== verification/Const_Eval.thy ===== *)
theory Const_Eval
  imports IR_Interp Syntax
begin

text \<open>
  Constant evaluation (\<open>crates/eevee-elab/src/lib.rs\<close>, at its end): widths, parameters, delays,
  conditions of generate blocks and initial values are evaluated when the design is elaborated. The
  functions return an \<open>Option\<close> in the code; here the outer option is a panic (a vector of width 0, a
  select out of range, a product too wide) and the inner one the result: \<open>Some None\<close> is "not constant".
\<close>

section \<open>The \<open>?\<close> operator\<close>

definition and_then :: "'a option option \<Rightarrow> ('a \<Rightarrow> 'b option option) \<Rightarrow> 'b option option" where
  "and_then r f = (case r of None \<Rightarrow> None | Some None \<Rightarrow> Some None | Some (Some x) \<Rightarrow> f x)"

definition or_else :: "'a option option \<Rightarrow> 'a option option \<Rightarrow> 'a option option" where
  "or_else r s = (case r of None \<Rightarrow> None | Some None \<Rightarrow> s | Some (Some x) \<Rightarrow> Some (Some x))"

lemma and_then_simps [simp]:
  "and_then None f = None" "and_then (Some None) f = Some None" "and_then (Some (Some x)) f = f x"
  by (simp_all add: and_then_def)

lemma or_else_simps [simp]:
  "or_else None s = None" "or_else (Some None) s = s" "or_else (Some (Some x)) s = Some (Some x)"
  by (simp_all add: or_else_def)

lemma and_then_cong [fundef_cong]:
  "r = r' \<Longrightarrow> (\<And>x. r' = Some (Some x) \<Longrightarrow> f x = g x) \<Longrightarrow> and_then r f = and_then r' g"
  by (simp add: and_then_def split: option.split)

lemma and_then_eq_Some:
  "and_then r f = Some (Some y) \<longleftrightarrow> (\<exists>x. r = Some (Some x) \<and> f x = Some (Some y))"
  by (auto simp: and_then_def split: option.splits)

text \<open>A computation that gives a value or panics.\<close>

definition sure :: "'a option \<Rightarrow> 'a option option" where
  "sure r = map_option Some r"

lemma sure_simps [simp]: "sure None = None" "sure (Some x) = Some (Some x)"
  by (simp_all add: sure_def)

lemma sure_eq_Some: "sure r = Some (Some x) \<longleftrightarrow> r = Some x"
  by (auto simp: sure_def)

section \<open>Signedness\<close>

fun const_expr_signedness :: "Expr \<Rightarrow> bool option" where
  "const_expr_signedness (Expr.SignedLiteral _) = Some True"
| "const_expr_signedness (Expr.Literal _) = Some False"
| "const_expr_signedness (Expr.Fill _) = Some False"
| "const_expr_signedness (Expr.Concat _) = Some False"
| "const_expr_signedness (Expr.Index _ _) = Some False"
| "const_expr_signedness (Expr.PartSelect _ _ _) = Some False"
| "const_expr_signedness (Expr.Unary op e) =
     (if op \<in> {UnaryOp.BitNot, UnaryOp.Neg, UnaryOp.Plus} then const_expr_signedness e else Some False)"
| "const_expr_signedness (Expr.Binary op l r) =
     (if op \<in> {BinOp.Add, BinOp.Sub, BinOp.Mul, BinOp.And, BinOp.Or, BinOp.Xor} then
        do { sl \<leftarrow> const_expr_signedness l; if sl then const_expr_signedness r else Some False }
      else if op \<in> {BinOp.Shl, BinOp.Shr, BinOp.Sar} then const_expr_signedness l
      else Some False)"
| "const_expr_signedness (Expr.Conditional _ t f) =
     do { st \<leftarrow> const_expr_signedness t; if st then const_expr_signedness f else Some False }"
| "const_expr_signedness _ = None"

definition is_const_signed :: "Expr \<Rightarrow> bool" where
  "is_const_signed e = (case const_expr_signedness e of None \<Rightarrow> False | Some s \<Rightarrow> s)"

section \<open>Operators\<close>

definition const_unary :: "UnaryOp \<Rightarrow> LogicVec \<Rightarrow> LogicVec" where
  "const_unary op v =
     (case op of
        UnaryOp.BitNot \<Rightarrow> bitnot v
      | UnaryOp.LogNot \<Rightarrow> lognot v
      | UnaryOp.Neg \<Rightarrow> neg v
      | UnaryOp.Plus \<Rightarrow> v
      | UnaryOp.ReduceAnd \<Rightarrow> from_bit (reduce_and v)
      | UnaryOp.ReduceOr \<Rightarrow> from_bit (reduce_or v)
      | UnaryOp.ReduceXor \<Rightarrow> from_bit (reduce_xor v))"

text \<open>\<open>sg\<close>: both operands are signed; \<open>lsg\<close>: the left one is.\<close>

definition const_binary :: "BinOp \<Rightarrow> bool \<Rightarrow> bool \<Rightarrow> LogicVec \<Rightarrow> LogicVec \<Rightarrow> LogicVec option" where
  "const_binary op sg lsg l r =
     (case op of
        BinOp.Add \<Rightarrow> Some (add l r)
      | BinOp.Sub \<Rightarrow> Some (sub l r)
      | BinOp.Mul \<Rightarrow> mul l r
      | BinOp.And \<Rightarrow> Some (bitand l r)
      | BinOp.Or \<Rightarrow> Some (bitor l r)
      | BinOp.Xor \<Rightarrow> Some (bitxor l r)
      | BinOp.Eq \<Rightarrow> Some (eq_logical l r)
      | BinOp.Neq \<Rightarrow> Some (ne_logical l r)
      | BinOp.Lt \<Rightarrow> Some (if sg then slt l r else ult l r)
      | BinOp.Gt \<Rightarrow> Some (if sg then sgt l r else ugt l r)
      | BinOp.Le \<Rightarrow> Some (if sg then sle l r else ule l r)
      | BinOp.Ge \<Rightarrow> Some (if sg then sge l r else uge l r)
      | BinOp.Shl \<Rightarrow> Some (shl l (to_u32 r))
      | BinOp.Shr \<Rightarrow> Some (shr l (to_u32 r))
      | BinOp.Sar \<Rightarrow> Some (if lsg then ashr l (to_u32 r) else shr l (to_u32 r))
      | BinOp.LogAnd \<Rightarrow> Some (one (is_true l \<and> is_true r))
      | BinOp.LogOr \<Rightarrow> Some (one (is_true l \<or> is_true r)))"

text \<open>The parts are evaluated one after the other and the first that is not constant ends the loop.\<close>

fun const_concat :: "LogicVec \<Rightarrow> LogicVec option option list \<Rightarrow> LogicVec option option" where
  "const_concat u [] = Some (Some u)"
| "const_concat u (r # rs) = and_then r (\<lambda>v. and_then (sure (concat_chk u v)) (\<lambda>u. const_concat u rs))"

definition filled_chk :: "Bit \<Rightarrow> nat \<Rightarrow> LogicVec option" where
  "filled_chk b w = map_option (\<lambda>_. filled b w) (zero_chk w)"

section \<open>Evaluation\<close>

function (sequential) try_const_eval_with :: "(string \<rightharpoonup> LogicVec) \<Rightarrow> Expr \<Rightarrow> LogicVec option option"
  and try_const_eval_at_width :: "(string \<rightharpoonup> LogicVec) \<Rightarrow> nat \<Rightarrow> bool \<Rightarrow> Expr \<Rightarrow> LogicVec option option" where
  "try_const_eval_with consts (Expr.Literal lv) = Some (Some lv)"
| "try_const_eval_with consts (Expr.SignedLiteral lv) = Some (Some lv)"
| "try_const_eval_with consts (Expr.Fill b) = Some (Some (filled b 1))"
| "try_const_eval_with consts (Expr.Ref name) = Some (consts name)"
| "try_const_eval_with consts (Expr.PartSelect bs l r) =
     and_then (try_const_eval_with consts bs) (\<lambda>val.
     and_then (try_const_eval_with consts l) (\<lambda>l.
     and_then (try_const_eval_with consts r) (\<lambda>r. sure (part_select val (to_u32 l) (to_u32 r)))))"
| "try_const_eval_with consts (Expr.Concat parts) =
     (case map (try_const_eval_with consts) parts of
        [] \<Rightarrow> Some (Some (zero 1))
      | r # rs \<Rightarrow> and_then r (\<lambda>v. const_concat v rs))"
| "try_const_eval_with consts (Expr.Unary op e) =
     and_then (try_const_eval_with consts e) (\<lambda>v. Some (Some (const_unary op v)))"
| "try_const_eval_with consts (Expr.Binary op l r) =
     and_then (try_const_eval_with consts l) (\<lambda>x.
     and_then (try_const_eval_with consts r) (\<lambda>y.
       sure (const_binary op (is_const_signed l \<and> is_const_signed r) (is_const_signed l) x y)))"
| "try_const_eval_with consts (Expr.Conditional c t f) =
     and_then (try_const_eval_with consts t) (\<lambda>x.
     and_then (try_const_eval_with consts f) (\<lambda>y.
       (let w = max (width x) (width y)
        in and_then (try_const_eval_with consts c) (\<lambda>c.
           and_then (try_const_eval_at_width consts w False t) (\<lambda>x.
           and_then (try_const_eval_at_width consts w False f) (\<lambda>y. Some (Some (conditional c x y))))))))"
| "try_const_eval_with consts _ = Some None"
| "try_const_eval_at_width consts w sg (Expr.Fill b) = sure (filled_chk b w)"
| "try_const_eval_at_width consts w sg (Expr.SignedLiteral v) = sure (resize_chk v w True)"
| "try_const_eval_at_width consts w sg (Expr.Literal v) = sure (resize_chk v w False)"
| "try_const_eval_at_width consts w sg (Expr.Conditional c t f) =
     and_then (try_const_eval_with consts c) (\<lambda>c.
     and_then (try_const_eval_at_width consts w sg t) (\<lambda>x.
     and_then (try_const_eval_at_width consts w sg f) (\<lambda>y. Some (Some (conditional c x y)))))"
| "try_const_eval_at_width consts w sg e =
     and_then (try_const_eval_with consts e) (\<lambda>v.
       sure (resize_chk v w (case const_expr_signedness e of Some s \<Rightarrow> s | None \<Rightarrow> sg)))"
  by pat_completeness auto
termination
  by (relation "inv_image (less_than <*lex*> less_than)
      (\<lambda>x. case x of Inl (consts, e) \<Rightarrow> (size e, 0) | Inr (consts, w, sg, e) \<Rightarrow> (size e, Suc 0))")
    (auto simp: less_Suc_eq_le size_list_estimation')

definition const_eval_with :: "(string \<rightharpoonup> LogicVec) \<Rightarrow> Expr \<Rightarrow> LogicVec option" where
  "const_eval_with consts e =
     map_option (\<lambda>r. case r of Some v \<Rightarrow> v | None \<Rightarrow> zero 32) (try_const_eval_with consts e)"

end
