(* ===== verification/Gen_Names.thy ===== *)
theory Gen_Names
  imports Const_Eval
begin

text \<open>
  The code generator's view of names (\<open>CodeGen\<close> in \<open>crates/eevee-elab/src/lib.rs\<close>): its tables, how a
  name or a receiver is resolved, and the width and signedness of an expression. Hash maps are maps and
  hash sets are sets; the map of the local variables is an association list, since a fork branch lists
  its entries. Class ids index the list of classes. A function that returns an \<open>Option\<close> in the code has
  two options here, the outer one for a panic (a class id out of range); one that returns a value has one.
\<close>

section \<open>Tables\<close>

record CollInfo =
  co_kind :: CollKind
  elem_class :: "nat option"
  key_class :: "nat option"

record ClassInfo =
  ci_name :: string
  ci_base :: "nat option"
  ci_field_slot :: "string \<rightharpoonup> nat \<times> nat"
  ci_field_signed :: "string \<rightharpoonup> bool"
  ci_field_class :: "string \<rightharpoonup> nat"
  ci_field_coll :: "string \<rightharpoonup> CollInfo"
  ci_field_events :: "string set"
  ci_field_strings :: "string set"
  ci_static_fields :: "string \<rightharpoonup> nat"
  ci_static_field_widths :: "string \<rightharpoonup> nat"
  ci_static_field_signed :: "string \<rightharpoonup> bool"
  ci_static_field_strings :: "string set"
  ci_static_field_class :: "string \<rightharpoonup> nat"
  ci_static_field_coll :: "string \<rightharpoonup> CollInfo"
  ci_type_param_default :: "string \<rightharpoonup> nat"
  ci_type_aliases :: "string \<rightharpoonup> nat"
  ci_collection_aliases :: "string \<rightharpoonup> CollInfo"
  ci_method_ret_class :: "string \<rightharpoonup> nat"
  ci_method_ret_integral :: "string \<rightharpoonup> nat \<times> bool"
  ci_field_defaults :: "Value list"
  ci_methods :: "string \<rightharpoonup> FuncId"
  ci_vtable :: "FuncId list"
  ci_vslot_of :: "string \<rightharpoonup> nat"
  ci_ctor :: "FuncId option"
  ci_is_struct :: bool

record GlobalVars =
  gv_vars :: "string \<rightharpoonup> nat"
  gv_widths :: "string \<rightharpoonup> nat"
  gv_signed :: "string \<rightharpoonup> bool"
  gv_strings :: "string set"
  gv_coll :: "string \<rightharpoonup> CollInfo"
  gv_class :: "string \<rightharpoonup> nat"
  gv_type_aliases :: "string \<rightharpoonup> nat"
  gv_enums :: "string \<rightharpoonup> nat"
  gv_class_typedefs :: "string \<rightharpoonup> nat"
  gv_class_collection_typedefs :: "string \<rightharpoonup> CollInfo"

text \<open>
  The fields of \<open>MemoryInfo\<close> are those of a \<open>MemoryDef\<close>. The time scale is used for one method,
  \<open>delay_to_fs\<close> on a number converted to \<open>f64\<close>, which is a parameter. The innermost loop comes first.
\<close>

type_synonym MemoryInfo = MemoryDef

record CodeGen =
  cg_nets :: "string \<rightharpoonup> NetId \<times> nat"
  cg_memories :: "string \<rightharpoonup> MemoryInfo"
  net_signed :: "string \<rightharpoonup> bool"
  cg_funcs :: "string \<rightharpoonup> FuncId"
  func_integral_returns :: "string \<rightharpoonup> nat \<times> bool"
  class_ids :: "string \<rightharpoonup> nat"
  cg_classes :: "ClassInfo list"
  cg_consts :: "string \<rightharpoonup> LogicVec"
  globals :: GlobalVars
  class_ctx :: "nat option"
  this_reg :: Reg
  local_classes :: "string \<rightharpoonup> nat"
  local_colls :: "string \<rightharpoonup> CollInfo"
  local_enums :: "string \<rightharpoonup> nat"
  local_events :: "string set"
  local_strings :: "string set"
  locals :: "(string \<times> Reg \<times> nat) list"
  local_signed :: "string \<rightharpoonup> bool"
  return_type :: "(nat \<times> bool) option"
  loop_targets :: "(nat \<times> nat) list"
  ts_delay_fs :: "u64 \<Rightarrow> nat"

section \<open>Lookups\<close>

definition new_codegen ::
  "(string \<rightharpoonup> NetId \<times> nat) \<Rightarrow> (string \<rightharpoonup> MemoryInfo) \<Rightarrow> (string \<rightharpoonup> bool) \<Rightarrow> (string \<rightharpoonup> FuncId) \<Rightarrow>
   (string \<rightharpoonup> nat \<times> bool) \<Rightarrow> (string \<rightharpoonup> nat) \<Rightarrow> ClassInfo list \<Rightarrow> (string \<rightharpoonup> LogicVec) \<Rightarrow> GlobalVars \<Rightarrow>
   (u64 \<Rightarrow> nat) \<Rightarrow> CodeGen" where
  "new_codegen ns mems sg fns rets ids cs consts gv delay_fs =
     \<lparr>cg_nets = ns, cg_memories = mems, net_signed = sg, cg_funcs = fns, func_integral_returns = rets, class_ids = ids,
      cg_classes = cs, cg_consts = consts, globals = gv, class_ctx = None, this_reg = 0, local_classes = Map.empty,
      local_colls = Map.empty, local_enums = Map.empty, local_events = {}, local_strings = {}, locals = [],
      local_signed = Map.empty, return_type = None, loop_targets = [], ts_delay_fs = delay_fs\<rparr>"

definition class_at :: "CodeGen \<Rightarrow> nat \<Rightarrow> ClassInfo option" where
  "class_at cg cid = at (cg_classes cg) cid"

text \<open>A lookup in the class of the method that is compiled.\<close>

definition in_ctx :: "CodeGen \<Rightarrow> (ClassInfo \<Rightarrow> 'a option) \<Rightarrow> 'a option option" where
  "in_ctx cg f = (case class_ctx cg of None \<Rightarrow> Some None | Some cid \<Rightarrow> map_option f (class_at cg cid))"

definition local_var :: "CodeGen \<Rightarrow> string \<Rightarrow> (Reg \<times> nat) option" where
  "local_var cg name = map_of (locals cg) name"

definition class_field :: "CodeGen \<Rightarrow> string \<Rightarrow> (nat \<times> nat) option option" where
  "class_field cg name = in_ctx cg (\<lambda>c. ci_field_slot c name)"

definition field_class :: "CodeGen \<Rightarrow> string \<Rightarrow> nat option option" where
  "field_class cg name = in_ctx cg (\<lambda>c. ci_field_class c name)"

definition static_field :: "CodeGen \<Rightarrow> string \<Rightarrow> nat option option" where
  "static_field cg name = in_ctx cg (\<lambda>c. ci_static_fields c name)"

definition static_field_width :: "CodeGen \<Rightarrow> string \<Rightarrow> nat option option" where
  "static_field_width cg name = in_ctx cg (\<lambda>c. ci_static_field_widths c name)"

definition static_field_class :: "CodeGen \<Rightarrow> string \<Rightarrow> nat option option" where
  "static_field_class cg name = in_ctx cg (\<lambda>c. ci_static_field_class c name)"

definition method_of_ctx :: "CodeGen \<Rightarrow> string \<Rightarrow> bool option" where
  "method_of_ctx cg name =
     (case class_ctx cg of None \<Rightarrow> Some False | Some cid \<Rightarrow> map_option (\<lambda>c. ci_methods c name \<noteq> None) (class_at cg cid))"

definition is_string_local :: "CodeGen \<Rightarrow> string \<Rightarrow> bool" where
  "is_string_local cg name \<longleftrightarrow> name \<in> local_strings cg"

definition net_of :: "CodeGen \<Rightarrow> string \<Rightarrow> NetId option" where
  "net_of cg name = map_option fst (cg_nets cg name)"

section \<open>Class names\<close>

text \<open>\<open>split_once("::")\<close> and \<open>split("::")\<close>.\<close>

fun split_scope :: "string \<Rightarrow> (string \<times> string) option" where
  "split_scope (a # b # s) =
     (if a = CHR '':'' \<and> b = CHR '':'' then Some ([], s)
      else map_option (\<lambda>(l, r). (a # l, r)) (split_scope (b # s)))"
| "split_scope s = None"

lemma split_scope_shorter: "split_scope s = Some (l, r) \<Longrightarrow> length l < length s \<and> length r < length s"
  by (induction s arbitrary: l r rule: split_scope.induct) (fastforce split: if_splits)+

function split_scopes :: "string \<Rightarrow> string list" where
  "split_scopes s = (case split_scope s of None \<Rightarrow> [s] | Some (l, r) \<Rightarrow> l # split_scopes r)"
  by pat_completeness auto
termination by (relation "measure length") (auto dest: split_scope_shorter)

declare split_scopes.simps [simp del]

fun follow_aliases :: "CodeGen \<Rightarrow> nat \<Rightarrow> string list \<Rightarrow> nat option option" where
  "follow_aliases cg cid [] = Some (Some cid)"
| "follow_aliases cg cid (alias # as) =
     and_then (map_option (\<lambda>c. ci_type_aliases c alias) (class_at cg cid)) (\<lambda>cid. follow_aliases cg cid as)"

function resolve_class :: "CodeGen \<Rightarrow> string \<Rightarrow> nat option option" where
  "resolve_class cg name =
     (case class_ids cg name of
        Some cid \<Rightarrow> Some (Some cid)
      | None \<Rightarrow>
          (case split_scope name of
             Some (owner, aliases) \<Rightarrow>
               and_then (resolve_class cg owner) (\<lambda>cid. follow_aliases cg cid (split_scopes aliases))
           | None \<Rightarrow>
               or_else (Some (gv_type_aliases (globals cg) name))
                 (or_else (Some (gv_class_typedefs (globals cg) name))
                   (in_ctx cg (\<lambda>c. case ci_type_aliases c name of
                                     Some t \<Rightarrow> Some t | None \<Rightarrow> ci_type_param_default c name)))))"
  by pat_completeness auto
termination by (relation "measure (\<lambda>(cg, name). length name)") (auto dest: split_scope_shorter)

declare resolve_class.simps [simp del]

definition resolve_collection_alias :: "CodeGen \<Rightarrow> string option \<Rightarrow> string \<Rightarrow> CollInfo option option" where
  "resolve_collection_alias cg scope name =
     or_else
       (case scope of
          None \<Rightarrow> Some None
        | Some owner \<Rightarrow>
            and_then (resolve_class cg owner) (\<lambda>cid. map_option (\<lambda>c. ci_collection_aliases c name) (class_at cg cid)))
       (or_else (in_ctx cg (\<lambda>c. ci_collection_aliases c name))
         (Some (gv_class_collection_typedefs (globals cg) name)))"

section \<open>Receivers\<close>

definition class_of_name :: "CodeGen \<Rightarrow> string \<Rightarrow> nat option option" where
  "class_of_name cg name =
     or_else (Some (local_classes cg name))
       (or_else (field_class cg name)
         (or_else (static_field_class cg name) (Some (gv_class (globals cg) name))))"

fun try_class_of :: "CodeGen \<Rightarrow> Expr \<Rightarrow> nat option option" where
  "try_class_of cg (Expr.Ref name) = (if name = ''this'' then Some (class_ctx cg) else class_of_name cg name)"
| "try_class_of cg (Expr.Field ob f) =
     and_then (try_class_of cg ob) (\<lambda>oc. map_option (\<lambda>c. ci_field_class c f) (class_at cg oc))"
| "try_class_of cg _ = Some None"

definition coll_of_receiver :: "CodeGen \<Rightarrow> Expr \<Rightarrow> CollInfo option option" where
  "coll_of_receiver cg e =
     (case e of
        Expr.Ref name \<Rightarrow>
          (if name = ''this'' then Some None
           else or_else (Some (local_colls cg name))
                  (or_else (in_ctx cg (\<lambda>c. ci_field_coll c name))
                    (or_else (in_ctx cg (\<lambda>c. ci_static_field_coll c name)) (Some (gv_coll (globals cg) name)))))
      | Expr.Field ob f \<Rightarrow>
          and_then (try_class_of cg ob)
            (\<lambda>oc. map_option (\<lambda>c. case ci_field_coll c f of Some i \<Rightarrow> Some i | None \<Rightarrow> ci_static_field_coll c f)
                    (class_at cg oc))
      | Expr.StaticCall cn _ var args \<Rightarrow>
          (if args = [] then
             (case resolve_class cg cn of
                None \<Rightarrow> None
              | Some (Some _) \<Rightarrow> Some None
              | Some None \<Rightarrow> Some (gv_coll (globals cg) var))
           else Some None)
      | _ \<Rightarrow> Some None)"

definition coll_elem_class :: "CodeGen \<Rightarrow> Expr \<Rightarrow> nat option option" where
  "coll_elem_class cg e = and_then (coll_of_receiver cg e) (\<lambda>info. Some (elem_class info))"

text \<open>A lookup that must succeed.\<close>

definition expect :: "'a option option \<Rightarrow> 'a option" where
  "expect r = (case r of Some (Some x) \<Rightarrow> Some x | _ \<Rightarrow> None)"

fun receiver_class :: "CodeGen \<Rightarrow> Expr \<Rightarrow> nat option" where
  "receiver_class cg (Expr.Ref name) = (if name = ''this'' then class_ctx cg else expect (class_of_name cg name))"
| "receiver_class cg (Expr.Field ob f) =
     do { oc \<leftarrow> receiver_class cg ob; c \<leftarrow> class_at cg oc;
          (case ci_field_class c f of Some k \<Rightarrow> Some k | None \<Rightarrow> ci_static_field_class c f) }"
| "receiver_class cg (Expr.MethodCall ob method _) =
     do { oc \<leftarrow> receiver_class cg ob; c \<leftarrow> class_at cg oc; ci_method_ret_class c method }"
| "receiver_class cg (Expr.StaticCall cn _ method _) =
     do { cid \<leftarrow> expect (resolve_class cg cn); c \<leftarrow> class_at cg cid; ci_method_ret_class c method }"
| "receiver_class cg (Expr.Call name _) =
     do { b \<leftarrow> method_of_ctx cg name;
          if b then do { cid \<leftarrow> class_ctx cg; c \<leftarrow> class_at cg cid; ci_method_ret_class c name } else None }"
| "receiver_class cg (Expr.Index bs _) = expect (coll_elem_class cg bs)"
| "receiver_class cg _ = None"

definition is_named_event_expr :: "CodeGen \<Rightarrow> Expr \<Rightarrow> bool option" where
  "is_named_event_expr cg e =
     (case e of
        Expr.Ref name \<Rightarrow>
          (if name \<in> local_events cg then Some True
           else (case class_ctx cg of
                   None \<Rightarrow> Some False
                 | Some cid \<Rightarrow> map_option (\<lambda>c. name \<in> ci_field_events c) (class_at cg cid)))
      | Expr.Field ob f \<Rightarrow>
          do { cid \<leftarrow> receiver_class cg ob; c \<leftarrow> class_at cg cid; Some (f \<in> ci_field_events c) }
      | _ \<Rightarrow> Some False)"

end
