(* ===== verification/Gen_Width.thy ===== *)
theory Gen_Width
  imports Gen_Names
begin

text \<open>
  Width, signedness and the nets an expression reads (\<open>CodeGen\<close> in \<open>crates/eevee-elab/src/lib.rs\<close>),
  and the width of an assignment target.
\<close>

section \<open>Width\<close>

text \<open>\<open>try_fold\<close> with a checked addition.\<close>

fun width_sum :: "nat \<Rightarrow> nat option option list \<Rightarrow> nat option option" where
  "width_sum acc [] = Some (Some acc)"
| "width_sum acc (r # rs) =
     and_then r (\<lambda>w. if acc + w < 2 ^ 32 then width_sum (acc + w) rs else Some None)"

definition literal_value :: "Expr \<Rightarrow> LogicVec option" where
  "literal_value e = (case e of Expr.Literal v \<Rightarrow> Some v | Expr.SignedLiteral v \<Rightarrow> Some v | _ \<Rightarrow> None)"

text \<open>What a class says of a method or field: \<open>None\<close> inside if it says nothing.\<close>

definition class_says :: "CodeGen \<Rightarrow> nat option option \<Rightarrow> (ClassInfo \<Rightarrow> 'a option) \<Rightarrow> 'a option option" where
  "class_says cg r f = and_then r (\<lambda>cid. map_option f (class_at cg cid))"

definition ref_width :: "CodeGen \<Rightarrow> string \<Rightarrow> nat option option" where
  "ref_width cg name =
     or_else (Some (if is_string_local cg name then None else map_option snd (local_var cg name)))
    (or_else (Some (map_option snd (cg_nets cg name)))
    (or_else (Some (map_option width (cg_consts cg name)))
    (or_else (in_ctx cg (\<lambda>c. if name \<in> ci_field_strings c then None else map_option snd (ci_field_slot c name)))
    (or_else (in_ctx cg (\<lambda>c. if name \<in> ci_static_field_strings c then None else ci_static_field_widths c name))
      (Some (if name \<in> gv_strings (globals cg) then None else gv_widths (globals cg) name))))))"

fun integral_expr_width :: "CodeGen \<Rightarrow> Expr \<Rightarrow> nat option option" where
  "integral_expr_width cg (Expr.Literal v) = Some (Some (width v))"
| "integral_expr_width cg (Expr.SignedLiteral v) = Some (Some (width v))"
| "integral_expr_width cg (Expr.Fill _) = Some None"
| "integral_expr_width cg (Expr.Ref name) = ref_width cg name"
| "integral_expr_width cg (Expr.Unary op e) =
     (if op \<in> {UnaryOp.LogNot, UnaryOp.ReduceAnd, UnaryOp.ReduceOr, UnaryOp.ReduceXor} then Some (Some 1)
      else integral_expr_width cg e)"
| "integral_expr_width cg (Expr.Binary op l r) =
     and_then (integral_expr_width cg l) (\<lambda>wl.
     and_then (integral_expr_width cg r) (\<lambda>wr.
       Some (Some
         (if op \<in> {BinOp.Eq, BinOp.Neq, BinOp.Lt, BinOp.Gt, BinOp.Le, BinOp.Ge, BinOp.LogAnd, BinOp.LogOr} then 1
          else if op \<in> {BinOp.Shl, BinOp.Shr, BinOp.Sar} then wl
          else max wl wr))))"
| "integral_expr_width cg (Expr.Conditional _ t f) =
     do { wt \<leftarrow> integral_expr_width cg t; wf \<leftarrow> integral_expr_width cg f;
          Some (case (wt, wf) of
                  (Some l, Some r) \<Rightarrow> Some (max l r)
                | (Some w, None) \<Rightarrow> Some w
                | (None, r) \<Rightarrow> r) }"
| "integral_expr_width cg (Expr.Index bs _) =
     (case bs of
        Expr.Ref name \<Rightarrow> Some (Some (case cg_memories cg name of Some md \<Rightarrow> element_width md | None \<Rightarrow> 1))
      | _ \<Rightarrow> Some (Some 1))"
| "integral_expr_width cg (Expr.PartSelect _ l r) =
     Some (case (literal_value l, literal_value r) of
             (Some l, Some r) \<Rightarrow>
               (let a = unat (to_u64 l); b = unat (to_u64 r)
                in Some (add_u32 ((if a \<le> b then b - a else a - b) mod 2 ^ 32) 1))
           | _ \<Rightarrow> None)"
| "integral_expr_width cg (Expr.Concat parts) = width_sum 0 (map (integral_expr_width cg) parts)"
| "integral_expr_width cg (Expr.MethodCall ob method _) =
     class_says cg (try_class_of cg ob) (\<lambda>c. map_option fst (ci_method_ret_integral c method))"
| "integral_expr_width cg (Expr.StaticCall cn _ method _) =
     class_says cg (resolve_class cg cn) (\<lambda>c. map_option fst (ci_method_ret_integral c method))"
| "integral_expr_width cg (Expr.Call name _) =
     do { b \<leftarrow> method_of_ctx cg name;
          if b then in_ctx cg (\<lambda>c. map_option fst (ci_method_ret_integral c name))
          else Some (map_option fst (func_integral_returns cg name)) }"
| "integral_expr_width cg (Expr.Field ob f) =
     class_says cg (try_class_of cg ob)
       (\<lambda>c. if f \<in> ci_field_strings c then None else map_option snd (ci_field_slot c f))"
| "integral_expr_width cg (Expr.StaticRef cn f) =
     class_says cg (resolve_class cg cn)
       (\<lambda>c. if f \<in> ci_static_field_strings c then None else ci_static_field_widths c f)"
| "integral_expr_width cg _ = Some None"

section \<open>Signedness\<close>

definition unwrap_or :: "'a \<Rightarrow> 'a option option \<Rightarrow> 'a option" where
  "unwrap_or d r = map_option (\<lambda>x. case x of None \<Rightarrow> d | Some y \<Rightarrow> y) r"

lemma unwrap_or_simps [simp]:
  "unwrap_or d None = None" "unwrap_or d (Some None) = Some d" "unwrap_or d (Some (Some x)) = Some x"
  by (simp_all add: unwrap_or_def)

definition ref_signed :: "CodeGen \<Rightarrow> string \<Rightarrow> bool option" where
  "ref_signed cg name =
     unwrap_or False
       (or_else (Some (local_signed cg name))
       (or_else (Some (net_signed cg name))
       (or_else (in_ctx cg (\<lambda>c. ci_field_signed c name))
       (or_else (in_ctx cg (\<lambda>c. ci_static_field_signed c name))
         (Some (gv_signed (globals cg) name))))))"

fun integral_expr_signed :: "CodeGen \<Rightarrow> Expr \<Rightarrow> bool option" where
  "integral_expr_signed cg (Expr.SignedLiteral _) = Some True"
| "integral_expr_signed cg (Expr.Literal _) = Some False"
| "integral_expr_signed cg (Expr.Fill _) = Some False"
| "integral_expr_signed cg (Expr.Ref name) = ref_signed cg name"
| "integral_expr_signed cg (Expr.Unary op e) =
     (if op \<in> {UnaryOp.BitNot, UnaryOp.Neg, UnaryOp.Plus} then integral_expr_signed cg e else Some False)"
| "integral_expr_signed cg (Expr.Binary op l r) =
     (if op \<in> {BinOp.Add, BinOp.Sub, BinOp.Mul, BinOp.And, BinOp.Or, BinOp.Xor} then
        do { sl \<leftarrow> integral_expr_signed cg l; if sl then integral_expr_signed cg r else Some False }
      else if op \<in> {BinOp.Shl, BinOp.Shr, BinOp.Sar} then integral_expr_signed cg l
      else Some False)"
| "integral_expr_signed cg (Expr.Conditional _ t f) =
     do { st \<leftarrow> integral_expr_signed cg t; if st then integral_expr_signed cg f else Some False }"
| "integral_expr_signed cg (Expr.Field ob f) =
     unwrap_or False (class_says cg (try_class_of cg ob) (\<lambda>c. ci_field_signed c f))"
| "integral_expr_signed cg (Expr.MethodCall ob method _) =
     unwrap_or False (class_says cg (try_class_of cg ob) (\<lambda>c. map_option snd (ci_method_ret_integral c method)))"
| "integral_expr_signed cg (Expr.StaticCall cn _ method _) =
     unwrap_or False (class_says cg (resolve_class cg cn) (\<lambda>c. map_option snd (ci_method_ret_integral c method)))"
| "integral_expr_signed cg (Expr.Call name _) =
     do { b \<leftarrow> method_of_ctx cg name;
          unwrap_or False
            (if b then in_ctx cg (\<lambda>c. map_option snd (ci_method_ret_integral c name))
             else Some (map_option snd (func_integral_returns cg name))) }"
| "integral_expr_signed cg (Expr.StaticRef cn f) =
     unwrap_or False (class_says cg (resolve_class cg cn) (\<lambda>c. ci_static_field_signed c f))"
| "integral_expr_signed cg _ = Some False"

fun is_integral_context_expression :: "Expr \<Rightarrow> bool" where
  "is_integral_context_expression (Expr.Literal _) = True"
| "is_integral_context_expression (Expr.SignedLiteral _) = True"
| "is_integral_context_expression (Expr.Fill _) = True"
| "is_integral_context_expression (Expr.Ref _) = True"
| "is_integral_context_expression (Expr.Unary _ e) = is_integral_context_expression e"
| "is_integral_context_expression (Expr.Binary _ l r) =
     (is_integral_context_expression l \<and> is_integral_context_expression r)"
| "is_integral_context_expression (Expr.Conditional c t f) =
     (is_integral_context_expression c \<and> is_integral_context_expression t \<and> is_integral_context_expression f)"
| "is_integral_context_expression (Expr.Call _ args) = list_all is_integral_context_expression args"
| "is_integral_context_expression (Expr.Index bs i) =
     (is_integral_context_expression bs \<and> is_integral_context_expression i)"
| "is_integral_context_expression (Expr.PartSelect bs l r) =
     (is_integral_context_expression bs \<and> is_integral_context_expression l \<and> is_integral_context_expression r)"
| "is_integral_context_expression (Expr.Concat parts) = list_all is_integral_context_expression parts"
| "is_integral_context_expression (Expr.SysCall name args) =
     (name \<in> {''$realtime'', ''$time'', ''$stime'', ''$cast''} \<and> list_all is_integral_context_expression args)"
| "is_integral_context_expression _ = False"

section \<open>Reads\<close>

definition add_read :: "NetId \<Rightarrow> NetId list \<Rightarrow> NetId list" where
  "add_read n ns = (if n \<in> set ns then ns else ns @ [n])"

fun collect_net_reads :: "CodeGen \<Rightarrow> Expr \<Rightarrow> NetId list \<Rightarrow> NetId list" where
  "collect_net_reads cg (Expr.Ref name) ns =
     (case cg_nets cg name of Some (net, _) \<Rightarrow> add_read net ns | None \<Rightarrow> ns)"
| "collect_net_reads cg (Expr.Unary _ e) ns = collect_net_reads cg e ns"
| "collect_net_reads cg (Expr.Field e _) ns = collect_net_reads cg e ns"
| "collect_net_reads cg (Expr.Binary _ l r) ns = collect_net_reads cg r (collect_net_reads cg l ns)"
| "collect_net_reads cg (Expr.Conditional c t f) ns =
     collect_net_reads cg f (collect_net_reads cg t (collect_net_reads cg c ns))"
| "collect_net_reads cg (Expr.Call _ args) ns = fold (collect_net_reads cg) args ns"
| "collect_net_reads cg (Expr.StaticCall _ _ _ args) ns = fold (collect_net_reads cg) args ns"
| "collect_net_reads cg (Expr.New args) ns = fold (collect_net_reads cg) args ns"
| "collect_net_reads cg (Expr.Concat args) ns = fold (collect_net_reads cg) args ns"
| "collect_net_reads cg (Expr.SysCall _ args) ns = fold (collect_net_reads cg) args ns"
| "collect_net_reads cg (Expr.MethodCall ob _ args) ns =
     fold (collect_net_reads cg) args (collect_net_reads cg ob ns)"
| "collect_net_reads cg (Expr.Index bs i) ns =
     (case (case bs of Expr.Ref name \<Rightarrow> cg_memories cg name | _ \<Rightarrow> None) of
        Some md \<Rightarrow> collect_net_reads cg i (fold add_read (elements md) ns)
      | None \<Rightarrow> collect_net_reads cg i (collect_net_reads cg bs ns))"
| "collect_net_reads cg (Expr.PartSelect bs l r) ns =
     collect_net_reads cg r (collect_net_reads cg l (collect_net_reads cg bs ns))"
| "collect_net_reads cg _ ns = ns"

section \<open>Targets\<close>

text \<open>Whether a name denotes anything but an integral variable.\<close>

definition ctx_has :: "CodeGen \<Rightarrow> (ClassInfo \<Rightarrow> bool) \<Rightarrow> bool option" where
  "ctx_has cg f = (case class_ctx cg of None \<Rightarrow> Some False | Some cid \<Rightarrow> map_option f (class_at cg cid))"

fun any_of :: "bool option list \<Rightarrow> bool option" where
  "any_of [] = Some False"
| "any_of (b # bs) = do { x \<leftarrow> b; if x then Some True else any_of bs }"

definition not_integral_name :: "CodeGen \<Rightarrow> string \<Rightarrow> bool option" where
  "not_integral_name cg name =
     any_of
       [Some (local_classes cg name \<noteq> None), Some (local_colls cg name \<noteq> None), Some (local_enums cg name \<noteq> None),
        Some (name \<in> local_events cg), Some (name \<in> local_strings cg),
        ctx_has cg (\<lambda>c. ci_field_class c name \<noteq> None),
        ctx_has cg (\<lambda>c. name \<in> ci_field_strings c), ctx_has cg (\<lambda>c. ci_field_coll c name \<noteq> None),
        ctx_has cg (\<lambda>c. ci_static_field_class c name \<noteq> None), ctx_has cg (\<lambda>c. ci_static_field_coll c name \<noteq> None),
        ctx_has cg (\<lambda>c. name \<in> ci_static_field_strings c),
        Some (gv_class (globals cg) name \<noteq> None), Some (gv_coll (globals cg) name \<noteq> None),
        Some (name \<in> gv_strings (globals cg))]"

definition lvalue_width :: "CodeGen \<Rightarrow> Lvalue \<Rightarrow> nat option option" where
  "lvalue_width cg lhs =
     (let name = lv_name lhs
      in if lv_index lhs \<noteq> None then
           Some (if lv_receiver lhs = None \<and> lv_scope lhs = None then
                   (case cg_memories cg name of
                      Some md \<Rightarrow> Some (element_width md)
                    | None \<Rightarrow> (if cg_nets cg name \<noteq> None then Some 1 else None))
                 else None)
         else
           (case lv_scope lhs of
              Some scope \<Rightarrow>
                class_says cg (resolve_class cg scope)
                  (\<lambda>c. if ci_static_field_class c name \<noteq> None \<or> ci_static_field_coll c name \<noteq> None \<or>
                         name \<in> ci_static_field_strings c
                       then None else ci_static_field_widths c name)
            | None \<Rightarrow>
                (case lv_receiver lhs of
                   Some rcv \<Rightarrow>
                     class_says cg (try_class_of cg rcv)
                       (\<lambda>c. if ci_field_class c name \<noteq> None \<or> ci_field_coll c name \<noteq> None \<or>
                              name \<in> ci_field_events c \<or> name \<in> ci_field_strings c
                            then None else map_option snd (ci_field_slot c name))
                 | None \<Rightarrow>
                     do { b \<leftarrow> not_integral_name cg name;
                          if b then Some None
                          else or_else (Some (map_option snd (local_var cg name)))
                              (or_else (map_option (map_option snd) (class_field cg name))
                              (or_else (static_field_width cg name)
                              (or_else (Some (gv_widths (globals cg) name))
                                (Some (map_option snd (cg_nets cg name)))))) })))"

end
