(* ===== verification/IR_Builder.thy ===== *)
theory IR_Builder
  imports IR_Inst
begin

text \<open>
  The builder of programs (\<open>ProgramBuilder\<close> in \<open>crates/eevee-ir/src/inst.rs\<close>): tables are interned in
  order, labels are bound to code positions, and \<open>build\<close> patches the jumps. The invariant
  \<open>builder_ok\<close> holds for every builder that the calls produce; it is what makes \<open>build\<close> succeed
  as soon as every label that is used is bound.
\<close>

section \<open>State and operations\<close>

record ProgramBuilder =
  bcode :: "Inst list"
  bconsts :: "Value list"
  bnetlists :: "NetId list list"
  bmemories :: "MemoryDef list"
  barglists :: "Reg list list"
  bforks :: "Program list"
  bfork_captures :: "(Reg \<times> Reg) list list"
  bfork_groups :: "nat list list"
  bn_regs :: nat
  barg_modes :: "ArgMode list"
  labels :: "nat list"
  patches :: "(nat \<times> nat) list"
  bname :: string

definition u32_max :: nat where
  "u32_max = 2 ^ 32 - 1"

definition new_builder :: "string \<Rightarrow> ProgramBuilder" where
  "new_builder name =
     \<lparr>bcode = [], bconsts = [], bnetlists = [], bmemories = [], barglists = [], bforks = [],
      bfork_captures = [], bfork_groups = [], bn_regs = 0, barg_modes = [], labels = [], patches = [], bname = name\<rparr>"

definition new_reg :: "ProgramBuilder \<Rightarrow> ProgramBuilder \<times> Reg" where
  "new_reg b = (b\<lparr>bn_regs := bn_regs b + 1\<rparr>, bn_regs b)"

definition set_arg_modes :: "ArgMode list \<Rightarrow> ProgramBuilder \<Rightarrow> ProgramBuilder" where
  "set_arg_modes modes b = b\<lparr>barg_modes := modes\<rparr>"

definition konst :: "Value \<Rightarrow> ProgramBuilder \<Rightarrow> ProgramBuilder \<times> ConstId" where
  "konst v b = (b\<lparr>bconsts := bconsts b @ [v]\<rparr>, length (bconsts b))"

definition konst_logic :: "LogicVec \<Rightarrow> ProgramBuilder \<Rightarrow> ProgramBuilder \<times> ConstId" where
  "konst_logic v b = konst (Logic v) b"

definition netlist :: "NetId list \<Rightarrow> ProgramBuilder \<Rightarrow> ProgramBuilder \<times> NetListId" where
  "netlist ns b = (b\<lparr>bnetlists := bnetlists b @ [ns]\<rparr>, length (bnetlists b))"

definition memory :: "NetId list \<Rightarrow> int \<Rightarrow> int \<Rightarrow> nat \<Rightarrow> ProgramBuilder \<Rightarrow> ProgramBuilder \<times> MemoryId" where
  "memory es l r w b =
     (b\<lparr>bmemories := bmemories b @ [\<lparr>elements = es, left = l, right = r, element_width = w\<rparr>]\<rparr>,
      length (bmemories b))"

definition arglist :: "Reg list \<Rightarrow> ProgramBuilder \<Rightarrow> ProgramBuilder \<times> ArgListId" where
  "arglist rs b = (b\<lparr>barglists := barglists b @ [rs]\<rparr>, length (barglists b))"

definition add_fork_branch :: "Program \<Rightarrow> (Reg \<times> Reg) list \<Rightarrow> ProgramBuilder \<Rightarrow> ProgramBuilder \<times> nat" where
  "add_fork_branch prog captures b =
     (b\<lparr>bforks := bforks b @ [prog], bfork_captures := bfork_captures b @ [captures]\<rparr>, length (bforks b))"

definition fork_group :: "nat list \<Rightarrow> ProgramBuilder \<Rightarrow> ProgramBuilder \<times> ForkGroupId" where
  "fork_group branches b = (b\<lparr>bfork_groups := bfork_groups b @ [branches]\<rparr>, length (bfork_groups b))"

definition new_label :: "ProgramBuilder \<Rightarrow> ProgramBuilder \<times> nat" where
  "new_label b = (b\<lparr>labels := labels b @ [u32_max]\<rparr>, length (labels b))"

definition bind_label :: "nat \<Rightarrow> ProgramBuilder \<Rightarrow> ProgramBuilder option" where
  "bind_label l b =
     (if l < length (labels b) then Some (b\<lparr>labels := (labels b)[l := length (bcode b) mod 2 ^ 32]\<rparr>) else None)"

definition emit :: "Inst \<Rightarrow> ProgramBuilder \<Rightarrow> ProgramBuilder" where
  "emit i b = b\<lparr>bcode := bcode b @ [i]\<rparr>"

text \<open>The four jumps: a patch for the label, and the instruction with target 0.\<close>

definition emit_patched :: "FlowInst \<Rightarrow> nat \<Rightarrow> ProgramBuilder \<Rightarrow> ProgramBuilder" where
  "emit_patched i l b =
     (let b = b\<lparr>patches := patches b @ [(length (bcode b), l)]\<rparr>
      in b\<lparr>bcode := bcode b @ [FlowI i]\<rparr>)"

definition jump :: "nat \<Rightarrow> ProgramBuilder \<Rightarrow> ProgramBuilder" where
  "jump l = emit_patched (Jump 0) l"

definition branch_false :: "Reg \<Rightarrow> nat \<Rightarrow> ProgramBuilder \<Rightarrow> ProgramBuilder" where
  "branch_false cond l = emit_patched (BranchFalse cond 0) l"

definition branch_true :: "Reg \<Rightarrow> nat \<Rightarrow> ProgramBuilder \<Rightarrow> ProgramBuilder" where
  "branch_true cond l = emit_patched (BranchTrue cond 0) l"

definition branch_arg_provided :: "Reg \<Rightarrow> nat \<Rightarrow> ProgramBuilder \<Rightarrow> ProgramBuilder" where
  "branch_arg_provided arg l = emit_patched (BranchArgProvided arg 0) l"

text \<open>\<open>None\<close> is the arm that the code marks unreachable.\<close>

definition set_target :: "CodeAddr \<Rightarrow> Inst \<Rightarrow> Inst option" where
  "set_target t i =
     (case i of
        FlowI (Jump _) \<Rightarrow> Some (FlowI (Jump t))
      | FlowI (BranchFalse c _) \<Rightarrow> Some (FlowI (BranchFalse c t))
      | FlowI (BranchTrue c _) \<Rightarrow> Some (FlowI (BranchTrue c t))
      | FlowI (BranchArgProvided a _) \<Rightarrow> Some (FlowI (BranchArgProvided a t))
      | _ \<Rightarrow> None)"

text \<open>\<open>None\<close> is the panic on an unbound label.\<close>

fun patch_loop :: "nat list \<Rightarrow> (nat \<times> nat) list \<Rightarrow> Inst list \<Rightarrow> Inst list option" where
  "patch_loop ls [] cs = Some cs"
| "patch_loop ls ((ci, lid) # ps) cs =
     (if lid < length ls \<and> ls ! lid \<noteq> u32_max \<and> ci < length cs then
        (case set_target (ls ! lid) (cs ! ci) of
           None \<Rightarrow> None
         | Some i \<Rightarrow> patch_loop ls ps (cs[ci := i]))
      else None)"

definition build :: "ProgramBuilder \<Rightarrow> Program option" where
  "build b = map_option (\<lambda>cs. Program cs (bconsts b) (bnetlists b) (bmemories b) (barglists b)
     (bforks b) (bfork_captures b) (bfork_groups b) (bn_regs b) (barg_modes b) (bname b))
     (patch_loop (labels b) (patches b) (bcode b))"

section \<open>The invariant\<close>

text \<open>
  Every patch names a jump of the code and a label that exists, each jump has at most one patch,
  and a bound label is a code position.
\<close>

definition builder_ok :: "ProgramBuilder \<Rightarrow> bool" where
  "builder_ok b \<longleftrightarrow> distinct (map fst (patches b)) \<and>
     (\<forall>p \<in> set (patches b). fst p < length (bcode b) \<and> set_target 0 (bcode b ! fst p) \<noteq> None) \<and>
     (\<forall>l \<in> set (labels b). l = u32_max \<or> l \<le> length (bcode b))"

inductive builder_call :: "ProgramBuilder \<Rightarrow> ProgramBuilder \<Rightarrow> bool" where
  call_reg: "builder_call b (fst (new_reg b))"
| call_modes: "builder_call b (set_arg_modes ms b)"
| call_konst: "builder_call b (fst (konst v b))"
| call_netlist: "builder_call b (fst (netlist ns b))"
| call_memory: "builder_call b (fst (memory es l r w b))"
| call_arglist: "builder_call b (fst (arglist rs b))"
| call_fork_branch: "builder_call b (fst (add_fork_branch prog cs b))"
| call_fork_group: "builder_call b (fst (fork_group bs b))"
| call_label: "builder_call b (fst (new_label b))"
| call_bind: "bind_label l b = Some b' \<Longrightarrow> builder_call b b'"
| call_emit: "builder_call b (emit i b)"
| call_jump: "builder_call b (jump l b)"
| call_branch_false: "builder_call b (branch_false c l b)"
| call_branch_true: "builder_call b (branch_true c l b)"
| call_branch_arg: "builder_call b (branch_arg_provided a l b)"

lemma set_target_None: "set_target t i = None \<longleftrightarrow> set_target 0 i = None"
  by (cases i; simp add: set_target_def split: FlowInst.split)

lemma set_target_idem: "set_target t i = Some j \<Longrightarrow> set_target 0 j \<noteq> None"
  by (cases i; simp add: set_target_def split: FlowInst.splits; auto)

lemma emit_patched_ok: "builder_ok b \<Longrightarrow> set_target 0 (FlowI i) \<noteq> None \<Longrightarrow> builder_ok (emit_patched i l b)"
  by (fastforce simp: builder_ok_def emit_patched_def nth_append)

lemma jumps_ok:
  assumes "builder_ok b"
  shows "builder_ok (jump l b)" "builder_ok (branch_false r l b)" "builder_ok (branch_true r l b)"
    "builder_ok (branch_arg_provided r l b)"
  unfolding jump_def branch_false_def branch_true_def branch_arg_provided_def
  by (rule emit_patched_ok [OF assms]; simp add: set_target_def)+

lemma builder_call_ok:
  assumes "builder_call b b'" and "builder_ok b"
  shows "builder_ok b'"
  using assms
proof cases
  case (call_emit i)
  then show ?thesis using assms(2) by (auto simp: builder_ok_def emit_def nth_append)
next
  case (call_bind l)
  define n where "n = length (bcode b) mod 2 ^ 32"
  have "n \<le> length (bcode b)" by (simp add: n_def)
  moreover have b': "labels b' = (labels b)[l := n]" "patches b' = patches b" "bcode b' = bcode b"
    using call_bind by (auto simp: bind_label_def n_def split: if_splits)
  moreover have "x \<in> set ((labels b)[l := n]) \<Longrightarrow> x = n \<or> x \<in> set (labels b)" for x
    using set_update_subset_insert by fast
  ultimately show ?thesis
    using assms(2) unfolding builder_ok_def b' by blast
next
  case (call_jump l)
  then show ?thesis using jumps_ok [OF assms(2)] by blast
next
  case (call_branch_false c l)
  then show ?thesis using jumps_ok [OF assms(2)] by blast
next
  case (call_branch_true c l)
  then show ?thesis using jumps_ok [OF assms(2)] by blast
next
  case (call_branch_arg a l)
  then show ?thesis using jumps_ok [OF assms(2)] by blast
qed (simp_all add: builder_ok_def new_reg_def set_arg_modes_def konst_def netlist_def memory_def arglist_def
      add_fork_branch_def fork_group_def new_label_def)

lemma builder_calls_ok: "builder_call\<^sup>*\<^sup>* (new_builder name) b \<Longrightarrow> builder_ok b"
proof (induction rule: rtranclp_induct)
  case base
  show ?case by (simp add: builder_ok_def new_builder_def)
qed (rule builder_call_ok)

section \<open>Patching\<close>

definition patched :: "nat list \<Rightarrow> (nat \<times> nat) list \<Rightarrow> Inst list \<Rightarrow> nat \<Rightarrow> Inst" where
  "patched ls ps cs i =
     (case map_of ps i of None \<Rightarrow> cs ! i | Some lid \<Rightarrow> the (set_target (ls ! lid) (cs ! i)))"

lemma patch_loop_spec:
  assumes "distinct (map fst ps)"
    and "\<forall>p \<in> set ps. fst p < length cs \<and> set_target 0 (cs ! fst p) \<noteq> None"
  shows "patch_loop ls ps cs =
    (if \<forall>p \<in> set ps. snd p < length ls \<and> ls ! snd p \<noteq> u32_max
     then Some (map (patched ls ps cs) [0..<length cs]) else None)"
  using assms
proof (induction ps arbitrary: cs)
  case Nil
  have "map (patched ls [] cs) [0..<length cs] = cs" by (rule nth_equalityI) (simp_all add: patched_def)
  then show ?case by simp
next
  case (Cons p ps)
  obtain ci lid where p: "p = (ci, lid)" by fastforce
  show ?case
  proof (cases "lid < length ls \<and> ls ! lid \<noteq> u32_max")
    case False
    then show ?thesis by (auto simp: p)
  next
    case True
    have ci: "ci < length cs" and "set_target 0 (cs ! ci) \<noteq> None" using Cons.prems(2) by (simp_all add: p)
    then obtain i where i: "set_target (ls ! lid) (cs ! ci) = Some i" using set_target_None [of "ls ! lid" "cs ! ci"]
      by (cases "set_target (ls ! lid) (cs ! ci)") simp_all
    let ?cs = "cs[ci := i]"
    have new: "ci \<notin> fst ` set ps" using Cons.prems(1) by (simp add: p)
    have "?cs ! fst q = cs ! fst q" if "q \<in> set ps" for q
      using new that by (intro nth_list_update_neq) force
    then have "\<forall>q \<in> set ps. fst q < length ?cs \<and> set_target 0 (?cs ! fst q) \<noteq> None"
      using Cons.prems(2) by simp
    from Cons.IH [OF _ this] have IH: "patch_loop ls ps ?cs =
      (if \<forall>p \<in> set ps. snd p < length ls \<and> ls ! snd p \<noteq> u32_max
       then Some (map (patched ls ps ?cs) [0..<length cs]) else None)"
      using Cons.prems(1) by simp
    have "patched ls ps ?cs j = patched ls (p # ps) cs j" if "j < length cs" for j
    proof -
      have "map_of ps ci = None" using new by (simp add: map_of_eq_None_iff)
      then show ?thesis using that ci i by (auto simp: patched_def p nth_list_update split: option.split)
    qed
    then have "map (patched ls ps ?cs) [0..<length cs] = map (patched ls (p # ps) cs) [0..<length cs]" by simp
    then show ?thesis using True ci i IH by (simp add: p)
  qed
qed

section \<open>Properties\<close>

text \<open>
  C29. Building a program resolves its labels. Take any builder that the builder's calls produce and
  whose code is shorter than the mark for an unbound label. If every label that a jump uses exists
  and is bound, \<open>build\<close> succeeds: each jump that was emitted with a label now goes to the position
  the label was bound to, a position of the code or its end, and every other instruction is
  unchanged. If one is unbound, \<open>build\<close> panics.
\<close>

theorem build_resolves:
  assumes "builder_call\<^sup>*\<^sup>* (new_builder name) b" and "length (bcode b) < u32_max"
  shows "case build b of
      Some prog \<Rightarrow> (\<forall>p \<in> set (patches b). snd p < length (labels b) \<and> labels b ! snd p \<le> length (pcode prog) \<and>
          set_target (labels b ! snd p) (bcode b ! fst p) = Some (pcode prog ! fst p)) \<and>
        length (pcode prog) = length (bcode b) \<and>
        (\<forall>i < length (bcode b). i \<notin> fst ` set (patches b) \<longrightarrow> pcode prog ! i = bcode b ! i)
    | None \<Rightarrow> (\<exists>p \<in> set (patches b). length (labels b) \<le> snd p \<or> labels b ! snd p = u32_max)"
proof -
  have ok: "builder_ok b" by (rule builder_calls_ok [OF assms(1)])
  note spec = patch_loop_spec [of "patches b" "bcode b" "labels b"]
  have d: "distinct (map fst (patches b))"
    and t: "\<forall>p \<in> set (patches b). fst p < length (bcode b) \<and> set_target 0 (bcode b ! fst p) \<noteq> None"
    using ok by (simp_all add: builder_ok_def)
  show ?thesis
  proof (cases "\<forall>p \<in> set (patches b). snd p < length (labels b) \<and> labels b ! snd p \<noteq> u32_max")
    case False
    then show ?thesis using spec [OF d t] by (auto simp: build_def not_less)
  next
    case True
    have "set_target (labels b ! snd p) (bcode b ! fst p) = Some (patched (labels b) (patches b) (bcode b) (fst p)) \<and>
        labels b ! snd p \<le> length (bcode b)" if p: "p \<in> set (patches b)" for p
    proof -
      have "map_of (patches b) (fst p) = Some (snd p)" using d p by simp
      moreover have "set_target (labels b ! snd p) (bcode b ! fst p) \<noteq> None" using t p set_target_None by blast
      moreover have "labels b ! snd p \<le> length (bcode b)" using ok True p by (fastforce simp: builder_ok_def)
      ultimately show ?thesis by (auto simp: patched_def)
    qed
    moreover have "patched (labels b) (patches b) (bcode b) i = bcode b ! i" if "i \<notin> fst ` set (patches b)" for i
      using that by (simp add: patched_def map_of_eq_None_iff [THEN iffD2])
    ultimately show ?thesis using spec [OF d t] True t by (simp add: build_def)
  qed
qed

text \<open>A loop that is left when register 0 is false.\<close>

definition loop_start :: ProgramBuilder where
  "loop_start = the (bind_label 0 (fst (new_label (fst (new_label (new_builder ''loop''))))))"

definition loop_builder :: ProgramBuilder where
  "loop_builder = emit (TimingI Finish) (the (bind_label 1 (jump 0 (branch_false 0 1 loop_start))))"

lemma loop_start_eq: "loop_start = (new_builder ''loop'')\<lparr>labels := [0, u32_max]\<rparr>"
  "bind_label 0 (fst (new_label (fst (new_label (new_builder ''loop''))))) = Some loop_start"
  by (simp_all add: loop_start_def bind_label_def new_label_def new_builder_def)

lemma loop_builder_eq: "loop_builder = (new_builder ''loop'')\<lparr>labels := [0, 2], patches := [(0, 1), (1, 0)],
    bcode := [FlowI (BranchFalse 0 0), FlowI (Jump 0), TimingI Finish]\<rparr>"
  "bind_label 1 (jump 0 (branch_false 0 1 loop_start)) = Some (the (bind_label 1 (jump 0 (branch_false 0 1 loop_start))))"
  unfolding loop_builder_def loop_start_eq
  by (simp_all add: bind_label_def new_builder_def branch_false_def jump_def emit_patched_def emit_def)

lemma loop_builder_calls: "builder_call\<^sup>*\<^sup>* (new_builder ''loop'') loop_builder"
proof -
  note step = rtranclp.rtrancl_into_rtrancl [where r = builder_call]
  have "builder_call\<^sup>*\<^sup>* (new_builder ''loop'') loop_start"
    by (rule step [OF step [OF r_into_rtranclp [where r = builder_call, OF call_label] call_label] call_bind [OF loop_start_eq(2)]])
  then have "builder_call\<^sup>*\<^sup>* (new_builder ''loop'') (jump 0 (branch_false 0 1 loop_start))"
    by (rule step [OF step [OF _ call_branch_false] call_jump])
  then show ?thesis
    unfolding loop_builder_def by (rule step [OF step [OF _ call_bind [OF loop_builder_eq(2)]] call_emit])
qed

theorem build_resolves_witness:
  "\<exists>prog. build loop_builder = Some prog \<and> pcode prog = [FlowI (BranchFalse 0 2), FlowI (Jump 0), TimingI Finish]"
proof -
  have "\<not> (\<exists>p \<in> set (patches loop_builder). length (labels loop_builder) \<le> snd p \<or> labels loop_builder ! snd p = u32_max)"
    and short: "length (bcode loop_builder) < u32_max"
    by (simp_all add: loop_builder_eq(1) u32_max_def new_builder_def)
  moreover note build_resolves [OF loop_builder_calls short]
  ultimately obtain prog where prog: "build loop_builder = Some prog" by (cases "build loop_builder") simp_all
  note res = build_resolves [OF loop_builder_calls short, unfolded prog option.case]
  have len: "length (pcode prog) = 3" using res by (simp add: loop_builder_eq(1))
  have "set_target 2 (FlowI (BranchFalse 0 0)) = Some (pcode prog ! 0)" "set_target 0 (FlowI (Jump 0)) = Some (pcode prog ! 1)"
    using res [THEN conjunct1] unfolding loop_builder_eq(1) by simp_all
  then have "pcode prog ! 0 = FlowI (BranchFalse 0 2)" "pcode prog ! 1 = FlowI (Jump 0)"
    by (simp_all add: set_target_def)
  moreover have "pcode prog ! 2 = TimingI Finish"
    using res [THEN conjunct2, THEN conjunct2] unfolding loop_builder_eq(1) by simp
  moreover obtain x y z where "pcode prog = [x, y, z]" using len by (auto simp: length_Suc_conv numeral_3_eq_3)
  ultimately have "pcode prog = [FlowI (BranchFalse 0 2), FlowI (Jump 0), TimingI Finish]" by simp
  with prog(1) show ?thesis by blast
qed

end
