(* ===== verification/Gen_Expr.thy ===== *)
theory Gen_Expr
  imports Gen_Width IR_Builder
begin

text \<open>
  Code generation for expressions (\<open>gen_expr\<close>, \<open>gen_expr_at_width_with_sign\<close> and what they call, in
  \<open>crates/eevee-elab/src/lib.rs\<close>). A generator extends a program builder and gives the register of the
  result; \<open>None\<close> is a panic: an unknown name, a construct that is not supported. The recursion on
  expressions is in two functions; the functions between them take the generators of the
  subexpressions as arguments.
\<close>

section \<open>Generators\<close>

type_synonym 'a gen = "ProgramBuilder \<Rightarrow> (ProgramBuilder \<times> 'a) option"

definition emit_new :: "(Reg \<Rightarrow> Inst) \<Rightarrow> ProgramBuilder \<Rightarrow> ProgramBuilder \<times> Reg" where
  "emit_new f pb = (let (pb, dst) = new_reg pb in (emit (f dst) pb, dst))"

definition load_const :: "Value \<Rightarrow> ProgramBuilder \<Rightarrow> ProgramBuilder \<times> Reg" where
  "load_const v pb =
     (let (pb, dst) = new_reg pb; (pb, k) = konst v pb in (emit (DataI (LoadConst dst k)) pb, dst))"

text \<open>\<open>args.iter().map(gen).collect()\<close>.\<close>

fun gen_list :: "Reg gen list \<Rightarrow> Reg list gen" where
  "gen_list [] pb = Some (pb, [])"
| "gen_list (g # gs) pb = do { (pb, r) \<leftarrow> g pb; (pb, rs) \<leftarrow> gen_list gs pb; Some (pb, r # rs) }"

text \<open>A new register for the result of an instruction with an argument list.\<close>

definition emit_args :: "(Reg \<Rightarrow> ArgListId \<Rightarrow> Inst) \<Rightarrow> Reg list \<Rightarrow> ProgramBuilder \<Rightarrow> ProgramBuilder \<times> Reg" where
  "emit_args f rs pb = (let (pb, al) = arglist rs pb in emit_new (\<lambda>dst. f dst al) pb)"

definition call_inst :: "FuncId \<Rightarrow> Reg \<Rightarrow> ArgListId \<Rightarrow> Inst" where
  "call_inst fid ret al = FlowI (FlowInst.Call fid al ret)"

definition coll_inst :: "Reg \<Rightarrow> CollOp \<Rightarrow> Reg \<Rightarrow> ArgListId \<Rightarrow> Inst" where
  "coll_inst bs op dst al = CollI (CollMethod dst bs op al)"

section \<open>Names\<close>

definition coll_op :: "string \<Rightarrow> CollOp option" where
  "coll_op method = map_of
     [(''push_back'', PushBack), (''push_front'', PushFront), (''pop_back'', PopBack), (''pop_front'', PopFront),
      (''size'', CollOp.Size), (''insert'', CollOp.Insert), (''delete'', CollOp.Delete), (''exists'', CollOp.Exists),
      (''num'', CollOp.Num), (''first'', CollOp.First), (''last'', CollOp.Last), (''next'', CollOp.Next),
      (''prev'', CollOp.Prev)] method"

fun default_fmt :: "nat \<Rightarrow> string" where
  "default_fmt 0 = []"
| "default_fmt (Suc 0) = ''%0d''"
| "default_fmt (Suc n) = default_fmt n @ '' %0d''"

definition gen_method_on_this :: "CodeGen \<Rightarrow> string \<Rightarrow> Reg gen list \<Rightarrow> Reg gen" where
  "gen_method_on_this cg method args pb =
     do { cid \<leftarrow> class_ctx cg; (pb, rs) \<leftarrow> gen_list args pb; c \<leftarrow> class_at cg cid;
          (case ci_vslot_of c method of
             Some vslot \<Rightarrow> Some (emit_args (\<lambda>ret al. FlowI (CallVirtual (this_reg cg) vslot al ret)) (this_reg cg # rs) pb)
           | None \<Rightarrow> do { fid \<leftarrow> ci_methods c method; Some (emit_args (call_inst fid) (this_reg cg # rs) pb) }) }"

definition gen_ref :: "CodeGen \<Rightarrow> string \<Rightarrow> Reg gen" where
  "gen_ref cg name pb =
     (if name = ''this'' then Some (pb, this_reg cg)
      else (case local_var cg name of
              Some (r, _) \<Rightarrow> Some (pb, r)
            | None \<Rightarrow>
                do { f \<leftarrow> class_field cg name; s \<leftarrow> static_field cg name;
                     (case f of
                        Some (slot, _) \<Rightarrow> Some (emit_new (\<lambda>dst. ObjI (GetField dst (this_reg cg) slot)) pb)
                      | None \<Rightarrow>
                          (case s of
                             Some sid \<Rightarrow> Some (emit_new (\<lambda>dst. ObjI (StaticGet dst sid)) pb)
                           | None \<Rightarrow>
                               (case gv_vars (globals cg) name of
                                  Some gid \<Rightarrow> Some (emit_new (\<lambda>dst. ObjI (StaticGet dst gid)) pb)
                                | None \<Rightarrow>
                                    (case cg_consts cg name of
                                       Some cv \<Rightarrow> Some (load_const (Logic cv) pb)
                                     | None \<Rightarrow>
                                         do { m \<leftarrow> method_of_ctx cg name;
                                              if m then gen_method_on_this cg name [] pb
                                              else if cg_memories cg name \<noteq> None then None
                                              else do { net \<leftarrow> net_of cg name;
                                                        Some (emit_new (\<lambda>dst. DataI (NetRead dst net)) pb) } })))) }))"

definition gen_assign :: "CodeGen \<Rightarrow> string \<Rightarrow> Reg \<Rightarrow> bool \<Rightarrow> ProgramBuilder \<Rightarrow> ProgramBuilder option" where
  "gen_assign cg name src nonblocking pb =
     (case local_var cg name of
        Some (r, _) \<Rightarrow> Some (emit (DataI (if nonblocking then NbaAssign r src else Assign r src)) pb)
      | None \<Rightarrow>
          do { f \<leftarrow> class_field cg name; s \<leftarrow> static_field cg name;
               (case f of
                  Some (slot, _) \<Rightarrow> Some (emit (ObjI (SetField (this_reg cg) slot src)) pb)
                | None \<Rightarrow>
                    (case s of
                       Some sid \<Rightarrow> Some (emit (ObjI (StaticSet sid src)) pb)
                     | None \<Rightarrow>
                         (case gv_vars (globals cg) name of
                            Some gid \<Rightarrow> Some (emit (ObjI (StaticSet gid src)) pb)
                          | None \<Rightarrow>
                              do { net \<leftarrow> net_of cg name;
                                   Some (emit (NetI (if nonblocking then NbaWrite net src else BlockingWrite net src)) pb) }))) })"

section \<open>Operators\<close>

definition unary_inst :: "UnaryOp \<Rightarrow> Reg \<Rightarrow> Reg \<Rightarrow> Inst" where
  "unary_inst op dst a =
     (case op of
        UnaryOp.BitNot \<Rightarrow> AluI (AluInst.Not dst a)
      | UnaryOp.LogNot \<Rightarrow> AluI (AluInst.LogNot dst a)
      | UnaryOp.Neg \<Rightarrow> AluI (AluInst.Neg dst a)
      | UnaryOp.Plus \<Rightarrow> DataI (Mov dst a)
      | UnaryOp.ReduceAnd \<Rightarrow> AluI (AluInst.ReduceAnd dst a)
      | UnaryOp.ReduceOr \<Rightarrow> AluI (AluInst.ReduceOr dst a)
      | UnaryOp.ReduceXor \<Rightarrow> AluI (AluInst.ReduceXor dst a))"

definition binary_inst :: "BinOp \<Rightarrow> bool \<Rightarrow> Reg \<Rightarrow> Reg \<Rightarrow> Reg \<Rightarrow> Inst" where
  "binary_inst op sg dst a b = AluI
     (case op of
        BinOp.Add \<Rightarrow> AluInst.Add dst a b
      | BinOp.Sub \<Rightarrow> AluInst.Sub dst a b
      | BinOp.Mul \<Rightarrow> AluInst.Mul dst a b
      | BinOp.And \<Rightarrow> AluInst.And dst a b
      | BinOp.Or \<Rightarrow> AluInst.Or dst a b
      | BinOp.Xor \<Rightarrow> AluInst.Xor dst a b
      | BinOp.Eq \<Rightarrow> AluInst.Eq dst a b
      | BinOp.Neq \<Rightarrow> AluInst.Neq dst a b
      | BinOp.Lt \<Rightarrow> (if sg then SignedLt dst a b else AluInst.Lt dst a b)
      | BinOp.Gt \<Rightarrow> (if sg then SignedGt dst a b else AluInst.Gt dst a b)
      | BinOp.Le \<Rightarrow> (if sg then SignedLe dst a b else AluInst.Le dst a b)
      | BinOp.Ge \<Rightarrow> (if sg then SignedGe dst a b else AluInst.Ge dst a b)
      | BinOp.Shl \<Rightarrow> AluInst.Shl dst a b
      | BinOp.Shr \<Rightarrow> AluInst.Shr dst a b
      | BinOp.Sar \<Rightarrow> (if sg then Ashr dst a b else AluInst.Shr dst a b)
      | BinOp.LogAnd \<Rightarrow> AluInst.LogAnd dst a b
      | BinOp.LogOr \<Rightarrow> AluInst.LogOr dst a b)"

text \<open>
  A known condition jumps to its branch; an unknown one evaluates both and merges them. The code of the
  branches is generated twice. \<open>gen_conditional\<close> and \<open>gen_generic_conditional\<close> differ only in the generators
  of the branches.
\<close>

definition gen_conditional :: "Reg gen \<Rightarrow> Reg gen \<Rightarrow> Reg gen \<Rightarrow> Reg gen" where
  "gen_conditional gc gt gf pb =
     do { (pb, c) \<leftarrow> gc pb;
          let (pb, on_true) = new_label pb;
          let (pb, on_false) = new_label pb;
          let (pb, exit) = new_label pb;
          let (pb, dst) = new_reg pb;
          let pb = branch_true c on_true pb;
          let (pb, known) = emit_new (\<lambda>known. AluI (IsKnown known c)) pb;
          let pb = branch_true known on_false pb;
          (pb, t) \<leftarrow> gt pb;
          (pb, f) \<leftarrow> gf pb;
          let pb = jump exit (emit (AluI (Select dst c t f)) pb);
          pb \<leftarrow> bind_label on_true pb;
          (pb, v) \<leftarrow> gt pb;
          let pb = jump exit (emit (DataI (Mov dst v)) pb);
          pb \<leftarrow> bind_label on_false pb;
          (pb, v) \<leftarrow> gf pb;
          pb \<leftarrow> bind_label exit (emit (DataI (Mov dst v)) pb);
          Some (pb, dst) }"

text \<open>The last arm of \<open>gen_expr_at_width_with_sign\<close>.\<close>

definition gen_resized :: "CodeGen \<Rightarrow> Expr \<Rightarrow> nat \<Rightarrow> bool \<Rightarrow> Reg gen \<Rightarrow> Reg gen" where
  "gen_resized cg e w sg g pb =
     do { (pb, src) \<leftarrow> g pb; ow \<leftarrow> integral_expr_width cg e;
          Some (if ow = Some w then (pb, src) else emit_new (\<lambda>dst. DataI (Resize dst src w sg)) pb) }"

definition compare_width :: "nat option \<Rightarrow> nat option \<Rightarrow> nat" where
  "compare_width l r =
     (case (l, r) of (Some l, Some r) \<Rightarrow> max l r | (Some w, None) \<Rightarrow> w | (None, Some w) \<Rightarrow> w | (None, None) \<Rightarrow> 1)"

definition gen_compare :: "BinOp \<Rightarrow> nat \<Rightarrow> bool \<Rightarrow> Reg gen \<Rightarrow> Reg gen \<Rightarrow> Reg gen" where
  "gen_compare op w sg gl gr pb =
     do { (pb, a) \<leftarrow> gl pb; (pb, b) \<leftarrow> gr pb;
          let (pb, result) = emit_new (\<lambda>result. binary_inst op sg result a b) pb;
          Some (if w = 1 then (pb, result) else emit_new (\<lambda>dst. DataI (Resize dst result w False)) pb) }"

section \<open>Methods\<close>

definition gen_builtin_static :: "string \<Rightarrow> string \<Rightarrow> ProgramBuilder \<Rightarrow> (ProgramBuilder \<times> Reg) option" where
  "gen_builtin_static cn method pb =
     (if cn = ''process'' \<and> method = ''self'' then Some (load_const Value.Null pb) else None)"

text \<open>The code that loads a string receiver stays in the builder when the method is not a string method.\<close>

definition try_string_receiver :: "CodeGen \<Rightarrow> Expr \<Rightarrow> Reg gen \<Rightarrow> Reg option gen" where
  "try_string_receiver cg ob gobj pb =
     (case ob of
        Expr.Ref name \<Rightarrow>
          (if is_string_local cg name then do { (pb, r) \<leftarrow> gobj pb; Some (pb, Some r) }
           else do { f \<leftarrow> class_field cg name;
                     (case f of
                        None \<Rightarrow> Some (pb, None)
                      | Some (slot, _) \<Rightarrow>
                          do { s \<leftarrow> ctx_has cg (\<lambda>c. name \<in> ci_field_strings c);
                               if s then (let (pb, r) = emit_new (\<lambda>dst. ObjI (GetField dst (this_reg cg) slot)) pb
                                          in Some (pb, Some r))
                               else Some (pb, None) }) })
      | _ \<Rightarrow> Some (pb, None))"

definition gen_string_method :: "Reg \<Rightarrow> string \<Rightarrow> Reg gen list \<Rightarrow> Reg option gen" where
  "gen_string_method src method gargs pb =
     (if method = ''len'' \<and> gargs = [] then Some (apsnd Some (emit_new (\<lambda>dst. TextI (StringLen dst src)) pb))
      else if method = ''substr'' \<and> length gargs = 2 then
        do { (pb, lo) \<leftarrow> (gargs ! 0) pb; (pb, hi) \<leftarrow> (gargs ! 1) pb;
             Some (apsnd Some (emit_new (\<lambda>dst. TextI (StringSub dst src lo hi)) pb)) }
      else if method = ''toupper'' \<and> gargs = [] then Some (apsnd Some (emit_new (\<lambda>dst. TextI (StringToUpper dst src)) pb))
      else if method = ''tolower'' \<and> gargs = [] then Some (apsnd Some (emit_new (\<lambda>dst. TextI (StringToLower dst src)) pb))
      else if (method = ''atoi'' \<or> method = ''atoreal'') \<and> gargs = [] then
        Some (apsnd Some (emit_new (\<lambda>dst. TextI (StringAtoi dst src)) pb))
      else Some (pb, None))"

definition gen_itoa :: "CodeGen \<Rightarrow> string \<Rightarrow> Reg gen \<Rightarrow> Reg option gen" where
  "gen_itoa cg name garg pb =
     do { (pb, val) \<leftarrow> garg pb;
          let (pb, fmt) = konst (Value.Str ''%0d'') pb;
          let (pb, tmp) = emit_args (\<lambda>tmp al. TextI (Format tmp fmt al)) [val] pb;
          pb \<leftarrow> gen_assign cg name tmp False pb;
          Some (pb, Some tmp) }"

definition gen_string_builtin :: "CodeGen \<Rightarrow> Expr \<Rightarrow> string \<Rightarrow> Reg gen \<Rightarrow> Reg gen list \<Rightarrow> Reg option gen" where
  "gen_string_builtin cg ob method gobj gargs pb =
     do { (pb, s) \<leftarrow> try_string_receiver cg ob gobj pb;
          (case s of Some src \<Rightarrow> gen_string_method src method gargs pb | None \<Rightarrow> Some (pb, None)) }"

definition gen_builtin_method :: "CodeGen \<Rightarrow> Expr \<Rightarrow> string \<Rightarrow> Reg gen \<Rightarrow> Reg gen list \<Rightarrow> Reg option gen" where
  "gen_builtin_method cg ob method gobj gargs pb =
     (let name = (case ob of Expr.Ref n \<Rightarrow> Some n | _ \<Rightarrow> None)
      in (case (if method = ''name'' \<and> gargs = [] then Option.bind name (local_enums cg) else None) of
            Some table \<Rightarrow>
              do { (pb, src) \<leftarrow> gobj pb; Some (apsnd Some (emit_new (\<lambda>dst. TextI (EnumName dst src table)) pb)) }
          | None \<Rightarrow>
              (case (if method = ''itoa'' \<and> length gargs = 1 then name else None) of
                 Some n \<Rightarrow> (if is_string_local cg n then gen_itoa cg n (gargs ! 0) pb
                            else gen_string_builtin cg ob method gobj gargs pb)
               | None \<Rightarrow> gen_string_builtin cg ob method gobj gargs pb)))"

definition gen_super_call :: "CodeGen \<Rightarrow> string \<Rightarrow> Reg gen list \<Rightarrow> Reg gen" where
  "gen_super_call cg method gargs pb =
     do { cid \<leftarrow> class_ctx cg; c \<leftarrow> class_at cg cid; bs \<leftarrow> ci_base c; b \<leftarrow> class_at cg bs;
          fid \<leftarrow> (if method = ''new'' then ci_ctor b else ci_methods b method);
          (pb, rs) \<leftarrow> gen_list gargs pb;
          Some (emit_args (call_inst fid) (this_reg cg # rs) pb) }"

definition gen_coll_call :: "Reg gen \<Rightarrow> CollOp \<Rightarrow> Reg gen list \<Rightarrow> Reg gen" where
  "gen_coll_call gbase op gargs pb =
     do { (pb, b) \<leftarrow> gbase pb; (pb, rs) \<leftarrow> gen_list gargs pb; Some (emit_args (coll_inst b op) rs pb) }"

text \<open>A method of the receiver's class: virtual, direct, or else a method of collections.\<close>

definition gen_class_call :: "CodeGen \<Rightarrow> Expr \<Rightarrow> string \<Rightarrow> Reg \<Rightarrow> Reg gen list \<Rightarrow> Reg gen" where
  "gen_class_call cg ob method r gargs pb =
     do { cid \<leftarrow> receiver_class cg ob; (pb, rs) \<leftarrow> gen_list gargs pb;
          let (pb, al) = arglist (r # rs) pb;
          let (pb, ret) = new_reg pb;
          c \<leftarrow> class_at cg cid;
          (case (ci_vslot_of c method, ci_methods c method, coll_op method) of
             (Some vslot, _, _) \<Rightarrow> Some (emit (FlowI (CallVirtual r vslot al ret)) pb, ret)
           | (None, Some fid, _) \<Rightarrow> Some (emit (call_inst fid ret al) pb, ret)
           | (None, None, Some op) \<Rightarrow> (let (pb, al) = arglist rs pb in Some (emit (coll_inst r op ret al) pb, ret))
           | _ \<Rightarrow> None) }"

definition gen_method_call :: "CodeGen \<Rightarrow> Expr \<Rightarrow> string \<Rightarrow> Reg gen \<Rightarrow> Reg gen list \<Rightarrow> Reg gen" where
  "gen_method_call cg ob method gobj gargs pb =
     (if ob = Expr.Ref ''super'' then gen_super_call cg method gargs pb
      else do {
        info \<leftarrow> coll_of_receiver cg ob;
        (case (if info \<noteq> None then coll_op method else None) of
           Some op \<Rightarrow> gen_coll_call gobj op gargs pb
         | None \<Rightarrow>
             do { (pb, built_in) \<leftarrow> gen_builtin_method cg ob method gobj gargs pb;
                  (case built_in of
                     Some r \<Rightarrow> Some (pb, r)
                   | None \<Rightarrow>
                       do { (pb, r) \<leftarrow> gobj pb;
                            c \<leftarrow> (case ob of Expr.Ref _ \<Rightarrow> try_class_of cg ob | _ \<Rightarrow> Some (Some 0));
                            (if c = None then
                               do { op \<leftarrow> coll_op method; (pb, rs) \<leftarrow> gen_list gargs pb;
                                    Some (emit_args (coll_inst r op) rs pb) }
                             else gen_class_call cg ob method r gargs pb) }) }) })"

section \<open>Fields, elements and scoped names\<close>

definition gen_field :: "CodeGen \<Rightarrow> Expr \<Rightarrow> string \<Rightarrow> Reg gen \<Rightarrow> Reg gen" where
  "gen_field cg ob f gobj pb =
     do { (pb, r) \<leftarrow> gobj pb; cid \<leftarrow> receiver_class cg ob; c \<leftarrow> class_at cg cid;
          (case (ci_field_slot c f, ci_static_fields c f) of
             (Some (slot, _), _) \<Rightarrow> Some (emit_new (\<lambda>dst. ObjI (GetField dst r slot)) pb)
           | (None, Some sid) \<Rightarrow> Some (emit_new (\<lambda>dst. ObjI (StaticGet dst sid)) pb)
           | _ \<Rightarrow> None) }"

definition memory_of :: "CodeGen \<Rightarrow> Expr \<Rightarrow> MemoryInfo option" where
  "memory_of cg bs = (case bs of Expr.Ref name \<Rightarrow> cg_memories cg name | _ \<Rightarrow> None)"

definition add_memory :: "MemoryInfo \<Rightarrow> ProgramBuilder \<Rightarrow> ProgramBuilder \<times> MemoryId" where
  "add_memory md = memory (elements md) (left md) (right md) (element_width md)"

definition gen_index :: "CodeGen \<Rightarrow> Expr \<Rightarrow> Reg gen \<Rightarrow> Reg gen \<Rightarrow> Reg gen" where
  "gen_index cg bs gbase gidx pb =
     (case memory_of cg bs of
        Some md \<Rightarrow>
          (let (pb, mem) = add_memory md pb
           in do { (pb, i) \<leftarrow> gidx pb; Some (emit_new (\<lambda>dst. DataI (MemoryRead dst mem i)) pb) })
      | None \<Rightarrow>
          do { (pb, b) \<leftarrow> gbase pb; (pb, i) \<leftarrow> gidx pb;
               Some (emit_new
                 (\<lambda>dst. if (case bs of Expr.Ref name \<Rightarrow> is_string_local cg name | _ \<Rightarrow> False)
                        then TextI (StringIndex dst b i) else CollI (IndexGet dst b i)) pb) })"

text \<open>A static method has no receiver and gets a null \<open>this\<close>.\<close>

definition gen_static_call :: "CodeGen \<Rightarrow> string \<Rightarrow> string \<Rightarrow> Reg gen list \<Rightarrow> Reg gen" where
  "gen_static_call cg cn method gargs pb =
     do { rc \<leftarrow> resolve_class cg cn;
          (case rc of
             Some cid \<Rightarrow>
               do { c \<leftarrow> class_at cg cid; fid \<leftarrow> ci_methods c method;
                    let (pb, this) = load_const Value.Null pb;
                    (pb, rs) \<leftarrow> gen_list gargs pb;
                    Some (emit_args (call_inst fid) (this # rs) pb) }
           | None \<Rightarrow>
               (case (cg_funcs cg method, gv_vars (globals cg) method) of
                  (Some fid, _) \<Rightarrow>
                    do { (pb, rs) \<leftarrow> gen_list gargs pb; Some (emit_args (call_inst fid) rs pb) }
                | (None, Some gid) \<Rightarrow> Some (emit_new (\<lambda>dst. ObjI (StaticGet dst gid)) pb)
                | (None, None) \<Rightarrow> gen_builtin_static cn method pb)) }"

definition gen_static_ref :: "CodeGen \<Rightarrow> string \<Rightarrow> string \<Rightarrow> Reg gen" where
  "gen_static_ref cg cn f pb =
     (case (gv_vars (globals cg) f, cg_consts cg f) of
        (Some gid, _) \<Rightarrow> Some (emit_new (\<lambda>dst. ObjI (StaticGet dst gid)) pb)
      | (None, Some cv) \<Rightarrow> Some (load_const (Logic cv) pb)
      | (None, None) \<Rightarrow>
          do { sf \<leftarrow> class_says cg (resolve_class cg cn) (\<lambda>c. ci_static_fields c f);
               (case sf of
                  Some sid \<Rightarrow> Some (emit_new (\<lambda>dst. ObjI (StaticGet dst sid)) pb)
                | None \<Rightarrow>
                    (let (pb, dst) = new_reg pb
                     in (case cg_consts cg cn of
                           Some cv \<Rightarrow> (let (pb, k) = konst_logic cv pb in Some (emit (DataI (LoadConst dst k)) pb, dst))
                         | None \<Rightarrow> gen_ref cg f pb))) })"

definition gen_call :: "CodeGen \<Rightarrow> string \<Rightarrow> Reg gen list \<Rightarrow> Reg gen" where
  "gen_call cg name gargs pb =
     do { m \<leftarrow> method_of_ctx cg name;
          if m then gen_method_on_this cg name gargs pb
          else do { fid \<leftarrow> cg_funcs cg name; (pb, rs) \<leftarrow> gen_list gargs pb;
                    Some (emit_args (call_inst fid) rs pb) } }"

section \<open>System functions\<close>

definition gen_cast :: "CodeGen \<Rightarrow> Expr \<Rightarrow> Reg gen \<Rightarrow> Reg gen" where
  "gen_cast cg target gsrc pb =
     do { (pb, src) \<leftarrow> gsrc pb;
          let (pb, success) = new_reg pb;
          (case target of
             Expr.Ref name \<Rightarrow>
               do { tc \<leftarrow> try_class_of cg target;
                    (case tc of
                       Some cid \<Rightarrow>
                         do { let pb = emit (ObjI (ClassCast success src cid)) pb;
                              let (pb, exit) = new_label pb;
                              pb \<leftarrow> gen_assign cg name src False (branch_false success exit pb);
                              pb \<leftarrow> bind_label exit pb;
                              Some (pb, success) }
                     | None \<Rightarrow>
                         do { pb \<leftarrow> gen_assign cg name src False pb;
                              let (pb, k) = konst_logic (from_u64 1 1) pb;
                              Some (emit (DataI (LoadConst success k)) pb, success) }) }
           | _ \<Rightarrow> (let (pb, k) = konst_logic (zero 1) pb in Some (emit (DataI (LoadConst success k)) pb, success))) }"

text \<open>The format string and the values to print.\<close>

definition split_format :: "Expr list \<Rightarrow> 'a list \<Rightarrow> string \<times> 'a list" where
  "split_format args gargs =
     (case args of Expr.Str s # _ \<Rightarrow> (s, tl gargs) | _ \<Rightarrow> (default_fmt (length args), gargs))"

definition gen_format :: "(Reg \<Rightarrow> ConstId \<Rightarrow> ArgListId \<Rightarrow> Inst) \<Rightarrow> Expr list \<Rightarrow> Reg gen list \<Rightarrow> Reg gen" where
  "gen_format f args gargs pb =
     (let (fmt, gs) = split_format args gargs
      in do { (pb, rs) \<leftarrow> gen_list gs pb;
              let (pb, k) = konst (Value.Str fmt) pb;
              Some (emit_args (\<lambda>dst al. f dst k al) rs pb) })"

definition gen_sys_func :: "CodeGen \<Rightarrow> string \<Rightarrow> Expr list \<Rightarrow> Reg gen list \<Rightarrow> Reg gen" where
  "gen_sys_func cg name args gargs pb =
     (if name = ''$sformatf'' \<or> name = ''$psprintf'' then gen_format (\<lambda>dst k al. TextI (Format dst k al)) args gargs pb
      else if name \<in> {''$realtime'', ''$time'', ''$stime''} then Some (emit_new (\<lambda>dst. TextI (SimTime dst)) pb)
      else if name = ''$typename'' then
        (case gargs of g # _ \<Rightarrow> g pb | [] \<Rightarrow> Some (load_const (Value.Str []) pb))
      else if name = ''$cast'' \<and> length args = 2 then gen_cast cg (args ! 0) (gargs ! 1) pb
      else do { (pb, _) \<leftarrow> gen_list gargs pb; Some (load_const (Logic (zero 32)) pb) })"

section \<open>Expressions\<close>

lemma size_member: "x \<in> set xs \<Longrightarrow> size x \<le> size_list size xs + n"
  by (rule trans_le_add1 [OF size_list_estimation' [OF _ order_refl]])

function gen_expr :: "CodeGen \<Rightarrow> Expr \<Rightarrow> Reg gen"
  and gen_expr_at_width_with_sign :: "CodeGen \<Rightarrow> Expr \<Rightarrow> nat \<Rightarrow> bool \<Rightarrow> Reg gen" where
  "gen_expr cg e pb =
     (case e of
        Expr.Literal lv \<Rightarrow> Some (load_const (Logic lv) pb)
      | Expr.SignedLiteral lv \<Rightarrow> Some (load_const (Logic lv) pb)
      | Expr.Fill b \<Rightarrow> Some (load_const (Logic (filled b 1)) pb)
      | Expr.Str s \<Rightarrow> Some (load_const (Value.Str s) pb)
      | Expr.Ref name \<Rightarrow> gen_ref cg name pb
      | Expr.Unary op a \<Rightarrow> do { (pb, r) \<leftarrow> gen_expr cg a pb; Some (emit_new (\<lambda>dst. unary_inst op dst r) pb) }
      | Expr.Binary op l r \<Rightarrow>
          do { sl \<leftarrow> integral_expr_signed cg l;
               sg \<leftarrow> (if sl then integral_expr_signed cg r else Some False);
               (pb, a) \<leftarrow> gen_expr cg l pb; (pb, b) \<leftarrow> gen_expr cg r pb;
               Some (emit_new (\<lambda>dst. binary_inst op sg dst a b) pb) }
      | Expr.Conditional c t f \<Rightarrow>
          gen_conditional (\<lambda>pb. gen_expr cg c pb) (\<lambda>pb. gen_expr cg t pb) (\<lambda>pb. gen_expr cg f pb) pb
      | Expr.Call name args \<Rightarrow> gen_call cg name (map (\<lambda>a pb. gen_expr cg a pb) args) pb
      | Expr.MethodCall ob method args \<Rightarrow>
          gen_method_call cg ob method (\<lambda>pb. gen_expr cg ob pb) (map (\<lambda>a pb. gen_expr cg a pb) args) pb
      | Expr.Field ob f \<Rightarrow> gen_field cg ob f (\<lambda>pb. gen_expr cg ob pb) pb
      | Expr.Index bs i \<Rightarrow> gen_index cg bs (\<lambda>pb. gen_expr cg bs pb) (\<lambda>pb. gen_expr cg i pb) pb
      | Expr.PartSelect bs l r \<Rightarrow>
          do { (pb, b) \<leftarrow> gen_expr cg bs pb; (pb, l) \<leftarrow> gen_expr cg l pb; (pb, r) \<leftarrow> gen_expr cg r pb;
               Some (emit_new (\<lambda>dst. CollI (CollInst.PartSelect dst b l r)) pb) }
      | Expr.StaticCall cn _ method args \<Rightarrow> gen_static_call cg cn method (map (\<lambda>a pb. gen_expr cg a pb) args) pb
      | Expr.StaticRef cn f \<Rightarrow> gen_static_ref cg cn f pb
      | Expr.New _ \<Rightarrow> None
      | Expr.Null \<Rightarrow> Some (load_const Value.Null pb)
      | Expr.Concat parts \<Rightarrow>
          do { (pb, rs) \<leftarrow> gen_list (map (\<lambda>a pb. gen_expr cg a pb) parts) pb;
               Some (emit_args (\<lambda>dst al. CollI (CollInst.Concat dst al)) rs pb) }
      | Expr.SysCall name args \<Rightarrow> gen_sys_func cg name args (map (\<lambda>a pb. gen_expr cg a pb) args) pb)"
| "gen_expr_at_width_with_sign cg e w sg pb =
     (case e of
        Expr.Fill b \<Rightarrow> do { v \<leftarrow> filled_chk b w; Some (load_const (Logic v) pb) }
      | Expr.Conditional c t f \<Rightarrow>
          gen_conditional (\<lambda>pb. gen_expr cg c pb) (\<lambda>pb. gen_expr_at_width_with_sign cg t w sg pb)
            (\<lambda>pb. gen_expr_at_width_with_sign cg f w sg pb) pb
      | Expr.Unary op a \<Rightarrow>
          (if op \<in> {UnaryOp.BitNot, UnaryOp.Neg, UnaryOp.Plus} then
             do { (pb, r) \<leftarrow> gen_expr_at_width_with_sign cg a w sg pb;
                  Some (emit_new (\<lambda>dst. unary_inst op dst r) pb) }
           else gen_resized cg e w sg (\<lambda>pb. gen_expr cg e pb) pb)
      | Expr.Binary op l r \<Rightarrow>
          (if op \<in> {BinOp.Add, BinOp.Sub, BinOp.Mul, BinOp.And, BinOp.Or, BinOp.Xor} then
             do { (pb, a) \<leftarrow> gen_expr_at_width_with_sign cg l w sg pb;
                  (pb, b) \<leftarrow> gen_expr_at_width_with_sign cg r w sg pb;
                  Some (emit_new (\<lambda>dst. binary_inst op sg dst a b) pb) }
           else if op \<in> {BinOp.Shl, BinOp.Shr, BinOp.Sar} then
             do { (pb, a) \<leftarrow> gen_expr_at_width_with_sign cg l w sg pb; (pb, b) \<leftarrow> gen_expr cg r pb;
                  Some (emit_new (\<lambda>dst. binary_inst op sg dst a b) pb) }
           else if op \<in> {BinOp.Eq, BinOp.Neq, BinOp.Lt, BinOp.Gt, BinOp.Le, BinOp.Ge} then
             do { wl \<leftarrow> integral_expr_width cg l; wr \<leftarrow> integral_expr_width cg r;
                  sl \<leftarrow> integral_expr_signed cg l;
                  cs \<leftarrow> (if sl then integral_expr_signed cg r else Some False);
                  gen_compare op w cs (\<lambda>pb. gen_expr_at_width_with_sign cg l (compare_width wl wr) cs pb)
                    (\<lambda>pb. gen_expr_at_width_with_sign cg r (compare_width wl wr) cs pb) pb }
           else gen_resized cg e w sg (\<lambda>pb. gen_expr cg e pb) pb)
      | _ \<Rightarrow> gen_resized cg e w sg (\<lambda>pb. gen_expr cg e pb) pb)"
  by pat_completeness auto
termination
  by (relation "inv_image (less_than <*lex*> less_than)
      (\<lambda>x. case x of Inl (cg, e, pb) \<Rightarrow> (size e, 0) | Inr (cg, e, w, sg, pb) \<Rightarrow> (size e, Suc 0))")
    (auto simp: less_Suc_eq_le size_member size_list_estimation')

declare gen_expr.simps [simp del] gen_expr_at_width_with_sign.simps [simp del]

definition gen_expr_at_width :: "CodeGen \<Rightarrow> Expr \<Rightarrow> nat \<Rightarrow> Reg gen" where
  "gen_expr_at_width cg e w pb =
     do { sg \<leftarrow> integral_expr_signed cg e; gen_expr_at_width_with_sign cg e w sg pb }"

end
