(* ===== verification/Gen_Stmt.thy ===== *)
theory Gen_Stmt
  imports Gen_Expr "HOL-Library.AList"
begin

text \<open>
  Code generation for statements and whole programs (\<open>gen_stmt\<close>, \<open>gen_callable\<close>, \<open>gen_always\<close>,
  \<open>gen_initial\<close>, \<open>gen_continuous\<close> in \<open>crates/eevee-elab/src/lib.rs\<close>). Statements declare local
  variables, so they change the generator's tables as well as the builder.
\<close>

section \<open>Assignments\<close>

definition gen_assign_lvalue :: "CodeGen \<Rightarrow> Lvalue \<Rightarrow> Reg \<Rightarrow> bool \<Rightarrow> ProgramBuilder \<Rightarrow> ProgramBuilder option" where
  "gen_assign_lvalue cg lhs src nonblocking pb =
     (let name = lv_name lhs; plain = (lv_receiver lhs = None \<and> lv_scope lhs = None)
      in (case lv_index lhs of
            Some index \<Rightarrow>
              (case (if plain then cg_memories cg name else None, if plain then cg_nets cg name else None) of
                 (Some md, _) \<Rightarrow>
                   (let (pb, mem) = add_memory md pb
                    in do { (pb, i) \<leftarrow> gen_expr cg index pb;
                            Some (emit (NetI (if nonblocking then NbaMemoryWrite mem i src
                                              else BlockingMemoryWrite mem i src)) pb) })
               | (None, Some (net, _)) \<Rightarrow>
                   (let (pb, cur) = emit_new (\<lambda>cur. DataI (NetRead cur net)) pb
                    in do { (pb, i) \<leftarrow> gen_expr cg index pb;
                            let pb = emit (CollI (IndexSet cur i src)) pb;
                            Some (emit (NetI (if nonblocking then NbaWrite net cur else BlockingWrite net cur)) pb) })
               | (None, None) \<Rightarrow>
                   (let base_expr =
                          (case lv_scope lhs of
                             Some scope \<Rightarrow> Expr.StaticRef scope name
                           | None \<Rightarrow> (case lv_receiver lhs of Some rcv \<Rightarrow> Expr.Field rcv name | None \<Rightarrow> Expr.Ref name))
                    in do { (pb, b) \<leftarrow> gen_expr cg base_expr pb; (pb, i) \<leftarrow> gen_expr cg index pb;
                            Some (emit (CollI (IndexSet b i src)) pb) }))
          | None \<Rightarrow>
              (case (lv_scope lhs, lv_receiver lhs) of
                 (Some scope, _) \<Rightarrow>
                   do { cid \<leftarrow> expect (resolve_class cg scope); c \<leftarrow> class_at cg cid; sid \<leftarrow> ci_static_fields c name;
                        Some (emit (ObjI (StaticSet sid src)) pb) }
               | (None, Some rcv) \<Rightarrow>
                   do { (pb, ob) \<leftarrow> gen_expr cg rcv pb; cid \<leftarrow> receiver_class cg rcv; c \<leftarrow> class_at cg cid;
                        slot \<leftarrow> map_option fst (ci_field_slot c name);
                        Some (emit (ObjI (SetField ob slot src)) pb) }
               | (None, None) \<Rightarrow> gen_assign cg name src nonblocking pb)))"

definition gen_assignment_rhs :: "CodeGen \<Rightarrow> Lvalue \<Rightarrow> Expr \<Rightarrow> Reg gen" where
  "gen_assignment_rhs cg lhs rhs pb =
     do { rw \<leftarrow> integral_expr_width cg rhs;
          lw \<leftarrow> (if rw \<noteq> None \<or> is_integral_context_expression rhs then lvalue_width cg lhs else Some None);
          (case lw of Some w \<Rightarrow> gen_expr_at_width cg rhs w pb | None \<Rightarrow> gen_expr cg rhs pb) }"

definition gen_exprs :: "CodeGen \<Rightarrow> Expr list \<Rightarrow> Reg list gen" where
  "gen_exprs cg es = gen_list (map (gen_expr cg) es)"

text \<open>A new object, and the call of its constructor.\<close>

definition gen_construct :: "CodeGen \<Rightarrow> nat \<Rightarrow> Expr list \<Rightarrow> Reg gen" where
  "gen_construct cg cid args pb =
     do { let (pb, ob) = emit_new (\<lambda>ob. ObjI (ObjInst.New ob cid)) pb;
          c \<leftarrow> class_at cg cid;
          (case ci_ctor c of
             Some fid \<Rightarrow>
               do { (pb, rs) \<leftarrow> gen_exprs cg args pb;
                    let (pb, ret) = emit_args (call_inst fid) (ob # rs) pb;
                    Some (pb, ob) }
           | None \<Rightarrow> Some (pb, ob)) }"

definition gen_new :: "CodeGen \<Rightarrow> string \<Rightarrow> Expr list \<Rightarrow> ProgramBuilder \<Rightarrow> ProgramBuilder option" where
  "gen_new cg lhs args pb =
     do { cid \<leftarrow> expect (class_of_name cg lhs); (pb, ob) \<leftarrow> gen_construct cg cid args pb;
          gen_assign cg lhs ob False pb }"

definition gen_new_element :: "CodeGen \<Rightarrow> string \<Rightarrow> Expr \<Rightarrow> Expr list \<Rightarrow> ProgramBuilder \<Rightarrow> ProgramBuilder option" where
  "gen_new_element cg name index args pb =
     do { cid \<leftarrow> expect (coll_elem_class cg (Expr.Ref name)); (pb, ob) \<leftarrow> gen_construct cg cid args pb;
          (pb, b) \<leftarrow> gen_expr cg (Expr.Ref name) pb; (pb, i) \<leftarrow> gen_expr cg index pb;
          Some (emit (CollI (IndexSet b i ob)) pb) }"

definition gen_blocking :: "CodeGen \<Rightarrow> Lvalue \<Rightarrow> Expr \<Rightarrow> ProgramBuilder \<Rightarrow> ProgramBuilder option" where
  "gen_blocking cg lhs rhs pb =
     (case rhs of
        Expr.New args \<Rightarrow>
          (case lv_index lhs of
             Some index \<Rightarrow> gen_new_element cg (lv_name lhs) index args pb
           | None \<Rightarrow> gen_new cg (lv_name lhs) args pb)
      | _ \<Rightarrow> do { (pb, r) \<leftarrow> gen_assignment_rhs cg lhs rhs pb; gen_assign_lvalue cg lhs r False pb })"

section \<open>System tasks and timing\<close>

definition gen_sys_call :: "CodeGen \<Rightarrow> string \<Rightarrow> Expr list \<Rightarrow> ProgramBuilder \<Rightarrow> ProgramBuilder option" where
  "gen_sys_call cg name args pb =
     (if name = ''$display'' \<or> name = ''$write'' then
        (let (fmt, vals) = split_format args args
         in do { (pb, rs) \<leftarrow> gen_exprs cg vals pb;
                 let (pb, k) = konst (Value.Str fmt) pb;
                 let (pb, al) = arglist rs pb;
                 Some (emit (TextI (Display k al)) pb) })
      else if name = ''$swrite'' \<or> name = ''$sformat'' then
        (case args of
           Expr.Ref dst_name # rest \<Rightarrow>
             do { (pb, tmp) \<leftarrow> gen_format (\<lambda>dst k al. TextI (Format dst k al)) rest (map (gen_expr cg) rest) pb;
                  gen_assign cg dst_name tmp False pb }
         | _ \<Rightarrow> Some pb)
      else if name = ''$cast'' \<and> length args = 2 then
        map_option fst (gen_cast cg (args ! 0) (gen_expr cg (args ! 1)) pb)
      else Some pb)"

definition edge_kind :: "Syntax.Edge \<Rightarrow> EdgeKind" where
  "edge_kind e =
     (case e of Syntax.Posedge \<Rightarrow> EdgeKind.Posedge | Syntax.Negedge \<Rightarrow> EdgeKind.Negedge | Syntax.AnyChange \<Rightarrow> EdgeKind.AnyChange)"

text \<open>A list of events other than one is not supported.\<close>

definition gen_event :: "CodeGen \<Rightarrow> EventExpr list \<Rightarrow> ProgramBuilder \<Rightarrow> ProgramBuilder option" where
  "gen_event cg evs pb =
     (case evs of
        [ev] \<Rightarrow>
          (case (case ev_expr ev of Expr.Ref name \<Rightarrow> cg_nets cg name | _ \<Rightarrow> None) of
             Some (net, _) \<Rightarrow> Some (emit (TimingI (WaitEdge net (edge_kind (ev_edge ev)))) pb)
           | None \<Rightarrow>
               do { (pb, r) \<leftarrow> gen_expr cg (ev_expr ev) pb; named \<leftarrow> is_named_event_expr cg (ev_expr ev);
                    Some (emit (TimingI (if named then WaitEvent r else WaitChange r)) pb) })
      | _ \<Rightarrow> None)"

definition gen_timing :: "CodeGen \<Rightarrow> TimingControl \<Rightarrow> ProgramBuilder \<Rightarrow> ProgramBuilder option" where
  "gen_timing cg c pb =
     (case c of
        TimingControl.Delay e \<Rightarrow>
          do { d \<leftarrow> const_eval_with (cg_consts cg) e;
               Some (emit (TimingI (TimingInst.Delay (ts_delay_fs cg (to_u64 d)))) pb) }
      | TimingControl.Event evs \<Rightarrow> gen_event cg evs pb
      | TimingControl.Wait cond \<Rightarrow>
          do { let (pb, check) = new_label pb;
               let (pb, ready) = new_label pb;
               pb \<leftarrow> bind_label check pb;
               (pb, r) \<leftarrow> gen_expr cg cond pb;
               let pb = branch_true r ready pb;
               let pb = jump check (emit (TimingI WaitRuntime) pb);
               bind_label ready pb })"

section \<open>Declarations\<close>

definition try_resolve :: "CodeGen \<Rightarrow> string option \<Rightarrow> nat option option" where
  "try_resolve cg name = (case name of None \<Rightarrow> Some None | Some n \<Rightarrow> resolve_class cg n)"

definition declared_coll :: "CodeGen \<Rightarrow> CollKind option \<Rightarrow> string option \<Rightarrow> string option \<Rightarrow> string option \<Rightarrow> CollInfo option option" where
  "declared_coll cg coll cn key scope =
     (case coll of
        Some kind \<Rightarrow>
          do { e \<leftarrow> try_resolve cg cn; k \<leftarrow> try_resolve cg key;
               Some (Some \<lparr>co_kind = kind, elem_class = e, key_class = k\<rparr>) }
      | None \<Rightarrow> (case cn of None \<Rightarrow> Some None | Some n \<Rightarrow> resolve_collection_alias cg scope n))"

text \<open>The class or the enumeration that a type name denotes is recorded for a local variable.\<close>

definition declare_class :: "string \<Rightarrow> string \<Rightarrow> CodeGen \<Rightarrow> CodeGen option" where
  "declare_class name cn cg =
     do { rc \<leftarrow> resolve_class cg cn;
          Some (case rc of
                  Some cid \<Rightarrow> cg\<lparr>local_classes := (local_classes cg)(name \<mapsto> cid)\<rparr>
                | None \<Rightarrow>
                    (case gv_enums (globals cg) cn of
                       Some eid \<Rightarrow> cg\<lparr>local_enums := (local_enums cg)(name \<mapsto> eid)\<rparr>
                     | None \<Rightarrow> cg)) }"

definition declare_local :: "string \<Rightarrow> Reg \<Rightarrow> nat \<Rightarrow> bool \<Rightarrow> bool \<Rightarrow> CodeGen \<Rightarrow> CodeGen" where
  "declare_local name r w sg str cg =
     cg\<lparr>locals := AList.update name (r, w) (locals cg), local_signed := (local_signed cg)(name \<mapsto> sg),
        local_strings := (if str then insert name (local_strings cg) else local_strings cg)\<rparr>"

definition assign_from :: "Reg \<Rightarrow> Reg gen \<Rightarrow> ProgramBuilder \<Rightarrow> ProgramBuilder option" where
  "assign_from dst g pb = do { (pb, src) \<leftarrow> g pb; Some (emit (DataI (Assign dst src)) pb) }"

definition gen_var_init :: "CodeGen \<Rightarrow> VarDecl \<Rightarrow> Reg gen" where
  "gen_var_init cg v pb =
     (case v_init v of
        Some e \<Rightarrow> (if is_integral_context_expression e then gen_expr_at_width cg e (max (v_width v) 1) pb else gen_expr cg e pb)
      | None \<Rightarrow> do { z \<leftarrow> zero_chk (v_width v); Some (load_const (Logic z) pb) })"

definition gen_var_decl :: "VarDecl \<Rightarrow> CodeGen \<Rightarrow> ProgramBuilder \<Rightarrow> (CodeGen \<times> ProgramBuilder) option" where
  "gen_var_decl v cg pb =
     (let (pb, r) = new_reg pb;
          name = v_name v;
          cg = declare_local name r (v_width v) (v_signed v) (v_is_string v) cg
      in if v_is_event v then
           (let cg = cg\<lparr>local_events := insert name (local_events cg)\<rparr>
            in case v_init v of
                 Some e \<Rightarrow> map_option (Pair cg) (assign_from r (gen_expr cg e) pb)
               | None \<Rightarrow> Some (cg, emit (ObjI (NewEvent r)) pb))
         else do {
           info \<leftarrow> declared_coll cg (v_coll v) (v_class_name v) (v_key_class_name v) (v_type_scope v);
           (case info of
              Some i \<Rightarrow>
                Some (cg\<lparr>local_events := local_events cg - {name}, local_colls := (local_colls cg)(name \<mapsto> i)\<rparr>,
                      emit (CollI (if co_kind i = CollKind.Assoc then NewAssoc r else NewQueue r)) pb)
            | None \<Rightarrow>
                (case v_class_name v of
                   Some cn \<Rightarrow>
                     do { cg \<leftarrow> declare_class name cn cg;
                          (case v_init v of
                             Some (Expr.New args) \<Rightarrow> map_option (Pair cg) (gen_new cg name args pb)
                           | Some e \<Rightarrow> map_option (Pair cg) (assign_from r (gen_expr cg e) pb)
                           | None \<Rightarrow> Some (cg, pb)) }
                 | None \<Rightarrow>
                     map_option (Pair cg)
                       (assign_from r
                         (if v_is_string v then
                            (case v_init v of Some e \<Rightarrow> gen_expr cg e | None \<Rightarrow> (\<lambda>pb. Some (load_const (Value.Str []) pb)))
                          else gen_var_init cg v) pb))) })"

section \<open>Loops and branches\<close>

fun new_labels :: "nat \<Rightarrow> ProgramBuilder \<Rightarrow> ProgramBuilder \<times> nat list" where
  "new_labels 0 pb = (pb, [])"
| "new_labels (Suc n) pb = (let (pb, l) = new_label pb; (pb, ls) = new_labels n pb in (pb, l # ls))"

text \<open>The comparisons of a case item with the selector.\<close>

fun gen_case_tests :: "CodeGen \<Rightarrow> Reg \<Rightarrow> nat \<Rightarrow> Expr list \<Rightarrow> ProgramBuilder \<Rightarrow> ProgramBuilder option" where
  "gen_case_tests cg sel l [] pb = Some pb"
| "gen_case_tests cg sel l (e # es) pb =
     do { (pb, candidate) \<leftarrow> gen_expr cg e pb;
          let (pb, eq) = emit_new (\<lambda>eq. AluI (AluInst.Eq eq sel candidate)) pb;
          gen_case_tests cg sel l es (branch_true eq l pb) }"

fun gen_all_tests :: "CodeGen \<Rightarrow> Reg \<Rightarrow> (Expr list \<times> nat) list \<Rightarrow> ProgramBuilder \<Rightarrow> ProgramBuilder option" where
  "gen_all_tests cg sel [] pb = Some pb"
| "gen_all_tests cg sel ((es, l) # rest) pb =
     do { pb \<leftarrow> gen_case_tests cg sel l es pb; gen_all_tests cg sel rest pb }"

definition push_loop :: "nat \<Rightarrow> nat \<Rightarrow> CodeGen \<Rightarrow> CodeGen" where
  "push_loop break_to continue_to cg = cg\<lparr>loop_targets := (break_to, continue_to) # loop_targets cg\<rparr>"

definition pop_loop :: "CodeGen \<Rightarrow> CodeGen" where
  "pop_loop cg = cg\<lparr>loop_targets := tl (loop_targets cg)\<rparr>"

text \<open>The variable of a \<open>foreach\<close> shadows a local variable of its name; the entries are restored afterwards.\<close>

definition foreach_scope :: "string \<Rightarrow> Reg \<Rightarrow> nat option \<Rightarrow> CodeGen \<Rightarrow> CodeGen" where
  "foreach_scope name r key cg =
     cg\<lparr>locals := AList.update name (r, 32) (locals cg), local_signed := (local_signed cg)(name \<mapsto> True),
        local_classes := (local_classes cg)(name := key)\<rparr>"

definition leave_foreach :: "string \<Rightarrow> CodeGen \<Rightarrow> CodeGen \<Rightarrow> CodeGen" where
  "leave_foreach name old cg =
     cg\<lparr>locals := (case map_of (locals old) name of
                    Some l \<Rightarrow> AList.update name l (locals cg) | None \<Rightarrow> AList.delete name (locals cg)),
        local_signed := (local_signed cg)(name := local_signed old name),
        local_classes := (local_classes cg)(name := local_classes old name)\<rparr>"

section \<open>Fork branches\<close>

text \<open>Each local variable of the parent, in the order of its register, gets a new register of the child.\<close>

fun capture_locals :: "(string \<times> Reg \<times> nat) list \<Rightarrow> ProgramBuilder \<Rightarrow>
    ProgramBuilder \<times> (string \<times> Reg \<times> nat) list \<times> (Reg \<times> Reg) list" where
  "capture_locals [] pb = (pb, [], [])"
| "capture_locals ((name, parent, w) # ls) pb =
     (let (pb, child) = new_reg pb; (pb, vars, caps) = capture_locals ls pb
      in (pb, (name, child, w) # vars, (child, parent) # caps))"

definition enter_branch :: "CodeGen \<Rightarrow> (CodeGen \<times> ProgramBuilder \<times> (Reg \<times> Reg) list) option" where
  "enter_branch cg =
     do { label \<leftarrow> (case class_ctx cg of
                       Some cid \<Rightarrow> map_option (\<lambda>c. ci_name c @ ''::<fork>'') (class_at cg cid)
                     | None \<Rightarrow> Some ''<fork>'');
          let pb = new_builder label;
          let (pb, this, caps) = (if class_ctx cg \<noteq> None
                                  then (let (pb, r) = new_reg pb in (pb, r, [(r, this_reg cg)]))
                                  else (pb, this_reg cg, []));
          let (pb, vars, captured) = capture_locals (sort_key (\<lambda>l. fst (snd l)) (locals cg)) pb;
          Some (cg\<lparr>locals := vars, this_reg := this, loop_targets := []\<rparr>, pb, caps @ captured) }"

definition leave_branch :: "CodeGen \<Rightarrow> CodeGen \<Rightarrow> CodeGen" where
  "leave_branch saved cg =
     cg\<lparr>locals := locals saved, local_classes := local_classes saved, local_colls := local_colls saved,
        local_enums := local_enums saved, local_events := local_events saved, local_signed := local_signed saved,
        local_strings := local_strings saved, loop_targets := loop_targets saved, this_reg := this_reg saved\<rparr>"

definition fork_join :: "Syntax.ForkJoin \<Rightarrow> Nets.ForkJoin" where
  "fork_join j =
     (case j of
        Syntax.ForkJoin.All \<Rightarrow> Nets.ForkJoin.All
      | Syntax.ForkJoin.Any \<Rightarrow> Nets.ForkJoin.Any
      | Detached \<Rightarrow> Nets.ForkJoin.JoinNone)"

section \<open>Statements\<close>

function gen_stmt :: "Stmt \<Rightarrow> CodeGen \<Rightarrow> ProgramBuilder \<Rightarrow> (CodeGen \<times> ProgramBuilder) option"
  and gen_stmts :: "Stmt list \<Rightarrow> CodeGen \<Rightarrow> ProgramBuilder \<Rightarrow> (CodeGen \<times> ProgramBuilder) option"
  and gen_case_bodies :: "nat \<Rightarrow> (Expr list \<times> Stmt) list \<Rightarrow> nat list \<Rightarrow> CodeGen \<Rightarrow> ProgramBuilder \<Rightarrow> (CodeGen \<times> ProgramBuilder) option"
  and gen_fork_branches :: "Stmt list \<Rightarrow> CodeGen \<Rightarrow> ProgramBuilder \<Rightarrow> (CodeGen \<times> ProgramBuilder \<times> nat list) option" where
  "gen_stmt (Block ss) cg pb = gen_stmts ss cg pb"
| "gen_stmt (VarDeclStmt v) cg pb = gen_var_decl v cg pb"
| "gen_stmt (Timed control body) cg pb = do { pb \<leftarrow> gen_timing cg control pb; gen_stmt body cg pb }"
| "gen_stmt (Blocking lhs rhs) cg pb = map_option (Pair cg) (gen_blocking cg lhs rhs pb)"
| "gen_stmt (Nonblocking lhs rhs) cg pb =
     do { (pb, r) \<leftarrow> gen_assignment_rhs cg lhs rhs pb; map_option (Pair cg) (gen_assign_lvalue cg lhs r True pb) }"
| "gen_stmt (IfStmt c t els) cg pb =
     do { (pb, r) \<leftarrow> gen_expr cg c pb;
          let (pb, else_lbl) = new_label pb;
          (cg, pb) \<leftarrow> gen_stmt t cg (branch_false r else_lbl pb);
          (case els of
             Some e \<Rightarrow>
               do { let (pb, end_lbl) = new_label pb;
                    pb \<leftarrow> bind_label else_lbl (jump end_lbl pb);
                    (cg, pb) \<leftarrow> gen_stmt e cg pb;
                    map_option (Pair cg) (bind_label end_lbl pb) }
           | None \<Rightarrow> map_option (Pair cg) (bind_label else_lbl pb)) }"
| "gen_stmt (While c body) cg pb =
     do { let (pb, start) = new_label pb;
          let (pb, exit) = new_label pb;
          pb \<leftarrow> bind_label start pb;
          (pb, r) \<leftarrow> gen_expr cg c pb;
          (cg, pb) \<leftarrow> gen_stmt body (push_loop exit start cg) (branch_false r exit pb);
          map_option (Pair (pop_loop cg)) (bind_label exit (jump start pb)) }"
| "gen_stmt (DoWhile c body) cg pb =
     do { let (pb, start) = new_label pb;
          let (pb, check) = new_label pb;
          let (pb, exit) = new_label pb;
          pb \<leftarrow> bind_label start pb;
          (cg, pb) \<leftarrow> gen_stmt body (push_loop exit check cg) pb;
          let cg = pop_loop cg;
          pb \<leftarrow> bind_label check pb;
          (pb, r) \<leftarrow> gen_expr cg c pb;
          map_option (Pair cg) (bind_label exit (branch_true r start pb)) }"
| "gen_stmt (Case e items dflt) cg pb =
     do { (pb, sel) \<leftarrow> gen_expr cg e pb;
          let (pb, exit) = new_label pb;
          let (pb, ls) = new_labels (length items) pb;
          let (pb, dflt_lbl) = (if dflt = None then (pb, exit) else new_label pb);
          pb \<leftarrow> gen_all_tests cg sel (zip (map fst items) ls) pb;
          (cg, pb) \<leftarrow> gen_case_bodies exit items ls cg (jump dflt_lbl pb);
          (cg, pb) \<leftarrow> (case dflt of
                          None \<Rightarrow> Some (cg, pb)
                        | Some d \<Rightarrow> do { pb \<leftarrow> bind_label dflt_lbl pb; gen_stmt d cg pb });
          map_option (Pair cg) (bind_label exit pb) }"
| "gen_stmt (Foreach coll index body) cg pb =
     do { info \<leftarrow> expect (coll_of_receiver cg coll);
          (pb, b) \<leftarrow> gen_expr cg coll pb;
          let (pb, i) = new_reg pb;
          let inner = foreach_scope index i (key_class info) cg;
          let (pb, al) = arglist [i] pb;
          let (pb, has_item) = emit_new (\<lambda>r. coll_inst b CollOp.First r al) pb;
          let (pb, check) = new_label pb;
          let (pb, adv) = new_label pb;
          let (pb, exit) = new_label pb;
          pb \<leftarrow> bind_label check pb;
          (inner, pb) \<leftarrow> gen_stmt body (push_loop exit adv inner) (branch_false has_item exit pb);
          pb \<leftarrow> bind_label adv pb;
          let pb = jump check (emit (coll_inst b CollOp.Next has_item al) pb);
          map_option (Pair (leave_foreach index cg (pop_loop inner))) (bind_label exit pb) }"
| "gen_stmt (SysCallStmt name args) cg pb = map_option (Pair cg) (gen_sys_call cg name args pb)"
| "gen_stmt (Syntax.Return e) cg pb =
     (case e of
        None \<Rightarrow> Some (cg, emit (FlowI ReturnVoid) pb)
      | Some e \<Rightarrow>
          do { (pb, r) \<leftarrow>
                 (case return_type cg of
                    Some (w, _) \<Rightarrow> (if is_integral_context_expression e then gen_expr_at_width cg e w pb else gen_expr cg e pb)
                  | None \<Rightarrow> gen_expr cg e pb);
               Some (cg, emit (FlowI (FlowInst.Return r)) pb) })"
| "gen_stmt Break cg pb = (case loop_targets cg of [] \<Rightarrow> None | (b, _) # _ \<Rightarrow> Some (cg, jump b pb))"
| "gen_stmt Continue cg pb = (case loop_targets cg of [] \<Rightarrow> None | (_, c) # _ \<Rightarrow> Some (cg, jump c pb))"
| "gen_stmt (ExprStmt e) cg pb = map_option (\<lambda>(pb, _). (cg, pb)) (gen_expr cg e pb)"
| "gen_stmt (Trigger e) cg pb = do { (pb, r) \<leftarrow> gen_expr cg e pb; Some (cg, emit (ObjI (TriggerEvent r)) pb) }"
| "gen_stmt (Syntax.Fork branches join) cg pb =
     do { (cg, pb, ids) \<leftarrow> gen_fork_branches branches cg pb;
          let (pb, grp) = fork_group ids pb;
          Some (cg, emit (TimingI (TimingInst.Fork grp (fork_join join))) pb) }"
| "gen_stmt NullStmt cg pb = Some (cg, pb)"
| "gen_stmts [] cg pb = Some (cg, pb)"
| "gen_stmts (s # ss) cg pb = do { (cg, pb) \<leftarrow> gen_stmt s cg pb; gen_stmts ss cg pb }"
| "gen_case_bodies exit [] ls cg pb = Some (cg, pb)"
| "gen_case_bodies exit (item # items) ls cg pb =
     (case ls of
        [] \<Rightarrow> Some (cg, pb)
      | l # ls \<Rightarrow>
          do { pb \<leftarrow> bind_label l pb;
               (cg, pb) \<leftarrow> gen_stmt (snd item) cg pb;
               gen_case_bodies exit items ls cg (jump exit pb) })"
| "gen_fork_branches [] cg pb = Some (cg, pb, [])"
| "gen_fork_branches (b # bs) cg pb =
     do { (inner, child, caps) \<leftarrow> enter_branch cg;
          (inner, child) \<leftarrow> gen_stmt b inner child;
          prog \<leftarrow> build (emit (TimingI Finish) child);
          let (pb, bid) = add_fork_branch prog caps pb;
          (cg, pb, ids) \<leftarrow> gen_fork_branches bs (leave_branch cg inner) pb;
          Some (cg, pb, bid # ids) }"
  by pat_completeness auto
termination
  by (relation "measure (\<lambda>x. case x of
        Inl (Inl (s, _)) \<Rightarrow> 2 * size s
      | Inl (Inr (ss, _)) \<Rightarrow> Suc (2 * size_list size ss)
      | Inr (Inl (_, items, _)) \<Rightarrow> Suc (2 * size_list (size_prod (\<lambda>_. 0) size) items)
      | Inr (Inr (bs, _)) \<Rightarrow> Suc (2 * size_list size bs))") auto

section \<open>Programs\<close>

datatype CompiledContinuousDelay = SingleDelay nat | Transitions Delays

definition gen_always :: "CodeGen \<Rightarrow> AlwaysBlock \<Rightarrow> (CodeGen \<times> Program) option" where
  "gen_always cg a =
     do { let (pb, start) = new_label (new_builder ''always'');
          pb \<leftarrow> bind_label start pb;
          (cg, pb) \<leftarrow> gen_stmt (ab_body a) cg pb;
          map_option (Pair cg) (build (jump start pb)) }"

definition gen_initial :: "CodeGen \<Rightarrow> Stmt \<Rightarrow> (CodeGen \<times> Program) option" where
  "gen_initial cg body =
     do { (cg, pb) \<leftarrow> gen_stmt body cg (new_builder ''initial'');
          map_option (Pair cg) (build (emit (TimingI Finish) pb)) }"

definition drive_inst :: "DriverId \<Rightarrow> Reg \<Rightarrow> CompiledContinuousDelay option \<Rightarrow> Inst" where
  "drive_inst driver r delay = NetI
     (case delay of
        Some (SingleDelay d) \<Rightarrow> ScheduleDrive driver r d
      | Some (Transitions ds) \<Rightarrow> ScheduleDriveTransitions driver r ds
      | None \<Rightarrow> DriveNet driver r)"

definition gen_continuous ::
  "CodeGen \<Rightarrow> Expr \<Rightarrow> DriverId \<Rightarrow> nat \<Rightarrow> CompiledContinuousDelay option \<Rightarrow> Program option" where
  "gen_continuous cg rhs driver w delay =
     do { let reads = collect_net_reads cg rhs [];
          let (pb, evaluate) = new_label (new_builder ''continuous assign'');
          pb \<leftarrow> bind_label evaluate pb;
          (pb, r) \<leftarrow> gen_expr_at_width cg rhs w pb;
          let pb = emit (drive_inst driver r delay) pb;
          build (if reads = [] then emit (TimingI Finish) pb
                 else (let (pb, ns) = netlist reads pb in jump evaluate (emit (TimingI (WaitCond ns)) pb))) }"

definition arg_mode :: "PortDir \<Rightarrow> ArgMode" where
  "arg_mode d =
     (case d of
        PortDir.Input \<Rightarrow> ArgMode.Input | PortDir.Output \<Rightarrow> ArgMode.Output
      | PortDir.Inout \<Rightarrow> ArgMode.Inout | RefDir \<Rightarrow> ArgMode.Ref)"

fun declare_params :: "Param list \<Rightarrow> CodeGen \<Rightarrow> ProgramBuilder \<Rightarrow> (CodeGen \<times> ProgramBuilder) option" where
  "declare_params [] cg pb = Some (cg, pb)"
| "declare_params (p # ps) cg pb =
     (let (pb, r) = new_reg pb; cg = declare_local (p_name p) r (p_width p) (p_signed p) (p_is_string p) cg
      in do { info \<leftarrow> declared_coll cg (p_coll p) (p_class_name p) (p_key_class_name p) (p_type_scope p);
              cg \<leftarrow> (case (info, p_class_name p) of
                       (Some i, _) \<Rightarrow> Some (cg\<lparr>local_colls := (local_colls cg)(p_name p \<mapsto> i)\<rparr>)
                     | (None, Some cn) \<Rightarrow> declare_class (p_name p) cn cg
                     | (None, None) \<Rightarrow> Some cg);
              declare_params ps cg pb })"

text \<open>A formal that the caller leaves out is assigned its default.\<close>

fun gen_defaults :: "CodeGen \<Rightarrow> Reg \<Rightarrow> Param list \<Rightarrow> ProgramBuilder \<Rightarrow> ProgramBuilder option" where
  "gen_defaults cg formal [] pb = Some pb"
| "gen_defaults cg formal (p # ps) pb =
     (case p_default p of
        None \<Rightarrow> gen_defaults cg (formal + 1) ps pb
      | Some d \<Rightarrow>
          do { let (pb, supplied) = new_label pb;
               let pb = branch_arg_provided formal supplied pb;
               pb \<leftarrow> assign_from formal
                 (if is_integral_context_expression d then gen_expr_at_width cg d (max (p_width p) 1) else gen_expr cg d) pb;
               pb \<leftarrow> bind_label supplied pb;
               gen_defaults cg (formal + 1) ps pb })"

definition fresh_scope :: "nat option \<Rightarrow> FuncDecl \<Rightarrow> CodeGen \<Rightarrow> CodeGen" where
  "fresh_scope ctx f cg =
     cg\<lparr>locals := [], local_classes := Map.empty, local_colls := Map.empty, local_enums := Map.empty,
        local_events := {}, local_signed := Map.empty, local_strings := {}, class_ctx := ctx,
        return_type := (if \<not> is_void f \<and> ret_class f = None \<and> \<not> ret_is_string f
                        then Some (max (ret_width f) 1, ret_signed f) else None)\<rparr>"

text \<open>The scope and the builder that a callable starts with; a method has \<open>this\<close> in its first register.\<close>

definition open_callable :: "CodeGen \<Rightarrow> FuncDecl \<Rightarrow> nat option \<Rightarrow> (CodeGen \<times> ProgramBuilder) option" where
  "open_callable cg f ctx =
     do { label \<leftarrow> (case ctx of
                       Some cid \<Rightarrow> map_option (\<lambda>c. ci_name c @ ''::'' @ f_name f) (class_at cg cid)
                     | None \<Rightarrow> Some (''func '' @ f_name f));
          let cg = fresh_scope ctx f cg;
          Some (if ctx \<noteq> None
                then (let (pb, r) = new_reg (new_builder label) in (cg\<lparr>this_reg := r\<rparr>, pb))
                else (cg, new_builder label)) }"

text \<open>The variable of the result has the name of the callable; it starts as 0.\<close>

definition declare_result :: "CodeGen \<Rightarrow> FuncDecl \<Rightarrow> ProgramBuilder \<Rightarrow> (CodeGen \<times> ProgramBuilder \<times> Reg) option" where
  "declare_result cg f pb =
     (let (pb, ret) = new_reg pb; cg = declare_local (f_name f) ret (max (ret_width f) 1) (ret_signed f) (ret_is_string f) cg
      in do { rc \<leftarrow> try_resolve cg (ret_class f);
              let cg = (case rc of Some cid \<Rightarrow> cg\<lparr>local_classes := (local_classes cg)(f_name f \<mapsto> cid)\<rparr> | None \<Rightarrow> cg);
              let (pb, k) = konst_logic (zero (max (ret_width f) 1)) pb;
              Some (cg, emit (DataI (LoadConst ret k)) pb, ret) })"

definition gen_callable :: "CodeGen \<Rightarrow> FuncDecl \<Rightarrow> nat option \<Rightarrow> (CodeGen \<times> Program) option" where
  "gen_callable cg f ctx =
     do { (cg, pb) \<leftarrow> open_callable cg f ctx;
          (cg, pb) \<leftarrow> declare_params (f_params f) cg pb;
          let modes = (if ctx \<noteq> None then [ArgMode.Input] else []) @ map (arg_mode \<circ> p_dir) (f_params f);
          pb \<leftarrow> gen_defaults cg (if ctx \<noteq> None then 1 else 0) (f_params f) (set_arg_modes modes pb);
          (cg, pb, ret) \<leftarrow> declare_result cg f pb;
          (cg, pb) \<leftarrow> gen_stmt (f_body f) cg pb;
          map_option (Pair cg) (build (emit (FlowI (if is_void f then ReturnVoid else FlowInst.Return ret)) pb)) }"

end
