(* ===== verification/Gen_Labels.thy ===== *)
theory Gen_Labels
  imports Gen_Stmt "HOL-Library.Sublist"
begin

text \<open>
  What every generator does to the builder. A builder only grows; and the jumps that a generator emits
  go to labels that it binds itself, or to labels it was given (the targets of the enclosing loops).
  \<open>progress b0 T K U b\<close> states this of a generator between its start \<open>b0\<close> and its builder \<open>b\<close>: \<open>T\<close> are
  the labels it was given, \<open>K\<close> labels it has made, \<open>U\<close> those that are not bound yet.
\<close>

section \<open>Builders grow\<close>

definition grows :: "ProgramBuilder \<Rightarrow> ProgramBuilder \<Rightarrow> bool" where
  "grows b b' \<longleftrightarrow> prefix (bcode b) (bcode b') \<and> prefix (bconsts b) (bconsts b') \<and> prefix (bmemories b) (bmemories b') \<and>
     prefix (barglists b) (barglists b') \<and> prefix (patches b) (patches b') \<and>
     length (labels b) \<le> length (labels b') \<and> bn_regs b \<le> bn_regs b'"

lemma grows_refl [simp]: "grows b b"
  by (simp add: grows_def)

lemma grows_trans: "grows a b \<Longrightarrow> grows b c \<Longrightarrow> grows a c"
  by (auto simp: grows_def intro: prefix_order.trans)

lemmas builder_defs = new_reg_def set_arg_modes_def konst_def netlist_def memory_def arglist_def add_fork_branch_def
  fork_group_def new_label_def bind_label_def emit_def jump_def branch_false_def branch_true_def
  branch_arg_provided_def emit_patched_def

lemma builder_call_grows: "builder_call b b' \<Longrightarrow> grows b b'"
  by (induction rule: builder_call.induct) (auto simp: grows_def builder_defs split: if_splits)

lemma builder_calls_grow: "builder_call\<^sup>*\<^sup>* b b' \<Longrightarrow> grows b b'"
  by (induction rule: rtranclp_induct) (auto intro: grows_trans builder_call_grows)

lemma growsD:
  assumes "grows b b'"
  shows "prefix (bcode b) (bcode b')" "prefix (patches b) (patches b')" "length (labels b) \<le> length (labels b')"
    "bn_regs b \<le> bn_regs b'" "length (bcode b) \<le> length (bcode b')"
  using assms prefix_length_le by (auto simp: grows_def)

section \<open>Progress\<close>

text \<open>An instruction that is not a jump. The jumps of the code are those that have a patch.\<close>

definition plain :: "Inst \<Rightarrow> bool" where
  "plain i \<longleftrightarrow> set_target 0 i = None"

lemma plain_simps [simp, intro!]:
  "plain (DataI di)" "plain (AluI alu)" "plain (NetI ni)" "plain (TimingI tm)" "plain (ObjI obi)" "plain (CollI ci)" "plain (TextI ti)"
  "plain (FlowI (FlowInst.Call f al r))" "plain (FlowI (CallVirtual r s al d))" "plain (FlowI (FlowInst.Return r))" "plain (FlowI ReturnVoid)"
  "plain (call_inst f r al)" "plain (coll_inst r op d al)" "plain (unary_inst uop d r)" "plain (binary_inst bop sg d r r')"
  by (simp_all add: plain_def set_target_def call_inst_def coll_inst_def unary_inst_def binary_inst_def split: UnaryOp.split)

definition jumps_patched :: "ProgramBuilder \<Rightarrow> ProgramBuilder \<Rightarrow> bool" where
  "jumps_patched b0 b \<longleftrightarrow> (\<forall>i. length (bcode b0) \<le> i \<longrightarrow> i < length (bcode b) \<longrightarrow> \<not> plain (bcode b ! i) \<longrightarrow> i \<in> fst ` set (patches b))"

definition labels_kept :: "ProgramBuilder \<Rightarrow> nat set \<Rightarrow> nat set \<Rightarrow> nat set \<Rightarrow> ProgramBuilder \<Rightarrow> bool" where
  "labels_kept b0 T K U b \<longleftrightarrow>
     (\<forall>l < length (labels b0). labels b ! l = labels b0 ! l) \<and> (\<forall>l \<in> K. l \<in> U \<longleftrightarrow> labels b ! l = u32_max) \<and>
     (\<forall>p \<in> set (drop (length (patches b0)) (patches b)).
        snd p \<in> T \<or> length (labels b0) \<le> snd p \<and> snd p < length (labels b) \<and>
          (labels b ! snd p = u32_max \<longrightarrow> snd p \<in> U))"

definition progress :: "ProgramBuilder \<Rightarrow> nat set \<Rightarrow> nat set \<Rightarrow> nat set \<Rightarrow> ProgramBuilder \<Rightarrow> bool" where
  "progress b0 T K U b \<longleftrightarrow>
     builder_call\<^sup>*\<^sup>* b0 b \<and> jumps_patched b0 b \<and> U \<subseteq> K \<and> (\<forall>l \<in> K. length (labels b0) \<le> l \<and> l < length (labels b)) \<and>
     (length (bcode b) < u32_max \<longrightarrow> labels_kept b0 T K U b)"

abbreviation complete :: "nat set \<Rightarrow> ProgramBuilder \<Rightarrow> ProgramBuilder \<Rightarrow> bool" where
  "complete T b0 b \<equiv> progress b0 T {} {} b"

lemma progress_start: "progress b T {} {} b"
  by (simp add: progress_def labels_kept_def jumps_patched_def)

lemma progress_weaken: "progress b0 T K U b \<Longrightarrow> T \<subseteq> T' \<Longrightarrow> progress b0 T' K U b"
  by (fastforce simp: progress_def labels_kept_def)

lemma progress_forget: "progress b0 T K {} b \<Longrightarrow> complete T b0 b"
  by (auto simp: progress_def labels_kept_def)

lemma progress_grows: "progress b0 T K U b \<Longrightarrow> grows b0 b"
  by (simp add: progress_def builder_calls_grow)

lemma progress_call:
  assumes "progress b0 T K U b" and "builder_call b b'" and "labels b' = labels b" and "patches b' = patches b"
    and "bcode b' = bcode b \<or> (\<exists>i. plain i \<and> bcode b' = bcode b @ [i])"
  shows "progress b0 T K U b'"
proof -
  have "jumps_patched b0 b'"
    using assms(1,4,5) by (auto simp: progress_def jumps_patched_def nth_append less_Suc_eq)
  then show ?thesis
    using assms growsD(5) [OF builder_call_grows [OF assms(2)]]
    by (auto simp: progress_def labels_kept_def)
qed

lemma progress_steps:
  assumes "progress b0 T K U b"
  shows "progress b0 T K U (fst (new_reg b))" "progress b0 T K U (fst (konst v b))" "progress b0 T K U (fst (konst_logic w b))"
    "progress b0 T K U (fst (netlist ns b))" "progress b0 T K U (fst (add_memory md b))" "progress b0 T K U (fst (arglist rs b))"
    "progress b0 T K U (fst (add_fork_branch prog cs b))" "progress b0 T K U (fst (fork_group bs b))"
    "progress b0 T K U (set_arg_modes ms b)"
  unfolding konst_logic_def add_memory_def
  by (rule progress_call [OF assms],
      rule call_reg call_konst call_netlist call_memory call_arglist call_fork_branch call_fork_group call_modes,
      simp add: builder_defs, simp add: builder_defs, simp add: builder_defs)+

lemma progress_emit: "progress b0 T K U b \<Longrightarrow> plain i \<Longrightarrow> progress b0 T K U (emit i b)"
  by (rule progress_call, assumption, rule call_emit) (auto simp: emit_def)

lemma progress_emit_new:
  assumes "progress b0 T K U b"
  shows "(\<And>r. plain (f r)) \<Longrightarrow> progress b0 T K U (fst (emit_new f b))" "progress b0 T K U (fst (load_const v b))"
    "(\<And>r al. plain (g r al)) \<Longrightarrow> progress b0 T K U (fst (emit_args g rs b))"
  using progress_steps [OF assms] progress_steps progress_emit
  by (simp_all add: emit_new_def load_const_def emit_args_def case_prod_beta)

text \<open>A jump goes to a label that was given, or to one of the generator's own.\<close>

lemma progress_patch:
  assumes "progress b0 T K U b" and "l \<in> T \<union> K" and "builder_call b (emit_patched i l b)"
  shows "progress b0 T K U (emit_patched i l b)"
proof -
  have g: "grows b0 b" by (rule progress_grows [OF assms(1)])
  have "set (drop (length (patches b0)) (patches b @ [(length (bcode b), l)])) =
      insert (length (bcode b), l) (set (drop (length (patches b0)) (patches b)))"
    using prefix_length_le [OF growsD(2) [OF g]] by simp
  moreover have "jumps_patched b0 (emit_patched i l b)"
    using assms(1) by (auto simp: progress_def jumps_patched_def emit_patched_def nth_append less_Suc_eq)
  ultimately show ?thesis
    using assms by (auto simp: progress_def labels_kept_def emit_patched_def)
qed

lemma progress_jumps:
  assumes "progress b0 T K U b" and "l \<in> T \<union> K"
  shows "progress b0 T K U (jump l b)" "progress b0 T K U (branch_false c l b)" "progress b0 T K U (branch_true c l b)"
    "progress b0 T K U (branch_arg_provided a l b)"
  unfolding jump_def branch_false_def branch_true_def branch_arg_provided_def
  by (rule progress_patch [OF assms call_jump [unfolded jump_def]] progress_patch [OF assms call_branch_false [unfolded branch_false_def]]
      progress_patch [OF assms call_branch_true [unfolded branch_true_def]]
      progress_patch [OF assms call_branch_arg [unfolded branch_arg_provided_def]])+

lemma progress_label:
  assumes "progress b0 T K U b" and "new_label b = (b', l)"
  shows "progress b0 T (insert l K) (insert l U) b'" and "l \<notin> K"
proof -
  have l: "l = length (labels b)" "b' = b\<lparr>labels := labels b @ [u32_max]\<rparr>" using assms(2) by (simp_all add: new_label_def)
  have g: "grows b0 b" by (rule progress_grows [OF assms(1)])
  have "builder_call b b'" using call_label [of b] assms(2) by simp
  moreover have "jumps_patched b0 b'" using assms(1) by (auto simp: progress_def jumps_patched_def l)
  ultimately show "progress b0 T (insert l K) (insert l U) b'"
    using assms(1) growsD(3) [OF g] by (auto simp: progress_def labels_kept_def l nth_append)
  show "l \<notin> K" using assms(1) by (auto simp: progress_def l)
qed

lemma progress_bind:
  assumes "progress b0 T K U b" and "l \<in> U" and "bind_label l b = Some b'"
  shows "progress b0 T K (U - {l}) b'"
proof -
  have b': "b' = b\<lparr>labels := (labels b)[l := length (bcode b) mod 2 ^ 32]\<rparr>" and l: "l < length (labels b)"
    using assms(3) by (auto simp: bind_label_def split: if_splits)
  have "builder_call b b'" using assms(3) by (rule call_bind)
  moreover have "labels_kept b0 T K (U - {l}) b'" if "length (bcode b) < u32_max"
  proof -
    have k: "labels_kept b0 T K U b" using assms(1) that by (simp add: progress_def)
    have n: "length (bcode b) mod 2 ^ 32 \<noteq> u32_max" using that by (simp add: u32_max_def)
    have l0: "length (labels b0) \<le> l" using assms(1,2) by (auto simp: progress_def)
    have eq: "labels b' ! j = (if j = l then length (bcode b) mod 2 ^ 32 else labels b ! j)" for j
      using l by (simp add: b')
    show ?thesis
      using k n l0 l assms(2) by (auto simp: labels_kept_def eq) (auto simp: b')
  qed
  moreover have "jumps_patched b0 b'" using assms(1) by (auto simp: progress_def jumps_patched_def b')
  ultimately show ?thesis using assms(1) by (auto simp: progress_def b')
qed

text \<open>A complete generator in between, with jumps to labels given or made before.\<close>

lemma progress_sub:
  assumes "progress b0 T K U b" and "complete T' b b'" and "T' \<subseteq> T \<union> K"
  shows "progress b0 T K U b'"
proof -
  have g: "grows b0 b" "grows b b'" using assms(1,2) progress_grows by blast+
  have "labels_kept b0 T K U b'" if n: "length (bcode b') < u32_max"
  proof -
    have k: "labels_kept b0 T K U b" "labels_kept b T' {} {} b'"
      using assms(1,2) n growsD(5) [OF g(2)] by (simp_all add: progress_def)
    have len: "length (labels b0) \<le> length (labels b)" "length (labels b) \<le> length (labels b')"
      using growsD(3) g by blast+
    have same: "labels b' ! l = labels b ! l" if "l < length (labels b)" for l using k(2) that by (simp add: labels_kept_def)
    obtain ps where ps: "patches b = patches b0 @ ps" using growsD(2) [OF g(1)] by (auto simp: prefix_def)
    obtain qs where qs: "patches b' = patches b @ qs" using growsD(2) [OF g(2)] by (auto simp: prefix_def)
    have P: "\<forall>p \<in> set ps. snd p \<in> T \<or> length (labels b0) \<le> snd p \<and> snd p < length (labels b) \<and>
        (labels b ! snd p = u32_max \<longrightarrow> snd p \<in> U)"
      using k(1) by (simp add: labels_kept_def ps)
    have Q: "\<forall>p \<in> set qs. snd p \<in> T' \<or> length (labels b) \<le> snd p \<and> snd p < length (labels b') \<and> labels b' ! snd p \<noteq> u32_max"
      using k(2) by (simp add: labels_kept_def qs)
    have K: "\<forall>l \<in> K. length (labels b0) \<le> l \<and> l < length (labels b) \<and> (l \<in> U \<longleftrightarrow> labels b ! l = u32_max)"
      "\<forall>l < length (labels b0). labels b ! l = labels b0 ! l"
      using k(1) assms(1) by (simp_all add: labels_kept_def progress_def)
    have "snd p \<in> T \<or> length (labels b0) \<le> snd p \<and> snd p < length (labels b') \<and> (labels b' ! snd p = u32_max \<longrightarrow> snd p \<in> U)"
      if p: "p \<in> set ps \<union> set qs" for p
    proof (cases "p \<in> set ps")
      case True
      then show ?thesis using P same len by (metis order_less_le_trans)
    next
      case False
      then have q: "p \<in> set qs" using p by simp
      show ?thesis
      proof (cases "snd p \<in> K")
        case True
        then show ?thesis using K(1) same len by (metis order_less_le_trans)
      next
        case False
        then show ?thesis using Q q assms(3) len by (metis Un_iff in_mono order_trans)
      qed
    qed
    then show ?thesis
      using K same len by (fastforce simp: labels_kept_def ps qs)
  qed
  moreover have "\<forall>l \<in> K. length (labels b0) \<le> l \<and> l < length (labels b')"
    using assms(1) growsD(3) [OF g(2)] by (fastforce simp: progress_def)
  moreover have "builder_call\<^sup>*\<^sup>* b0 b'" using assms(1,2) by (auto simp: progress_def)
  moreover have "jumps_patched b0 b'"
  proof -
    have "i \<in> fst ` set (patches b')"
      if i: "length (bcode b0) \<le> i" "i < length (bcode b')" "\<not> plain (bcode b' ! i)" for i
    proof (cases "i < length (bcode b)")
      case True
      then have "bcode b' ! i = bcode b ! i" using growsD(1) [OF g(2)] by (auto simp: prefix_def nth_append)
      then have "i \<in> fst ` set (patches b)" using True i assms(1) by (simp add: progress_def jumps_patched_def)
      then show ?thesis using set_mono_prefix [OF growsD(2) [OF g(2)]] by blast
    next
      case False
      then show ?thesis using i assms(2) by (simp add: progress_def jumps_patched_def)
    qed
    then show ?thesis by (simp add: jumps_patched_def)
  qed
  ultimately show ?thesis using assms(1) by (simp add: progress_def)
qed

lemma complete_trans: "complete T a b \<Longrightarrow> complete T b c \<Longrightarrow> complete T a c"
  by (rule progress_sub) auto

end
