(* ===== verification/Gen_Tidy.thy ===== *)
theory Gen_Tidy
  imports Gen_Labels
begin

text \<open>
  Every generator is complete: the jumps it emits go to labels it binds or was given. First the
  generators of expressions.
\<close>

section \<open>Complete generators\<close>

definition tidy :: "nat set \<Rightarrow> 'a gen \<Rightarrow> bool" where
  "tidy T g \<longleftrightarrow> (\<forall>pb pb' x. g pb = Some (pb', x) \<longrightarrow> complete T pb pb')"

lemma tidyI: "(\<And>pb pb' x. g pb = Some (pb', x) \<Longrightarrow> complete T pb pb') \<Longrightarrow> tidy T g"
  by (simp add: tidy_def)

lemma tidyD: "tidy T g \<Longrightarrow> g pb = Some (pb', x) \<Longrightarrow> complete T pb pb'"
  by (simp add: tidy_def)

text \<open>The last step of a generator, as a complete generator.\<close>

lemma last_step:
  "emit_new f b = (b', r) \<Longrightarrow> (\<And>r. plain (f r)) \<Longrightarrow> complete {} b b'"
  "load_const v b = (b', r) \<Longrightarrow> complete {} b b'"
  "emit_args g rs b = (b', r) \<Longrightarrow> (\<And>r al. plain (g r al)) \<Longrightarrow> complete {} b b'"
  using progress_emit_new [OF progress_start] by (metis fst_conv)+

lemma progress_complete: "complete {} b b' \<Longrightarrow> progress b0 T K U b \<Longrightarrow> progress b0 T K U b'"
  by (rule progress_sub) auto

lemmas new_step = progress_steps [OF progress_start] progress_emit [OF progress_start] progress_emit_new [OF progress_start]

lemmas progress_intros = progress_start progress_steps progress_emit progress_emit_new progress_complete

lemma apsnd_eq: "apsnd f p = (a, b) \<longleftrightarrow> a = fst p \<and> b = f (snd p)"
  by (cases p) auto

lemmas gen_unfold = Option.bind_eq_Some_conv split_def apsnd_eq

lemma gen_list_tidy: "(\<And>g. g \<in> set gs \<Longrightarrow> tidy {} g) \<Longrightarrow> tidy {} (gen_list gs)"
proof (induction gs)
  case Nil
  show ?case by (rule tidyI) (simp add: progress_start)
next
  case (Cons g gs)
  then have t: "tidy {} g" "tidy {} (gen_list gs)" by simp_all
  show ?case
    by (rule tidyI) (auto simp: gen_unfold dest!: t [THEN tidyD] intro: complete_trans)
qed

section \<open>Expressions\<close>

lemma gen_method_on_this_tidy:
  assumes "tidy {} (gen_list gs)"
  shows "tidy {} (gen_method_on_this cg method gs)"
  by (rule tidyI)
    (auto simp: gen_method_on_this_def gen_unfold split: option.splits dest!: last_step assms [THEN tidyD]
      intro: complete_trans)

lemma gen_ref_tidy: "tidy {} (gen_ref cg name)"
proof -
  have t: "tidy {} (gen_method_on_this cg name [])" by (rule gen_method_on_this_tidy, rule gen_list_tidy) simp
  show ?thesis
    by (rule tidyI)
      (auto simp: gen_ref_def gen_unfold split: option.splits if_splits dest!: last_step t [THEN tidyD]
        intro: progress_start)
qed

lemma gen_assign_progress: "gen_assign cg name src nb b = Some b' \<Longrightarrow> progress b0 T K U b \<Longrightarrow> progress b0 T K U b'"
  by (auto simp: gen_assign_def gen_unfold split: option.splits intro!: progress_emit)

lemma gen_resized_tidy:
  assumes "tidy {} g"
  shows "tidy {} (gen_resized cg e w sg g)"
  by (rule tidyI)
    (auto simp: gen_resized_def gen_unfold split: if_splits dest!: last_step assms [THEN tidyD] intro: complete_trans)

lemma gen_compare_tidy:
  assumes "tidy {} gl" and "tidy {} gr"
  shows "tidy {} (gen_compare op w sg gl gr)"
proof (rule tidyI)
  fix pb pb' x assume "gen_compare op w sg gl gr pb = Some (pb', x)"
  then obtain p1 a p2 b where s: "gl pb = Some (p1, a)" "gr p1 = Some (p2, b)" and
    pb': "pb' = fst (emit_new (\<lambda>r. binary_inst op sg r a b) p2) \<or>
      pb' = fst (emit_new (\<lambda>d. DataI (Resize d (snd (emit_new (\<lambda>r. binary_inst op sg r a b) p2)) w False))
        (fst (emit_new (\<lambda>r. binary_inst op sg r a b) p2)))"
    by (auto simp: gen_compare_def gen_unfold split: if_splits)
  have "complete {} pb p2" using tidyD [OF assms(1) s(1)] tidyD [OF assms(2) s(2)] by (rule complete_trans)
  then have "complete {} pb (fst (emit_new (\<lambda>r. binary_inst op sg r a b) p2))" by (rule progress_emit_new) simp
  then show "complete {} pb pb'" using pb' by (auto intro: progress_emit_new)
qed

lemma gen_conditional_tidy:
  assumes "tidy {} gc" and "tidy {} gt" and "tidy {} gf"
  shows "tidy {} (gen_conditional gc gt gf)"
proof (rule tidyI)
  fix pb pb' dst assume g: "gen_conditional gc gt gf pb = Some (pb', dst)"
  define lbl where "lbl b = snd (new_label b)" for b
  obtain p1 c where s1: "gc pb = Some (p1, c)" using g by (auto simp: gen_conditional_def gen_unfold)
  define p2 where "p2 = fst (new_label p1)"
  define p3 where "p3 = fst (new_label p2)"
  define p4 where "p4 = fst (new_label p3)"
  define p5 where "p5 = branch_true c (lbl p1) (fst (new_reg p4))"
  define p6 where "p6 = emit_new (\<lambda>known. AluI (IsKnown known c)) p5"
  note defs = p2_def p3_def p4_def p5_def p6_def lbl_def
  obtain p7 t p8 f p9 where s2: "gt (branch_true (snd p6) (lbl p2) (fst p6)) = Some (p7, t)" "gf p7 = Some (p8, f)"
      "bind_label (lbl p1) (jump (lbl p3) (emit (AluI (Select (snd (new_reg p4)) c t f)) p8)) = Some p9"
    using g s1 by (auto simp: gen_conditional_def gen_unfold defs)
  obtain p10 v p11 p12 u where s3: "gt p9 = Some (p10, v)"
      "bind_label (lbl p2) (jump (lbl p3) (emit (DataI (Mov (snd (new_reg p4)) v)) p10)) = Some p11"
      "gf p11 = Some (p12, u)" "bind_label (lbl p3) (emit (DataI (Mov (snd (new_reg p4)) u)) p12) = Some pb'"
    using g s1 s2 by (auto simp: gen_conditional_def gen_unfold defs)
  have lbl: "new_label p1 = (p2, lbl p1)" "new_label p2 = (p3, lbl p2)" "new_label p3 = (p4, lbl p3)"
    by (simp_all add: defs)
  have P1: "complete {} pb p1" using assms(1) s1 by (rule tidyD)
  note P2 = progress_label [OF P1 lbl(1)]
  note P3 = progress_label [OF P2(1) lbl(2)]
  note P4 = progress_label [OF P3(1) lbl(3)]
  let ?K = "{lbl p3, lbl p2, lbl p1}"
  have l: "lbl p1 \<noteq> lbl p2" "lbl p1 \<noteq> lbl p3" "lbl p2 \<noteq> lbl p3" using P3(2) P4(2) by auto
  note sub = progress_complete [OF assms(2) [THEN tidyD]] progress_complete [OF assms(3) [THEN tidyD]]
  have "progress pb {} ?K ?K p5" unfolding p5_def by (intro progress_jumps(3) progress_steps(1) P4(1)) simp
  then have "progress pb {} ?K ?K (branch_true (snd p6) (lbl p2) (fst p6))"
    unfolding p6_def by (intro progress_jumps(3) progress_emit_new) simp_all
  then have "progress pb {} ?K ?K p8" by (intro sub(2) [OF s2(2)] sub(1) [OF s2(1)])
  then have "progress pb {} ?K (?K - {lbl p1}) p9"
    by (intro progress_bind [OF _ _ s2(3)] progress_jumps(1) progress_emit) simp_all
  then have "progress pb {} ?K (?K - {lbl p1}) p10" by (rule sub(1) [OF s3(1)])
  then have "progress pb {} ?K (?K - {lbl p1} - {lbl p2}) p11"
    using l by (intro progress_bind [OF _ _ s3(2)] progress_jumps(1) progress_emit) simp_all
  then have "progress pb {} ?K (?K - {lbl p1} - {lbl p2}) p12" by (rule sub(2) [OF s3(3)])
  then have "progress pb {} ?K (?K - {lbl p1} - {lbl p2} - {lbl p3}) pb'"
    using l by (intro progress_bind [OF _ _ s3(4)] progress_emit) simp_all
  moreover have "?K - {lbl p1} - {lbl p2} - {lbl p3} = {}" by blast
  ultimately show "complete {} pb pb'" by (metis progress_forget)
qed

lemma gen_itoa_tidy:
  assumes "tidy {} garg"
  shows "tidy {} (gen_itoa cg name garg)"
proof (rule tidyI)
  fix pb pb' x assume "gen_itoa cg name garg pb = Some (pb', x)"
  then obtain p1 val where s: "garg pb = Some (p1, val)" and
    a: "gen_assign cg name (snd (emit_args (\<lambda>tmp al. TextI (Format tmp (snd (konst (Value.Str ''%0d'') p1)) al)) [val]
          (fst (konst (Value.Str ''%0d'') p1)))) False
        (fst (emit_args (\<lambda>tmp al. TextI (Format tmp (snd (konst (Value.Str ''%0d'') p1)) al)) [val]
          (fst (konst (Value.Str ''%0d'') p1)))) = Some pb'"
    by (auto simp: gen_itoa_def gen_unfold)
  show "complete {} pb pb'"
    by (intro gen_assign_progress [OF a] progress_emit_new progress_steps tidyD [OF assms s]) simp
qed

lemma try_string_receiver_tidy:
  assumes "tidy {} gobj"
  shows "tidy {} (try_string_receiver cg ob gobj)"
  by (rule tidyI)
    (auto simp: try_string_receiver_def gen_unfold progress_start new_step split: Expr.splits option.splits if_splits
      dest!: last_step assms [THEN tidyD])

lemma gen_string_method_tidy:
  assumes "\<And>g. g \<in> set gargs \<Longrightarrow> tidy {} g"
  shows "tidy {} (gen_string_method src method gargs)"
proof (rule tidyI)
  fix pb pb' x assume g: "gen_string_method src method gargs pb = Some (pb', x)"
  have arg: "tidy {} (gargs ! i)" if "i < length gargs" for i using that by (simp add: assms)
  show "complete {} pb pb'"
  proof (cases "method = ''substr'' \<and> length gargs = 2")
    case True
    have g: "do { (pb, lo) \<leftarrow> (gargs ! 0) pb; (pb, hi) \<leftarrow> (gargs ! 1) pb;
        Some (apsnd Some (emit_new (\<lambda>dst. TextI (StringSub dst src lo hi)) pb)) } = Some (pb', x)"
      using g True by (simp add: gen_string_method_def)
    obtain p1 lo where 1: "(gargs ! 0) pb = Some (p1, lo)" using g by (cases "(gargs ! 0) pb") auto
    obtain p2 hi where 2: "(gargs ! 1) p1 = Some (p2, hi)" using g 1 by (cases "(gargs ! 1) p1") auto
    have p: "pb' = fst (emit_new (\<lambda>dst. TextI (StringSub dst src lo hi)) p2)" using g 1 2 by (simp add: apsnd_eq)
    have "complete {} pb p2" using tidyD [OF arg 1] tidyD [OF arg 2] True by (auto intro: complete_trans)
    then show ?thesis unfolding p by (rule progress_emit_new) simp
  next
    case False
    then show ?thesis
      using g unfolding gen_string_method_def if_not_P [OF False]
      by (auto simp: apsnd_eq progress_start new_step split: if_split_asm)
  qed
qed

lemma gen_string_builtin_tidy:
  assumes "tidy {} gobj" and "\<And>g. g \<in> set gargs \<Longrightarrow> tidy {} g"
  shows "tidy {} (gen_string_builtin cg ob method gobj gargs)"
  by (rule tidyI)
    (auto simp: gen_string_builtin_def gen_unfold split: option.splits
      dest!: try_string_receiver_tidy [OF assms(1), THEN tidyD]
        gen_string_method_tidy [of gargs, OF assms(2), THEN tidyD, rotated] intro: complete_trans)

lemma gen_builtin_method_tidy:
  assumes "tidy {} gobj" and "\<And>g. g \<in> set gargs \<Longrightarrow> tidy {} g"
  shows "tidy {} (gen_builtin_method cg ob method gobj gargs)"
proof (rule tidyI)
  fix pb pb' x assume g: "gen_builtin_method cg ob method gobj gargs pb = Some (pb', x)"
  note str = gen_string_builtin_tidy [of gobj gargs, OF assms, THEN tidyD]
  have itoa: "complete {} pb pb'" if "gen_itoa cg n (gargs ! 0) pb = Some (pb', x)" "length gargs = 1" for n
    using gen_itoa_tidy [OF assms(2), THEN tidyD] that by (metis nth_mem zero_less_one)
  show "complete {} pb pb'"
    using g itoa str
    by (auto simp: gen_builtin_method_def gen_unfold split: option.splits if_splits
        dest!: assms(1) [THEN tidyD] intro!: progress_emit_new)
qed

lemma gen_super_call_tidy:
  assumes "tidy {} (gen_list gargs)"
  shows "tidy {} (gen_super_call cg method gargs)"
  by (rule tidyI)
    (auto simp: gen_super_call_def gen_unfold dest!: last_step assms [THEN tidyD] intro: complete_trans)

lemma gen_coll_call_tidy:
  assumes "tidy {} g" and "tidy {} (gen_list gargs)"
  shows "tidy {} (gen_coll_call g op gargs)"
  by (rule tidyI)
    (auto simp: gen_coll_call_def gen_unfold dest!: last_step assms [THEN tidyD]
      intro: complete_trans [OF _ complete_trans])

lemma gen_class_call_tidy:
  assumes "tidy {} (gen_list gargs)"
  shows "tidy {} (gen_class_call cg ob method r gargs)"
  by (rule tidyI)
    (auto simp: gen_class_call_def gen_unfold split: option.splits dest!: assms [THEN tidyD] intro!: progress_steps progress_emit)

lemma gen_method_call_tidy:
  assumes "tidy {} gobj" and "\<And>g. g \<in> set gargs \<Longrightarrow> tidy {} g"
  shows "tidy {} (gen_method_call cg ob method gobj gargs)"
proof (rule tidyI)
  fix pb pb' x assume g: "gen_method_call cg ob method gobj gargs pb = Some (pb', x)"
  have l: "tidy {} (gen_list gargs)" using assms(2) by (rule gen_list_tidy)
  show "complete {} pb pb'"
  proof (cases "ob = Expr.Ref ''super''")
    case True
    then show ?thesis using g gen_super_call_tidy [OF l, THEN tidyD] by (auto simp: gen_method_call_def)
  next
    case False
    then obtain info where info: "coll_of_receiver cg ob = Some info"
      using g by (auto simp: gen_method_call_def gen_unfold)
    show ?thesis
    proof (cases "if info \<noteq> None then coll_op method else None")
      case (Some op)
      then show ?thesis
        using g False info gen_coll_call_tidy [OF assms(1) l, THEN tidyD] by (simp add: gen_method_call_def)
    next
      case None
      then obtain p1 bi where p1: "gen_builtin_method cg ob method gobj gargs pb = Some (p1, bi)"
        using g False info by (auto simp: gen_method_call_def gen_unfold)
      have c1: "complete {} pb p1" by (rule tidyD [OF gen_builtin_method_tidy p1]) (simp_all add: assms)
      show ?thesis
      proof (cases bi)
        case (Some r)
        then show ?thesis using g False info None p1 c1 by (simp add: gen_method_call_def)
      next
        case bi: None
        then obtain p2 r where p2: "gobj p1 = Some (p2, r)"
          using g False info None p1 by (auto simp: gen_method_call_def gen_unfold)
        have c2: "complete {} pb p2" using c1 tidyD [OF assms(1) p2] by (rule complete_trans)
        show ?thesis
          using g False info None p1 bi p2 c2
          by (auto simp: gen_method_call_def gen_unfold split: if_splits
              dest!: last_step l [THEN tidyD] gen_class_call_tidy [OF l, THEN tidyD]
              intro: complete_trans complete_trans [OF complete_trans])
      qed
    qed
  qed
qed

lemma gen_field_tidy:
  assumes "tidy {} gobj"
  shows "tidy {} (gen_field cg ob f gobj)"
  by (rule tidyI)
    (auto simp: gen_field_def gen_unfold split: option.splits dest!: last_step assms [THEN tidyD] intro: complete_trans)

lemma gen_index_tidy:
  assumes "tidy {} gbase" and "tidy {} gidx"
  shows "tidy {} (gen_index cg bs gbase gidx)"
  by (rule tidyI)
    (auto simp: gen_index_def gen_unfold split: option.splits dest!: last_step assms [THEN tidyD]
      intro: complete_trans [OF _ complete_trans] new_step)

lemma gen_static_call_tidy:
  assumes "tidy {} (gen_list gargs)"
  shows "tidy {} (gen_static_call cg cn method gargs)"
  by (rule tidyI)
    (auto simp: gen_static_call_def gen_builtin_static_def gen_unfold split: option.splits if_splits
      dest!: last_step assms [THEN tidyD] intro: complete_trans complete_trans [OF _ complete_trans] new_step)

lemma gen_static_ref_tidy: "tidy {} (gen_static_ref cg cn f)"
  by (rule tidyI)
    (auto simp: gen_static_ref_def gen_unfold split: option.splits dest!: last_step gen_ref_tidy [THEN tidyD]
      intro: progress_steps progress_emit progress_start complete_trans new_step)

lemma gen_call_tidy:
  assumes "tidy {} (gen_list gargs)"
  shows "tidy {} (gen_call cg name gargs)"
  by (rule tidyI)
    (auto simp: gen_call_def gen_unfold split: if_splits
      dest!: last_step assms [THEN tidyD] gen_method_on_this_tidy [OF assms, THEN tidyD] intro: complete_trans)

lemma gen_cast_tidy:
  assumes "tidy {} gsrc"
  shows "tidy {} (gen_cast cg target gsrc)"
proof (rule tidyI)
  fix pb pb' x assume g: "gen_cast cg target gsrc pb = Some (pb', x)"
  then obtain p1 src where s: "gsrc pb = Some (p1, src)" by (auto simp: gen_cast_def gen_unfold)
  define p2 where "p2 = fst (new_reg p1)"
  have c: "complete {} pb p1" using assms s by (rule tidyD)
  then have c2: "complete {} pb p2" unfolding p2_def by (rule progress_steps)
  show "complete {} pb pb'"
  proof (cases "\<exists>name. target = Expr.Ref name")
    case True
    then obtain name tc where t: "target = Expr.Ref name" "try_class_of cg target = Some tc"
      using g s by (auto simp: gen_cast_def gen_unfold simp del: try_class_of.simps)
    show ?thesis
    proof (cases tc)
      case (Some cid)
      let ?b = "emit (ObjI (ClassCast (snd (new_reg p1)) src cid)) p2"
      obtain p4 where a: "gen_assign cg name src False (branch_false (snd (new_reg p1)) (snd (new_label ?b)) (fst (new_label ?b))) = Some p4"
          and b: "bind_label (snd (new_label ?b)) p4 = Some pb'"
        using g s t Some by (auto simp: gen_cast_def gen_unfold p2_def simp del: try_class_of.simps)
      have lbl: "new_label ?b = (fst (new_label ?b), snd (new_label ?b))" by simp
      note L = progress_label(1) [OF progress_emit [OF c2] lbl]
      have "progress pb {} {snd (new_label ?b)} {snd (new_label ?b)} p4"
        by (rule gen_assign_progress [OF a progress_jumps(2) [OF L]]) simp_all
      from progress_bind [OF this _ b] show ?thesis by (simp add: progress_forget)
    next
      case None
      then obtain p3 where a: "gen_assign cg name src False p2 = Some p3" and p: "\<exists>i w. plain i \<and> pb' = emit i (fst (konst_logic w p3))"
        using g s t by (auto simp: gen_cast_def gen_unfold p2_def simp del: try_class_of.simps)
      have "complete {} pb p3" by (rule gen_assign_progress [OF a c2])
      then show ?thesis using p by (auto intro: progress_steps progress_emit)
    qed
  next
    case False
    then have "\<exists>i w. plain i \<and> pb' = emit i (fst (konst_logic w p2))"
      using g s by (cases target) (auto simp: gen_cast_def gen_unfold p2_def)
    then show ?thesis using c2 by (auto intro: progress_steps progress_emit)
  qed
qed

lemma set_split_format: "set (snd (split_format args gs)) \<subseteq> set gs"
  by (cases gs) (auto simp: split_format_def split: list.split Expr.split)

lemma gen_format_tidy:
  assumes "\<And>g. g \<in> set gs \<Longrightarrow> tidy {} g" and [simp]: "\<And>dst k al. plain (f dst k al)"
  shows "tidy {} (gen_format f args gs)"
proof -
  have "tidy {} (gen_list (snd (split_format args gs)))"
    using assms set_split_format [of args gs] by (intro gen_list_tidy) blast
  note l = this [THEN tidyD]
  show ?thesis
    by (rule tidyI) (auto simp: gen_format_def gen_unfold dest!: last_step l intro: complete_trans [OF _ complete_trans] new_step)
qed

lemma gen_sys_func_tidy:
  assumes "\<And>g. g \<in> set gs \<Longrightarrow> tidy {} g" and "length gs = length args"
  shows "tidy {} (gen_sys_func cg name args gs)"
proof -
  have l: "tidy {} (gen_list gs)" using assms(1) by (rule gen_list_tidy)
  have c: "tidy {} (gen_cast cg (args ! 0) (gs ! 1))" if "length args = 2"
    using that assms by (intro gen_cast_tidy assms(1) nth_mem) simp
  have f: "complete {} pb pb'" if "gen_format (\<lambda>dst k al. TextI (Format dst k al)) args gs pb = Some (pb', x)" for pb pb' x
    using that by (rule gen_format_tidy [of gs, OF assms(1), THEN tidyD, rotated 2]) simp_all
  have h: "complete {} pb pb'" if "(case gs of g # _ \<Rightarrow> g pb | [] \<Rightarrow> Some (load_const (Value.Str []) pb)) = Some (pb', x)" for pb pb' x
    using that assms(1) by (cases gs) (auto dest: last_step tidyD)
  have o: "complete {} pb pb'" if "do { (pb, _) \<leftarrow> gen_list gs pb; Some (load_const (Logic (zero 32)) pb) } = Some (pb', x)" for pb pb' x
    using that by (auto simp: gen_unfold dest!: last_step l [THEN tidyD] intro: complete_trans)
  show ?thesis
  proof (rule tidyI)
    fix pb pb' x assume "gen_sys_func cg name args gs pb = Some (pb', x)"
    then show "complete {} pb pb'"
      unfolding gen_sys_func_def using f h o c [THEN tidyD] last_step(1) by (auto split: if_split_asm)
  qed
qed

text \<open>The main lemma: both generators of expressions are complete.\<close>

lemma gen_resized_expr_tidy: "tidy {} (gen_expr cg e) \<Longrightarrow> tidy {} (gen_resized cg e w sg (\<lambda>pb. gen_expr cg e pb))"
  using gen_resized_tidy by simp

lemma gen_at_tidy:
  assumes "tidy {} (gen_expr cg e)"
    and "\<And>op a. e = Expr.Unary op a \<Longrightarrow> \<forall>w sg. tidy {} (gen_expr_at_width_with_sign cg a w sg)"
    and "\<And>op l r. e = Expr.Binary op l r \<Longrightarrow> \<forall>w sg. tidy {} (gen_expr_at_width_with_sign cg l w sg)"
    and "\<And>op l r. e = Expr.Binary op l r \<Longrightarrow> tidy {} (gen_expr cg r) \<and> (\<forall>w sg. tidy {} (gen_expr_at_width_with_sign cg r w sg))"
    and "\<And>c t f. e = Expr.Conditional c t f \<Longrightarrow> tidy {} (gen_expr cg c) \<and>
      (\<forall>w sg. tidy {} (gen_expr_at_width_with_sign cg t w sg) \<and> tidy {} (gen_expr_at_width_with_sign cg f w sg))"
  shows "tidy {} (gen_expr_at_width_with_sign cg e w sg)"
proof (rule tidyI)
  fix pb pb' x assume "gen_expr_at_width_with_sign cg e w sg pb = Some (pb', x)"
  note g = this [unfolded gen_expr_at_width_with_sign.simps [of cg e w sg pb]]
  note res = gen_resized_expr_tidy [OF assms(1), THEN tidyD]
  show "complete {} pb pb'"
  proof (cases e)
    case (Fill b)
    show ?thesis using g Fill by (auto simp: gen_unfold dest!: last_step)
  next
    case (Unary op a)
    note t = assms(2) [OF Unary, rule_format, THEN tidyD]
    show ?thesis using g Unary res
      by (auto simp: gen_unfold split: if_split_asm dest!: last_step t intro: complete_trans)
  next
    case (Binary op l r)
    note tl = assms(3) [OF Binary, rule_format] and tr = assms(4) [OF Binary]
    have two: "tidy {} g1 \<Longrightarrow> tidy {} g2 \<Longrightarrow>
        do { (pb, a) \<leftarrow> g1 pb; (pb, b) \<leftarrow> g2 pb; Some (emit_new (\<lambda>dst. binary_inst op sg dst a b) pb) } = Some (pb', x) \<Longrightarrow>
        complete {} pb pb'" for g1 g2
      by (auto simp: gen_unfold dest!: last_step tidyD intro: complete_trans [OF complete_trans])
    show ?thesis
      using g Binary res two [OF tl tr [THEN conjunct2, rule_format]] two [OF tl tr [THEN conjunct1]]
        gen_compare_tidy [OF tl tr [THEN conjunct2, rule_format], THEN tidyD]
      by (auto simp: Option.bind_eq_Some_conv split: if_split_asm)
  next
    case (Conditional c t f)
    then have "gen_conditional (gen_expr cg c) (gen_expr_at_width_with_sign cg t w sg)
        (gen_expr_at_width_with_sign cg f w sg) pb = Some (pb', x)"
      using g by simp
    then show ?thesis using assms(5) [OF Conditional] gen_conditional_tidy [THEN tidyD] by blast
  qed (use g res in simp_all)
qed

lemma gen_expr_tidy_both:
  "tidy {} (gen_expr cg e) \<and> (\<forall>w sg. tidy {} (gen_expr_at_width_with_sign cg e w sg))"
proof (induction e)
  case (Unary op a)
  have "tidy {} (gen_expr cg (Expr.Unary op a))"
    using Unary by (intro tidyI) (auto simp: gen_expr.simps [of cg "Expr.Unary op a"] gen_unfold dest!: last_step tidyD intro: complete_trans)
  then show ?case using gen_at_tidy [of cg "Expr.Unary op a"] Unary by simp
next
  case (Binary op l r)
  have "tidy {} (gen_expr cg (Expr.Binary op l r))"
    using Binary by (intro tidyI) (auto simp: gen_expr.simps [of cg "Expr.Binary op l r"] gen_unfold
        dest!: last_step tidyD intro: complete_trans [OF complete_trans])
  then show ?case using gen_at_tidy [of cg "Expr.Binary op l r"] Binary by simp
next
  case (Conditional c t f)
  have "tidy {} (gen_expr cg (Expr.Conditional c t f))"
    using Conditional gen_conditional_tidy [of "gen_expr cg c" "gen_expr cg t" "gen_expr cg f", THEN tidyD]
    by (intro tidyI) (simp add: gen_expr.simps [of cg "Expr.Conditional c t f"])
  then show ?case using gen_at_tidy [of cg "Expr.Conditional c t f"] Conditional by simp
next
  case (PartSelect bs l r)
  have "tidy {} (gen_expr cg (Expr.PartSelect bs l r))"
    using PartSelect by (intro tidyI) (auto simp: gen_expr.simps [of cg "Expr.PartSelect bs l r"] gen_unfold
        dest!: last_step tidyD intro: complete_trans [OF complete_trans [OF complete_trans]])
  then show ?case using gen_at_tidy [of cg "Expr.PartSelect bs l r"] by simp
next
  case (Concat parts)
  have l: "tidy {} (gen_list (map (gen_expr cg) parts))" using Concat by (intro gen_list_tidy) auto
  have "tidy {} (gen_expr cg (Expr.Concat parts))"
    by (rule tidyI) (auto simp: gen_expr.simps [of cg "Expr.Concat parts"] gen_unfold
        dest!: last_step l [THEN tidyD] intro: complete_trans)
  then show ?case using gen_at_tidy [of cg "Expr.Concat parts"] by simp
next
  case (Call name args)
  have l: "tidy {} (gen_list (map (gen_expr cg) args))" using Call by (intro gen_list_tidy) auto
  have "tidy {} (gen_expr cg (Expr.Call name args))"
    by (rule tidyI) (simp add: gen_expr.simps [of cg "Expr.Call name args"] tidyD [OF gen_call_tidy [OF l]])
  then show ?case using gen_at_tidy [of cg "Expr.Call name args"] by simp
next
  case (StaticCall cn targs mth args)
  have l: "tidy {} (gen_list (map (gen_expr cg) args))" using StaticCall by (intro gen_list_tidy) auto
  have "tidy {} (gen_expr cg (Expr.StaticCall cn targs mth args))"
    by (rule tidyI)
      (simp add: gen_expr.simps [of cg "Expr.StaticCall cn targs mth args"] tidyD [OF gen_static_call_tidy [OF l]])
  then show ?case using gen_at_tidy [of cg "Expr.StaticCall cn targs mth args"] by simp
next
  case (SysCall name args)
  have l: "tidy {} (gen_sys_func cg name args (map (gen_expr cg) args))" using SysCall by (intro gen_sys_func_tidy) auto
  have "tidy {} (gen_expr cg (Expr.SysCall name args))"
    by (rule tidyI) (simp add: gen_expr.simps [of cg "Expr.SysCall name args"] tidyD [OF l])
  then show ?case using gen_at_tidy [of cg "Expr.SysCall name args"] by simp
next
  case (MethodCall ob mth args)
  have l: "tidy {} (gen_method_call cg ob mth (gen_expr cg ob) (map (gen_expr cg) args))"
    using MethodCall by (intro gen_method_call_tidy) auto
  have "tidy {} (gen_expr cg (Expr.MethodCall ob mth args))"
    by (rule tidyI) (simp add: gen_expr.simps [of cg "Expr.MethodCall ob mth args"] tidyD [OF l])
  then show ?case using gen_at_tidy [of cg "Expr.MethodCall ob mth args"] by simp
next
  case (Field ob f)
  have "tidy {} (gen_expr cg (Expr.Field ob f))"
    by (rule tidyI) (use gen_field_tidy [of "gen_expr cg ob", THEN tidyD] Field in \<open>simp add: gen_expr.simps [of cg "Expr.Field ob f"]\<close>)
  then show ?case using gen_at_tidy [of cg "Expr.Field ob f"] by simp
next
  case (Index bs i)
  have "tidy {} (gen_expr cg (Expr.Index bs i))"
    by (rule tidyI)
      (use gen_index_tidy [of "gen_expr cg bs" "gen_expr cg i", THEN tidyD] Index in \<open>simp add: gen_expr.simps [of cg "Expr.Index bs i"]\<close>)
  then show ?case using gen_at_tidy [of cg "Expr.Index bs i"] by simp
next
  case (Ref name)
  have "tidy {} (gen_expr cg (Expr.Ref name))"
    by (rule tidyI) (simp add: gen_expr.simps [of cg "Expr.Ref name"] tidyD [OF gen_ref_tidy])
  then show ?case using gen_at_tidy [of cg "Expr.Ref name"] by simp
next
  case (StaticRef cn f)
  have "tidy {} (gen_expr cg (Expr.StaticRef cn f))"
    by (rule tidyI) (simp add: gen_expr.simps [of cg "Expr.StaticRef cn f"] tidyD [OF gen_static_ref_tidy])
  then show ?case using gen_at_tidy [of cg "Expr.StaticRef cn f"] by simp
next
  case (Literal v)
  have "tidy {} (gen_expr cg (Expr.Literal v))"
    by (rule tidyI) (auto simp: gen_expr.simps [of cg "Expr.Literal v"] dest: last_step)
  then show ?case using gen_at_tidy [of cg "Expr.Literal v"] by simp
next
  case (SignedLiteral v)
  have "tidy {} (gen_expr cg (Expr.SignedLiteral v))"
    by (rule tidyI) (auto simp: gen_expr.simps [of cg "Expr.SignedLiteral v"] dest: last_step)
  then show ?case using gen_at_tidy [of cg "Expr.SignedLiteral v"] by simp
next
  case (Fill b)
  have "tidy {} (gen_expr cg (Expr.Fill b))"
    by (rule tidyI) (auto simp: gen_expr.simps [of cg "Expr.Fill b"] dest: last_step)
  then show ?case using gen_at_tidy [of cg "Expr.Fill b"] by simp
next
  case (Str t)
  have "tidy {} (gen_expr cg (Expr.Str t))"
    by (rule tidyI) (auto simp: gen_expr.simps [of cg "Expr.Str t"] dest: last_step)
  then show ?case using gen_at_tidy [of cg "Expr.Str t"] by simp
next
  case Null
  have "tidy {} (gen_expr cg Expr.Null)"
    by (rule tidyI) (auto simp: gen_expr.simps [of cg Expr.Null] dest: last_step)
  then show ?case using gen_at_tidy [of cg Expr.Null] by simp
next
  case (New args)
  have "tidy {} (gen_expr cg (Expr.New args))"
    by (rule tidyI) (simp add: gen_expr.simps [of cg "Expr.New args"])
  then show ?case using gen_at_tidy [of cg "Expr.New args"] by simp
qed

lemmas gen_expr_tidy = gen_expr_tidy_both [THEN conjunct1]

lemma gen_expr_at_width_tidy: "tidy {} (gen_expr_at_width cg e w)"
  using gen_expr_tidy_both [of cg e]
  by (intro tidyI) (auto simp: gen_expr_at_width_def Option.bind_eq_Some_conv dest: tidyD)

end
