(* ===== verification/Gen_Stmt_Tidy.thy ===== *)
theory Gen_Stmt_Tidy
  imports Gen_Tidy
begin

text \<open>
  Statements are complete: every jump they emit goes to a label they bind, or to a target of the loops
  around them. So a whole program has no open label, and \<open>build\<close> never panics on it.
\<close>

section \<open>Simple statements\<close>

lemmas expr_tidy = gen_expr_tidy [THEN tidyD] gen_expr_at_width_tidy [THEN tidyD]

lemma gen_exprs_tidy: "tidy {} (gen_exprs cg es)"
proof -
  have "tidy {} (gen_list (map (gen_expr cg) es))" using gen_expr_tidy by (intro gen_list_tidy) auto
  then show ?thesis by (simp add: gen_exprs_def tidy_def)
qed

lemma gen_assign_complete: "gen_assign cg name src nb b = Some b' \<Longrightarrow> complete {} b b'"
  using gen_assign_progress progress_start by blast

lemma gen_assign_lvalue_complete:
  assumes "gen_assign_lvalue cg lhs src nb pb = Some pb'"
  shows "complete {} pb pb'"
proof (cases "lv_index lhs")
  case None
  then show ?thesis
    using assms
    by (auto simp: gen_assign_lvalue_def gen_unfold split: option.splits
        dest!: expr_tidy gen_assign_complete intro: progress_steps progress_emit progress_emit progress_start)
next
  case (Some index)
  let ?m = "if lv_receiver lhs = None \<and> lv_scope lhs = None then cg_memories cg (lv_name lhs) else None"
  let ?n = "if lv_receiver lhs = None \<and> lv_scope lhs = None then cg_nets cg (lv_name lhs) else None"
  consider md where "?m = Some md" | net where "?m = None" "?n = Some net" | "?m = None" "?n = None" by (cases ?m; cases ?n) auto
  then show ?thesis
  proof cases
    case (1 md)
    then show ?thesis
      using assms unfolding gen_assign_lvalue_def Some Let_def 1
      by (auto simp: gen_unfold dest!: expr_tidy intro: progress_steps progress_emit complete_trans new_step)
  next
    case (2 net)
    let ?rd = "emit_new (\<lambda>cur. DataI (NetRead cur (fst net))) pb"
    obtain p i where s: "gen_expr cg index (fst ?rd) = Some (p, i)"
      "\<exists>n. pb' = emit (NetI n) (emit (CollI (IndexSet (snd ?rd) i src)) p)"
      using assms unfolding gen_assign_lvalue_def Some Let_def 2 by (auto simp: gen_unfold)
    have "complete {} pb p"
      by (rule complete_trans [OF progress_emit_new(1) [OF progress_start] expr_tidy(1) [OF s(1)]]) simp
    then show ?thesis using s(2) by (auto intro: progress_emit)
  next
    case 3
    then show ?thesis
      using assms unfolding gen_assign_lvalue_def Some Let_def 3
      by (auto simp: gen_unfold dest!: expr_tidy intro: progress_steps progress_emit complete_trans)
  qed
qed

lemma gen_assignment_rhs_tidy: "tidy {} (gen_assignment_rhs cg lhs rhs)"
  by (rule tidyI)
    (auto simp: gen_assignment_rhs_def gen_unfold split: option.splits if_splits dest!: expr_tidy)

lemma gen_construct_tidy: "tidy {} (gen_construct cg cid args)"
  by (rule tidyI)
    (auto simp: gen_construct_def gen_unfold split: option.splits dest!: last_step gen_exprs_tidy [THEN tidyD]
      intro!: progress_emit_new(3) intro: complete_trans new_step)

lemma gen_new_complete: "gen_new cg lhs args pb = Some pb' \<Longrightarrow> complete {} pb pb'"
  by (auto simp: gen_new_def gen_unfold dest!: gen_construct_tidy [THEN tidyD] gen_assign_complete intro: complete_trans)

lemma gen_new_element_complete: "gen_new_element cg name index args pb = Some pb' \<Longrightarrow> complete {} pb pb'"
  by (auto simp: gen_new_element_def gen_unfold dest!: gen_construct_tidy [THEN tidyD] expr_tidy
      intro: complete_trans [OF complete_trans] progress_emit)

lemma gen_blocking_complete: "gen_blocking cg lhs rhs pb = Some pb' \<Longrightarrow> complete {} pb pb'"
  by (auto simp: gen_blocking_def gen_unfold split: Expr.splits option.splits
      dest!: gen_new_complete gen_new_element_complete gen_assignment_rhs_tidy [THEN tidyD] gen_assign_lvalue_complete
      intro: complete_trans)

lemma gen_sys_call_complete:
  assumes "gen_sys_call cg name args pb = Some pb'"
  shows "complete {} pb pb'"
proof -
  have g: "tidy {} (gen_format (\<lambda>dst k al. TextI (Format dst k al)) es (map (gen_expr cg) es))" for es
    using gen_expr_tidy by (intro gen_format_tidy) auto
  have c: "tidy {} (gen_cast cg e (gen_expr cg e'))" for e e' by (rule gen_cast_tidy, rule gen_expr_tidy)
  have fmt: "complete {} pb pb'" if "(case args of
           Expr.Ref dst_name # rest \<Rightarrow>
             do { (pb, tmp) \<leftarrow> gen_format (\<lambda>dst k al. TextI (Format dst k al)) rest (map (gen_expr cg) rest) pb;
                  gen_assign cg dst_name tmp False pb }
         | _ \<Rightarrow> Some pb) = Some pb'"
    using that by (auto simp: gen_unfold split: list.splits Expr.splits
        dest!: g [THEN tidyD] gen_assign_complete intro: complete_trans progress_start)
  have disp: "complete {} pb pb'" if "(let (fmt, vals) = split_format args args
         in do { (pb, rs) \<leftarrow> gen_exprs cg vals pb;
                 let (pb, k) = konst (Value.Str fmt) pb;
                 let (pb, al) = arglist rs pb;
                 Some (emit (TextI (Display k al)) pb) }) = Some pb'"
    using that by (auto simp: gen_unfold dest!: gen_exprs_tidy [THEN tidyD] intro!: progress_steps progress_emit)
  have cast: "complete {} pb pb'" if "map_option fst (gen_cast cg (args ! 0) (gen_expr cg (args ! 1)) pb) = Some pb'"
    using that tidyD [OF c] by fastforce
  from assms show ?thesis
    unfolding gen_sys_call_def using fmt disp cast progress_start by (auto split: if_split_asm)
qed

lemma gen_event_complete: "gen_event cg evs pb = Some pb' \<Longrightarrow> complete {} pb pb'"
  by (auto simp: gen_event_def gen_unfold split: list.splits option.splits dest!: expr_tidy intro: progress_steps progress_emit new_step)

lemma gen_timing_complete:
  assumes "gen_timing cg c pb = Some pb'"
  shows "complete {} pb pb'"
proof (cases c)
  case (Delay e)
  then show ?thesis using assms by (auto simp: gen_timing_def gen_unfold intro: new_step)
next
  case (Event evs)
  then show ?thesis using assms gen_event_complete by (simp add: gen_timing_def)
next
  case (Wait cond)
  define p1 where "p1 = fst (new_label pb)"
  define p2 where "p2 = fst (new_label p1)"
  let ?check = "snd (new_label pb)" and ?ready = "snd (new_label p1)"
  obtain p3 p4 r where s: "bind_label ?check p2 = Some p3" "gen_expr cg cond p3 = Some (p4, r)"
      "bind_label ?ready (jump ?check (emit (TimingI WaitRuntime) (branch_true r ?ready p4))) = Some pb'"
    using assms by (auto simp: Wait gen_timing_def gen_unfold p1_def p2_def)
  have lbl: "new_label pb = (p1, ?check)" "new_label p1 = (p2, ?ready)" by (simp_all add: p1_def p2_def)
  note L1 = progress_label [OF progress_start lbl(1)]
  note L2 = progress_label [OF L1(1) lbl(2)]
  let ?K = "{?ready, ?check}"
  have ne: "?check \<noteq> ?ready" using L2(2) by simp
  have "progress pb {} ?K (?K - {?check}) p3" by (rule progress_bind [OF L2(1) _ s(1)]) simp
  then have "progress pb {} ?K (?K - {?check}) p4" by (rule progress_complete [OF expr_tidy(1) [OF s(2)]])
  then have "progress pb {} ?K (?K - {?check})
      (jump ?check (emit (TimingI WaitRuntime) (branch_true r ?ready p4)))"
    by (intro progress_jumps(1) progress_emit progress_jumps(3)) simp_all
  from progress_bind [OF this _ s(3)] ne have "progress pb {} ?K (?K - {?check} - {?ready}) pb'" by simp
  moreover have "?K - {?check} - {?ready} = {}" by blast
  ultimately show ?thesis by (metis progress_forget)
qed

section \<open>Declarations\<close>

lemma assign_from_complete: "assign_from dst g pb = Some pb' \<Longrightarrow> tidy {} g \<Longrightarrow> complete {} pb pb'"
  by (auto simp: assign_from_def gen_unfold dest!: tidyD intro: progress_steps progress_emit)

lemma gen_var_init_tidy: "tidy {} (gen_var_init cg v)"
  by (rule tidyI)
    (auto simp: gen_var_init_def gen_unfold split: option.splits if_splits dest!: expr_tidy last_step)

lemma load_const_tidy: "tidy {} (\<lambda>pb. Some (load_const v pb))"
  by (rule tidyI) (auto dest: last_step)

lemma declare_class_loops: "declare_class name cn cg = Some cg' \<Longrightarrow> loop_targets cg' = loop_targets cg"
  by (auto simp: declare_class_def gen_unfold split: option.splits)

lemma gen_class_var_complete:
  assumes "(case init of
       Some (Expr.New args) \<Rightarrow> map_option (Pair cg) (gen_new cg name args pb)
     | Some e \<Rightarrow> map_option (Pair cg) (assign_from r (gen_expr cg e) pb)
     | None \<Rightarrow> Some (cg, pb)) = Some (cg', pb')"
  shows "complete {} pb pb' \<and> cg' = cg"
proof (cases init)
  case None
  then show ?thesis using assms by (simp add: progress_start)
next
  case (Some e)
  then have "(\<exists>args. gen_new cg name args pb = Some pb' \<and> cg' = cg) \<or> (assign_from r (gen_expr cg e) pb = Some pb' \<and> cg' = cg)"
    using assms by (cases e) auto
  then show ?thesis using gen_new_complete assign_from_complete gen_expr_tidy by blast
qed

lemma gen_var_decl_complete:
  assumes "gen_var_decl v cg pb = Some (cg', pb')"
  shows "complete {} pb pb' \<and> loop_targets cg' = loop_targets cg"
proof -
  define p where "p = fst (new_reg pb)"
  define r where "r = snd (new_reg pb)"
  define name where "name = v_name v"
  define c where "c = declare_local name r (v_width v) (v_signed v) (v_is_string v) cg"
  have loops: "loop_targets c = loop_targets cg" by (simp add: c_def declare_local_def)
  have pb: "new_reg pb = (p, r)" by (simp add: p_def r_def)
  have start: "complete {} pb p" using new_step(1) [of pb] by (simp add: p_def)
  note g = assms [unfolded gen_var_decl_def pb Let_def split, folded name_def, folded c_def]
  have "complete {} p pb' \<and> loop_targets cg' = loop_targets c"
  proof (cases "v_is_event v")
    case True
    then show ?thesis
      using g by (auto split: option.splits dest!: assign_from_complete [OF _ gen_expr_tidy] intro: new_step)
  next
    case False
    then obtain info where info: "declared_coll c (v_coll v) (v_class_name v) (v_key_class_name v) (v_type_scope v) = Some info"
      using g by (auto simp: Option.bind_eq_Some_conv)
    show ?thesis
    proof (cases info)
      case (Some i)
      then show ?thesis using g False info by (auto intro: new_step)
    next
      case None
      show ?thesis
      proof (cases "v_class_name v")
        case (Some cn)
        then obtain d where d: "declare_class name cn c = Some d" using g False info None
          by (auto simp: Option.bind_eq_Some_conv)
        have "complete {} p pb' \<and> cg' = d"
          by (rule gen_class_var_complete) (use g False info None Some d in simp)
        then show ?thesis using declare_class_loops [OF d] by simp
      next
        case nc: None
        have init: "tidy {} (if v_is_string v then
            (case v_init v of Some e \<Rightarrow> gen_expr c e | None \<Rightarrow> (\<lambda>pb. Some (load_const (Value.Str []) pb)))
            else gen_var_init c v)"
          using gen_expr_tidy load_const_tidy gen_var_init_tidy by (simp split: option.split)
        have "assign_from r (if v_is_string v then
            (case v_init v of Some e \<Rightarrow> gen_expr c e | None \<Rightarrow> (\<lambda>pb. Some (load_const (Value.Str []) pb)))
            else gen_var_init c v) p = Some pb' \<and> cg' = c"
          using g False info None nc by auto
        then show ?thesis using assign_from_complete [OF _ init] by blast
      qed
    qed
  qed
  then show ?thesis using complete_trans [OF start] loops by simp
qed

section \<open>Labels\<close>

definition targets :: "CodeGen \<Rightarrow> nat set" where
  "targets cg = fst ` set (loop_targets cg) \<union> snd ` set (loop_targets cg)"

definition stmt_ok :: "Stmt \<Rightarrow> bool" where
  "stmt_ok s \<longleftrightarrow> (\<forall>cg pb cg' pb'. gen_stmt s cg pb = Some (cg', pb') \<longrightarrow>
     complete (targets cg) pb pb' \<and> loop_targets cg' = loop_targets cg)"

lemma progress_stmt:
  assumes "gen_stmt s cg pb = Some (cg', pb')" and "stmt_ok s" and "progress b0 T K U pb" and "targets cg \<subseteq> T \<union> K"
  shows "progress b0 T K U pb'" and "loop_targets cg' = loop_targets cg"
  using assms progress_sub [OF assms(3) _ assms(4)] by (auto simp: stmt_ok_def)

text \<open>A loop body, between two labels of the loop.\<close>

lemma progress_body:
  assumes "gen_stmt s (push_loop e c cg) pb = Some (cg', pb')" and "stmt_ok s" and "progress b0 (targets cg) K U pb"
    and "e \<in> K" and "c \<in> K"
  shows "progress b0 (targets cg) K U pb'" and "loop_targets (pop_loop cg') = loop_targets cg"
proof -
  have "targets (push_loop e c cg) \<subseteq> targets cg \<union> K" using assms(4,5) by (auto simp: targets_def push_loop_def)
  note r = progress_stmt [OF assms(1-3) this]
  show "progress b0 (targets cg) K U pb'" by (rule r(1))
  show "loop_targets (pop_loop cg') = loop_targets cg" using r(2) by (simp add: pop_loop_def push_loop_def)
qed

lemma targets_cong: "loop_targets cg = loop_targets cg' \<Longrightarrow> targets cg = targets cg'"
  by (simp add: targets_def)

lemma new_labels_progress:
  assumes "new_labels n pb = (pb', ls)" and "progress b0 T K U pb"
  shows "progress b0 T (set ls \<union> K) (set ls \<union> U) pb' \<and> distinct ls \<and> set ls \<inter> K = {} \<and> length ls = n"
  using assms
proof (induction n arbitrary: pb ls K U)
  case (Suc n)
  define p where "p = fst (new_label pb)"
  define l where "l = snd (new_label pb)"
  have lbl: "new_label pb = (p, l)" by (simp add: p_def l_def)
  obtain ls' where ls': "new_labels n p = (pb', ls')" "ls = l # ls'"
    using Suc.prems(1) lbl by (auto split: prod.splits)
  note L = progress_label [OF Suc.prems(2) lbl]
  from Suc.IH [OF ls'(1) L(1)] L(2) show ?case by (auto simp: ls'(2) Un_commute insert_commute)
qed simp

lemma gen_case_tests_progress:
  "gen_case_tests cg sel l es pb = Some pb' \<Longrightarrow> progress b0 T K U pb \<Longrightarrow> l \<in> T \<union> K \<Longrightarrow> progress b0 T K U pb'"
proof (induction es arbitrary: pb)
  case (Cons e es)
  then obtain p1 r where s: "gen_expr cg e pb = Some (p1, r)"
      "gen_case_tests cg sel l es (branch_true (snd (emit_new (\<lambda>eq. AluI (AluInst.Eq eq sel r)) p1)) l
        (fst (emit_new (\<lambda>eq. AluI (AluInst.Eq eq sel r)) p1))) = Some pb'"
    by (auto simp: gen_unfold)
  show ?case
    by (rule Cons.IH [OF s(2) progress_jumps(3) [OF progress_emit_new(1) [OF progress_complete [OF expr_tidy(1) [OF s(1)] Cons.prems(2)]] Cons.prems(3)]
          Cons.prems(3)]) simp
qed simp

lemma gen_all_tests_progress:
  "gen_all_tests cg sel items pb = Some pb' \<Longrightarrow> progress b0 T K U pb \<Longrightarrow> snd ` set items \<subseteq> T \<union> K \<Longrightarrow> progress b0 T K U pb'"
proof (induction items arbitrary: pb)
  case (Cons item items)
  obtain es l where item: "item = (es, l)" by fastforce
  then obtain p1 where "gen_case_tests cg sel l es pb = Some p1" "gen_all_tests cg sel items p1 = Some pb'"
    using Cons.prems(1) by (auto simp: Option.bind_eq_Some_conv)
  then show ?case using Cons.IH gen_case_tests_progress Cons.prems(2,3) item by (metis image_subset_iff insert_subset list.set(2) snd_conv image_insert)
qed simp

section \<open>Statements\<close>

lemma gen_stmts_ok:
  assumes "\<And>s. s \<in> set ss \<Longrightarrow> stmt_ok s" and "gen_stmts ss cg pb = Some (cg', pb')"
  shows "complete (targets cg) pb pb' \<and> loop_targets cg' = loop_targets cg"
  using assms
proof (induction ss arbitrary: cg pb)
  case Nil
  then show ?case by (simp add: progress_start)
next
  case (Cons s ss)
  then obtain c1 p1 where s: "gen_stmt s cg pb = Some (c1, p1)" "gen_stmts ss c1 p1 = Some (cg', pb')"
    by (auto simp: gen_unfold)
  have ok: "stmt_ok s" using Cons.prems(1) by simp
  have 1: "complete (targets cg) pb p1" "loop_targets c1 = loop_targets cg"
    using s(1) ok by (auto simp: stmt_ok_def)
  have "complete (targets c1) p1 pb' \<and> loop_targets cg' = loop_targets c1"
    by (rule Cons.IH [OF _ s(2)]) (simp add: Cons.prems(1))
  then show ?case using 1 targets_cong [OF 1(2)] complete_trans by metis
qed

lemma gen_case_bodies_ok:
  assumes "\<And>i. i \<in> set items \<Longrightarrow> stmt_ok (snd i)" and "gen_case_bodies exit items ls cg pb = Some (cg', pb')"
    and "progress b0 (targets cg) K U pb" and "set ls \<subseteq> U" and "distinct ls" and "exit \<in> K" and "length items = length ls"
  shows "progress b0 (targets cg) K (U - set ls) pb' \<and> loop_targets cg' = loop_targets cg"
  using assms
proof (induction items arbitrary: ls cg pb U)
  case Nil
  then show ?case by simp
next
  case (Cons item items)
  obtain l ls' where ls: "ls = l # ls'" using Cons.prems(7) by (cases ls) auto
  obtain p1 c2 p2 where s: "bind_label l pb = Some p1" "gen_stmt (snd item) cg p1 = Some (c2, p2)"
      "gen_case_bodies exit items ls' c2 (jump exit p2) = Some (cg', pb')"
    using Cons.prems(2) by (auto simp: ls gen_unfold)
  have "progress b0 (targets cg) K (U - {l}) p1"
    by (rule progress_bind [OF Cons.prems(3) _ s(1)]) (use Cons.prems(4) ls in simp)
  note r = progress_stmt [OF s(2) _ this]
  have ok: "stmt_ok (snd item)" using Cons.prems(1) by simp
  have c2: "loop_targets c2 = loop_targets cg" by (rule r(2) [OF ok]) simp
  have "progress b0 (targets cg) K (U - {l}) (jump exit p2)"
    by (rule progress_jumps(1) [OF r(1) [OF ok]]) (use Cons.prems(6) in auto)
  then have "progress b0 (targets c2) K (U - {l}) (jump exit p2)" using targets_cong [OF c2] by simp
  then have "progress b0 (targets c2) K (U - {l} - set ls') pb' \<and> loop_targets cg' = loop_targets c2"
    using Cons.prems(1,4-7) ls by (intro Cons.IH [OF _ s(3)]) auto
  moreover have "U - {l} - set ls' = U - set ls" by (auto simp: ls)
  ultimately show ?case using c2 targets_cong [OF c2] by simp
qed

text \<open>A fork branch is a program of its own, with no loop around it.\<close>

lemma gen_fork_branches_ok:
  assumes "gen_fork_branches bs cg pb = Some (cg', pb', ids)"
  shows "complete {} pb pb' \<and> loop_targets cg' = loop_targets cg"
  using assms
proof (induction bs arbitrary: cg pb ids)
  case Nil
  then show ?case by (simp add: progress_start)
next
  case (Cons b bs)
  then obtain inner child caps inner2 child2 prog ids' where
    s: "enter_branch cg = Some (inner, child, caps)" "gen_stmt b inner child = Some (inner2, child2)"
      "gen_fork_branches bs (leave_branch cg inner2) (fst (add_fork_branch prog caps pb)) = Some (cg', pb', ids')"
    by (auto simp: gen_unfold)
  have "loop_targets (leave_branch cg inner2) = loop_targets cg" by (simp add: leave_branch_def)
  then show ?case using Cons.IH [OF s(3)] complete_trans [OF new_step(7)] by metis
qed

lemma stmt_okI:
  "(\<And>cg pb cg' pb'. gen_stmt s cg pb = Some (cg', pb') \<Longrightarrow>
     complete (targets cg) pb pb' \<and> loop_targets cg' = loop_targets cg) \<Longrightarrow> stmt_ok s"
  by (simp add: stmt_ok_def)

lemma complete_any: "complete {} pb pb' \<Longrightarrow> complete T pb pb'"
  by (rule progress_weaken) auto

lemma simple_okI:
  "(\<And>cg pb cg' pb'. gen_stmt s cg pb = Some (cg', pb') \<Longrightarrow>
     complete {} pb pb' \<and> loop_targets cg' = loop_targets cg) \<Longrightarrow> stmt_ok s"
  using complete_any by (fastforce simp: stmt_ok_def)

lemma if_ok:
  assumes "stmt_ok t" and "\<And>s. els = Some s \<Longrightarrow> stmt_ok s"
  shows "stmt_ok (IfStmt c t els)"
proof (rule stmt_okI)
  fix cg pb cg' pb' assume g: "gen_stmt (IfStmt c t els) cg pb = Some (cg', pb')"
  let ?T = "targets cg"
  obtain p1 r where s1: "gen_expr cg c pb = Some (p1, r)" using g by (auto simp: gen_unfold)
  define p2 where "p2 = fst (new_label p1)"
  define l where "l = snd (new_label p1)"
  have lbl: "new_label p1 = (p2, l)" by (simp add: p2_def l_def)
  obtain c3 p3 where s3: "gen_stmt t cg (branch_false r l p2) = Some (c3, p3)" using g s1 lbl by (auto simp: gen_unfold)
  have "complete ?T pb p1" using expr_tidy(1) [OF s1] by (rule complete_any)
  note L = progress_label [OF this lbl]
  have "progress pb ?T {l} {l} (branch_false r l p2)" by (rule progress_jumps(2) [OF L(1)]) simp
  then have P3: "progress pb ?T {l} {l} p3" and c3: "loop_targets c3 = loop_targets cg"
    using progress_stmt [OF s3 assms(1) _ Un_upper1] by auto
  show "complete ?T pb pb' \<and> loop_targets cg' = loop_targets cg"
  proof (cases els)
    case None
    then have b: "bind_label l p3 = Some pb'" "cg' = c3" using g s1 lbl s3 by auto
    have "progress pb ?T {l} {} pb'" using progress_bind [OF P3 _ b(1)] by simp
    then show ?thesis using progress_forget c3 b(2) by blast
  next
    case (Some e)
    define p4 where "p4 = fst (new_label p3)"
    define m where "m = snd (new_label p3)"
    have lbl2: "new_label p3 = (p4, m)" by (simp add: p4_def m_def)
    obtain p5 p6 where s5: "bind_label l (jump m p4) = Some p5" "gen_stmt e c3 p5 = Some (cg', p6)"
        "bind_label m p6 = Some pb'"
      using g s1 lbl s3 Some lbl2 by (auto simp: gen_unfold)
    note L2 = progress_label [OF P3 lbl2]
    have ne: "l \<noteq> m" using L2(2) by simp
    have "progress pb ?T {m, l} ({m, l} - {l}) p5"
      by (rule progress_bind [OF progress_jumps(1) [OF L2(1)] _ s5(1)]) simp_all
    then have "progress pb ?T {m, l} ({m, l} - {l}) p6" and c6: "loop_targets cg' = loop_targets c3"
      using progress_stmt [OF s5(2) assms(2) [OF Some], of pb ?T "{m, l}" "{m, l} - {l}"] targets_cong [OF c3] by auto
    from progress_bind [OF this(1) _ s5(3)] ne have "progress pb ?T {m, l} ({m, l} - {l} - {m}) pb'" by simp
    moreover have "{m, l} - {l} - {m} = {}" by blast
    ultimately show ?thesis using c6 c3 by (metis progress_forget)
  qed
qed

lemma while_ok:
  assumes "stmt_ok body"
  shows "stmt_ok (While c body)"
proof (rule stmt_okI)
  fix cg pb cg' pb' assume g: "gen_stmt (While c body) cg pb = Some (cg', pb')"
  let ?T = "targets cg"
  define p1 where "p1 = fst (new_label pb)"
  define start where "start = snd (new_label pb)"
  define p2 where "p2 = fst (new_label p1)"
  define exit where "exit = snd (new_label p1)"
  have lbl: "new_label pb = (p1, start)" "new_label p1 = (p2, exit)" by (simp_all add: p1_def start_def p2_def exit_def)
  obtain p3 p4 r c5 p5 where s: "bind_label start p2 = Some p3" "gen_expr cg c p3 = Some (p4, r)"
      "gen_stmt body (push_loop exit start cg) (branch_false r exit p4) = Some (c5, p5)"
      "bind_label exit (jump start p5) = Some pb'" "cg' = pop_loop c5"
    using g lbl by (auto simp: gen_unfold)
  note L1 = progress_label [OF progress_start lbl(1)]
  note L2 = progress_label [OF L1(1) lbl(2)]
  let ?K = "{exit, start}"
  have ne: "start \<noteq> exit" using L2(2) by simp
  have "progress pb ?T ?K (?K - {start}) p3" by (rule progress_bind [OF L2(1) _ s(1)]) simp
  then have "progress pb ?T ?K (?K - {start}) (branch_false r exit p4)"
    by (intro progress_jumps(2) progress_complete [OF expr_tidy(1) [OF s(2)]]) simp_all
  note B = progress_body [OF s(3) assms this]
  have "progress pb ?T ?K (?K - {start}) (jump start p5)" by (intro progress_jumps(1) B(1)) simp_all
  from progress_bind [OF this _ s(4)] ne have "progress pb ?T ?K (?K - {start} - {exit}) pb'" by simp
  moreover have "?K - {start} - {exit} = {}" by blast
  ultimately have "complete ?T pb pb'" by (metis progress_forget)
  then show "complete ?T pb pb' \<and> loop_targets cg' = loop_targets cg" using B(2) s(5) by simp
qed

lemma do_while_ok:
  assumes "stmt_ok body"
  shows "stmt_ok (DoWhile c body)"
proof (rule stmt_okI)
  fix cg pb cg' pb' assume g: "gen_stmt (DoWhile c body) cg pb = Some (cg', pb')"
  let ?T = "targets cg"
  define p1 where "p1 = fst (new_label pb)"
  define start where "start = snd (new_label pb)"
  define p2 where "p2 = fst (new_label p1)"
  define check where "check = snd (new_label p1)"
  define p3 where "p3 = fst (new_label p2)"
  define exit where "exit = snd (new_label p2)"
  have lbl: "new_label pb = (p1, start)" "new_label p1 = (p2, check)" "new_label p2 = (p3, exit)"
    by (simp_all add: p1_def start_def p2_def check_def p3_def exit_def)
  obtain p4 c5 p5 p6 p7 r where s: "bind_label start p3 = Some p4"
      "gen_stmt body (push_loop exit check cg) p4 = Some (c5, p5)" "bind_label check p5 = Some p6"
      "gen_expr (pop_loop c5) c p6 = Some (p7, r)" "bind_label exit (branch_true r start p7) = Some pb'" "cg' = pop_loop c5"
    using g lbl by (auto simp: gen_unfold)
  note L1 = progress_label [OF progress_start lbl(1)]
  note L2 = progress_label [OF L1(1) lbl(2)]
  note L3 = progress_label [OF L2(1) lbl(3)]
  let ?K = "{exit, check, start}"
  have ne: "start \<noteq> exit" "start \<noteq> check" "check \<noteq> exit" using L2(2) L3(2) by auto
  have "progress pb ?T ?K (?K - {start}) p4" by (rule progress_bind [OF L3(1) _ s(1)]) simp
  note B = progress_body [OF s(2) assms this]
  have "progress pb ?T ?K (?K - {start} - {check}) p6"
    using ne by (intro progress_bind [OF B(1) _ s(3)]) simp_all
  then have "progress pb ?T ?K (?K - {start} - {check}) (branch_true r start p7)"
    by (intro progress_jumps(3) progress_complete [OF expr_tidy(1) [OF s(4)]]) simp_all
  from progress_bind [OF this _ s(5)] ne have "progress pb ?T ?K (?K - {start} - {check} - {exit}) pb'" by simp
  moreover have "?K - {start} - {check} - {exit} = {}" by blast
  ultimately have "complete ?T pb pb'" by (metis progress_forget)
  then show "complete ?T pb pb' \<and> loop_targets cg' = loop_targets cg" using B(2) s(6) by simp
qed

lemma foreach_ok:
  assumes "stmt_ok body"
  shows "stmt_ok (Foreach coll index body)"
proof (rule stmt_okI)
  fix cg pb cg' pb' assume g: "gen_stmt (Foreach coll index body) cg pb = Some (cg', pb')"
  let ?T = "targets cg"
  obtain info p0 b where s0: "expect (coll_of_receiver cg coll) = Some info" "gen_expr cg coll pb = Some (p0, b)"
    using g by (auto simp: gen_unfold)
  obtain q1 i where e1: "new_reg p0 = (q1, i)" by fastforce
  obtain q2 al where e2: "arglist [i] q1 = (q2, al)" by fastforce
  obtain p1 has where e3: "emit_new (\<lambda>r. coll_inst b CollOp.First r al) q2 = (p1, has)" by fastforce
  define inner where "inner = foreach_scope index i (key_class info) cg"
  obtain p2 check where l1: "new_label p1 = (p2, check)" by fastforce
  obtain p3 adv where l2: "new_label p2 = (p3, adv)" by fastforce
  obtain p4 exit where l3: "new_label p3 = (p4, exit)" by fastforce
  note lbl = l1 l2 l3
  obtain p5 c6 p6 p7 where s: "bind_label check p4 = Some p5"
      "gen_stmt body (push_loop exit adv inner) (branch_false has exit p5) = Some (c6, p6)"
      "bind_label adv p6 = Some p7"
      "bind_label exit (jump check (emit (coll_inst b CollOp.Next has al) p7)) = Some pb'"
      "cg' = leave_foreach index cg (pop_loop c6)"
    using g unfolding gen_stmt.simps s0 bind.bind_lunit prod.case Let_def e1 e2 e3 lbl inner_def [symmetric]
    by (auto simp: Option.bind_eq_Some_conv)
  have T: "targets inner = ?T" "loop_targets inner = loop_targets cg"
    by (simp_all add: inner_def foreach_scope_def targets_def)
  have "complete ?T pb p1"
    using progress_emit_new(1) [OF progress_steps(6) [OF progress_steps(1) [OF complete_any [OF expr_tidy(1) [OF s0(2)]]]],
        of "\<lambda>r. coll_inst b CollOp.First r al"] e1 e2 e3 plain_simps by (metis fst_conv)
  note L1 = progress_label [OF this lbl(1)]
  note L2 = progress_label [OF L1(1) lbl(2)]
  note L3 = progress_label [OF L2(1) lbl(3)]
  let ?K = "{exit, adv, check}"
  have ne: "check \<noteq> exit" "check \<noteq> adv" "adv \<noteq> exit" using L2(2) L3(2) by auto
  have "progress pb ?T ?K (?K - {check}) (branch_false has exit p5)"
    by (intro progress_jumps(2) progress_bind [OF L3(1) _ s(1)]) simp_all
  note B = progress_body [OF s(2) assms this [folded T(1)], unfolded T]
  have "progress pb ?T ?K (?K - {check} - {adv}) p7"
    using ne by (intro progress_bind [OF B(1) _ s(3)]) simp_all
  then have "progress pb ?T ?K (?K - {check} - {adv}) (jump check (emit (coll_inst b CollOp.Next has al) p7))"
    by (intro progress_jumps(1) progress_emit) simp_all
  from progress_bind [OF this _ s(4)] ne have "progress pb ?T ?K (?K - {check} - {adv} - {exit}) pb'" by simp
  moreover have "?K - {check} - {adv} - {exit} = {}" by blast
  ultimately have "complete ?T pb pb'" by (metis progress_forget)
  then show "complete ?T pb pb' \<and> loop_targets cg' = loop_targets cg" using B(2) s(5) by (simp add: leave_foreach_def)
qed

lemma case_ok:
  assumes "\<And>i. i \<in> set items \<Longrightarrow> stmt_ok (snd i)" and "\<And>s. dflt = Some s \<Longrightarrow> stmt_ok s"
  shows "stmt_ok (Case e items dflt)"
proof (rule stmt_okI)
  fix cg pb cg' pb' assume g: "gen_stmt (Case e items dflt) cg pb = Some (cg', pb')"
  let ?T = "targets cg"
  obtain p1 sel where s1: "gen_expr cg e pb = Some (p1, sel)" using g by (auto simp: gen_unfold)
  define p2 where "p2 = fst (new_label p1)"
  define exit where "exit = snd (new_label p1)"
  define p3 where "p3 = fst (new_labels (length items) p2)"
  define ls where "ls = snd (new_labels (length items) p2)"
  define p4 where "p4 = (if dflt = None then p3 else fst (new_label p3))"
  define d where "d = (if dflt = None then exit else snd (new_label p3))"
  have lbl: "new_label p1 = (p2, exit)" "new_labels (length items) p2 = (p3, ls)"
      "(if dflt = None then (p3, exit) else new_label p3) = (p4, d)"
    by (simp_all add: p2_def exit_def p3_def ls_def p4_def d_def)
  obtain p5 c6 p6 where s2: "gen_all_tests cg sel (zip (map fst items) ls) p4 = Some p5"
      "gen_case_bodies exit items ls cg (jump d p5) = Some (c6, p6)"
    using g by (auto simp: s1 lbl Option.bind_eq_Some_conv split: option.splits)
  note L1 = progress_label [OF complete_any [OF expr_tidy(1) [OF s1]] lbl(1)]
  from new_labels_progress [OF lbl(2) L1(1)]
  have L2: "progress pb ?T (set ls \<union> {exit}) (set ls \<union> {exit}) p3" "distinct ls" "exit \<notin> set ls" "length ls = length items"
    by auto
  let ?K = "insert d (set ls \<union> {exit})"
  have L3: "progress pb ?T ?K ?K p4" and d: "d \<notin> set ls" "dflt \<noteq> None \<Longrightarrow> d \<noteq> exit"
    using L2 lbl(3) progress_label [OF L2(1)] by (auto simp: insert_absorb split: if_splits)
  have "progress pb ?T ?K ?K (jump d p5)"
    using set_zip_rightD by (intro progress_jumps(1) gen_all_tests_progress [OF s2(1) L3]) fastforce+
  from gen_case_bodies_ok [OF assms(1) s2(2) this]
  have P6: "progress pb ?T ?K (?K - set ls) p6" and c6: "loop_targets c6 = loop_targets cg" using L2 by auto
  show "complete ?T pb pb' \<and> loop_targets cg' = loop_targets cg"
  proof (cases dflt)
    case None
    then have e: "d = exit" "p4 = p3" using lbl(3) by simp_all
    have b: "bind_label exit p6 = Some pb'" "cg' = c6"
      using g None by (auto simp: s1 lbl(1,2) s2 [unfolded e] Option.bind_eq_Some_conv)
    have "progress pb ?T ?K (?K - set ls - {exit}) pb'" using L2(3) by (intro progress_bind [OF P6 _ b(1)]) simp
    moreover have "?K - set ls - {exit} = {}" using None by (auto simp: d_def)
    ultimately show ?thesis using c6 b(2) by (metis progress_forget)
  next
    case (Some s)
    then obtain p7 p8 where b: "bind_label d p6 = Some p7" "gen_stmt s c6 p7 = Some (cg', p8)" "bind_label exit p8 = Some pb'"
      using g Some lbl(3) by (auto simp: s1 lbl(1,2) s2 Option.bind_eq_Some_conv)
    have "progress pb ?T ?K (?K - set ls - {d}) p7" using d(1) by (intro progress_bind [OF P6 _ b(1)]) simp
    then have P8: "progress pb ?T ?K (?K - set ls - {d}) p8" and c8: "loop_targets cg' = loop_targets c6"
      using progress_stmt [OF b(2) assms(2) [OF Some], of pb ?T ?K "?K - set ls - {d}"] targets_cong [OF c6] by auto
    have "progress pb ?T ?K (?K - set ls - {d} - {exit}) pb'"
      using L2(3) d(2) Some by (intro progress_bind [OF P8 _ b(3)]) auto
    moreover have "?K - set ls - {d} - {exit} = {}" by auto
    ultimately show ?thesis using c6 c8 by (metis progress_forget)
  qed
qed

lemma return_ok: "stmt_ok (Syntax.Return e)"
proof (rule stmt_okI)
  fix cg pb cg' pb' assume g: "gen_stmt (Syntax.Return e) cg pb = Some (cg', pb')"
  show "complete (targets cg) pb pb' \<and> loop_targets cg' = loop_targets cg"
  proof (cases e)
    case None
    then show ?thesis using g by (auto intro: complete_any new_step)
  next
    case (Some x)
    then obtain p r where p: "(case return_type cg of
          Some (w, _) \<Rightarrow> (if is_integral_context_expression x then gen_expr_at_width cg x w pb else gen_expr cg x pb)
        | None \<Rightarrow> gen_expr cg x pb) = Some (p, r)" "pb' = emit (FlowI (FlowInst.Return r)) p" "cg' = cg"
      using g by (auto simp: Option.bind_eq_Some_conv)
    then have "complete {} pb p" by (auto split: option.splits if_split_asm dest: expr_tidy)
    then show ?thesis using p(2,3) by (auto intro: complete_any progress_emit)
  qed
qed

lemma all_stmts_ok: "stmt_ok s"
proof (induction s)
  case (Block ss)
  show ?case by (rule stmt_okI) (rule gen_stmts_ok [OF Block], simp_all)
next
  case (VarDeclStmt v)
  show ?case using gen_var_decl_complete complete_any by (intro stmt_okI) auto
next
  case (Timed c body)
  show ?case
  proof (rule stmt_okI)
    fix cg pb cg' pb' assume "gen_stmt (Timed c body) cg pb = Some (cg', pb')"
    then obtain p where "gen_timing cg c pb = Some p" "gen_stmt body cg p = Some (cg', pb')" by (auto simp: gen_unfold)
    then show "complete (targets cg) pb pb' \<and> loop_targets cg' = loop_targets cg"
      using Timed gen_timing_complete complete_any complete_trans unfolding stmt_ok_def by metis
  qed
next
  case (Blocking lhs rhs)
  show ?case using gen_blocking_complete complete_any by (intro stmt_okI) auto
next
  case (Nonblocking lhs rhs)
  show ?case
    by (rule simple_okI) (auto simp: gen_unfold dest!: gen_assignment_rhs_tidy [THEN tidyD] gen_assign_lvalue_complete
        intro: complete_trans)
next
  case (IfStmt c t els)
  then show ?case by (intro if_ok) auto
next
  case (While c body)
  then show ?case by (rule while_ok)
next
  case (DoWhile c body)
  then show ?case by (rule do_while_ok)
next
  case (Case e items dflt)
  then show ?case by (intro case_ok) (auto simp: snds.simps)
next
  case (Foreach coll index body)
  then show ?case by (intro foreach_ok)
next
  case (SysCallStmt name args)
  show ?case using gen_sys_call_complete complete_any by (intro stmt_okI) auto
next
  case (ExprStmt e)
  show ?case by (rule simple_okI) (auto dest!: expr_tidy)
next
  case (Trigger e)
  show ?case by (rule simple_okI) (auto simp: gen_unfold dest!: expr_tidy intro!: progress_steps progress_emit)
next
  case (Return e)
  show ?case by (rule return_ok)
next
  case Break
  show ?case
    by (rule stmt_okI) (auto split: list.splits prod.splits intro!: progress_jumps(1) progress_start simp: targets_def)
next
  case Continue
  show ?case
    by (rule stmt_okI) (auto split: list.splits prod.splits intro!: progress_jumps(1) progress_start simp: targets_def)
next
  case (Fork branches join)
  show ?case
    by (rule simple_okI) (auto simp: gen_unfold dest!: gen_fork_branches_ok intro!: progress_steps progress_emit)
next
  case NullStmt
  show ?case by (rule stmt_okI) (auto simp: progress_start)
qed

end
