(* ===== verification/Gen_Process.thy ===== *)
theory Gen_Process
  imports Gen_Stmt_Tidy
begin

text \<open>
  The programs of processes, callables and fork branches (\<open>gen_always\<close>, \<open>gen_initial\<close>,
  \<open>gen_callable\<close>). A program is closed if no jump leaves its code and its last instruction does not
  fall off the end; the program counter of a closed program stays in the code.
\<close>

section \<open>Closed programs\<close>

definition jump_target :: "Inst \<Rightarrow> CodeAddr option" where
  "jump_target i =
     (case i of
        FlowI (Jump t) \<Rightarrow> Some t
      | FlowI (BranchFalse _ t) \<Rightarrow> Some t
      | FlowI (BranchTrue _ t) \<Rightarrow> Some t
      | FlowI (BranchArgProvided _ t) \<Rightarrow> Some t
      | _ \<Rightarrow> None)"

definition ends_here :: "Inst \<Rightarrow> bool" where
  "ends_here i \<longleftrightarrow> i = TimingI Finish \<or> i = FlowI ReturnVoid \<or> (\<exists>r. i = FlowI (FlowInst.Return r)) \<or> (\<exists>t. i = FlowI (Jump t))"

definition closed :: "Program \<Rightarrow> bool" where
  "closed prog \<longleftrightarrow> pcode prog \<noteq> [] \<and> ends_here (last (pcode prog)) \<and>
     (\<forall>i \<in> set (pcode prog). \<forall>t. jump_target i = Some t \<longrightarrow> t < length (pcode prog))"

lemma jump_target_plain: "jump_target i = None \<longleftrightarrow> plain i"
  by (simp add: jump_target_def plain_def set_target_def split: Inst.split FlowInst.split)

lemma jump_target_set: "set_target t i = Some j \<Longrightarrow> jump_target j = Some t"
  by (auto simp: jump_target_def set_target_def split: Inst.splits FlowInst.splits)

lemma ends_here_set: "ends_here i \<Longrightarrow> set_target t i = Some j \<Longrightarrow> ends_here j"
  by (auto simp: ends_here_def set_target_def)

text \<open>The program counter after an instruction.\<close>

lemma set_reg_pc: "set_reg r v m = Some m' \<Longrightarrow> pc m' = pc m"
  by (auto simp: set_reg_def)

lemma exec_flow_pc: "exec_flow lk prog n i m = Some (Inl m') \<Longrightarrow> pc m' = pc m \<or> jump_target (FlowI i) = Some (pc m')"
  by (cases i)
    (auto simp: exec_flow_def branch_if_def jump_target_def Option.bind_eq_Some_conv split: if_splits)

lemma exec_flow_out: "exec_flow lk prog n i m = Some (Inr st) \<Longrightarrow> ends_here (FlowI i) \<Longrightarrow> \<exists>v. st = ReturnStep v"
  by (cases i) (auto simp: exec_flow_def ends_here_def Option.bind_eq_Some_conv)

lemma exec_pc:
  assumes "exec lk prog n inst m = Some (Inl m')"
  shows "pc m' = pc m \<or> jump_target inst = Some (pc m')"
proof (cases inst)
  case (DataI i)
  then show ?thesis using assms
    by (cases i) (auto simp: exec_def exec_data_def Option.bind_eq_Some_conv split_def dest!: set_reg_pc)
next
  case (AluI i)
  then show ?thesis using assms
    by (cases i) (auto simp: exec_def exec_alu_def unary_def binary_def Option.bind_eq_Some_conv dest!: set_reg_pc)
next
  case (NetI i)
  then show ?thesis using assms
    by (cases i) (auto simp: exec_def exec_net_def with_kern_def Option.bind_eq_Some_conv split: option.splits)
next
  case (TimingI i)
  then show ?thesis using assms by (simp add: exec_def)
next
  case (FlowI i)
  then obtain r where r: "exec_flow lk prog n i m = Some r" "(case r of Inl m \<Rightarrow> Inl m | Inr s \<Rightarrow> Inr (m, s)) = Inl m'"
    using assms by (auto simp: exec_def)
  then have "r = Inl m'" by (cases r) simp_all
  then show ?thesis using exec_flow_pc r(1) FlowI by blast
next
  case (ObjI i)
  then have e: "exec_obj lk i m = Some m'" using assms by (auto simp: exec_def)
  have "pc m' = pc m"
  proof (cases i)
    case (SetField ob slot src)
    obtain v vw b where v: "reg src m = Some v" "assignment_copy v (world m) = Some vw" "reg ob (m\<lparr>world := snd vw\<rparr>) = Some b"
      and f: "(case b of
            Obj a \<Rightarrow>
              do { d \<leftarrow> get_obj (snd vw) a; xs \<leftarrow> set_field (obj_fields d) slot (fst vw);
                   Some (with_kern notify_runtime_change
                     (m\<lparr>world := (snd vw)\<lparr>cells := (cells (snd vw))(a \<mapsto> ObjCell (d\<lparr>obj_fields := xs\<rparr>))\<rparr>\<rparr>)) }
          | _ \<Rightarrow> Some (m\<lparr>world := snd vw\<rparr>)) = Some m'"
      using e unfolding SetField exec_obj_def by (auto simp: Option.bind_eq_Some_conv split_def Let_def)
    show ?thesis using f by (cases b) (auto simp: Option.bind_eq_Some_conv with_kern_def)
  qed (use e in \<open>auto simp: exec_obj_def with_kern_def Option.bind_eq_Some_conv split_def Let_def dest!: set_reg_pc\<close>)
  then show ?thesis ..
next
  case (CollI i)
  then show ?thesis using assms
    by (cases i) (auto simp: exec_def exec_coll_def with_kern_def Option.bind_eq_Some_conv split_def Let_def
        split: if_splits dest!: set_reg_pc)
next
  case (TextI i)
  then show ?thesis using assms
    by (cases i) (auto simp: exec_def exec_text_def with_kern_def Option.bind_eq_Some_conv split_def Let_def
        dest!: set_reg_pc)
qed

section \<open>Runs of a frame\<close>

inductive frame_step :: "Linkage \<Rightarrow> Program \<Rightarrow> nat \<Rightarrow> Machine \<Rightarrow> Machine \<Rightarrow> bool" for lk prog n where
  frame_step: "at (pcode prog) (pc m) = Some inst \<Longrightarrow> exec lk prog n inst (m\<lparr>pc := pc m + 1\<rparr>) = Some (Inl m') \<Longrightarrow>
    frame_step lk prog n m m'"

abbreviation frame_steps :: "Linkage \<Rightarrow> Program \<Rightarrow> nat \<Rightarrow> Machine \<Rightarrow> Machine \<Rightarrow> bool" where
  "frame_steps lk prog n \<equiv> (frame_step lk prog n)\<^sup>*\<^sup>*"

inductive_cases frame_stepE: "frame_step lk prog n m m'"

lemma run_frame_step: "frame_step lk prog n m m' \<Longrightarrow> run_frame lk prog n m = run_frame lk prog n m'"
  by (erule frame_stepE) (simp add: run_frame.simps [of lk prog n m])

lemma run_frame_steps: "frame_steps lk prog n m m' \<Longrightarrow> run_frame lk prog n m = run_frame lk prog n m'"
  by (induction rule: rtranclp_induct) (simp_all add: run_frame_step)

text \<open>A result of \<open>run_frame\<close> is the suspension that some run of instructions leads to.\<close>

lemma run_frame_last:
  assumes "run_frame lk prog n m = Some (m', st)"
  shows "\<exists>m1 inst. frame_steps lk prog n m m1 \<and> at (pcode prog) (pc m1) = Some inst \<and>
    exec lk prog n inst (m1\<lparr>pc := pc m1 + 1\<rparr>) = Some (Inr (m', st))"
  using assms
proof (induction arbitrary: rule: run_frame.raw_induct [rotated, consumes 1, case_names loop])
  case (loop rf lk prog n m r)
  then obtain inst x where x: "at (pcode prog) (pc m) = Some inst" "exec lk prog n inst (m\<lparr>pc := pc m + 1\<rparr>) = Some x"
    by (auto simp: Option.bind_eq_Some_conv)
  show ?case
  proof (cases x)
    case (Inl m2)
    then have "rf lk prog n m2 = Some r" using loop(2) x by simp
    from loop(1) [OF this] show ?thesis
      using frame_step.intros [OF x [unfolded Inl]] by (meson converse_rtranclp_into_rtranclp)
  next
    case (Inr y)
    then show ?thesis using loop(2) x by auto
  qed
qed

section \<open>Closed programs stay in their code\<close>

lemma exec_ends:
  assumes "exec lk prog n inst m = Some r" and "ends_here inst"
  shows "case r of Inl m' \<Rightarrow> \<exists>t. jump_target inst = Some t \<and> pc m' = t | Inr (m', st) \<Rightarrow> st = WaitStep Finished \<or> (\<exists>v. st = ReturnStep v)"
  using assms by (auto simp: exec_def ends_here_def exec_timing_def exec_flow_def jump_target_def Option.bind_eq_Some_conv)

lemma closed_step:
  assumes "closed prog" and "frame_step lk prog n m m'"
  shows "pc m' < length (pcode prog)"
  using assms(2)
proof cases
  case (frame_step inst)
  have i: "pc m < length (pcode prog)" "inst = pcode prog ! pc m" using frame_step(1) by (auto simp: at_def split: if_splits)
  have t: "\<forall>t. jump_target inst = Some t \<longrightarrow> t < length (pcode prog)"
    using assms(1) i nth_mem by (auto simp: closed_def)
  show ?thesis
  proof (cases "pc m + 1 = length (pcode prog)")
    case True
    then have "pc m = length (pcode prog) - 1" by simp
    then have "ends_here inst" using assms(1) i by (auto simp: closed_def last_conv_nth)
    then show ?thesis using exec_ends [OF frame_step(2)] t by auto
  next
    case False
    then show ?thesis using exec_pc [OF frame_step(2)] t i by auto
  qed
qed

lemma closed_steps:
  assumes "frame_steps lk prog n m m'" and "closed prog" and "pc m < length (pcode prog)"
  shows "pc m' < length (pcode prog)"
  using assms by (induction rule: rtranclp_induct) (auto dest: closed_step)

text \<open>A suspension that is not the end of the process or of the callable leaves the counter in the code.\<close>

definition ends_frame :: "Step \<Rightarrow> bool" where
  "ends_frame st \<longleftrightarrow> st = WaitStep Finished \<or> (\<exists>v. st = ReturnStep v)"

lemma exec_out_pc:
  assumes "exec lk prog n inst m = Some (Inr (m', st))"
  shows "m' = m"
proof (cases inst)
  case (FlowI i)
  then obtain r where "exec_flow lk prog n i m = Some r"
      "(case r of Inl m \<Rightarrow> Inl m | Inr s \<Rightarrow> Inr (m, s)) = Inr (m', st)"
    using assms by (auto simp: exec_def)
  then show ?thesis by (cases r) simp_all
qed (use assms in \<open>auto simp: exec_def\<close>)

lemma closed_suspends:
  assumes "closed prog" and "pc m < length (pcode prog)" and "run_frame lk prog n m = Some (m', st)"
  shows "ends_frame st \<or> pc m' < length (pcode prog)"
proof -
  obtain m1 inst where r: "frame_steps lk prog n m m1" "at (pcode prog) (pc m1) = Some inst"
      "exec lk prog n inst (m1\<lparr>pc := pc m1 + 1\<rparr>) = Some (Inr (m', st))"
    using run_frame_last [OF assms(3)] by blast
  have i: "pc m1 < length (pcode prog)" "inst = pcode prog ! pc m1" using r(2) by (auto simp: at_def split: if_splits)
  have m': "pc m' = pc m1 + 1" using exec_out_pc [OF r(3)] by simp
  show ?thesis
  proof (cases "pc m1 + 1 = length (pcode prog)")
    case True
    then have "pc m1 = length (pcode prog) - 1" by simp
    then have "ends_here inst" using assms(1) i by (auto simp: closed_def last_conv_nth)
    then show ?thesis using exec_ends [OF r(3)] by (simp add: ends_frame_def)
  next
    case False
    then show ?thesis using i m' by simp
  qed
qed

section \<open>Generated programs are closed\<close>

lemma complete_patches:
  assumes "complete {} (new_builder name) b" and "length (bcode b) < u32_max"
  shows "distinct (map fst (patches b))"
    and "\<forall>p \<in> set (patches b). fst p < length (bcode b) \<and> set_target 0 (bcode b ! fst p) \<noteq> None"
    and "\<forall>p \<in> set (patches b). snd p < length (labels b) \<and> labels b ! snd p \<noteq> u32_max"
    and "\<forall>l \<in> set (labels b). l = u32_max \<or> l \<le> length (bcode b)"
    and "\<forall>i < length (bcode b). plain (bcode b ! i) \<or> i \<in> fst ` set (patches b)"
proof -
  have "builder_ok b" using assms(1) by (intro builder_calls_ok [of name]) (simp add: progress_def)
  then show "distinct (map fst (patches b))"
    and "\<forall>p \<in> set (patches b). fst p < length (bcode b) \<and> set_target 0 (bcode b ! fst p) \<noteq> None"
    and "\<forall>l \<in> set (labels b). l = u32_max \<or> l \<le> length (bcode b)"
    by (simp_all add: builder_ok_def)
  show "\<forall>p \<in> set (patches b). snd p < length (labels b) \<and> labels b ! snd p \<noteq> u32_max"
    using assms by (auto simp: progress_def labels_kept_def new_builder_def)
  show "\<forall>i < length (bcode b). plain (bcode b ! i) \<or> i \<in> fst ` set (patches b)"
    using assms(1) by (auto simp: progress_def jumps_patched_def new_builder_def)
qed

lemma finished_closed:
  assumes "complete {} (new_builder name) b" and "length (bcode b) < u32_max"
    and "\<forall>l \<in> set (labels b). l = u32_max \<or> l < length (bcode b)" and "bcode b \<noteq> []" and "ends_here (last (bcode b))"
  shows "\<exists>prog. build b = Some prog \<and> closed prog \<and> length (pcode prog) = length (bcode b)"
proof -
  note P = complete_patches [OF assms(1,2)]
  let ?cs = "map (patched (labels b) (patches b) (bcode b)) [0..<length (bcode b)]"
  have eq: "patch_loop (labels b) (patches b) (bcode b) = Some ?cs"
    using patch_loop_spec [OF P(1,2), of "labels b"] P(3) by simp
  then obtain prog where prog: "build b = Some prog" "pcode prog = ?cs" by (simp add: build_def)
  have each: "(case map_of (patches b) i of
      None \<Rightarrow> ?cs ! i = bcode b ! i \<and> plain (bcode b ! i)
    | Some l \<Rightarrow> set_target (labels b ! l) (bcode b ! i) = Some (?cs ! i) \<and> labels b ! l < length (bcode b))"
    if "i < length (bcode b)" for i
  proof (cases "map_of (patches b) i")
    case None
    then have "i \<notin> fst ` set (patches b)" by (simp add: map_of_eq_None_iff)
    then have "plain (bcode b ! i)" using P(5) that by blast
    then show ?thesis using that None by (simp add: patched_def)
  next
    case (Some l)
    have in_p: "(i, l) \<in> set (patches b)" using map_of_SomeD [OF Some] .
    then have "set_target 0 (bcode b ! i) \<noteq> None" using P(2) by fastforce
    then have "set_target (labels b ! l) (bcode b ! i) \<noteq> None" by (simp only: set_target_None [of "labels b ! l"] not_False_eq_True)
    moreover have "labels b ! l < length (bcode b)" using P(3) in_p assms(3) nth_mem by fastforce
    ultimately show ?thesis using Some that by (auto simp: patched_def)
  qed
  have "t < length ?cs" if i: "i < length (bcode b)" "jump_target (?cs ! i) = Some t" for i t
  proof (cases "map_of (patches b) i")
    case None
    then show ?thesis using each [OF i(1)] i(2) jump_target_plain [of "bcode b ! i"] by simp
  next
    case (Some l)
    then show ?thesis using each [OF i(1)] i(2) jump_target_set by fastforce
  qed
  then have "\<forall>x \<in> set ?cs. \<forall>t. jump_target x = Some t \<longrightarrow> t < length ?cs"
    by (metis (no_types, lifting) in_set_conv_nth length_map length_upt minus_nat.diff_0)
  moreover have "ends_here (last ?cs)"
  proof -
    let ?i = "length (bcode b) - 1"
    have "last ?cs = ?cs ! ?i" "last (bcode b) = bcode b ! ?i" using assms(4) by (simp_all add: last_conv_nth)
    then show ?thesis
      using each [of ?i] assms(4,5) ends_here_set by (fastforce split: option.splits)
  qed
  ultimately have "closed prog" using assms(4) unfolding closed_def prog(2) by simp
  then show ?thesis using prog by simp
qed

lemma finish_closed:
  assumes "complete {} (new_builder name) b" and "length (bcode b) + 1 < u32_max" and "ends_here i" and "plain i"
  shows "\<exists>prog. build (emit i b) = Some prog \<and> closed prog \<and> length (pcode prog) = length (bcode b) + 1"
proof -
  have "complete {} (new_builder name) (emit i b)" using assms(1,4) by (rule progress_emit)
  moreover have "\<forall>l \<in> set (labels (emit i b)). l = u32_max \<or> l < length (bcode (emit i b))"
    using complete_patches(4) [OF assms(1)] assms(2) by (fastforce simp: emit_def)
  ultimately show ?thesis using finished_closed [of name "emit i b"] assms(2,3) by (simp add: emit_def)
qed

lemma loop_closed:
  assumes "complete {} (new_builder name) (jump l b)" and "builder_call\<^sup>*\<^sup>* (new_builder name) b" and "length (bcode b) + 1 < u32_max"
  shows "\<exists>prog. build (jump l b) = Some prog \<and> closed prog \<and> length (pcode prog) = length (bcode b) + 1"
proof -
  have "\<forall>l \<in> set (labels b). l = u32_max \<or> l \<le> length (bcode b)"
    using builder_calls_ok [OF assms(2)] by (simp add: builder_ok_def)
  then have "\<forall>x \<in> set (labels (jump l b)). x = u32_max \<or> x < length (bcode (jump l b))"
    by (fastforce simp: jump_def emit_patched_def)
  then show ?thesis
    using finished_closed [OF assms(1)] assms(3) by (simp add: jump_def emit_patched_def ends_here_def)
qed

text \<open>Parameters and defaults of a callable.\<close>

lemma declare_params_complete:
  "declare_params ps cg pb = Some (cg', pb') \<Longrightarrow> complete {} pb pb' \<and> loop_targets cg' = loop_targets cg"
proof (induction ps arbitrary: cg pb)
  case Nil
  then show ?case by (simp add: progress_start)
next
  case (Cons p ps)
  let ?c = "declare_local (p_name p) (snd (new_reg pb)) (p_width p) (p_signed p) (p_is_string p) cg"
  obtain info c where s: "(case (info, p_class_name p) of
                       (Some i, _) \<Rightarrow> Some (?c\<lparr>local_colls := (local_colls ?c)(p_name p \<mapsto> i)\<rparr>)
                     | (None, Some cn) \<Rightarrow> declare_class (p_name p) cn ?c
                     | (None, None) \<Rightarrow> Some ?c) = Some c"
      "declare_params ps c (fst (new_reg pb)) = Some (cg', pb')"
    using Cons.prems by (auto simp: Option.bind_eq_Some_conv split_def Let_def)
  have "loop_targets c = loop_targets cg"
    using s(1) declare_class_loops by (auto simp: declare_local_def split: option.splits)
  then show ?case using Cons.IH [OF s(2)] complete_trans [OF new_step(1)] by simp
qed

lemma gen_defaults_complete: "gen_defaults cg formal ps pb = Some pb' \<Longrightarrow> complete {} pb pb'"
proof (induction ps arbitrary: formal pb)
  case Nil
  then show ?case by (simp add: progress_start)
next
  case (Cons p ps)
  show ?case
  proof (cases "p_default p")
    case None
    then show ?thesis using Cons by simp
  next
    case (Some d)
    let ?g = "if is_integral_context_expression d then gen_expr_at_width cg d (max (p_width p) 1) else gen_expr cg d"
    define p1 where "p1 = fst (new_label pb)"
    define l where "l = snd (new_label pb)"
    have lbl: "new_label pb = (p1, l)" by (simp add: p1_def l_def)
    obtain p2 p3 where s: "assign_from formal ?g (branch_arg_provided formal l p1) = Some p2"
        "bind_label l p2 = Some p3" "gen_defaults cg (formal + 1) ps p3 = Some pb'"
      using Cons.prems Some lbl by (auto simp: Option.bind_eq_Some_conv)
    have "tidy {} ?g" using gen_expr_tidy gen_expr_at_width_tidy by simp
    from assign_from_complete [OF s(1) this]
    have "progress pb {} {l} {l} p2"
      by (rule progress_complete) (intro progress_jumps(4) progress_label(1) [OF progress_start lbl], simp)
    from progress_bind [OF this _ s(2)] have "complete {} pb p3" by (simp add: progress_forget)
    then show ?thesis using Cons.IH [OF s(3)] by (rule complete_trans)
  qed
qed

section \<open>Programs of the generator\<close>

lemma stmt_complete:
  assumes "gen_stmt s cg pb = Some (cg', pb')" and "loop_targets cg = []"
  shows "complete {} pb pb'"
proof -
  have "complete (targets cg) pb pb'" using all_stmts_ok [of s] assms(1) by (simp add: stmt_ok_def)
  then show ?thesis using assms(2) by (simp add: targets_def)
qed

text \<open>The builder that an \<open>always\<close> block starts with: its first label is bound to the start of the code.\<close>

definition always_start :: ProgramBuilder where
  "always_start = (new_builder ''always'')\<lparr>labels := [0]\<rparr>"

lemma always_start: "new_label (new_builder ''always'') = ((new_builder ''always'')\<lparr>labels := [u32_max]\<rparr>, 0)"
  "bind_label 0 ((new_builder ''always'')\<lparr>labels := [u32_max]\<rparr>) = Some always_start"
  by (simp_all add: new_label_def new_builder_def bind_label_def always_start_def)

lemma gen_always_eq:
  "gen_always cg a = do { (cg, pb) \<leftarrow> gen_stmt (ab_body a) cg always_start; map_option (Pair cg) (build (jump 0 pb)) }"
  by (simp add: gen_always_def always_start)

lemma always_start_progress: "progress (new_builder ''always'') {} {0} {} always_start"
  using progress_bind [OF progress_label(1) [OF progress_start always_start(1)] _ always_start(2)] by simp

lemma always_complete:
  assumes "gen_stmt s cg always_start = Some (cg', pb)" and "loop_targets cg = []"
  shows "complete {} (new_builder ''always'') (jump 0 pb)" and "builder_call\<^sup>*\<^sup>* (new_builder ''always'') pb"
proof -
  have P: "progress (new_builder ''always'') {} {0} {} pb"
    by (rule progress_complete [OF stmt_complete [OF assms] always_start_progress])
  then show "complete {} (new_builder ''always'') (jump 0 pb)" by (intro progress_forget progress_jumps(1)) auto
  show "builder_call\<^sup>*\<^sup>* (new_builder ''always'') pb" using P by (simp add: progress_def)
qed

text \<open>The last instruction of an \<open>always\<close> block goes back to its start.\<close>

lemma always_last:
  assumes "gen_stmt s cg always_start = Some (cg', pb)" and "loop_targets cg = []" and "build (jump 0 pb) = Some prog"
    and "length (bcode pb) + 1 < u32_max"
  shows "last (pcode prog) = FlowI (Jump 0)"
proof -
  let ?b = "jump 0 pb"
  note C = always_complete [OF assms(1,2)]
  have n: "length (bcode ?b) < u32_max" using assms(4) by (simp add: jump_def emit_patched_def)
  note P = complete_patches [OF C(1) n]
  have "labels pb ! 0 = labels always_start ! 0"
    using stmt_complete [OF assms(1,2)] assms(4) by (auto simp: progress_def labels_kept_def always_start_def)
  then have l: "labels ?b ! 0 = 0" by (simp add: always_start_def jump_def emit_patched_def)
  have "(length (bcode pb), 0) \<in> set (patches ?b)" by (simp add: jump_def emit_patched_def)
  then have m: "map_of (patches ?b) (length (bcode pb)) = Some 0" using P(1) by simp
  have "pcode prog = map (patched (labels ?b) (patches ?b) (bcode ?b)) [0..<length (bcode ?b)]"
    using assms(3) patch_loop_spec [OF P(1,2), of "labels ?b"] P(3) by (auto simp: build_def)
  then have "last (pcode prog) = patched (labels ?b) (patches ?b) (bcode ?b) (length (bcode pb))"
    by (simp add: jump_def emit_patched_def)
  then show ?thesis using l m by (simp add: patched_def jump_def emit_patched_def set_target_def)
qed

text \<open>The programs that the generator makes: processes, callables, continuous assignments, fork branches.\<close>

inductive generated :: "Program \<Rightarrow> bool" where
  always: "gen_always cg a = Some (cg', prog) \<Longrightarrow> loop_targets cg = [] \<Longrightarrow> generated prog"
| initial: "gen_initial cg body = Some (cg', prog) \<Longrightarrow> loop_targets cg = [] \<Longrightarrow> generated prog"
| callable: "gen_callable cg f ctx = Some (cg', prog) \<Longrightarrow> loop_targets cg = [] \<Longrightarrow> generated prog"
| continuous: "gen_continuous cg rhs driver w delay = Some prog \<Longrightarrow> generated prog"
| branch: "enter_branch cg = Some (inner, child, caps) \<Longrightarrow> gen_stmt b inner child = Some (inner', child') \<Longrightarrow>
    build (emit (TimingI Finish) child') = Some prog \<Longrightarrow> generated prog"

lemma build_length: "build b = Some prog \<Longrightarrow> length (pcode prog) = length (bcode b)"
proof -
  have "patch_loop ls ps cs = Some cs' \<Longrightarrow> length cs' = length cs" for ls ps cs cs'
    by (induction ls ps cs rule: patch_loop.induct) (auto split: if_splits option.splits)
  then show "build b = Some prog \<Longrightarrow> length (pcode prog) = length (bcode b)" by (auto simp: build_def)
qed

lemma capture_locals_complete: "complete {} b0 pb \<Longrightarrow> complete {} b0 (fst (capture_locals ls pb))"
proof (induction ls arbitrary: pb)
  case (Cons v ls)
  obtain name parent w where v: "v = (name, parent, w)" by (cases v) auto
  show ?case using Cons.IH [OF progress_steps(1) [OF Cons.prems]] by (simp add: v split_def Let_def)
qed simp

lemma enter_branch_start:
  assumes "enter_branch cg = Some (inner, child, caps)"
  shows "\<exists>name. complete {} (new_builder name) child" and "loop_targets inner = []"
proof -
  have "(\<exists>name. complete {} (new_builder name) child) \<and> loop_targets inner = []"
  proof (cases "class_ctx cg")
    case None
    then show ?thesis
      using assms capture_locals_complete [OF progress_start]
      by (auto simp: enter_branch_def case_prod_unfold Let_def)
  next
    case (Some cid)
    then show ?thesis
      using assms capture_locals_complete [OF new_step(1)]
      by (auto simp: enter_branch_def Option.bind_eq_Some_conv case_prod_unfold Let_def)
  qed
  then show "\<exists>name. complete {} (new_builder name) child" and "loop_targets inner = []" by blast+
qed

lemma open_callable_start:
  assumes "open_callable cg f ctx = Some (cg', pb)"
  shows "(\<exists>name. complete {} (new_builder name) pb) \<and> loop_targets cg' = loop_targets cg"
proof (cases ctx)
  case None
  then show ?thesis using assms progress_start by (auto simp: open_callable_def fresh_scope_def)
next
  case (Some cid)
  then show ?thesis
    using assms new_step(1) by (auto simp: open_callable_def fresh_scope_def Option.bind_eq_Some_conv case_prod_unfold Let_def)
qed

lemma declare_result_complete:
  assumes "declare_result cg f pb = Some (cg', pb', ret)"
  shows "complete {} pb pb' \<and> loop_targets cg' = loop_targets cg"
proof -
  obtain rc where "pb' = emit (DataI (LoadConst ret (snd (konst_logic (zero (max (ret_width f) 1)) (fst (new_reg pb))))))
      (fst (konst_logic (zero (max (ret_width f) 1)) (fst (new_reg pb))))"
    and c: "cg' = (let c = declare_local (f_name f) ret (max (ret_width f) 1) (ret_signed f) (ret_is_string f) cg
      in case rc of Some cid \<Rightarrow> c\<lparr>local_classes := (local_classes c)(f_name f \<mapsto> cid)\<rparr> | None \<Rightarrow> c)"
    using assms by (auto simp: declare_result_def Option.bind_eq_Some_conv case_prod_unfold Let_def)
  then have "complete {} pb pb'" by (simp only:) (intro progress_emit progress_steps progress_start plain_simps)
  then show ?thesis using c by (auto simp: declare_local_def Let_def split: option.split)
qed

lemma finished_generated:
  assumes "complete {} (new_builder name) b" and "build (emit i b) = Some prog" and "ends_here i" and "plain i"
    and "length (pcode prog) < u32_max"
  shows "closed prog"
  using finish_closed [OF assms(1) _ assms(3,4)] assms(2,5) build_length [OF assms(2)] by (auto simp: emit_def)

text \<open>The parts of a continuous assignment: the evaluation, and what follows the drive.\<close>

definition continuous_start :: ProgramBuilder where
  "continuous_start = (new_builder ''continuous assign'')\<lparr>labels := [0]\<rparr>"

definition continuous_end :: "NetId list \<Rightarrow> ProgramBuilder \<Rightarrow> ProgramBuilder" where
  "continuous_end reads pb =
     (if reads = [] then emit (TimingI Finish) pb
      else (let (pb, ns) = netlist reads pb in jump 0 (emit (TimingI (WaitCond ns)) pb)))"

lemma continuous_parts:
  assumes "gen_continuous cg rhs driver w delay = Some prog"
  shows "\<exists>p2 r. gen_expr_at_width cg rhs w continuous_start = Some (p2, r) \<and>
    build (continuous_end (collect_net_reads cg rhs []) (emit (drive_inst driver r delay) p2)) = Some prog \<and>
    progress (new_builder ''continuous assign'') {} {0} {} continuous_start \<and>
    progress (new_builder ''continuous assign'') {} {0} {} (emit (drive_inst driver r delay) p2)"
proof -
  define p0 where "p0 = (new_builder ''continuous assign'')\<lparr>labels := [u32_max]\<rparr>"
  have l: "new_label (new_builder ''continuous assign'') = (p0, 0)" "bind_label 0 p0 = Some continuous_start"
    by (simp_all add: p0_def continuous_start_def new_label_def new_builder_def bind_label_def)
  have P1: "progress (new_builder ''continuous assign'') {} {0} {} continuous_start"
    using progress_bind [OF progress_label(1) [OF progress_start l(1)] _ l(2)] by simp
  obtain p2 r where s: "gen_expr_at_width cg rhs w continuous_start = Some (p2, r)"
    "build (continuous_end (collect_net_reads cg rhs []) (emit (drive_inst driver r delay) p2)) = Some prog"
    using assms by (auto simp: gen_continuous_def l Option.bind_eq_Some_conv continuous_end_def)
  have "progress (new_builder ''continuous assign'') {} {0} {} (emit (drive_inst driver r delay) p2)"
    by (intro progress_emit progress_complete [OF expr_tidy(2) [OF s(1)] P1]) (simp add: drive_inst_def)
  then show ?thesis using s P1 by blast
qed

lemma generated_closed:
  assumes "generated prog" and n: "length (pcode prog) < u32_max"
  shows "closed prog"
  using assms(1)
proof cases
  case (always cg a cg')
  then obtain pb where s: "gen_stmt (ab_body a) cg always_start = Some (cg', pb)" "build (jump 0 pb) = Some prog"
    by (auto simp: gen_always_eq Option.bind_eq_Some_conv)
  note C = always_complete [OF s(1) always(2)]
  have "length (bcode pb) + 1 < u32_max" using n build_length [OF s(2)] by (simp add: jump_def emit_patched_def)
  then show ?thesis using loop_closed [OF C] s(2) by auto
next
  case (initial cg body cg')
  then obtain pb where s: "gen_stmt body cg (new_builder ''initial'') = Some (cg', pb)" "build (emit (TimingI Finish) pb) = Some prog"
    by (auto simp: gen_initial_def Option.bind_eq_Some_conv)
  show ?thesis
    by (rule finished_generated [OF stmt_complete [OF s(1) initial(2)] s(2) _ _ n]) (simp_all add: ends_here_def)
next
  case (branch cg inner child caps b inner' child')
  obtain name where c: "complete {} (new_builder name) child" using enter_branch_start(1) [OF branch(1)] by blast
  have l: "loop_targets inner = []" by (rule enter_branch_start(2) [OF branch(1)])
  have "complete {} (new_builder name) child'" using c stmt_complete [OF branch(2) l] by (rule complete_trans)
  then show ?thesis by (rule finished_generated [OF _ branch(3) _ _ n]) (simp_all add: ends_here_def)
next
  case (callable cg f ctx cg')
  let ?modes = "(if ctx \<noteq> None then [ArgMode.Input] else []) @ map (arg_mode \<circ> p_dir) (f_params f)"
  obtain c1 p1 c2 p2 p3 c4 p4 ret p5
    where s: "open_callable cg f ctx = Some (c1, p1)" "declare_params (f_params f) c1 p1 = Some (c2, p2)"
      "gen_defaults c2 (if ctx \<noteq> None then 1 else 0) (f_params f) (set_arg_modes ?modes p2) = Some p3"
      "declare_result c2 f p3 = Some (c4, p4, ret)" "gen_stmt (f_body f) c4 p4 = Some (cg', p5)"
      "build (emit (FlowI (if is_void f then ReturnVoid else FlowInst.Return ret)) p5) = Some prog"
    using callable(1) by (auto simp: gen_callable_def Option.bind_eq_Some_conv Let_def)
  obtain name where o: "complete {} (new_builder name) p1" "loop_targets c1 = []"
    using open_callable_start [OF s(1)] callable(2) by auto
  note d = declare_params_complete [OF s(2)] and r = declare_result_complete [OF s(4)]
  have "complete {} (new_builder name) (set_arg_modes ?modes p2)"
    using complete_trans [OF o(1)] d by (intro progress_steps) blast
  from complete_trans [OF this gen_defaults_complete [OF s(3)]] have "complete {} (new_builder name) p4"
    using r complete_trans by blast
  then have "complete {} (new_builder name) p5"
    using stmt_complete [OF s(5)] d r o(2) complete_trans by metis
  then show ?thesis by (rule finished_generated [OF _ s(6) _ _ n]) (simp_all add: ends_here_def)
next
  case (continuous cg rhs driver w delay)
  let ?reads = "collect_net_reads cg rhs []"
  obtain p2 r where s: "build (continuous_end ?reads (emit (drive_inst driver r delay) p2)) = Some prog"
      "progress (new_builder ''continuous assign'') {} {0} {} (emit (drive_inst driver r delay) p2)"
    using continuous_parts [OF continuous] by blast
  show ?thesis
  proof (cases "?reads = []")
    case True
    then have b: "build (emit (TimingI Finish) (emit (drive_inst driver r delay) p2)) = Some prog"
      using s(1) by (simp add: continuous_end_def)
    show ?thesis by (rule finished_generated [OF progress_forget [OF s(2)] b _ _ n]) (simp_all add: ends_here_def)
  next
    case False
    let ?b = "emit (TimingI (WaitCond (snd (netlist ?reads (emit (drive_inst driver r delay) p2)))))
              (fst (netlist ?reads (emit (drive_inst driver r delay) p2)))"
    have b: "build (jump 0 ?b) = Some prog" using s(1) False by (simp add: continuous_end_def case_prod_unfold)
    have P3: "progress (new_builder ''continuous assign'') {} {0} {} ?b" by (intro progress_emit progress_steps s(2)) simp
    have "complete {} (new_builder ''continuous assign'') (jump 0 ?b)"
      using progress_jumps(1) [OF P3, of 0] progress_forget by blast
    from loop_closed [OF this] P3 show ?thesis
      using n b build_length [OF b] by (auto simp: progress_def jump_def emit_patched_def)
  qed
qed

section \<open>An example\<close>

text \<open>\<open>always @(posedge clk) if (en) q = ~q;\<close> for three one-bit nets.\<close>

definition no_globals :: GlobalVars where
  "no_globals = \<lparr>gv_vars = Map.empty, gv_widths = Map.empty, gv_signed = Map.empty, gv_strings = {}, gv_coll = Map.empty,
     gv_class = Map.empty, gv_type_aliases = Map.empty, gv_enums = Map.empty, gv_class_typedefs = Map.empty,
     gv_class_collection_typedefs = Map.empty\<rparr>"

definition toggle_codegen :: CodeGen where
  "toggle_codegen = new_codegen [''clk'' \<mapsto> (0, 1), ''en'' \<mapsto> (1, 1), ''q'' \<mapsto> (2, 1)] Map.empty Map.empty Map.empty Map.empty
     Map.empty [] Map.empty no_globals (\<lambda>_. 0)"

definition toggle_body :: Stmt where
  "toggle_body = Timed (TimingControl.Event [\<lparr>ev_edge = Syntax.Posedge, ev_expr = Expr.Ref ''clk''\<rparr>])
     (IfStmt (Expr.Ref ''en'')
       (Blocking \<lparr>lv_name = ''q'', lv_receiver = None, lv_index = None, lv_scope = None\<rparr> (Expr.Unary UnaryOp.BitNot (Expr.Ref ''q''))) None)"

definition toggle_code :: "Inst list" where
  "toggle_code =
     [TimingI (WaitEdge 0 EdgeKind.Posedge), DataI (NetRead 0 1), FlowI (BranchFalse 0 6), DataI (NetRead 1 2),
      AluI (AluInst.Not 2 1), NetI (BlockingWrite 2 2), FlowI (Jump 0)]"

definition toggle_builder :: ProgramBuilder where
  "toggle_builder = always_start\<lparr>bcode := butlast (toggle_code[2 := FlowI (BranchFalse 0 0)]), labels := [0, 6],
     patches := [(2, 1)], bn_regs := 3\<rparr>"

lemmas gen_eval = gen_timing_def gen_event_def gen_expr.simps gen_ref_def gen_blocking_def gen_assignment_rhs_def
  gen_assign_lvalue_def gen_assign_def local_var_def class_field_def in_ctx_def static_field_def method_of_ctx_def net_of_def
  emit_new_def new_reg_def emit_def edge_kind_def branch_false_def emit_patched_def new_label_def new_builder_def
  bind_label_def u32_max_def lvalue_width_def ref_width_def is_string_local_def or_else_def not_integral_name_def ctx_has_def
  static_field_width_def gen_expr_at_width_def gen_expr_at_width_with_sign.simps ref_signed_def unary_inst_def gen_resized_def
  new_codegen_def no_globals_def

lemma toggle_compiles: "gen_stmt toggle_body toggle_codegen always_start = Some (toggle_codegen, toggle_builder)"
  by (simp add: toggle_body_def toggle_codegen_def always_start_def gen_eval toggle_builder_def toggle_code_def)

lemma toggle_builds: "\<exists>prog. build (jump 0 toggle_builder) = Some prog \<and> pcode prog = toggle_code"
  by (simp add: build_def toggle_builder_def toggle_code_def always_start_def new_builder_def jump_def emit_patched_def
      set_target_def u32_max_def)

definition toggle_machine :: Machine where
  "toggle_machine = \<lparr>pc = 0, regs = [Value.Null, Value.Null, Value.Null], pending_nba = [],
     world = \<lparr>cells = Map.empty, next_cell = 0, next_event = 1, statics = [], arg_index = 0\<rparr>,
     kern = new_kernel default_timescale\<rparr>"

section \<open>Properties\<close>

text \<open>
  C27. No generated program runs off its code. Take the program of an \<open>initial\<close> or \<open>always\<close> block, a
  function, task or method, a continuous assignment or a branch of a fork, as the code generator
  makes it from any syntax tree. When the interpreter executes a frame of it from any position in the
  code, whatever the registers, the store and the kernel hold, every instruction it comes to is in
  the code; and where the frame suspends, to wait, to call or to fork, the position at which it
  resumes is in the code too, unless the process ends or the callable returns.
\<close>

theorem generated_code_stays:
  assumes "generated prog" and "length (pcode prog) < u32_max" and "pc m < length (pcode prog)"
  shows "(\<forall>m'. frame_steps lk prog n m m' \<longrightarrow> pc m' < length (pcode prog)) \<and>
    (case run_frame lk prog n m of Some (m', st) \<Rightarrow> ends_frame st \<or> pc m' < length (pcode prog) | None \<Rightarrow> True)"
proof -
  have c: "closed prog" using assms(1,2) by (rule generated_closed)
  show ?thesis
    using closed_steps [OF _ c assms(3)] closed_suspends [OF c assms(3)] by (auto split: option.split)
qed

theorem generated_code_stays_witness:
  "\<exists>prog m' st. generated prog \<and> run_frame (empty_linkage (\<lambda>_. [])) prog 0 toggle_machine = Some (m', st) \<and>
     st = WaitStep (Edge 0 EdgeKind.Posedge) \<and> pc m' < length (pcode prog)"
proof -
  obtain prog where prog: "build (jump 0 toggle_builder) = Some prog" "pcode prog = toggle_code" using toggle_builds by blast
  have "gen_always toggle_codegen \<lparr>ab_kind = Plain, ab_body = toggle_body\<rparr> = Some (toggle_codegen, prog)"
    by (simp add: gen_always_eq toggle_compiles prog)
  then have g: "generated prog" by (rule generated.always) (simp add: toggle_codegen_def new_codegen_def)
  have "run_frame (empty_linkage (\<lambda>_. [])) prog 0 toggle_machine =
      Some (toggle_machine\<lparr>pc := 1\<rparr>, WaitStep (Edge 0 EdgeKind.Posedge))"
    by (simp add: run_frame.simps prog toggle_code_def toggle_machine_def at_def exec_def exec_timing_def)
  moreover have "length (pcode prog) < u32_max" "pc toggle_machine < length (pcode prog)"
    by (simp_all add: prog toggle_code_def u32_max_def toggle_machine_def)
  moreover note generated_code_stays [OF g this, of "empty_linkage (\<lambda>_. [])" 0]
  ultimately show ?thesis using g by (auto simp: ends_frame_def)
qed

text \<open>
  C28. The code generator of an \<open>always\<close> block binds every label it uses. Whenever the statements of the
  body have been compiled, and the code is shorter than the mark of an unbound label, building the
  program does not panic, and the program repeats the body: its last instruction goes back to the start.
\<close>

theorem always_builds:
  assumes "gen_stmt (ab_body a) cg always_start = Some (cg', pb)" and "loop_targets cg = []" and "length (bcode pb) + 1 < u32_max"
  shows "\<exists>prog. gen_always cg a = Some (cg', prog) \<and> length (pcode prog) = length (bcode pb) + 1 \<and>
    last (pcode prog) = FlowI (Jump 0)"
proof -
  note C = always_complete [OF assms(1,2)]
  obtain prog where p: "build (jump 0 pb) = Some prog" "length (pcode prog) = length (bcode pb) + 1"
    using loop_closed [OF C assms(3)] by blast
  then show ?thesis using always_last [OF assms(1,2) p(1) assms(3)] by (simp add: gen_always_eq assms(1))
qed

theorem always_builds_witness:
  "\<exists>prog. gen_always toggle_codegen \<lparr>ab_kind = Plain, ab_body = toggle_body\<rparr> = Some (toggle_codegen, prog) \<and>
     length (pcode prog) = 7 \<and> last (pcode prog) = FlowI (Jump 0)"
proof -
  have "loop_targets toggle_codegen = []" "length (bcode toggle_builder) = 6"
    by (simp_all add: toggle_codegen_def new_codegen_def toggle_builder_def toggle_code_def)
  then show ?thesis
    using always_builds [of "\<lparr>ab_kind = Plain, ab_body = toggle_body\<rparr>" toggle_codegen toggle_codegen toggle_builder]
    by (simp add: toggle_compiles u32_max_def)
qed

end
