(* ===== verification/Gen_Run.thy ===== *)
theory Gen_Run
  imports Gen_Process
begin

text \<open>
  Running generated code. \<open>realises\<close> says that a program contains what a builder has emitted so far,
  with the jumps resolved; \<open>yields\<close> says of a generator that the code it emits, run from its first
  instruction, puts a given value into the register of the result and changes nothing that was there.
\<close>

section \<open>The code of a builder in the program\<close>

definition realises :: "Program \<Rightarrow> nat list \<Rightarrow> ProgramBuilder \<Rightarrow> bool" where
  "realises P L b \<longleftrightarrow> length (bcode b) < u32_max \<and> bn_regs b \<le> n_regs P \<and>
     (\<forall>l < length (labels b). labels b ! l \<noteq> u32_max \<longrightarrow> L ! l = labels b ! l) \<and>
     (\<forall>i < length (bcode b). at (pcode P) i = Some (patched L (patches b) (bcode b) i)) \<and>
     prefix (bconsts b) (pconsts P) \<and> prefix (barglists b) (arglists P)"

text \<open>Labels that are bound stay as they are.\<close>

definition retains :: "ProgramBuilder \<Rightarrow> ProgramBuilder \<Rightarrow> bool" where
  "retains b b' \<longleftrightarrow> builder_call\<^sup>*\<^sup>* b b' \<and>
     (\<forall>l < length (labels b). labels b ! l \<noteq> u32_max \<longrightarrow> labels b' ! l = labels b ! l)"

lemma retains_trans:
  assumes "retains a b" and "retains b c"
  shows "retains a c"
proof -
  have "length (labels a) \<le> length (labels b)" using assms(1) growsD(3) [OF builder_calls_grow] by (simp add: retains_def)
  then show ?thesis using assms by (auto simp: retains_def)
qed

lemma retains_ok: "retains b b' \<Longrightarrow> builder_ok b \<Longrightarrow> builder_ok b'"
proof -
  have "builder_call\<^sup>*\<^sup>* b b' \<Longrightarrow> builder_ok b \<Longrightarrow> builder_ok b'"
    by (induction rule: rtranclp_induct) (auto intro: builder_call_ok)
  then show "retains b b' \<Longrightarrow> builder_ok b \<Longrightarrow> builder_ok b'" by (simp add: retains_def)
qed

lemma retains_regs: "retains b b' \<Longrightarrow> bn_regs b \<le> bn_regs b'"
  using growsD(4) [OF builder_calls_grow] by (simp add: retains_def)

text \<open>A call patches nothing that was emitted before.\<close>

lemma builder_call_patches:
  "builder_call b b' \<Longrightarrow> \<exists>ps. patches b' = patches b @ ps \<and> (\<forall>p \<in> set ps. length (bcode b) \<le> fst p)"
  by (induction rule: builder_call.induct) (auto simp: builder_defs split: if_splits)

lemma builder_calls_patches:
  "builder_call\<^sup>*\<^sup>* b b' \<Longrightarrow> \<exists>ps. patches b' = patches b @ ps \<and> (\<forall>p \<in> set ps. length (bcode b) \<le> fst p)"
proof (induction rule: rtranclp_induct)
  case base
  show ?case by simp
next
  case (step y z)
  obtain ps where ps: "patches y = patches b @ ps" "\<forall>p \<in> set ps. length (bcode b) \<le> fst p" using step.IH by blast
  obtain qs where qs: "patches z = patches y @ qs" "\<forall>p \<in> set qs. length (bcode y) \<le> fst p"
    using builder_call_patches [OF step.hyps(2)] by blast
  have "length (bcode b) \<le> length (bcode y)" using growsD(5) [OF builder_calls_grow [OF step.hyps(1)]] .
  then show ?case using ps qs by (intro exI [of _ "ps @ qs"]) fastforce
qed

lemma realises_back:
  assumes "realises P L b'" and "retains b b'"
  shows "realises P L b"
proof -
  have c: "builder_call\<^sup>*\<^sup>* b b'" using assms(2) by (simp add: retains_def)
  note g = builder_calls_grow [OF c]
  obtain ps where ps: "patches b' = patches b @ ps" "\<forall>p \<in> set ps. length (bcode b) \<le> fst p"
    using builder_calls_patches [OF c] by blast
  have same: "patched L (patches b') (bcode b') i = patched L (patches b) (bcode b) i" if "i < length (bcode b)" for i
  proof -
    have "map_of ps i = None" using ps(2) that by (auto simp: map_of_eq_None_iff)
    then have "map_of (patches b') i = map_of (patches b) i" by (simp add: ps(1) map_add_def split: option.split)
    moreover have "bcode b' ! i = bcode b ! i" using growsD(1) [OF g] that by (auto simp: prefix_def nth_append)
    ultimately show ?thesis unfolding patched_def by (simp only:)
  qed
  show ?thesis
    using assms g growsD(3,4,5) [OF g] same
    by (auto simp: realises_def grows_def retains_def intro: prefix_order.trans)
qed

lemma complete_retains: "complete T b b' \<Longrightarrow> length (bcode b') < u32_max \<Longrightarrow> retains b b'"
  by (simp add: progress_def labels_kept_def retains_def)

lemma call_retains: "builder_call b b' \<Longrightarrow> labels b' = labels b \<Longrightarrow> retains b b'"
  by (auto simp: retains_def)

lemma realises_short: "realises P L b \<Longrightarrow> length (bcode b) < u32_max"
  by (simp add: realises_def)

text \<open>One emitted instruction, and one jump.\<close>

lemma emit_retains: "retains b (emit i b)"
  by (rule call_retains, rule call_emit) (simp add: emit_def)

lemma emit_patched_retains:
  "retains b (jump l b)" "retains b (branch_true c l b)"
  by (rule call_retains, rule call_jump call_branch_true, simp add: jump_def branch_true_def emit_patched_def)+

lemma free_position: "builder_ok b \<Longrightarrow> map_of (patches b) (length (bcode b)) = None"
  by (force simp: builder_ok_def map_of_eq_None_iff)

lemma realises_emit: "realises P L (emit i b) \<Longrightarrow> builder_ok b \<Longrightarrow> at (pcode P) (length (bcode b)) = Some i"
  using free_position [of b] by (simp add: realises_def emit_def patched_def)

lemma realises_patched:
  assumes "realises P L (emit_patched i l b)" and "builder_ok b" and "set_target (L ! l) (FlowI i) = Some j"
  shows "at (pcode P) (length (bcode b)) = Some j"
  using assms free_position [of b] by (simp add: realises_def emit_patched_def patched_def map_add_def)

lemma realises_jumps:
  "realises P L (jump l b) \<Longrightarrow> builder_ok b \<Longrightarrow> at (pcode P) (length (bcode b)) = Some (FlowI (Jump (L ! l)))"
  "realises P L (branch_true c l b) \<Longrightarrow> builder_ok b \<Longrightarrow>
     at (pcode P) (length (bcode b)) = Some (FlowI (BranchTrue c (L ! l)))"
  unfolding jump_def branch_true_def by (auto elim!: realises_patched simp: set_target_def)

lemma bind_retains:
  assumes "bind_label l b = Some b'" and "labels b ! l = u32_max"
  shows "retains b b'"
  using assms call_bind [OF assms(1)] by (auto simp: retains_def bind_label_def nth_list_update split: if_splits)

lemma realises_bind:
  assumes "realises P L b'" and "bind_label l b = Some b'"
  shows "L ! l = length (bcode b)"
  using assms by (auto simp: realises_def bind_label_def u32_max_def split: if_splits)

lemma new_label_retains: "retains b (fst (new_label b))"
  using call_label [of b] by (auto simp: retains_def new_label_def nth_append)

lemma plain_calls_retain:
  "retains b (fst (new_reg b))" "retains b (fst (konst v b))" "retains b (fst (arglist rs b))" "retains b (fst (netlist ns b))"
  by (rule call_retains, rule call_reg call_konst call_arglist call_netlist, simp add: builder_defs)+

lemma emit_new_retains: "retains b (fst (emit_new f b))"
  using retains_trans [OF plain_calls_retain(1) emit_retains] by (simp add: emit_new_def case_prod_unfold)

section \<open>Machines\<close>

text \<open>What a piece of expression code leaves alone: the registers below \<open>k\<close>, the store, the kernel.\<close>

definition same_upto :: "nat \<Rightarrow> Machine \<Rightarrow> Machine \<Rightarrow> bool" where
  "same_upto k m m' \<longleftrightarrow> (\<forall>r < k. reg r m' = reg r m) \<and> length (regs m') = length (regs m) \<and>
     world m' = world m \<and> kern m' = kern m \<and> pending_nba m' = pending_nba m"

lemma same_upto_refl: "same_upto k m m"
  by (simp add: same_upto_def)

lemma same_upto_trans: "same_upto k m m1 \<Longrightarrow> same_upto k' m1 m2 \<Longrightarrow> k \<le> k' \<Longrightarrow> same_upto k m m2"
  by (auto simp: same_upto_def)

lemma same_upto_pc [simp]: "same_upto k (m\<lparr>pc := p\<rparr>) m' \<longleftrightarrow> same_upto k m m'" "same_upto k m (m'\<lparr>pc := p\<rparr>) \<longleftrightarrow> same_upto k m m'"
  by (simp_all add: same_upto_def reg_def)

lemma set_reg_same:
  assumes "set_reg d v m = Some m'" and "k \<le> d"
  shows "same_upto k m m'" and "reg d m' = Some v" and "pc m' = pc m"
  using assms by (auto simp: set_reg_def put_reg_def same_upto_def reg_def get_reg_def split: if_splits)

lemma set_reg_in: "d < length (regs m) \<Longrightarrow> \<exists>m'. set_reg d v m = Some m'"
  by (simp add: set_reg_def put_reg_def)

text \<open>The generator \<open>g\<close> emits code that computes \<open>v\<close> on the machines that satisfy \<open>ok\<close>.\<close>

definition runs :: "Linkage \<Rightarrow> Program \<Rightarrow> nat list \<Rightarrow> nat \<Rightarrow> nat \<Rightarrow> (Machine \<Rightarrow> bool) \<Rightarrow>
    ProgramBuilder \<Rightarrow> ProgramBuilder \<Rightarrow> Reg \<Rightarrow> Value \<Rightarrow> bool" where
  "runs lk P L n k ok pb pb' r v \<longleftrightarrow> r < bn_regs pb' \<and>
     (\<forall>m. pc m = length (bcode pb) \<longrightarrow> length (regs m) = n_regs P \<longrightarrow> ok m \<longrightarrow>
        (\<exists>m'. frame_steps lk P n m m' \<and> pc m' = length (bcode pb') \<and> reg r m' = Some v \<and> same_upto (bn_regs pb) m m'))"

definition yields :: "Linkage \<Rightarrow> Program \<Rightarrow> nat list \<Rightarrow> nat \<Rightarrow> nat \<Rightarrow> (Machine \<Rightarrow> bool) \<Rightarrow> Reg gen \<Rightarrow> Value \<Rightarrow> bool" where
  "yields lk P L n k ok g v \<longleftrightarrow> (\<forall>pb pb' r. g pb = Some (pb', r) \<longrightarrow> builder_ok pb \<longrightarrow> k \<le> bn_regs pb \<longrightarrow>
     realises P L pb' \<longrightarrow> runs lk P L n k ok pb pb' r v)"

text \<open>The condition on machines is about the registers below \<open>k\<close> and the kernel.\<close>

definition stable :: "nat \<Rightarrow> (Machine \<Rightarrow> bool) \<Rightarrow> bool" where
  "stable k ok \<longleftrightarrow> (\<forall>m m'. ok m \<longrightarrow> same_upto k m m' \<longrightarrow> ok m')"

lemma runsD:
  assumes "runs lk P L n k ok pb pb' r v" and "pc m = length (bcode pb)" and "length (regs m) = n_regs P" and "ok m"
  obtains m' where "frame_steps lk P n m m'" "pc m' = length (bcode pb')" "reg r m' = Some v"
    "same_upto (bn_regs pb) m m'" "length (regs m') = n_regs P"
  using assms by (auto simp: runs_def same_upto_def)

lemma stableD: "stable k ok \<Longrightarrow> ok m \<Longrightarrow> same_upto k' m m' \<Longrightarrow> k \<le> k' \<Longrightarrow> ok m'"
  unfolding stable_def same_upto_def by (meson less_le_trans)

text \<open>One instruction that writes a new register.\<close>

lemma emit_new_step:
  assumes "emit_new f b = (b', d)" and "builder_ok b" and "realises P L b'" and "pc m = length (bcode b)"
    and "length (regs m) = n_regs P"
    and "\<And>q. exec lk P n (f d) (m\<lparr>pc := q\<rparr>) = map_option Inl (set_reg d v (m\<lparr>pc := q\<rparr>))"
  shows "\<exists>m'. frame_steps lk P n m m' \<and> pc m' = length (bcode b') \<and> reg d m' = Some v \<and> same_upto (bn_regs b) m m'"
proof -
  let ?b = "fst (new_reg b)"
  have d: "d = bn_regs b" "b' = emit (f d) ?b" using assms(1) by (auto simp: emit_new_def new_reg_def)
  have ok: "builder_ok ?b" using retains_ok [OF plain_calls_retain(1) assms(2)] .
  have i: "at (pcode P) (pc m) = Some (f d)"
    using realises_emit [OF assms(3) [unfolded d(2)] ok] assms(4) by (simp add: new_reg_def)
  have n: "d < bn_regs b'" "length (bcode b') = length (bcode b) + 1" by (simp_all add: d new_reg_def emit_def)
  then have "d < length (regs m)" using assms(3,5) by (simp add: realises_def)
  then obtain m' where m': "set_reg d v (m\<lparr>pc := pc m + 1\<rparr>) = Some m'" using set_reg_in [of d "m\<lparr>pc := pc m + 1\<rparr>"] by auto
  have "frame_step lk P n m m'" using i m' by (intro frame_step.intros [OF i]) (simp add: assms(6))
  then show ?thesis using set_reg_same [OF m', of "bn_regs b"] n assms(4) d(1) by auto
qed

section \<open>Generators\<close>

lemma stable_and: "stable k ok \<Longrightarrow> k \<le> k' \<Longrightarrow> a < k' \<Longrightarrow> stable k' (\<lambda>m. ok m \<and> reg a m = Some v)"
  unfolding stable_def same_upto_def by (metis less_le_trans)

lemma yieldsD:
  "yields lk P L n k ok g v \<Longrightarrow> g pb = Some (pb', r) \<Longrightarrow> builder_ok pb \<Longrightarrow> k \<le> bn_regs pb \<Longrightarrow> realises P L pb' \<Longrightarrow>
    runs lk P L n k ok pb pb' r v"
  by (simp add: yields_def)

lemma tidy_retains: "tidy {} g \<Longrightarrow> g pb = Some (pb', r) \<Longrightarrow> realises P L pb' \<Longrightarrow> retains pb pb'"
  by (rule complete_retains [OF tidyD realises_short])

lemma yields_old:
  assumes "\<And>m. ok m \<Longrightarrow> reg r m = Some v" and "r < k"
  shows "yields lk P L n k ok (\<lambda>pb. Some (pb, r)) v"
  unfolding yields_def runs_def
proof (intro allI impI conjI)
  fix pb pb' r' and m :: Machine
  assume "Some (pb, r) = Some (pb', r')" "k \<le> bn_regs pb"
  then show "r' < bn_regs pb'" using assms(2) by simp
  assume "Some (pb, r) = Some (pb', r')" "pc m = length (bcode pb)" "ok m"
  then show "\<exists>m'. frame_steps lk P n m m' \<and> pc m' = length (bcode pb') \<and> reg r' m' = Some v \<and> same_upto (bn_regs pb) m m'"
    using assms(1) same_upto_refl by auto
qed

lemma yields_new:
  assumes "\<And>m d. ok m \<Longrightarrow> exec lk P n (f d) m = map_option Inl (set_reg d v m)" and "stable k ok"
  shows "yields lk P L n k ok (\<lambda>pb. Some (emit_new f pb)) v"
proof -
  have "runs lk P L n k ok pb pb' d v"
    if g: "emit_new f pb = (pb', d)" "builder_ok pb" "realises P L pb'" for pb pb' d
  proof -
    have d: "d < bn_regs pb'" using g(1) by (auto simp: emit_new_def new_reg_def emit_def)
    have "\<exists>m'. frame_steps lk P n m m' \<and> pc m' = length (bcode pb') \<and> reg d m' = Some v \<and> same_upto (bn_regs pb) m m'"
      if m: "pc m = length (bcode pb)" "length (regs m) = n_regs P" "ok m" for m
    proof -
      have "exec lk P n (f d) (m\<lparr>pc := q\<rparr>) = map_option Inl (set_reg d v (m\<lparr>pc := q\<rparr>))" for q
        using stableD [OF assms(2) m(3), of k "m\<lparr>pc := q\<rparr>"] same_upto_refl by (intro assms(1)) simp
      then show ?thesis by (rule emit_new_step [OF g m(1,2)])
    qed
    then show ?thesis using d by (simp add: runs_def)
  qed
  then show ?thesis by (simp add: yields_def)
qed

lemma yields_bind:
  assumes "yields lk P L n k ok g a" and "tidy {} g" and "stable k ok"
    and "\<And>r k'. k \<le> k' \<Longrightarrow> r < k' \<Longrightarrow> yields lk P L n k' (\<lambda>m. ok m \<and> reg r m = Some a) (h r) v" and "\<And>r. tidy {} (h r)"
  shows "yields lk P L n k ok (\<lambda>pb. do { (pb, r) \<leftarrow> g pb; h r pb }) v"
  unfolding yields_def
proof (intro allI impI)
  fix pb pb' d
  assume e: "do { (pb, r) \<leftarrow> g pb; h r pb } = Some (pb', d)" and ok: "builder_ok pb" and k: "k \<le> bn_regs pb" and R: "realises P L pb'"
  obtain p1 r where s: "g pb = Some (p1, r)" "h r p1 = Some (pb', d)" using e by (auto simp: Option.bind_eq_Some_conv)
  have k1: "retains p1 pb'" using tidy_retains [OF assms(5) s(2) R] .
  have R1: "realises P L p1" by (rule realises_back [OF R k1])
  have k0: "retains pb p1" using tidy_retains [OF assms(2) s(1) R1] .
  have ok1: "builder_ok p1" by (rule retains_ok [OF k0 ok])
  note b = retains_regs [OF k0] retains_regs [OF k1]
  note A = yieldsD [OF assms(1) s(1) ok k R1]
  then have r: "r < bn_regs p1" by (simp add: runs_def)
  note B = yieldsD [OF assms(4) s(2) ok1 order_refl R]
  have B: "runs lk P L n (bn_regs p1) (\<lambda>m. ok m \<and> reg r m = Some a) p1 pb' d v" by (rule B) (use k b r in simp_all)
  have "\<exists>m'. frame_steps lk P n m m' \<and> pc m' = length (bcode pb') \<and> reg d m' = Some v \<and> same_upto (bn_regs pb) m m'"
    if m: "pc m = length (bcode pb)" "length (regs m) = n_regs P" "ok m" for m
  proof -
    obtain m1 where m1: "frame_steps lk P n m m1" "pc m1 = length (bcode p1)" "reg r m1 = Some a"
        "same_upto (bn_regs pb) m m1" "length (regs m1) = n_regs P" by (rule runsD [OF A m])
    have "ok m1" using stableD [OF assms(3) m(3) m1(4) k] .
    then obtain m2 where m2: "frame_steps lk P n m1 m2" "pc m2 = length (bcode pb')" "reg d m2 = Some v"
        "same_upto (bn_regs p1) m1 m2" using runsD [OF B m1(2,5)] m1(3) by blast
    show ?thesis using m2 rtranclp_trans [OF m1(1) m2(1)] same_upto_trans [OF m1(4) m2(4) b(1)] by blast
  qed
  then show "runs lk P L n k ok pb pb' d v" using B by (simp add: runs_def)
qed

end
