(* ===== verification/Gen_Cond.thy ===== *)
theory Gen_Cond
  imports Gen_Run
begin

text \<open>
  The code of the conditional operator: where its pieces lie in the program, and that it computes
  \<open>conditional\<close> of the values of the three operands, on each of its three paths.
\<close>

section \<open>Layout\<close>

text \<open>The builders between the pieces. The three paths start at \<open>ly_x\<close> for an unknown condition, \<open>ly_t\<close> for a true one, \<open>ly_f\<close> for a false one.\<close>

record Layout =
  ly_c :: ProgramBuilder
  ly_x :: ProgramBuilder
  ly_xt :: ProgramBuilder
  ly_xf :: ProgramBuilder
  ly_t :: ProgramBuilder
  ly_te :: ProgramBuilder
  ly_f :: ProgramBuilder
  ly_fe :: ProgramBuilder
  ly_cr :: Reg
  ly_kr :: Reg
  ly_tr :: Reg
  ly_fr :: Reg
  ly_vr :: Reg
  ly_ur :: Reg

definition code_layout :: "Program \<Rightarrow> Layout \<Rightarrow> ProgramBuilder \<Rightarrow> Reg \<Rightarrow> bool" where
  "code_layout P y pb' dst \<longleftrightarrow>
     at (pcode P) (length (bcode (ly_c y))) = Some (FlowI (BranchTrue (ly_cr y) (length (bcode (ly_t y))))) \<and>
     at (pcode P) (length (bcode (ly_c y)) + 1) = Some (AluI (IsKnown (ly_kr y) (ly_cr y))) \<and>
     at (pcode P) (length (bcode (ly_c y)) + 2) = Some (FlowI (BranchTrue (ly_kr y) (length (bcode (ly_f y))))) \<and>
     length (bcode (ly_x y)) = length (bcode (ly_c y)) + 3 \<and>
     at (pcode P) (length (bcode (ly_xf y))) = Some (AluI (Select dst (ly_cr y) (ly_tr y) (ly_fr y))) \<and>
     at (pcode P) (length (bcode (ly_xf y)) + 1) = Some (FlowI (Jump (length (bcode pb')))) \<and>
     at (pcode P) (length (bcode (ly_te y))) = Some (DataI (Mov dst (ly_vr y))) \<and>
     at (pcode P) (length (bcode (ly_te y)) + 1) = Some (FlowI (Jump (length (bcode pb')))) \<and>
     at (pcode P) (length (bcode (ly_fe y))) = Some (DataI (Mov dst (ly_ur y))) \<and>
     length (bcode pb') = length (bcode (ly_fe y)) + 1"

definition part_layout :: "Program \<Rightarrow> nat list \<Rightarrow> Reg gen \<Rightarrow> Reg gen \<Rightarrow> Reg gen \<Rightarrow> ProgramBuilder \<Rightarrow> Layout \<Rightarrow> bool" where
  "part_layout P L gc gt gf pb y \<longleftrightarrow>
     gc pb = Some (ly_c y, ly_cr y) \<and> realises P L (ly_c y) \<and>
     gt (ly_x y) = Some (ly_xt y, ly_tr y) \<and> realises P L (ly_xt y) \<and> builder_ok (ly_x y) \<and>
     gf (ly_xt y) = Some (ly_xf y, ly_fr y) \<and> realises P L (ly_xf y) \<and> builder_ok (ly_xt y) \<and>
     gt (ly_t y) = Some (ly_te y, ly_vr y) \<and> realises P L (ly_te y) \<and> builder_ok (ly_t y) \<and>
     gf (ly_f y) = Some (ly_fe y, ly_ur y) \<and> realises P L (ly_fe y) \<and> builder_ok (ly_f y)"

definition reg_layout :: "Program \<Rightarrow> Layout \<Rightarrow> ProgramBuilder \<Rightarrow> ProgramBuilder \<Rightarrow> Reg \<Rightarrow> bool" where
  "reg_layout P y pb pb' dst \<longleftrightarrow>
     bn_regs pb \<le> bn_regs (ly_c y) \<and> bn_regs (ly_c y) \<le> dst \<and> dst < ly_kr y \<and> ly_kr y < bn_regs (ly_x y) \<and> bn_regs (ly_x y) \<le> bn_regs (ly_xt y) \<and>
     bn_regs (ly_xt y) \<le> bn_regs (ly_t y) \<and> bn_regs (ly_t y) \<le> bn_regs (ly_f y) \<and> ly_kr y < n_regs P \<and> dst < bn_regs pb'"

lemma progress_unbound: "progress b0 T K U b \<Longrightarrow> l \<in> U \<Longrightarrow> length (bcode b) < u32_max \<Longrightarrow> labels b ! l = u32_max"
  by (auto simp: progress_def labels_kept_def)

lemma conditional_layout:
  assumes g: "gen_conditional gc gt gf pb = Some (pb', dst)" and t: "tidy {} gc" "tidy {} gt" "tidy {} gf"
    and ok: "builder_ok pb" and R: "realises P L pb'"
  shows "\<exists>y. part_layout P L gc gt gf pb y \<and> code_layout P y pb' dst \<and> reg_layout P y pb pb' dst"
proof -
  obtain q1 c where s1: "gc pb = Some (q1, c)" using g by (auto simp: gen_conditional_def gen_unfold)
  obtain q2 lt where l1: "new_label q1 = (q2, lt)" by fastforce
  obtain q3 lf where l2: "new_label q2 = (q3, lf)" by fastforce
  obtain q4 lx where l3: "new_label q3 = (q4, lx)" by fastforce
  obtain q5 d where r5: "new_reg q4 = (q5, d)" by fastforce
  let ?q6 = "branch_true c lt q5"
  obtain q7 kn where e7: "emit_new (\<lambda>known. AluI (IsKnown known c)) ?q6 = (q7, kn)" by fastforce
  let ?q8 = "branch_true kn lf q7"
  note eqs = s1 l1 l2 l3 r5 e7
  obtain q9 tt q10 ff q13 where s2: "gt ?q8 = Some (q9, tt)" "gf q9 = Some (q10, ff)"
      "bind_label lt (jump lx (emit (AluI (Select d c tt ff)) q10)) = Some q13"
    using g by (auto simp: gen_conditional_def eqs Option.bind_eq_Some_conv)
  let ?q12 = "jump lx (emit (AluI (Select d c tt ff)) q10)"
  obtain q14 v q17 where s3: "gt q13 = Some (q14, v)"
      "bind_label lf (jump lx (emit (DataI (Mov d v)) q14)) = Some q17"
    using g by (auto simp: gen_conditional_def eqs s2 Option.bind_eq_Some_conv)
  let ?q16 = "jump lx (emit (DataI (Mov d v)) q14)"
  obtain q18 u where s4: "gf q17 = Some (q18, u)" "bind_label lx (emit (DataI (Mov d u)) q18) = Some pb'" and d: "dst = d"
    using g by (auto simp: gen_conditional_def eqs s2 s3 Option.bind_eq_Some_conv)
  let ?q19 = "emit (DataI (Mov d u)) q18"
  note L1 = progress_label [OF tidyD [OF t(1) s1] l1]
  note L2 = progress_label [OF L1(1) l2]
  note L3 = progress_label [OF L2(1) l3]
  let ?K = "{lx, lf, lt}"
  have ne: "lt \<noteq> lf" "lt \<noteq> lx" "lf \<noteq> lx" using L2(2) L3(2) by auto
  note sub = progress_complete [OF t(2) [THEN tidyD]] progress_complete [OF t(3) [THEN tidyD]]
  have P5: "progress pb {} ?K ?K q5" using progress_steps(1) [OF L3(1)] r5 by (metis fst_conv)
  have P7: "progress pb {} ?K ?K q7"
    using progress_emit_new(1) [OF progress_jumps(3) [OF P5, of lt c], of "\<lambda>known. AluI (IsKnown known c)"] e7 by simp
  have P8: "progress pb {} ?K ?K ?q8" by (rule progress_jumps(3) [OF P7]) simp
  have P12: "progress pb {} ?K ?K ?q12"
    by (intro progress_jumps(1) progress_emit sub(2) [OF s2(2)] sub(1) [OF s2(1)] P8) simp_all
  have P13: "progress pb {} ?K (?K - {lt}) q13" by (rule progress_bind [OF P12 _ s2(3)]) simp
  have P16: "progress pb {} ?K (?K - {lt}) ?q16"
    by (intro progress_jumps(1) progress_emit sub(1) [OF s3(1)] P13) simp_all
  have P17: "progress pb {} ?K (?K - {lt} - {lf}) q17" by (rule progress_bind [OF P16 _ s3(2)]) (use ne in simp)
  have P19: "progress pb {} ?K (?K - {lt} - {lf}) ?q19" by (intro progress_emit sub(2) [OF s4(1)] P17) simp_all
  have bc: "bcode q2 = bcode q1" "bcode q3 = bcode q1" "bcode q4 = bcode q1" "bcode q5 = bcode q1"
    "bn_regs q4 = bn_regs q1" "bn_regs q5 = Suc d" "d = bn_regs q1"
    using l1 l2 l3 r5 by (auto simp: new_label_def new_reg_def)
  have k7: "kn = Suc d" "bcode q7 = bcode ?q6 @ [AluI (IsKnown kn c)]" "bn_regs q7 = Suc kn"
    using e7 bc(6) by (auto simp: emit_new_def new_reg_def emit_def branch_true_def emit_patched_def)
  have bcb: "bcode pb' = bcode ?q19" "bn_regs pb' = bn_regs ?q19" "bcode q17 = bcode ?q16" "bn_regs q17 = bn_regs ?q16"
      "bcode q13 = bcode ?q12" "bn_regs q13 = bn_regs ?q12"
    using s4(2) s3(2) s2(3) by (auto simp: bind_label_def split: if_splits)
  have "length (bcode ?q19) < u32_max" using realises_short [OF R] bcb(1) by simp
  then have k19: "retains ?q19 pb'" using ne by (intro bind_retains [OF s4(2)] progress_unbound [OF P19]) simp_all
  have R19: "realises P L ?q19" by (rule realises_back [OF R k19])
  have R18: "realises P L q18" by (rule realises_back [OF R19 emit_retains])
  have k17: "retains q17 q18" by (rule tidy_retains [OF t(3) s4(1) R18])
  have R17: "realises P L q17" by (rule realises_back [OF R18 k17])
  have "length (bcode ?q16) < u32_max" using realises_short [OF R17] bcb(3) by simp
  then have k16: "retains ?q16 q17" using ne by (intro bind_retains [OF s3(2)] progress_unbound [OF P16]) simp_all
  have R16: "realises P L ?q16" by (rule realises_back [OF R17 k16])
  have R15: "realises P L (emit (DataI (Mov d v)) q14)" by (rule realises_back [OF R16 emit_patched_retains(1)])
  have R14: "realises P L q14" by (rule realises_back [OF R15 emit_retains])
  have k13: "retains q13 q14" by (rule tidy_retains [OF t(2) s3(1) R14])
  have R13: "realises P L q13" by (rule realises_back [OF R14 k13])
  have "length (bcode ?q12) < u32_max" using realises_short [OF R13] bcb(5) by simp
  then have k12: "retains ?q12 q13" by (intro bind_retains [OF s2(3)] progress_unbound [OF P12]) simp_all
  have R12: "realises P L ?q12" by (rule realises_back [OF R13 k12])
  have R11: "realises P L (emit (AluI (Select d c tt ff)) q10)" by (rule realises_back [OF R12 emit_patched_retains(1)])
  have R10: "realises P L q10" by (rule realises_back [OF R11 emit_retains])
  have k9: "retains q9 q10" by (rule tidy_retains [OF t(3) s2(2) R10])
  have R9: "realises P L q9" by (rule realises_back [OF R10 k9])
  have k8: "retains ?q8 q9" by (rule tidy_retains [OF t(2) s2(1) R9])
  have R8: "realises P L ?q8" by (rule realises_back [OF R9 k8])
  have R7: "realises P L q7" by (rule realises_back [OF R8 emit_patched_retains(2)])
  have k6: "retains ?q6 q7" using emit_new_retains [of ?q6 "\<lambda>known. AluI (IsKnown known c)"] e7 by simp
  have R6: "realises P L ?q6" by (rule realises_back [OF R7 k6])
  have R5: "realises P L q5" by (rule realises_back [OF R6 emit_patched_retains(2)])
  have k1: "retains q1 q5"
    using retains_trans [OF retains_trans [OF retains_trans [OF new_label_retains new_label_retains] new_label_retains] plain_calls_retain(1), of q1] l1 l2 l3 r5
    by simp
  have R1: "realises P L q1" by (rule realises_back [OF R5 k1])
  have k0: "retains pb q1" by (rule tidy_retains [OF t(1) s1 R1])
  have o1: "builder_ok q1" by (rule retains_ok [OF k0 ok])
  have o5: "builder_ok q5" by (rule retains_ok [OF k1 o1])
  have o7: "builder_ok q7" by (rule retains_ok [OF k6 retains_ok [OF emit_patched_retains(2) o5]])
  have o8: "builder_ok ?q8" by (rule retains_ok [OF emit_patched_retains(2) o7])
  have o9: "builder_ok q9" by (rule retains_ok [OF k8 o8])
  have o10: "builder_ok q10" by (rule retains_ok [OF k9 o9])
  have o13: "builder_ok q13" by (rule retains_ok [OF k12 retains_ok [OF emit_patched_retains(1) retains_ok [OF emit_retains o10]]])
  have o14: "builder_ok q14" by (rule retains_ok [OF k13 o13])
  have o17: "builder_ok q17" by (rule retains_ok [OF k16 retains_ok [OF emit_patched_retains(1) retains_ok [OF emit_retains o14]]])
  have o18: "builder_ok q18" by (rule retains_ok [OF k17 o17])
  define y where "y = \<lparr>ly_c = q1, ly_x = ?q8, ly_xt = q9, ly_xf = q10, ly_t = q13, ly_te = q14, ly_f = q17, ly_fe = q18,
    ly_cr = c, ly_kr = kn, ly_tr = tt, ly_fr = ff, ly_vr = v, ly_ur = u\<rparr>"
  have ll: "L ! lt = length (bcode q13)" "L ! lf = length (bcode q17)" "L ! lx = length (bcode pb')"
    using realises_bind [OF R13 s2(3)] realises_bind [OF R17 s3(2)] realises_bind [OF R s4(2)] bcb by simp_all
  have ex: "emit (AluI (IsKnown kn c)) (fst (new_reg ?q6)) = q7"
    using e7 by (auto simp: emit_new_def new_reg_def)
  have "part_layout P L gc gt gf pb y"
    using s1 s2 s3 s4 R1 R9 R10 R14 R18 o8 o9 o13 o17 by (simp add: part_layout_def y_def)
  moreover have "code_layout P y pb' dst"
    using realises_jumps(2) [OF R6 o5] realises_jumps(2) [OF R8 o7] realises_emit [of P L "AluI (IsKnown kn c)" "fst (new_reg ?q6)"]
      R7 retains_ok [OF plain_calls_retain(1) retains_ok [OF emit_patched_retains(2) o5]]
      realises_emit [OF R11 o10] realises_jumps(1) [OF R12 retains_ok [OF emit_retains o10]]
      realises_emit [OF R15 o14] realises_jumps(1) [OF R16 retains_ok [OF emit_retains o14]] realises_emit [OF R19 o18]
    unfolding code_layout_def y_def d ll ex
    by (simp add: bc k7 bcb emit_def branch_true_def emit_patched_def jump_def new_reg_def)
  moreover have "reg_layout P y pb pb' dst"
    using retains_regs [OF k0] retains_regs [OF k8] retains_regs [OF k9] retains_regs [OF k13] retains_regs [OF k17] R7
    by (simp add: reg_layout_def y_def d bc k7 bcb emit_def branch_true_def emit_patched_def jump_def realises_def)
  ultimately show ?thesis by blast
qed

section \<open>Steps\<close>

lemma step_branch:
  assumes "at (pcode P) (pc m) = Some (FlowI (BranchTrue c t))" and "reg c m = Some v"
  shows "frame_step lk P n m (m\<lparr>pc := if value_truthy v then t else pc m + 1\<rparr>)"
  using assms by (intro frame_step.intros [OF assms(1)]) (simp add: exec_def exec_flow_def branch_if_def reg_def)

lemma step_jump: "at (pcode P) (pc m) = Some (FlowI (Jump t)) \<Longrightarrow> frame_step lk P n m (m\<lparr>pc := t\<rparr>)"
  by (rule frame_step.intros, assumption) (simp add: exec_def exec_flow_def)

text \<open>An instruction that writes the register \<open>d\<close>.\<close>

lemma step_write:
  assumes "at (pcode P) (pc m) = Some i" and "d < length (regs m)" and "k \<le> d"
    and "\<And>q. exec lk P n i (m\<lparr>pc := q\<rparr>) = map_option Inl (set_reg d v (m\<lparr>pc := q\<rparr>))"
  obtains m' where "frame_step lk P n m m'" "pc m' = pc m + 1" "reg d m' = Some v" "same_upto k m m'"
proof -
  obtain m' where m': "set_reg d v (m\<lparr>pc := pc m + 1\<rparr>) = Some m'"
    using set_reg_in [of d "m\<lparr>pc := pc m + 1\<rparr>"] assms(2) by auto
  have "frame_step lk P n m m'" using m' by (intro frame_step.intros [OF assms(1)]) (simp add: assms(4))
  then show thesis using set_reg_same [OF m' assms(3)] that by simp
qed

lemma conditional_pick:
  assumes "width t = width f"
  shows "is_true c \<Longrightarrow> conditional c t f = t" and "\<not> is_true c \<Longrightarrow> is_known c \<Longrightarrow> conditional c t f = f"
  using assms resize_same [of t False] resize_same [of f False] by (simp_all add: conditional_def)

lemma is_true_one [simp]: "is_true (one b) = b"
  by (cases b) (auto simp: one_def is_true_iff get_bit_from_u64)

section \<open>The three paths\<close>

text \<open>The end of a path: the result goes into the register of the conditional, and the code goes on behind it.\<close>

lemma finish_move:
  assumes "at (pcode P) (pc m) = Some (DataI (Mov dst r))" and "reg r m = Some v" and "dst < length (regs m)" and "k \<le> dst"
  obtains m' where "frame_step lk P n m m'" "pc m' = pc m + 1" "reg dst m' = Some v" "same_upto k m m'"
  by (rule step_write [OF assms(1,3,4)]) (use assms(2) in \<open>auto simp: exec_def exec_data_def reg_def\<close>)

lemma finish_select:
  assumes "at (pcode P) (pc m) = Some (AluI (Select dst c t f))" and "reg c m = Some (Logic C)" and "reg t m = Some (Logic T)"
    and "reg f m = Some (Logic F)" and "dst < length (regs m)" and "k \<le> dst"
  obtains m' where "frame_step lk P n m m'" "pc m' = pc m + 1" "reg dst m' = Some (Logic (conditional C T F))" "same_upto k m m'"
  by (rule step_write [OF assms(1,5,6)])
    (use assms(2-4) in \<open>auto simp: exec_def exec_alu_def reg_def lreg_def logic_reg_def as_logic_def\<close>)

lemma step_known:
  assumes "at (pcode P) (pc m) = Some (AluI (IsKnown d c))" and "reg c m = Some (Logic C)" and "d < length (regs m)" and "k \<le> d"
  obtains m' where "frame_step lk P n m m'" "pc m' = pc m + 1" "reg d m' = Some (Logic (one (is_known C)))" "same_upto k m m'"
  by (rule step_write [OF assms(1,3,4)]) (use assms(2) in \<open>auto simp: exec_def exec_alu_def reg_def\<close>)

text \<open>The operand, then the move.\<close>

lemma move_path:
  assumes "runs lk P L n k ok b e r v" and "at (pcode P) (length (bcode e)) = Some (DataI (Mov dst r))" and "stable k ok"
    and "ok m" and "length (regs m) = n_regs P" and "j \<le> dst" and "j \<le> bn_regs b" and "dst < n_regs P"
  obtains m' where "frame_steps lk P n (m\<lparr>pc := length (bcode b)\<rparr>) m'" "pc m' = length (bcode e) + 1" "reg dst m' = Some v"
    "same_upto j m m'"
proof -
  have ok: "ok (m\<lparr>pc := length (bcode b)\<rparr>)"
    by (rule stableD [OF assms(3,4), of k]) (simp_all add: same_upto_refl)
  obtain m1 where m1: "frame_steps lk P n (m\<lparr>pc := length (bcode b)\<rparr>) m1" "pc m1 = length (bcode e)" "reg r m1 = Some v"
      "same_upto (bn_regs b) m m1" "length (regs m1) = n_regs P"
    using runsD [OF assms(1), of "m\<lparr>pc := length (bcode b)\<rparr>"] ok assms(5) by auto
  obtain m2 where m2: "frame_step lk P n m1 m2" "pc m2 = pc m1 + 1" "reg dst m2 = Some v" "same_upto j m1 m2"
    using finish_move [of P m1 dst r v j lk n] assms(2,6,8) m1 by auto
  have "same_upto j m m1" using m1(4) assms(7) by (auto simp: same_upto_def)
  then have "same_upto j m m2" using m2(4) same_upto_trans by blast
  moreover have "frame_steps lk P n (m\<lparr>pc := length (bcode b)\<rparr>) m2" using m1(1) m2(1) by (rule rtranclp.rtrancl_into_rtrancl)
  ultimately show thesis using that m1(2) m2(2,3) by simp
qed

lemma yields_conditional:
  assumes Y: "yields lk P L n k ok gc (Logic C)" "yields lk P L n k ok gt (Logic T)" "yields lk P L n k ok gf (Logic F)"
    and t: "tidy {} gc" "tidy {} gt" "tidy {} gf" and st: "stable k ok" and w: "width T = width F"
  shows "yields lk P L n k ok (gen_conditional gc gt gf) (Logic (conditional C T F))"
  unfolding yields_def
proof (intro allI impI)
  fix pb pb' dst
  assume g: "gen_conditional gc gt gf pb = Some (pb', dst)" and bok: "builder_ok pb" and k: "k \<le> bn_regs pb" and R: "realises P L pb'"
  obtain y where y: "part_layout P L gc gt gf pb y" "code_layout P y pb' dst" "reg_layout P y pb pb' dst"
    using conditional_layout [OF g t bok R] by blast
  note part = y(1) [unfolded part_layout_def] and code = y(2) [unfolded code_layout_def] and regs = y(3) [unfolded reg_layout_def]
  have rc: "runs lk P L n k ok pb (ly_c y) (ly_cr y) (Logic C)" using yieldsD [OF Y(1)] part bok k by blast
  have rx: "runs lk P L n k ok (ly_x y) (ly_xt y) (ly_tr y) (Logic T)" using part regs k by (intro yieldsD [OF Y(2)]) auto
  have rf: "runs lk P L n k ok (ly_xt y) (ly_xf y) (ly_fr y) (Logic F)" using part regs k by (intro yieldsD [OF Y(3)]) auto
  have rt: "runs lk P L n k ok (ly_t y) (ly_te y) (ly_vr y) (Logic T)" using part regs k by (intro yieldsD [OF Y(2)]) auto
  have ru: "runs lk P L n k ok (ly_f y) (ly_fe y) (ly_ur y) (Logic F)" using part regs k by (intro yieldsD [OF Y(3)]) auto
  let ?goal = "\<lambda>m m'. frame_steps lk P n m m' \<and> pc m' = length (bcode pb') \<and> reg dst m' = Some (Logic (conditional C T F)) \<and>
      same_upto (bn_regs pb) m m'"
  have "\<exists>m'. ?goal m m'" if m: "pc m = length (bcode pb)" "length (regs m) = n_regs P" "ok m" for m
  proof -
    obtain m1 where m1: "frame_steps lk P n m m1" "pc m1 = length (bcode (ly_c y))" "reg (ly_cr y) m1 = Some (Logic C)"
        "same_upto (bn_regs pb) m m1" "length (regs m1) = n_regs P" by (rule runsD [OF rc m])
    have ok1: "ok m1" by (rule stableD [OF st m(3) m1(4) k])
    have c_in: "ly_cr y < bn_regs (ly_c y)" using rc by (simp add: runs_def)
    show ?thesis
    proof (cases "is_true C")
      case True
      then have b: "frame_step lk P n m1 (m1\<lparr>pc := length (bcode (ly_t y))\<rparr>)"
        using step_branch [of P m1 "ly_cr y" _ "Logic C"] m1(2,3) code by simp
      obtain m2 where m2: "frame_steps lk P n (m1\<lparr>pc := length (bcode (ly_t y))\<rparr>) m2" "pc m2 = length (bcode (ly_te y)) + 1"
          "reg dst m2 = Some (Logic T)" "same_upto (bn_regs pb) m1 m2"
        by (rule move_path [OF rt _ st ok1 m1(5), of dst "bn_regs pb"]) (use code regs in auto)
      have j: "frame_step lk P n m2 (m2\<lparr>pc := length (bcode pb')\<rparr>)" using m2(2) code by (intro step_jump) simp
      have "frame_steps lk P n m (m2\<lparr>pc := length (bcode pb')\<rparr>)"
        using m1(1) b m2(1) j by (meson rtranclp.rtrancl_into_rtrancl rtranclp_trans)
      then show ?thesis
        using m2(3) same_upto_trans [OF m1(4) m2(4)] conditional_pick(1) [OF w True]
        by (intro exI [of _ "m2\<lparr>pc := length (bcode pb')\<rparr>"]) (simp add: reg_def)
    next
      case False
      let ?m2 = "m1\<lparr>pc := length (bcode (ly_c y)) + 1\<rparr>"
      have b: "frame_step lk P n m1 ?m2" using step_branch [of P m1 "ly_cr y" _ "Logic C"] m1(2,3) code False by simp
      obtain m3 where m3: "frame_step lk P n ?m2 m3" "pc m3 = pc ?m2 + 1" "reg (ly_kr y) m3 = Some (Logic (one (is_known C)))"
          "same_upto (bn_regs (ly_c y)) ?m2 m3"
        by (rule step_known [of P ?m2 "ly_kr y" "ly_cr y" C "bn_regs (ly_c y)"]) (use code regs m1(3,5) in \<open>auto simp: reg_def\<close>)
      have s3: "frame_steps lk P n m m3" using m1(1) b m3(1) by (meson rtranclp.rtrancl_into_rtrancl)
      have u3: "same_upto (bn_regs pb) m m3" using same_upto_trans [OF m1(4), of "bn_regs (ly_c y)" m3] m3(4) regs by simp
      have ok3: "ok m3" by (rule stableD [OF st m(3) u3 k])
      have n3: "length (regs m3) = n_regs P" using m3(4) m1(5) by (simp add: same_upto_def)
      have c3: "reg (ly_cr y) m3 = Some (Logic C)" using m3(4) c_in m1(3) by (simp add: same_upto_def reg_def)
      have p3: "pc m3 = length (bcode (ly_c y)) + 2" using m3(2) by simp
      show ?thesis
      proof (cases "is_known C")
        case True
        then have b2: "frame_step lk P n m3 (m3\<lparr>pc := length (bcode (ly_f y))\<rparr>)"
          using step_branch [of P m3 "ly_kr y" _ "Logic (one (is_known C))"] p3 m3(3) code by simp
        obtain m4 where m4: "frame_steps lk P n (m3\<lparr>pc := length (bcode (ly_f y))\<rparr>) m4" "pc m4 = length (bcode (ly_fe y)) + 1"
            "reg dst m4 = Some (Logic F)" "same_upto (bn_regs pb) m3 m4"
          by (rule move_path [OF ru _ st ok3 n3, of dst "bn_regs pb"]) (use code regs in auto)
        have "frame_steps lk P n m m4" using s3 b2 m4(1) by (meson rtranclp.rtrancl_into_rtrancl rtranclp_trans)
        then show ?thesis
          using m4 code same_upto_trans [OF u3 m4(4)] conditional_pick(2) [OF w False True]
          by (intro exI [of _ m4]) simp
      next
        case unknown: False
        let ?m4 = "m3\<lparr>pc := length (bcode (ly_x y))\<rparr>"
        have b2: "frame_step lk P n m3 ?m4"
          using step_branch [of P m3 "ly_kr y" _ "Logic (one (is_known C))"] p3 m3(3) code unknown by (simp add: eval_nat_numeral)
        have ok4: "ok ?m4" by (rule stableD [OF st ok3, of k]) (simp_all add: same_upto_refl)
        obtain m5 where m5: "frame_steps lk P n ?m4 m5" "pc m5 = length (bcode (ly_xt y))" "reg (ly_tr y) m5 = Some (Logic T)"
            "same_upto (bn_regs (ly_x y)) ?m4 m5" "length (regs m5) = n_regs P"
          using runsD [OF rx, of ?m4] ok4 n3 by auto
        have ok5: "ok m5" by (rule stableD [OF st ok4 m5(4)]) (use k regs in simp)
        obtain m6 where m6: "frame_steps lk P n m5 m6" "pc m6 = length (bcode (ly_xf y))" "reg (ly_fr y) m6 = Some (Logic F)"
            "same_upto (bn_regs (ly_xt y)) m5 m6" "length (regs m6) = n_regs P"
          by (rule runsD [OF rf m5(2,5) ok5])
        have t_in: "ly_tr y < bn_regs (ly_xt y)" using rx by (simp add: runs_def)
        have u6: "same_upto (bn_regs (ly_x y)) m3 m6" using same_upto_trans [OF m5(4) m6(4)] regs by simp
        have v6: "reg (ly_cr y) m6 = Some (Logic C)" "reg (ly_tr y) m6 = Some (Logic T)"
          using u6 c3 c_in m6(4) t_in m5(3) regs by (simp_all add: same_upto_def)
        obtain m7 where m7: "frame_step lk P n m6 m7" "pc m7 = pc m6 + 1" "reg dst m7 = Some (Logic (conditional C T F))"
            "same_upto (bn_regs pb) m6 m7"
          by (rule finish_select [of P m6 dst "ly_cr y" "ly_tr y" "ly_fr y" C T F "bn_regs pb"])
            (use code regs m6 v6 in auto)
        have j: "frame_step lk P n m7 (m7\<lparr>pc := length (bcode pb')\<rparr>)" using m7(2) m6(2) code by (intro step_jump) simp
        have "frame_steps lk P n m (m7\<lparr>pc := length (bcode pb')\<rparr>)"
          using s3 b2 m5(1) m6(1) m7(1) j by (meson rtranclp.rtrancl_into_rtrancl rtranclp_trans)
        moreover have "same_upto (bn_regs pb) m m7"
          using same_upto_trans [OF same_upto_trans [OF u3 u6] m7(4)] regs by simp
        ultimately show ?thesis using m7(3) by (intro exI [of _ "m7\<lparr>pc := length (bcode pb')\<rparr>"]) (simp add: reg_def)
      qed
    qed
  qed
  then show "runs lk P L n k ok pb pb' dst (Logic (conditional C T F))" using regs by (simp add: runs_def)
qed

end
