(* ===== verification/Lrm.thy ===== *)
theory Lrm
  imports Gen_Width IR_Typing
begin

text \<open>
  The meaning of an expression. The width and the signedness an expression has by itself are those of the
  language reference manual (IEEE 1800, 11.6 to 11.8), and so is the context of width and signedness that
  passes down to the operands it determines. Two functions give the value in a context:

  \<^item> \<open>ctx_value\<close> takes the operators, the extension and the selection from \<open>LogicVec\<close> as the simulator has
    them. The proofs about generated code are against it.
  \<^item> \<open>lrm\<close> is the value the manual gives. It is undefined where an operation of the simulator departs from
    the manual, so where it is defined the two are the same (lemma \<open>lrm_value\<close>): the selection of a z bit,
    a selection by a negative index, a signed extension or shift of a sign bit z, a conditional with an
    unknown condition whose branches share a z, an equality that known bits decide although others are
    unknown, a unary plus of an unknown operand, an unknown shift amount, and an unknown operand of a
    logical operator.

  A variable has its bits numbered from 0 at the right, as the generator's tables keep the width only.
  Calls, concatenations and class members are left out.
\<close>

section \<open>Operators\<close>

definition context_unary :: "UnaryOp set" where
  "context_unary = {UnaryOp.BitNot, UnaryOp.Neg, UnaryOp.Plus}"

definition arithmetic :: "BinOp set" where
  "arithmetic = {BinOp.Add, BinOp.Sub, BinOp.Mul, BinOp.And, BinOp.Or, BinOp.Xor}"

definition shifts :: "BinOp set" where
  "shifts = {BinOp.Shl, BinOp.Shr, BinOp.Sar}"

definition comparisons :: "BinOp set" where
  "comparisons = {BinOp.Eq, BinOp.Neq, BinOp.Lt, BinOp.Gt, BinOp.Le, BinOp.Ge}"

lemmas op_sets = context_unary_def arithmetic_def shifts_def comparisons_def

lemma op_sets_disjoint:
  "op \<in> shifts \<Longrightarrow> op \<notin> arithmetic" "op \<in> comparisons \<Longrightarrow> op \<notin> arithmetic" "op \<in> comparisons \<Longrightarrow> op \<notin> shifts"
  by (auto simp: op_sets)

definition unary_value :: "UnaryOp \<Rightarrow> LogicVec \<Rightarrow> LogicVec" where
  "unary_value op x =
     (case op of
        UnaryOp.BitNot \<Rightarrow> bitnot x
      | UnaryOp.LogNot \<Rightarrow> lognot x
      | UnaryOp.Neg \<Rightarrow> neg x
      | UnaryOp.Plus \<Rightarrow> x
      | UnaryOp.ReduceAnd \<Rightarrow> from_bit (reduce_and x)
      | UnaryOp.ReduceOr \<Rightarrow> from_bit (reduce_or x)
      | UnaryOp.ReduceXor \<Rightarrow> from_bit (reduce_xor x))"

text \<open>The amount of a shift, read from a known operand.\<close>

definition shift_amount :: "LogicVec \<Rightarrow> LogicVec \<Rightarrow> nat option" where
  "shift_amount x y =
     (if is_known y \<and> width y \<le> 32 \<and> unat (to_u64 y) + width x < 2 ^ 32 then Some (unat (to_u64 y)) else None)"

definition truth_value :: "LogicVec \<Rightarrow> bool option" where
  "truth_value x = (if is_true x then Some True else if is_known x then Some False else None)"

definition binary_value :: "BinOp \<Rightarrow> bool \<Rightarrow> LogicVec \<Rightarrow> LogicVec \<Rightarrow> LogicVec option" where
  "binary_value op sg x y =
     (case op of
        BinOp.Add \<Rightarrow> Some (add x y)
      | BinOp.Sub \<Rightarrow> Some (sub x y)
      | BinOp.Mul \<Rightarrow> mul x y
      | BinOp.And \<Rightarrow> Some (bitand x y)
      | BinOp.Or \<Rightarrow> Some (bitor x y)
      | BinOp.Xor \<Rightarrow> Some (bitxor x y)
      | BinOp.Eq \<Rightarrow> Some (eq_logical x y)
      | BinOp.Neq \<Rightarrow> Some (lognot (eq_logical x y))
      | BinOp.Lt \<Rightarrow> Some (if sg then slt x y else ult x y)
      | BinOp.Gt \<Rightarrow> Some (if sg then sgt x y else ugt x y)
      | BinOp.Le \<Rightarrow> Some (if sg then sle x y else ule x y)
      | BinOp.Ge \<Rightarrow> Some (if sg then sge x y else uge x y)
      | BinOp.Shl \<Rightarrow> map_option (shl x) (shift_amount x y)
      | BinOp.Shr \<Rightarrow> map_option (shr x) (shift_amount x y)
      | BinOp.Sar \<Rightarrow> map_option (if sg then ashr x else shr x) (shift_amount x y)
      | BinOp.LogAnd \<Rightarrow> do { a \<leftarrow> truth_value x; b \<leftarrow> truth_value y; Some (one (a \<and> b)) }
      | BinOp.LogOr \<Rightarrow> do { a \<leftarrow> truth_value x; b \<leftarrow> truth_value y; Some (one (a \<or> b)) })"

text \<open>The selection of the simulator reads a bit z as x.\<close>

definition selected_bit :: "LogicVec \<Rightarrow> LogicVec \<Rightarrow> LogicVec" where
  "selected_bit x i =
     (if is_known i \<and> unat (to_u64 i) < width x then from_bit (get_bit x (unat (to_u64 i))) else all_x 1)"

section \<open>Width, signedness and value\<close>

text \<open>The variables: whether they are signed, and their values.\<close>

type_synonym Scope = "string \<rightharpoonup> bool \<times> LogicVec"

definition literal_bounds :: "Expr \<Rightarrow> Expr \<Rightarrow> (nat \<times> nat) option" where
  "literal_bounds l r =
     (case (literal_value l, literal_value r) of
        (Some a, Some b) \<Rightarrow> Some (unat (to_u64 a), unat (to_u64 b))
      | _ \<Rightarrow> None)"

fun lrm_width :: "Scope \<Rightarrow> Expr \<Rightarrow> nat" where
  "lrm_width sc (Expr.Literal v) = width v"
| "lrm_width sc (Expr.SignedLiteral v) = width v"
| "lrm_width sc (Expr.Ref n) = (case sc n of Some (_, v) \<Rightarrow> width v | None \<Rightarrow> 1)"
| "lrm_width sc (Expr.Unary op a) = (if op \<in> context_unary then lrm_width sc a else 1)"
| "lrm_width sc (Expr.Binary op l r) =
     (if op \<in> arithmetic then max (lrm_width sc l) (lrm_width sc r)
      else if op \<in> shifts then lrm_width sc l
      else 1)"
| "lrm_width sc (Expr.Conditional _ t f) = max (lrm_width sc t) (lrm_width sc f)"
| "lrm_width sc (Expr.PartSelect _ l r) = (case literal_bounds l r of Some (a, b) \<Rightarrow> a - b + 1 | None \<Rightarrow> 1)"
| "lrm_width sc _ = 1"

fun lrm_signed :: "Scope \<Rightarrow> Expr \<Rightarrow> bool" where
  "lrm_signed sc (Expr.SignedLiteral _) \<longleftrightarrow> True"
| "lrm_signed sc (Expr.Ref n) \<longleftrightarrow> (case sc n of Some (sg, _) \<Rightarrow> sg | None \<Rightarrow> False)"
| "lrm_signed sc (Expr.Unary op a) \<longleftrightarrow> op \<in> context_unary \<and> lrm_signed sc a"
| "lrm_signed sc (Expr.Binary op l r) \<longleftrightarrow>
     (if op \<in> arithmetic then lrm_signed sc l \<and> lrm_signed sc r else op \<in> shifts \<and> lrm_signed sc l)"
| "lrm_signed sc (Expr.Conditional _ t f) \<longleftrightarrow> lrm_signed sc t \<and> lrm_signed sc f"
| "lrm_signed sc _ \<longleftrightarrow> False"

text \<open>
  The value in a context of width \<open>w\<close> and signedness \<open>sg\<close>. An operand that stands by itself is evaluated
  in its own width and signedness, and a one-bit or selected result is extended with zeros.
\<close>

fun ctx_value :: "Scope \<Rightarrow> Expr \<Rightarrow> nat \<Rightarrow> bool \<Rightarrow> LogicVec option" where
  "ctx_value sc (Expr.Literal v) w sg = Some (resize v w sg)"
| "ctx_value sc (Expr.SignedLiteral v) w sg = Some (resize v w sg)"
| "ctx_value sc (Expr.Fill b) w sg = Some (filled b w)"
| "ctx_value sc (Expr.Ref n) w sg = map_option (\<lambda>(_, v). resize v w sg) (sc n)"
| "ctx_value sc (Expr.Unary op a) w sg =
     (if op \<in> context_unary then map_option (unary_value op) (ctx_value sc a w sg)
      else map_option (\<lambda>x. resize (unary_value op x) w False) (ctx_value sc a (lrm_width sc a) (lrm_signed sc a)))"
| "ctx_value sc (Expr.Binary op l r) w sg =
     (if op \<in> arithmetic then
        do { x \<leftarrow> ctx_value sc l w sg; y \<leftarrow> ctx_value sc r w sg; binary_value op sg x y }
      else if op \<in> shifts then
        do { x \<leftarrow> ctx_value sc l w sg; y \<leftarrow> ctx_value sc r (lrm_width sc r) (lrm_signed sc r); binary_value op sg x y }
      else if op \<in> comparisons then
        do { let cw = max (lrm_width sc l) (lrm_width sc r);
             let cs = (lrm_signed sc l \<and> lrm_signed sc r);
             x \<leftarrow> ctx_value sc l cw cs; y \<leftarrow> ctx_value sc r cw cs;
             v \<leftarrow> binary_value op cs x y;
             Some (resize v w False) }
      else
        do { x \<leftarrow> ctx_value sc l (lrm_width sc l) (lrm_signed sc l); y \<leftarrow> ctx_value sc r (lrm_width sc r) (lrm_signed sc r);
             v \<leftarrow> binary_value op False x y;
             Some (resize v w False) })"
| "ctx_value sc (Expr.Conditional c t f) w sg =
     do { x \<leftarrow> ctx_value sc c (lrm_width sc c) (lrm_signed sc c);
          y \<leftarrow> ctx_value sc t w sg; z \<leftarrow> ctx_value sc f w sg;
          Some (conditional x y z) }"
| "ctx_value sc (Expr.Index a i) w sg =
     do { x \<leftarrow> ctx_value sc a (lrm_width sc a) (lrm_signed sc a);
          j \<leftarrow> ctx_value sc i (lrm_width sc i) (lrm_signed sc i);
          Some (resize (selected_bit x j) w False) }"
| "ctx_value sc (Expr.PartSelect a l r) w sg =
     do { x \<leftarrow> ctx_value sc a (lrm_width sc a) (lrm_signed sc a);
          (hi, lo) \<leftarrow> literal_bounds l r;
          Some (resize (slice x hi lo) w False) }"
| "ctx_value sc _ w sg = None"

text \<open>An assignment to a target of width \<open>w\<close> extends the expression to the wider of the two and cuts the result.\<close>

definition assigned_value :: "Scope \<Rightarrow> Expr \<Rightarrow> nat \<Rightarrow> LogicVec option" where
  "assigned_value sc e w =
     map_option (\<lambda>v. resize v w (lrm_signed sc e)) (ctx_value sc e (max w (lrm_width sc e)) (lrm_signed sc e))"

section \<open>The value of the manual\<close>

text \<open>
  The operations of the manual, undefined where those of \<open>LogicVec\<close> differ: on a sign bit z, which the
  manual extends and shifts in as z; on equalities that a pair of known bits decides; on unary plus, which
  gives x for an unknown operand; on a z in both branches of an undecided conditional, which the manual
  merges to x; on a z bit selected and on a negative index, which selects nothing.
\<close>

definition sign_z :: "LogicVec \<Rightarrow> bool" where
  "sign_z v \<longleftrightarrow> get_bit v (width v - 1) = Z"

definition lrm_extend :: "LogicVec \<Rightarrow> nat \<Rightarrow> bool \<Rightarrow> LogicVec option" where
  "lrm_extend v w sg = (if sg \<and> width v < w \<and> sign_z v then None else Some (resize v w sg))"

definition lrm_unary :: "UnaryOp \<Rightarrow> LogicVec \<Rightarrow> LogicVec option" where
  "lrm_unary op x = (if op = UnaryOp.Plus \<and> \<not> is_known x then None else Some (unary_value op x))"

definition decided :: "LogicVec \<Rightarrow> LogicVec \<Rightarrow> bool" where
  "decided x y \<longleftrightarrow> list_ex (\<lambda>i. {get_bit x i, get_bit y i} = {Zero, One}) [0..<width x]"

definition lrm_binary :: "BinOp \<Rightarrow> bool \<Rightarrow> LogicVec \<Rightarrow> LogicVec \<Rightarrow> LogicVec option" where
  "lrm_binary op sg x y =
     (if op \<in> {BinOp.Eq, BinOp.Neq} \<and> \<not> (is_known x \<and> is_known y) \<and> decided x y then None
      else if op = BinOp.Sar \<and> sg \<and> sign_z x then None
      else binary_value op sg x y)"

definition lrm_conditional :: "LogicVec \<Rightarrow> LogicVec \<Rightarrow> LogicVec \<Rightarrow> LogicVec option" where
  "lrm_conditional c x y =
     (if \<not> is_true c \<and> \<not> is_known c \<and> list_ex (\<lambda>i. get_bit x i = Z \<and> get_bit y i = Z) [0..<width x] then None
      else Some (conditional c x y))"

definition lrm_select :: "LogicVec \<Rightarrow> bool \<Rightarrow> LogicVec \<Rightarrow> LogicVec option" where
  "lrm_select x sg j =
     (if \<not> is_known j then Some (all_x 1)
      else if 64 < width j \<or> sg \<and> get_bit j (width j - 1) = One then None
      else if width x \<le> unat (to_u64 j) then Some (all_x 1)
      else if get_bit x (unat (to_u64 j)) = Z then None
      else Some (from_bit (get_bit x (unat (to_u64 j)))))"

lemmas lrm_defs = lrm_extend_def lrm_unary_def lrm_binary_def lrm_conditional_def lrm_select_def

fun lrm :: "Scope \<Rightarrow> Expr \<Rightarrow> nat \<Rightarrow> bool \<Rightarrow> LogicVec option" where
  "lrm sc (Expr.Literal v) w sg = lrm_extend v w sg"
| "lrm sc (Expr.SignedLiteral v) w sg = lrm_extend v w sg"
| "lrm sc (Expr.Fill b) w sg = Some (filled b w)"
| "lrm sc (Expr.Ref n) w sg = do { (_, v) \<leftarrow> sc n; lrm_extend v w sg }"
| "lrm sc (Expr.Unary op a) w sg =
     (if op \<in> context_unary then do { x \<leftarrow> lrm sc a w sg; lrm_unary op x }
      else do { x \<leftarrow> lrm sc a (lrm_width sc a) (lrm_signed sc a); v \<leftarrow> lrm_unary op x; Some (resize v w False) })"
| "lrm sc (Expr.Binary op l r) w sg =
     (if op \<in> arithmetic then
        do { x \<leftarrow> lrm sc l w sg; y \<leftarrow> lrm sc r w sg; lrm_binary op sg x y }
      else if op \<in> shifts then
        do { x \<leftarrow> lrm sc l w sg; y \<leftarrow> lrm sc r (lrm_width sc r) (lrm_signed sc r); lrm_binary op sg x y }
      else if op \<in> comparisons then
        do { let cw = max (lrm_width sc l) (lrm_width sc r);
             let cs = (lrm_signed sc l \<and> lrm_signed sc r);
             x \<leftarrow> lrm sc l cw cs; y \<leftarrow> lrm sc r cw cs;
             v \<leftarrow> lrm_binary op cs x y;
             Some (resize v w False) }
      else
        do { x \<leftarrow> lrm sc l (lrm_width sc l) (lrm_signed sc l); y \<leftarrow> lrm sc r (lrm_width sc r) (lrm_signed sc r);
             v \<leftarrow> lrm_binary op False x y;
             Some (resize v w False) })"
| "lrm sc (Expr.Conditional c t f) w sg =
     do { x \<leftarrow> lrm sc c (lrm_width sc c) (lrm_signed sc c);
          y \<leftarrow> lrm sc t w sg; z \<leftarrow> lrm sc f w sg;
          lrm_conditional x y z }"
| "lrm sc (Expr.Index a i) w sg =
     do { x \<leftarrow> lrm sc a (lrm_width sc a) (lrm_signed sc a);
          j \<leftarrow> lrm sc i (lrm_width sc i) (lrm_signed sc i);
          b \<leftarrow> lrm_select x (lrm_signed sc i) j;
          Some (resize b w False) }"
| "lrm sc (Expr.PartSelect a l r) w sg =
     do { x \<leftarrow> lrm sc a (lrm_width sc a) (lrm_signed sc a);
          (hi, lo) \<leftarrow> literal_bounds l r;
          Some (resize (slice x hi lo) w False) }"
| "lrm sc _ w sg = None"

definition lrm_assigned :: "Scope \<Rightarrow> Expr \<Rightarrow> nat \<Rightarrow> LogicVec option" where
  "lrm_assigned sc e w =
     map_option (\<lambda>v. resize v w (lrm_signed sc e)) (lrm sc e (max w (lrm_width sc e)) (lrm_signed sc e))"

text \<open>Where the manual's value is defined, the simulator's operators give it.\<close>

lemma lrm_operations:
  "lrm_extend v w sg = Some u \<Longrightarrow> u = resize v w sg"
  "lrm_unary op x = Some u \<Longrightarrow> u = unary_value op x"
  "lrm_binary bop sg x y = Some u \<Longrightarrow> binary_value bop sg x y = Some u"
  "lrm_conditional x y z = Some u \<Longrightarrow> u = conditional x y z"
  "lrm_select x sg j = Some u \<Longrightarrow> u = selected_bit x j"
  by (auto simp: lrm_defs selected_bit_def split: if_splits)

lemma lrm_value: "lrm sc e w sg = Some v \<Longrightarrow> ctx_value sc e w sg = Some v"
proof (induction e arbitrary: w sg v)
  case (Unary op a)
  then show ?case by (cases "op \<in> context_unary") (fastforce simp: Option.bind_eq_Some_conv dest: lrm_operations(2))+
next
  case (Binary op l r)
  then show ?case
    by (cases "op \<in> arithmetic"; cases "op \<in> shifts"; cases "op \<in> comparisons")
      (fastforce simp: Option.bind_eq_Some_conv Let_def dest: lrm_operations(3))+
next
  case (Conditional c t f)
  then show ?case by (fastforce simp: Option.bind_eq_Some_conv dest: lrm_operations(4))
next
  case (Index a i)
  then show ?case by (fastforce simp: Option.bind_eq_Some_conv dest: lrm_operations(5))
next
  case (PartSelect a l r)
  then show ?case by (fastforce simp: Option.bind_eq_Some_conv)
qed (auto simp: Option.bind_eq_Some_conv dest: lrm_operations(1))

lemma lrm_assigned_value: "lrm_assigned sc e w = Some v \<Longrightarrow> assigned_value sc e w = Some v"
  by (auto simp: lrm_assigned_def assigned_value_def dest: lrm_value)

section \<open>Expressions with a meaning\<close>

definition scope_wf :: "Scope \<Rightarrow> bool" where
  "scope_wf sc \<longleftrightarrow> (\<forall>n sg v. sc n = Some (sg, v) \<longrightarrow> wf_lv v)"

text \<open>An expression without an unsized literal, as far as its width depends on its parts.\<close>

fun no_fill :: "Expr \<Rightarrow> bool" where
  "no_fill (Expr.Fill _) \<longleftrightarrow> False"
| "no_fill (Expr.Unary op a) \<longleftrightarrow> no_fill a"
| "no_fill (Expr.Binary op l r) \<longleftrightarrow> no_fill l \<and> no_fill r"
| "no_fill (Expr.Conditional c t f) \<longleftrightarrow> no_fill t \<and> no_fill f"
| "no_fill _ \<longleftrightarrow> True"

definition bounds_ok :: "Scope \<Rightarrow> Expr \<Rightarrow> Expr \<Rightarrow> Expr \<Rightarrow> bool" where
  "bounds_ok sc a l r \<longleftrightarrow>
     (case literal_bounds l r of Some (hi, lo) \<Rightarrow> lo \<le> hi \<and> hi < lrm_width sc a | None \<Rightarrow> False)"

text \<open>
  An expression whose operands all have the width of the result: by itself it needs no extension.
  The generator extends no operand of such an expression, and \<open>>>>\<close> on them is left out.
\<close>

fun uniform :: "Scope \<Rightarrow> Expr \<Rightarrow> bool" where
  "uniform sc (Expr.Literal v) \<longleftrightarrow> wf_lv v"
| "uniform sc (Expr.SignedLiteral v) \<longleftrightarrow> wf_lv v"
| "uniform sc (Expr.Ref n) \<longleftrightarrow> sc n \<noteq> None"
| "uniform sc (Expr.Unary op a) \<longleftrightarrow> uniform sc a"
| "uniform sc (Expr.Binary op l r) \<longleftrightarrow> uniform sc l \<and> uniform sc r \<and> op \<noteq> BinOp.Sar \<and>
     (op \<in> arithmetic \<union> comparisons \<longrightarrow> lrm_width sc l = lrm_width sc r)"
| "uniform sc (Expr.Conditional c t f) \<longleftrightarrow> uniform sc c \<and> uniform sc t \<and> uniform sc f \<and>
     lrm_width sc t = lrm_width sc f"
| "uniform sc (Expr.Index a i) \<longleftrightarrow> uniform sc a \<and> uniform sc i"
| "uniform sc (Expr.PartSelect a l r) \<longleftrightarrow> uniform sc a \<and> bounds_ok sc a l r"
| "uniform sc _ \<longleftrightarrow> False"

text \<open>An expression to be evaluated in a context: only the operands that stand by themselves are uniform.\<close>

fun contextual :: "Scope \<Rightarrow> Expr \<Rightarrow> bool" where
  "contextual sc (Expr.Literal v) \<longleftrightarrow> wf_lv v"
| "contextual sc (Expr.SignedLiteral v) \<longleftrightarrow> wf_lv v"
| "contextual sc (Expr.Fill b) \<longleftrightarrow> True"
| "contextual sc (Expr.Ref n) \<longleftrightarrow> sc n \<noteq> None"
| "contextual sc (Expr.Unary op a) \<longleftrightarrow> (if op \<in> context_unary then contextual sc a else uniform sc a)"
| "contextual sc (Expr.Binary op l r) \<longleftrightarrow>
     (if op \<in> arithmetic then contextual sc l \<and> contextual sc r
      else if op \<in> shifts then contextual sc l \<and> uniform sc r
      else if op \<in> comparisons then contextual sc l \<and> contextual sc r \<and> no_fill l \<and> no_fill r
      else uniform sc l \<and> uniform sc r)"
| "contextual sc (Expr.Conditional c t f) \<longleftrightarrow> uniform sc c \<and> contextual sc t \<and> contextual sc f"
| "contextual sc (Expr.Index a i) \<longleftrightarrow> uniform sc a \<and> uniform sc i"
| "contextual sc (Expr.PartSelect a l r) \<longleftrightarrow> uniform sc a \<and> bounds_ok sc a l r"
| "contextual sc _ \<longleftrightarrow> False"

lemma uniform_contextual: "uniform sc e \<Longrightarrow> contextual sc e \<and> no_fill e"
  by (induction e) auto

lemma lrm_width_range:
  assumes "contextual sc e" and "scope_wf sc"
  shows "1 \<le> lrm_width sc e \<and> lrm_width sc e < 2 ^ 32"
  using assms(1)
proof (induction e)
  case (Ref n)
  then show ?case using assms(2) wf_lvD(1,2) by (auto simp: scope_wf_def split: option.split)
next
  case (PartSelect a l r)
  then have "lrm_width sc a < 2 ^ 32" using uniform_contextual by simp
  then show ?case using PartSelect.prems by (auto simp: bounds_ok_def split: option.splits)
qed (auto simp: uniform_contextual wf_lvD(1,2) [simplified] split: if_splits)

section \<open>Results\<close>

lemma unary_shape: "wf_lv x \<Longrightarrow> wf_lv (unary_value op x) \<and> width (unary_value op x) = (if op \<in> context_unary then width x else 1)"
  by (cases op) (simp_all add: unary_value_def context_unary_def wf_arith(4))

lemma binary_shape:
  assumes "wf_lv x" and "wf_lv y" and "binary_value op sg x y = Some v"
  shows "wf_lv v \<and> width v = (if op \<in> arithmetic then max (width x) (width y) else if op \<in> shifts then width x else 1)"
proof -
  consider "op = BinOp.Mul" | "op \<in> arithmetic" "op \<noteq> BinOp.Mul" | "op \<in> shifts" | "op \<in> comparisons"
    | "op \<in> {BinOp.LogAnd, BinOp.LogOr}"
    by (cases op) (simp_all add: op_sets)
  then show ?thesis
  proof cases
    case 1
    then show ?thesis using wf_arith(3) [OF assms(1,2)] assms(3) by (simp add: binary_value_def arithmetic_def)
  next
    case 2
    then show ?thesis
      using wf_arith(1,2) [OF assms(1,2)] assms by (cases op) (auto simp: binary_value_def arithmetic_def)
  next
    case 3
    then show ?thesis using assms by (auto simp: binary_value_def op_sets split: if_splits)
  next
    case 4
    then have "wf_lv v \<and> width v = 1"
      using assms(3) wf_compares [of x y] wf_compare(1) [of x y] by (cases op) (auto simp: binary_value_def comparisons_def)
    then show ?thesis using op_sets_disjoint(2,3) [OF 4] by simp
  next
    case 5
    then show ?thesis
      using assms(3) wf_one by (auto simp: binary_value_def op_sets Option.bind_eq_Some_conv)
  qed
qed

lemma ctx_value_shape:
  assumes "contextual sc e" and "scope_wf sc" and "ctx_value sc e w sg = Some v" and "1 \<le> w" and "w < 2 ^ 32"
  shows "wf_lv v \<and> width v = w"
  using assms(1,3-)
proof (induction e arbitrary: w sg v)
  case (Ref n)
  then show ?case using assms(2) by (auto simp: scope_wf_def)
next
  case (Unary op a)
  show ?case
  proof (cases "op \<in> context_unary")
    case True
    then show ?thesis using Unary unary_shape [of _ op] by auto
  next
    case False
    then have a: "contextual sc a" using Unary.prems uniform_contextual by simp
    obtain x where x: "ctx_value sc a (lrm_width sc a) (lrm_signed sc a) = Some x" "v = resize (unary_value op x) w False"
      using Unary.prems False by auto
    then have "wf_lv x" using Unary.IH [OF a x(1)] lrm_width_range [OF a assms(2)] by simp
    then show ?thesis using x(2) unary_shape Unary.prems by simp
  qed
next
  case (Binary op l r)
  note side = uniform_contextual [of sc l] uniform_contextual [of sc r]
  note range = lrm_width_range [OF _ assms(2)]
  consider (arith) "op \<in> arithmetic" | (shift) "op \<in> shifts" "op \<notin> arithmetic"
    | (comp) "op \<in> comparisons" "op \<notin> arithmetic" "op \<notin> shifts" | (logical) "op \<notin> comparisons" "op \<notin> arithmetic" "op \<notin> shifts"
    by blast
  then show ?case
  proof cases
    case arith
    then have c: "contextual sc l" "contextual sc r" using Binary.prems by simp_all
    obtain x y where s: "ctx_value sc l w sg = Some x" "ctx_value sc r w sg = Some y" "binary_value op sg x y = Some v"
      using Binary.prems arith by (auto simp: Option.bind_eq_Some_conv)
    have "wf_lv x \<and> width x = w" "wf_lv y \<and> width y = w"
      using Binary.IH(1) [OF c(1) s(1)] Binary.IH(2) [OF c(2) s(2)] Binary.prems by auto
    then show ?thesis using binary_shape [OF _ _ s(3)] arith by simp
  next
    case shift
    then have c: "contextual sc l" "contextual sc r" using Binary.prems side by simp_all
    obtain x y where s: "ctx_value sc l w sg = Some x" "ctx_value sc r (lrm_width sc r) (lrm_signed sc r) = Some y" "binary_value op sg x y = Some v"
      using Binary.prems shift by (auto simp: Option.bind_eq_Some_conv)
    have "wf_lv x \<and> width x = w" "wf_lv y"
      using Binary.IH(1) [OF c(1) s(1)] Binary.IH(2) [OF c(2) s(2)] Binary.prems range c(2) by auto
    then show ?thesis using binary_shape [OF _ _ s(3)] shift by simp
  next
    case comp
    then have c: "contextual sc l" "contextual sc r" using Binary.prems by simp_all
    let ?cw = "max (lrm_width sc l) (lrm_width sc r)" and ?cs = "lrm_signed sc l \<and> lrm_signed sc r"
    obtain x y u where s: "ctx_value sc l ?cw ?cs = Some x" "ctx_value sc r ?cw ?cs = Some y" "binary_value op ?cs x y = Some u"
        "v = resize u w False"
      using Binary.prems comp by (auto simp: Option.bind_eq_Some_conv)
    have "wf_lv x" "wf_lv y" using Binary.IH(1) [OF c(1) s(1)] Binary.IH(2) [OF c(2) s(2)] range [OF c(1)] range [OF c(2)] by auto
    then show ?thesis using binary_shape [OF _ _ s(3)] s(4) Binary.prems by simp
  next
    case logical
    then have c: "contextual sc l" "contextual sc r" using Binary.prems side by simp_all
    obtain x y u where s: "ctx_value sc l (lrm_width sc l) (lrm_signed sc l) = Some x" "ctx_value sc r (lrm_width sc r) (lrm_signed sc r) = Some y"
        "binary_value op False x y = Some u" "v = resize u w False"
      using Binary.prems logical by (auto simp: Option.bind_eq_Some_conv)
    have "wf_lv x" "wf_lv y" using Binary.IH(1) [OF c(1) s(1)] Binary.IH(2) [OF c(2) s(2)] range [OF c(1)] range [OF c(2)] by auto
    then show ?thesis using binary_shape [OF _ _ s(3)] s(4) Binary.prems by simp
  qed
next
  case (Conditional c t f)
  then obtain x y z where s: "ctx_value sc t w sg = Some y" "ctx_value sc f w sg = Some z" "v = conditional x y z"
    by (auto simp: Option.bind_eq_Some_conv)
  then show ?case using Conditional by auto
next
  case (Index a i)
  then show ?case by (auto simp: Option.bind_eq_Some_conv selected_bit_def)
next
  case (PartSelect a l r)
  then obtain x hi lo where s: "literal_bounds l r = Some (hi, lo)" "v = resize (slice x hi lo) w False"
    by (auto simp: Option.bind_eq_Some_conv)
  have "lrm_width sc a < 2 ^ 32" using PartSelect.prems lrm_width_range [OF _ assms(2)] uniform_contextual by simp
  then have "wf_lv (slice x hi lo)" using PartSelect.prems s(1) by (intro wf_slice) (auto simp: bounds_ok_def)
  then show ?case using s(2) PartSelect.prems by simp
qed auto

text \<open>By itself a uniform expression has one value, whatever signedness the context has.\<close>

lemma uniform_sign:
  assumes "uniform sc e" and "scope_wf sc"
  shows "ctx_value sc e (lrm_width sc e) sg = ctx_value sc e (lrm_width sc e) sg'"
  using assms(1)
proof (induction e arbitrary: sg sg')
  case (Literal v)
  then show ?case by (metis ctx_value.simps(1) lrm_width.simps(1) resize_same)
next
  case (SignedLiteral v)
  then show ?case by (metis ctx_value.simps(2) lrm_width.simps(2) resize_same)
next
  case (Ref n)
  then show ?case by (auto split: option.split)
next
  case (Unary op a)
  then have "ctx_value sc a (lrm_width sc a) sg = ctx_value sc a (lrm_width sc a) sg'" by simp
  then show ?case by simp
next
  case (Binary op l r)
  show ?case
  proof (cases "op \<in> arithmetic")
    case True
    then have w: "lrm_width sc r = lrm_width sc l" "max (lrm_width sc l) (lrm_width sc r) = lrm_width sc l"
      using Binary.prems by simp_all
    have "ctx_value sc l (lrm_width sc l) sg = ctx_value sc l (lrm_width sc l) sg'" "ctx_value sc r (lrm_width sc l) sg = ctx_value sc r (lrm_width sc l) sg'"
      using Binary.IH(1) [of sg sg'] Binary.IH(2) [of sg sg'] Binary.prems w(1) by simp_all
    moreover have "binary_value op sg = binary_value op sg'"
      using True by (auto simp: arithmetic_def binary_value_def fun_eq_iff)
    ultimately show ?thesis using True w by simp
  next
    case False
    have "binary_value op sg = binary_value op sg'" if "op \<in> shifts"
      using that Binary.prems by (auto simp: shifts_def binary_value_def fun_eq_iff)
    moreover have "ctx_value sc l (lrm_width sc l) sg = ctx_value sc l (lrm_width sc l) sg'" using Binary.IH(1) Binary.prems by simp
    ultimately show ?thesis using False by simp
  qed
next
  case (Conditional c t f)
  then have w: "lrm_width sc f = lrm_width sc t" by simp
  have "ctx_value sc t (lrm_width sc t) sg = ctx_value sc t (lrm_width sc t) sg'" "ctx_value sc f (lrm_width sc t) sg = ctx_value sc f (lrm_width sc t) sg'"
    using Conditional.IH(2) [of sg sg'] Conditional.IH(3) [of sg sg'] Conditional.prems w by simp_all
  then show ?case using w by simp
qed auto

text \<open>Without a truncation the value assigned is the value in the context.\<close>

lemma assigned_value_wide:
  assumes "contextual sc e" and "scope_wf sc" and "lrm_width sc e \<le> w" and "w < 2 ^ 32"
  shows "assigned_value sc e w = ctx_value sc e w (lrm_signed sc e)"
proof (cases "ctx_value sc e w (lrm_signed sc e)")
  case None
  then show ?thesis using assms(3) by (simp add: assigned_value_def max_absorb1)
next
  case (Some v)
  have "1 \<le> w" using lrm_width_range [OF assms(1,2)] assms(3) by simp
  then have "width v = w" using ctx_value_shape [OF assms(1,2) Some] assms(4) by simp
  then show ?thesis using Some assms(3) by (auto simp: assigned_value_def max_absorb1)
qed

end
