(* ===== verification/Gen_Sound.thy ===== *)
theory Gen_Sound
  imports Gen_Cond Lrm
begin

text \<open>
  The code of an expression computes the meaning of the expression: by itself for \<open>gen_expr\<close>, in a
  context for \<open>gen_expr_at_width_with_sign\<close>.
\<close>

section \<open>The variables of a scope\<close>

text \<open>What the tables of the generator say of a name, and where its value is.\<close>

definition declared :: "CodeGen \<Rightarrow> string \<Rightarrow> bool \<Rightarrow> LogicVec \<Rightarrow> bool" where
  "declared cg name sg v \<longleftrightarrow> wf_lv v \<and> name \<noteq> ''this'' \<and> name \<notin> local_strings cg \<and> cg_memories cg name = None \<and>
     gv_vars (globals cg) name = None \<and> ref_width cg name = Some (Some (width v)) \<and> ref_signed cg name = Some sg"

definition located :: "CodeGen \<Rightarrow> string \<Rightarrow> LogicVec \<Rightarrow> nat \<Rightarrow> (Machine \<Rightarrow> bool) \<Rightarrow> bool" where
  "located cg name v k ok \<longleftrightarrow>
     (case local_var cg name of
        Some (r, _) \<Rightarrow> r < k \<and> (\<forall>m. ok m \<longrightarrow> reg r m = Some (Logic v))
      | None \<Rightarrow>
          (case cg_consts cg name of
             Some cv \<Rightarrow> cv = v
           | None \<Rightarrow> (\<exists>net w. cg_nets cg name = Some (net, w) \<and> (\<forall>m. ok m \<longrightarrow> net_value net (kern m) = Some v))))"

definition scoped :: "CodeGen \<Rightarrow> Scope \<Rightarrow> bool" where
  "scoped cg sc \<longleftrightarrow> class_ctx cg = None \<and> (\<forall>name sg v. sc name = Some (sg, v) \<longrightarrow> declared cg name sg v)"

definition environment :: "CodeGen \<Rightarrow> Scope \<Rightarrow> nat \<Rightarrow> (Machine \<Rightarrow> bool) \<Rightarrow> bool" where
  "environment cg sc k ok \<longleftrightarrow> stable k ok \<and> (\<forall>name sg v. sc name = Some (sg, v) \<longrightarrow> located cg name v k ok)"

section \<open>Code that computes a value\<close>

text \<open>
  A context \<open>E\<close> says of a condition on machines what code may rely on. It is closed if the condition may be
  strengthened by the content of a register.
\<close>

type_synonym context_cond = "nat \<Rightarrow> (Machine \<Rightarrow> bool) \<Rightarrow> bool"

definition closed_context :: "context_cond \<Rightarrow> bool" where
  "closed_context E \<longleftrightarrow> (\<forall>k ok. E k ok \<longrightarrow> stable k ok \<and> (\<forall>k' r v. k \<le> k' \<longrightarrow> r < k' \<longrightarrow> E k' (\<lambda>m. ok m \<and> reg r m = Some v)))"

definition holding :: "context_cond \<Rightarrow> Reg \<Rightarrow> Value \<Rightarrow> context_cond" where
  "holding E r v k ok \<longleftrightarrow> E k ok \<and> r < k \<and> (\<forall>m. ok m \<longrightarrow> reg r m = Some v)"

definition computes :: "Linkage \<Rightarrow> Program \<Rightarrow> nat list \<Rightarrow> nat \<Rightarrow> context_cond \<Rightarrow> Reg gen \<Rightarrow> Value \<Rightarrow> bool" where
  "computes lk P L n E g v \<longleftrightarrow> tidy {} g \<and> (\<forall>k ok. E k ok \<longrightarrow> yields lk P L n k ok g v)"

lemma closed_environment: "closed_context (environment cg sc)"
  by (fastforce simp: closed_context_def environment_def located_def stable_and split: option.splits)

lemma closed_holding: "closed_context E \<Longrightarrow> closed_context (holding E r v)"
  by (force simp: closed_context_def holding_def)

lemma closed_stable: "closed_context E \<Longrightarrow> E k ok \<Longrightarrow> stable k ok"
  by (simp add: closed_context_def)

lemma computes_cong: "(\<And>pb. g pb = h pb) \<Longrightarrow> computes lk P L n E h v \<Longrightarrow> computes lk P L n E g v"
  by (rule subst [of h g]) auto

lemma computes_holding: "computes lk P L n E g v \<Longrightarrow> computes lk P L n (holding E r a) g v"
  by (simp add: computes_def holding_def)

lemma computes_then:
  assumes "closed_context E" and "computes lk P L n E g a" and "\<And>r. computes lk P L n (holding E r a) (h r) v"
  shows "computes lk P L n E (\<lambda>pb. do { (pb, r) \<leftarrow> g pb; h r pb }) v"
  unfolding computes_def
proof (intro conjI allI impI)
  have t: "tidy {} g" "tidy {} (h r)" for r using assms(2,3) by (simp_all add: computes_def)
  show "tidy {} (\<lambda>pb. do { (pb, r) \<leftarrow> g pb; h r pb })"
    by (rule tidyI) (auto simp: gen_unfold dest!: t [THEN tidyD] intro: complete_trans)
  fix k ok assume E: "E k ok"
  show "yields lk P L n k ok (\<lambda>pb. do { (pb, r) \<leftarrow> g pb; h r pb }) v"
  proof (rule yields_bind [OF _ t(1) _ _ t(2)])
    show "yields lk P L n k ok g a" using assms(2) E by (simp add: computes_def)
    show "stable k ok" using assms(1) E by (rule closed_stable)
    fix r k' assume "k \<le> k'" "r < k'"
    then have "holding E r a k' (\<lambda>m. ok m \<and> reg r m = Some a)" using assms(1) E by (simp add: holding_def closed_context_def)
    then show "yields lk P L n k' (\<lambda>m. ok m \<and> reg r m = Some a) (h r) v" using assms(3) by (simp add: computes_def)
  qed
qed

lemma computes_new:
  assumes "closed_context E" and "\<And>d. plain (f d)"
    and "\<And>k ok m d. E k ok \<Longrightarrow> ok m \<Longrightarrow> exec lk P n (f d) m = map_option Inl (set_reg d v m)"
  shows "computes lk P L n E (\<lambda>pb. Some (emit_new f pb)) v"
  unfolding computes_def
proof (intro conjI allI impI)
  show "tidy {} (\<lambda>pb. Some (emit_new f pb))" using assms(2) by (intro tidyI) (auto dest: last_step)
  fix k ok assume E: "E k ok"
  then show "yields lk P L n k ok (\<lambda>pb. Some (emit_new f pb)) v"
    using closed_stable [OF assms(1)] by (intro yields_new assms(3) [OF E])
qed

lemma computes_unary:
  assumes "closed_context E" and "computes lk P L n E g (Logic x)" and "\<And>d r. plain (f d r)"
    and "\<And>k ok m d r. E k ok \<Longrightarrow> ok m \<Longrightarrow> reg r m = Some (Logic x) \<Longrightarrow> exec lk P n (f d r) m = map_option Inl (set_reg d v m)"
  shows "computes lk P L n E (\<lambda>pb. do { (pb, r) \<leftarrow> g pb; Some (emit_new (\<lambda>d. f d r) pb) }) v"
proof (rule computes_then [OF assms(1,2)])
  fix r
  show "computes lk P L n (holding E r (Logic x)) (\<lambda>pb. Some (emit_new (\<lambda>d. f d r) pb)) v"
    using assms(3,4) by (intro computes_new closed_holding assms(1)) (auto simp: holding_def)
qed

lemma computes_binary:
  assumes "closed_context E" and "computes lk P L n E g (Logic x)" and "computes lk P L n E h (Logic y)" and "\<And>d a b. plain (f d a b)"
    and "\<And>k ok m d a b. E k ok \<Longrightarrow> ok m \<Longrightarrow> reg a m = Some (Logic x) \<Longrightarrow> reg b m = Some (Logic y) \<Longrightarrow>
      exec lk P n (f d a b) m = map_option Inl (set_reg d v m)"
  shows "computes lk P L n E (\<lambda>pb. do { (pb, a) \<leftarrow> g pb; (pb, b) \<leftarrow> h pb; Some (emit_new (\<lambda>d. f d a b) pb) }) v"
proof (rule computes_then [OF assms(1,2)])
  fix a
  show "computes lk P L n (holding E a (Logic x)) (\<lambda>pb. do { (pb, b) \<leftarrow> h pb; Some (emit_new (\<lambda>d. f d a b) pb) }) v"
    by (rule computes_unary [OF closed_holding [OF assms(1)] computes_holding [OF assms(3)] assms(4)])
      (auto simp: holding_def intro: assms(5))
qed

lemma computes_ternary:
  assumes "closed_context E" and "computes lk P L n E g (Logic x)" and "computes lk P L n E h (Logic y)"
    and "computes lk P L n E i (Logic z)" and "\<And>d a b c. plain (f d a b c)"
    and "\<And>m d a b c. reg a m = Some (Logic x) \<Longrightarrow> reg b m = Some (Logic y) \<Longrightarrow> reg c m = Some (Logic z) \<Longrightarrow>
      exec lk P n (f d a b c) m = map_option Inl (set_reg d v m)"
  shows "computes lk P L n E (\<lambda>pb. do { (pb, a) \<leftarrow> g pb; (pb, b) \<leftarrow> h pb; (pb, c) \<leftarrow> i pb; Some (emit_new (\<lambda>d. f d a b c) pb) }) v"
proof (rule computes_then [OF assms(1,2)])
  fix a
  show "computes lk P L n (holding E a (Logic x))
      (\<lambda>pb. do { (pb, b) \<leftarrow> h pb; (pb, c) \<leftarrow> i pb; Some (emit_new (\<lambda>d. f d a b c) pb) }) v"
    by (rule computes_binary [OF closed_holding [OF assms(1)] computes_holding [OF assms(3)] computes_holding [OF assms(4)] assms(5)])
      (auto simp: holding_def intro: assms(6))
qed

lemma computes_conditional:
  assumes "closed_context E" and "computes lk P L n E gc (Logic C)" and "computes lk P L n E gt (Logic T)"
    and "computes lk P L n E gf (Logic F)" and "width T = width F"
  shows "computes lk P L n E (gen_conditional gc gt gf) (Logic (conditional C T F))"
  using assms closed_stable [OF assms(1)] gen_conditional_tidy [of gc gt gf]
    yields_conditional [of lk P L n _ _ gc C gt T gf F] by (simp add: computes_def)

lemma computes_const: "computes lk P L n E (\<lambda>pb. Some (load_const v pb)) v"
  unfolding computes_def yields_def runs_def
proof (intro conjI allI impI)
  show "tidy {} (\<lambda>pb. Some (load_const v pb))" by (rule tidyI) (auto dest: last_step)
  fix k ok pb pb' d
  assume s: "Some (load_const v pb) = Some (pb', d)" and ok: "builder_ok pb" and R: "realises P L pb'"
  let ?b = "fst (konst v (fst (new_reg pb)))"
  have d: "d = bn_regs pb" "pb' = emit (DataI (LoadConst d (length (bconsts pb)))) ?b"
    using s by (auto simp: load_const_def new_reg_def konst_def)
  have n: "length (bcode pb') = length (bcode pb) + 1" "bcode ?b = bcode pb" by (simp_all add: d new_reg_def konst_def emit_def)
  show "d < bn_regs pb'" by (simp add: d new_reg_def konst_def emit_def)
  then have dn: "d < n_regs P" using R by (simp add: realises_def)
  have "prefix (bconsts pb @ [v]) (pconsts P)" using R by (simp add: realises_def d new_reg_def konst_def emit_def)
  then have c: "at (pconsts P) (length (bconsts pb)) = Some v" by (auto simp: prefix_def at_def nth_append)
  have "builder_ok (fst (new_reg pb))" using builder_call_ok [OF call_reg ok] .
  then have "builder_ok ?b" by (rule builder_call_ok [OF call_konst])
  then have i: "at (pcode P) (length (bcode pb)) = Some (DataI (LoadConst d (length (bconsts pb))))"
    using realises_emit [OF R [unfolded d(2)]] n(2) by simp
  fix m :: Machine
  assume m: "pc m = length (bcode pb)" "length (regs m) = n_regs P"
  obtain m' where "frame_step lk P n m m'" "pc m' = pc m + 1" "reg d m' = Some v" "same_upto (bn_regs pb) m m'"
    by (rule step_write [of P m "DataI (LoadConst d (length (bconsts pb)))" d "bn_regs pb" lk n v])
      (use i m dn c d in \<open>simp_all add: exec_def exec_data_def\<close>)
  then show "\<exists>m'. frame_steps lk P n m m' \<and> pc m' = length (bcode pb') \<and> reg d m' = Some v \<and> same_upto (bn_regs pb) m m'"
    using m n by auto
qed

section \<open>Operators\<close>

lemma lreg_reg: "reg r m = Some (Logic x) \<Longrightarrow> lreg r m = Some x"
  by (simp add: reg_def lreg_def logic_reg_def as_logic_def)

lemma exec_unary:
  assumes "reg r m = Some (Logic x)"
  shows "exec lk P n (unary_inst op d r) m = map_option Inl (set_reg d (Logic (unary_value op x)) m)"
  using assms lreg_reg [OF assms]
  by (cases op) (simp_all add: unary_inst_def unary_value_def exec_def exec_data_def exec_alu_def unary_def)

lemma shift_amount_u32: "shift_amount x y = Some s \<Longrightarrow> to_u32 y = s"
  by (auto simp: shift_amount_def to_u32_def split: if_splits)

lemma truth_value_true: "truth_value x = Some b \<Longrightarrow> is_true x = b"
  by (auto simp: truth_value_def split: if_splits)

lemma exec_binary:
  assumes "reg a m = Some (Logic x)" and "reg b m = Some (Logic y)" and "binary_value op sg x y = Some v"
  shows "exec lk P n (binary_inst op sg d a b) m = map_option Inl (set_reg d (Logic v) m)"
proof -
  note defs = binary_inst_def binary_value_def exec_def exec_alu_def binary_def
  note regs = assms(1,2) lreg_reg [OF assms(1)] lreg_reg [OF assms(2)]
  consider "op \<in> shifts" | "op \<in> {BinOp.LogAnd, BinOp.LogOr}" | "op \<in> arithmetic \<union> comparisons"
    by (cases op) (simp_all add: op_sets)
  then show ?thesis
  proof cases
    case 1
    then obtain s where s: "shift_amount x y = Some s" using assms(3) by (auto simp: shifts_def binary_value_def)
    then show ?thesis using 1 assms(3) regs shift_amount_u32 [OF s] by (auto simp: shifts_def defs)
  next
    case 2
    then show ?thesis using assms(3) regs by (auto simp: defs Option.bind_eq_Some_conv dest!: truth_value_true)
  next
    case 3
    then show ?thesis using assms(3) regs by (cases op; cases sg) (simp_all add: op_sets defs)
  qed
qed

section \<open>Width and signedness\<close>

lemma scoped_wf: "scoped cg sc \<Longrightarrow> scope_wf sc"
  by (auto simp: scoped_def scope_wf_def declared_def)

lemma bounds_width:
  assumes "bounds_ok sc a l r" and "lrm_width sc a < 2 ^ 32"
  shows "integral_expr_width cg (Expr.PartSelect a l r) = Some (Some (lrm_width sc (Expr.PartSelect a l r)))"
proof -
  obtain u v where s: "literal_value l = Some u" "literal_value r = Some v"
      "unat (to_u64 v) \<le> unat (to_u64 u)" "unat (to_u64 u) < lrm_width sc a"
    using assms(1) by (auto simp: bounds_ok_def literal_bounds_def split: option.splits)
  then have "unat (to_u64 u) - unat (to_u64 v) + 1 < 2 ^ 32" using assms(2) by simp
  then show ?thesis using s by (auto simp: literal_bounds_def add_u32_small Let_def)
qed

lemma generator_width:
  assumes "scoped cg sc" and "contextual sc e" and "no_fill e"
  shows "integral_expr_width cg e = Some (Some (lrm_width sc e))"
  using assms(2,3)
proof (induction e)
  case (Ref name)
  then show ?case using assms(1) by (auto simp: scoped_def declared_def)
next
  case (Unary op a)
  then show ?case using uniform_contextual [of sc a] by (cases op) (simp_all add: context_unary_def)
next
  case (Binary op l r)
  then have "contextual sc l" "contextual sc r" using uniform_contextual [of sc l] uniform_contextual [of sc r]
    by (auto split: if_splits)
  then have "integral_expr_width cg l = Some (Some (lrm_width sc l))" "integral_expr_width cg r = Some (Some (lrm_width sc r))"
    using Binary by simp_all
  then show ?case by (cases op) (simp_all add: op_sets)
next
  case (Index a i)
  then show ?case using assms(1) uniform_contextual [of sc a]
    by (auto simp: scoped_def declared_def split: Expr.split option.split)
next
  case (PartSelect a l r)
  then have "contextual sc a" "bounds_ok sc a l r" using uniform_contextual by simp_all
  then show ?case using bounds_width lrm_width_range scoped_wf [OF assms(1)] by blast
qed simp_all

lemma generator_sign:
  assumes "scoped cg sc" and "contextual sc e"
  shows "integral_expr_signed cg e = Some (lrm_signed sc e)"
  using assms(2)
proof (induction e)
  case (Ref name)
  then show ?case using assms(1) by (auto simp: scoped_def declared_def)
next
  case (Unary op a)
  then show ?case by (cases op) (simp_all add: context_unary_def)
next
  case (Binary op l r)
  then have "contextual sc l" "contextual sc r" using uniform_contextual [of sc l] uniform_contextual [of sc r]
    by (auto split: if_splits)
  then have "integral_expr_signed cg l = Some (lrm_signed sc l)" "integral_expr_signed cg r = Some (lrm_signed sc r)"
    using Binary by simp_all
  then show ?case by (cases op) (simp_all add: op_sets)
qed simp_all

section \<open>Names and selections\<close>

lemma computes_ref:
  assumes "scoped cg sc" and "sc name = Some (sg, v)"
  shows "computes lk P L n (environment cg sc) (gen_ref cg name) (Logic v)"
  unfolding computes_def
proof (intro conjI allI impI)
  show "tidy {} (gen_ref cg name)" by (rule gen_ref_tidy)
  fix k ok assume E: "environment cg sc k ok"
  then have st: "stable k ok" and c: "class_ctx cg = None" and d: "declared cg name sg v" and l: "located cg name v k ok"
    using assms by (auto simp: environment_def scoped_def)
  note defs = gen_ref_def class_field_def static_field_def in_ctx_def method_of_ctx_def c
  note facts = d [unfolded declared_def]
  show "yields lk P L n k ok (gen_ref cg name) (Logic v)"
  proof (cases "local_var cg name")
    case (Some rw)
    then obtain r w where r: "local_var cg name = Some (r, w)" by fastforce
    have g: "gen_ref cg name = (\<lambda>pb. Some (pb, r))" using facts r by (auto simp: defs)
    have "r < k" "ok m \<Longrightarrow> reg r m = Some (Logic v)" for m using l r by (auto simp: located_def)
    then show ?thesis unfolding g by (intro yields_old)
  next
    case no_local: None
    show ?thesis
    proof (cases "cg_consts cg name")
      case (Some cv)
      have g: "gen_ref cg name = (\<lambda>pb. Some (load_const (Logic v) pb))"
        using facts l no_local Some by (auto simp: defs located_def)
      show ?thesis using computes_const E unfolding g computes_def by blast
    next
      case None
      then obtain net w where net: "cg_nets cg name = Some (net, w)" "\<And>m. ok m \<Longrightarrow> net_value net (kern m) = Some v"
        using l no_local by (auto simp: located_def)
      have g: "gen_ref cg name = (\<lambda>pb. Some (emit_new (\<lambda>d. DataI (NetRead d net)) pb))"
        using facts l no_local None net(1) by (auto simp: defs net_of_def)
      show ?thesis unfolding g
        by (rule yields_new [OF _ st]) (simp add: exec_def exec_data_def net(2))
    qed
  qed
qed

lemma exec_index:
  assumes "reg a m = Some (Logic x)" and "reg b m = Some (Logic j)"
  shows "exec lk P n (CollI (IndexGet d a b)) m = map_option Inl (set_reg d (Logic (selected_bit x j)) m)"
  using assms by (simp add: exec_def exec_coll_def index_get_def as_logic_def selected_bit_def)

lemma exec_part_select:
  assumes "reg a m = Some (Logic x)" and "reg b m = Some (Logic u)" and "reg c m = Some (Logic v)"
    and "unat (to_u64 v) \<le> unat (to_u64 u)" and "unat (to_u64 u) < width x" and "width x < 2 ^ 32"
  shows "exec lk P n (CollI (CollInst.PartSelect d a b c)) m =
    map_option Inl (set_reg d (Logic (slice x (unat (to_u64 u)) (unat (to_u64 v)))) m)"
proof -
  have "to_u32 u = unat (to_u64 u)" "to_u32 v = unat (to_u64 v)" using assms(4-6) by (simp_all add: to_u32_def)
  moreover have "add_u32 (unat (to_u64 u) - unat (to_u64 v)) 1 = unat (to_u64 u) - unat (to_u64 v) + 1"
    using assms(4-6) by (intro add_u32_small) simp
  ultimately show ?thesis using assms(1-4) lreg_reg by (simp add: exec_def exec_coll_def part_select_def slice_chk_def)
qed

section \<open>Expressions by themselves\<close>

lemma computes_literal:
  "computes lk P L n E (gen_expr cg (Expr.Literal v)) (Logic v)" "computes lk P L n E (gen_expr cg (Expr.SignedLiteral v)) (Logic v)"
  by (rule computes_cong [OF _ computes_const], simp add: gen_expr.simps [of cg "Expr.Literal v"] gen_expr.simps [of cg "Expr.SignedLiteral v"])+

lemma literal_value_expr: "literal_value e = Some v \<Longrightarrow> computes lk P L n E (gen_expr cg e) (Logic v)"
  by (cases e) (auto simp: literal_value_def intro: computes_literal)

lemma width_selected_bit [simp]: "width (selected_bit x j) = 1"
  by (simp add: selected_bit_def)

text \<open>The operands of a uniform operation, each by itself.\<close>

lemma uniform_operands:
  assumes "scope_wf sc" and "uniform sc (Expr.Binary op l r)" and "ctx_value sc (Expr.Binary op l r) (lrm_width sc (Expr.Binary op l r)) sg = Some v"
  shows "\<exists>x y s1 s2. ctx_value sc l (lrm_width sc l) s1 = Some x \<and> ctx_value sc r (lrm_width sc r) s2 = Some y \<and>
    binary_value op (lrm_signed sc l \<and> lrm_signed sc r) x y = Some v"
proof -
  let ?sg = "lrm_signed sc l \<and> lrm_signed sc r"
  have c: "contextual sc l" "contextual sc r" and bits: "op \<noteq> BinOp.Sar" using assms(2) uniform_contextual by simp_all
  consider (arith) "op \<in> arithmetic" | (shift) "op \<in> shifts" "op \<notin> arithmetic"
    | (comp) "op \<in> comparisons" "op \<notin> arithmetic" "op \<notin> shifts" | (logical) "op \<notin> comparisons" "op \<notin> arithmetic" "op \<notin> shifts"
    by blast
  then show ?thesis
  proof cases
    case arith
    then have w: "lrm_width sc r = lrm_width sc l" using assms(2) by simp
    have "binary_value op sg = binary_value op ?sg" using arith by (auto simp: arithmetic_def binary_value_def fun_eq_iff)
    then show ?thesis using assms(3) arith w by (fastforce simp: Option.bind_eq_Some_conv)
  next
    case shift
    then have "binary_value op sg = binary_value op ?sg" using bits by (auto simp: shifts_def binary_value_def fun_eq_iff)
    then show ?thesis using assms(3) shift by (fastforce simp: Option.bind_eq_Some_conv)
  next
    case comp
    then have w: "lrm_width sc r = lrm_width sc l" using assms(2) by simp
    obtain x y u where s: "ctx_value sc l (lrm_width sc l) ?sg = Some x" "ctx_value sc r (lrm_width sc r) ?sg = Some y"
        "binary_value op ?sg x y = Some u" "v = resize u 1 False"
      using assms(3) comp w by (auto simp: Option.bind_eq_Some_conv)
    have "wf_lv x" "wf_lv y"
      using ctx_value_shape [OF c(1) assms(1) s(1)] ctx_value_shape [OF c(2) assms(1) s(2)] lrm_width_range [OF _ assms(1)] c by simp_all
    then have "width u = 1" using binary_shape [OF _ _ s(3)] comp by simp
    then have "v = u" using s(4) resize_same [of u False] by simp
    then show ?thesis using s by blast
  next
    case logical
    have "binary_value op False = binary_value op ?sg"
      using logical by (cases op) (auto simp: op_sets binary_value_def fun_eq_iff)
    then obtain x y u where s: "ctx_value sc l (lrm_width sc l) (lrm_signed sc l) = Some x" "ctx_value sc r (lrm_width sc r) (lrm_signed sc r) = Some y"
        "binary_value op ?sg x y = Some u" "v = resize u 1 False"
      using assms(3) logical by (auto simp: Option.bind_eq_Some_conv)
    have "wf_lv x" "wf_lv y"
      using ctx_value_shape [OF c(1) assms(1) s(1)] ctx_value_shape [OF c(2) assms(1) s(2)] lrm_width_range [OF _ assms(1)] c by simp_all
    then have "width u = 1" using binary_shape [OF _ _ s(3)] logical by simp
    then have "v = u" using s(4) resize_same [of u False] by simp
    then show ?thesis using s by blast
  qed
qed

text \<open>A selection, by itself or not, is of a base that is no memory and no string.\<close>

lemma gen_index_plain:
  assumes "scoped cg sc" and "contextual sc a"
  shows "gen_index cg a ga gi = (\<lambda>pb. do { (pb, b) \<leftarrow> ga pb; (pb, i) \<leftarrow> gi pb; Some (emit_new (\<lambda>d. CollI (IndexGet d b i)) pb) })"
  using assms by (cases a) (auto simp: gen_index_def memory_of_def is_string_local_def scoped_def declared_def)

theorem gen_expr_computes:
  assumes "scoped cg sc" and "uniform sc e" and "ctx_value sc e (lrm_width sc e) sg = Some v"
  shows "computes lk P L n (environment cg sc) (gen_expr cg e) (Logic v)"
  using assms(2,3)
proof (induction e arbitrary: sg v)
  case (Literal u)
  then show ?case using computes_literal(1) [of lk P L n "environment cg sc" cg u] by simp
next
  case (SignedLiteral u)
  then show ?case using computes_literal(2) [of lk P L n "environment cg sc" cg u] by simp
next
  case (Ref name)
  obtain sn u where u: "sc name = Some (sn, u)" using Ref.prems(1) by auto
  then have name: "sc name = Some (sn, v)" using Ref.prems(2) by simp
  show ?case
    by (rule computes_cong [OF _ computes_ref [OF assms(1) name]]) (simp add: gen_expr.simps [of cg "Expr.Ref name"])
next
  case (Unary op a)
  note wf = scoped_wf [OF assms(1)]
  have u: "uniform sc a" and c: "contextual sc a" using Unary.prems(1) uniform_contextual by simp_all
  obtain x sx where x: "ctx_value sc a (lrm_width sc a) sx = Some x" "v = unary_value op x"
  proof (cases "op \<in> context_unary")
    case False
    then obtain x where x: "ctx_value sc a (lrm_width sc a) (lrm_signed sc a) = Some x" "v = resize (unary_value op x) 1 False"
      using Unary.prems(2) by auto
    have "wf_lv x" using ctx_value_shape [OF c wf x(1)] lrm_width_range [OF c wf] by simp
    then have "width (unary_value op x) = 1" using unary_shape False by simp
    then show ?thesis using that x by (metis resize_same)
  qed (use Unary.prems(2) in auto)
  show ?case
    by (rule computes_cong [OF _ computes_unary [OF closed_environment Unary.IH [OF u x(1)], of "unary_inst op"]])
      (simp_all add: gen_expr.simps [of cg "Expr.Unary op a"] exec_unary x(2))
next
  case (Binary op l r)
  note wf = scoped_wf [OF assms(1)]
  have u: "uniform sc l" "uniform sc r" and c: "contextual sc l" "contextual sc r"
    using Binary.prems(1) uniform_contextual by simp_all
  let ?sg = "lrm_signed sc l \<and> lrm_signed sc r"
  obtain x y s1 s2 where x: "ctx_value sc l (lrm_width sc l) s1 = Some x" "ctx_value sc r (lrm_width sc r) s2 = Some y"
      "binary_value op ?sg x y = Some v"
    using uniform_operands [OF wf Binary.prems] by blast
  note operands = Binary.IH(1) [OF u(1) x(1)] Binary.IH(2) [OF u(2) x(2)]
  have sl: "integral_expr_signed cg l = Some (lrm_signed sc l)" "integral_expr_signed cg r = Some (lrm_signed sc r)"
    using generator_sign [OF assms(1)] c by simp_all
  show ?case
    by (rule computes_cong [OF _ computes_binary [OF closed_environment operands, of "binary_inst op ?sg"]])
      (simp_all add: gen_expr.simps [of cg "Expr.Binary op l r"] sl exec_binary x(3))
next
  case (Conditional c t f)
  have w: "lrm_width sc f = lrm_width sc t" using Conditional.prems(1) by simp
  obtain x y z where s: "ctx_value sc c (lrm_width sc c) (lrm_signed sc c) = Some x" "ctx_value sc t (lrm_width sc t) sg = Some y"
      "ctx_value sc f (lrm_width sc f) sg = Some z" "v = conditional x y z"
    using Conditional.prems w by (auto simp: Option.bind_eq_Some_conv)
  have "width y = width z"
    using ctx_value_shape [OF _ scoped_wf [OF assms(1)]] lrm_width_range [OF _ scoped_wf [OF assms(1)]] uniform_contextual s(2,3) w Conditional.prems(1)
    by (metis uniform.simps(6))
  moreover have "uniform sc c" "uniform sc t" "uniform sc f" using Conditional.prems(1) by simp_all
  ultimately show ?case unfolding s(4)
    by (intro computes_cong [OF _ computes_conditional [OF closed_environment Conditional.IH(1) [OF _ s(1)]
        Conditional.IH(2) [OF _ s(2)] Conditional.IH(3) [OF _ s(3)]]])
      (simp_all add: gen_expr.simps [of cg "Expr.Conditional c t f"])
next
  case (Index a i)
  then obtain x j where s: "ctx_value sc a (lrm_width sc a) (lrm_signed sc a) = Some x" "ctx_value sc i (lrm_width sc i) (lrm_signed sc i) = Some j"
      "v = resize (selected_bit x j) 1 False"
    by (auto simp: Option.bind_eq_Some_conv)
  have v: "v = selected_bit x j" using s(3) resize_same [of "selected_bit x j" False] by simp
  have u: "uniform sc a" "uniform sc i" using Index.prems(1) by simp_all
  have g: "gen_expr cg (Expr.Index a i) pb =
      do { (pb, b) \<leftarrow> gen_expr cg a pb; (pb, j) \<leftarrow> gen_expr cg i pb; Some (emit_new (\<lambda>d. CollI (IndexGet d b j)) pb) }" for pb
    using gen_index_plain [OF assms(1)] uniform_contextual [OF u(1)] by (simp add: gen_expr.simps [of cg "Expr.Index a i"])
  show ?case unfolding v
    by (rule computes_cong [OF g computes_binary [OF closed_environment Index.IH(1) [OF u(1) s(1)] Index.IH(2) [OF u(2) s(2)]]])
      (simp_all add: exec_index)
next
  case (PartSelect a l r)
  have u: "uniform sc a" "bounds_ok sc a l r" using PartSelect.prems(1) by simp_all
  then obtain p q where b: "literal_value l = Some p" "literal_value r = Some q" "unat (to_u64 q) \<le> unat (to_u64 p)"
      "unat (to_u64 p) < lrm_width sc a"
    by (auto simp: bounds_ok_def literal_bounds_def split: option.splits)
  let ?slice = "\<lambda>x. slice x (unat (to_u64 p)) (unat (to_u64 q))"
  obtain x where x: "ctx_value sc a (lrm_width sc a) (lrm_signed sc a) = Some x"
      "v = resize (?slice x) (unat (to_u64 p) - unat (to_u64 q) + 1) False"
    using PartSelect.prems(2) b(1,2) by (auto simp: literal_bounds_def Option.bind_eq_Some_conv)
  have range: "1 \<le> lrm_width sc a" "lrm_width sc a < 2 ^ 32" and c: "contextual sc a"
    using lrm_width_range [OF _ scoped_wf [OF assms(1)]] uniform_contextual u(1) by blast+
  have wx: "width x = lrm_width sc a" using ctx_value_shape [OF c scoped_wf [OF assms(1)] x(1) range] by simp
  have "width (?slice x) = unat (to_u64 p) - unat (to_u64 q) + 1" using b(3,4) range(2) by (intro width_slice) simp_all
  then have v: "v = ?slice x" using x(2) by (metis resize_same)
  have code: "computes lk P L n (environment cg sc)
      (\<lambda>pb. do { (pb, b) \<leftarrow> gen_expr cg a pb; (pb, i) \<leftarrow> gen_expr cg l pb; (pb, j) \<leftarrow> gen_expr cg r pb;
        Some (emit_new (\<lambda>d. CollI (CollInst.PartSelect d b i j)) pb) }) (Logic (?slice x))"
    by (rule computes_ternary [OF closed_environment PartSelect.IH(1) [OF u(1) x(1)] literal_value_expr [OF b(1)] literal_value_expr [OF b(2)]])
      (use b range wx in \<open>auto intro!: exec_part_select\<close>)
  show ?case unfolding v by (rule computes_cong [OF _ code]) (simp add: gen_expr.simps [of cg "Expr.PartSelect a l r"])
qed auto

section \<open>Expressions in a context\<close>

lemma computes_resize:
  assumes "closed_context E" and "computes lk P L n E g (Logic x)" and "1 \<le> w" and "b \<Longrightarrow> width x = w"
  shows "computes lk P L n E (\<lambda>pb. do { (pb, r) \<leftarrow> g pb;
    Some (if b then (pb, r) else emit_new (\<lambda>d. DataI (Resize d r w sg)) pb) }) (Logic (resize x w sg))"
proof (cases b)
  case True
  have x: "resize x w sg = x" using assms(4) [OF True] by (metis resize_same)
  have "do { (pb, r) \<leftarrow> g pb; Some (if b then (pb, r) else emit_new (\<lambda>d. DataI (Resize d r w sg)) pb) } = g pb" for pb
    using True by (cases "g pb") simp_all
  then show ?thesis using assms(2) unfolding x by (rule computes_cong)
next
  case False
  then show ?thesis
    by (intro computes_cong [OF _ computes_unary [OF assms(1,2), of "\<lambda>d r. DataI (Resize d r w sg)"]])
      (use assms(3) lreg_reg in \<open>auto simp: exec_def exec_data_def resize_chk_def\<close>)
qed

lemma computes_resized:
  assumes "closed_context E" and "computes lk P L n E g (Logic x)" and "1 \<le> w" and "integral_expr_width cg e = Some (Some (width x))"
  shows "computes lk P L n E (gen_resized cg e w sg g) (Logic (resize x w sg))"
  by (rule computes_cong [OF _ computes_resize [OF assms(1-3), of "width x = w"]])
    (simp_all add: gen_resized_def assms(4))

lemma computes_compare:
  assumes "closed_context E" and "computes lk P L n E gl (Logic x)" and "computes lk P L n E gr (Logic y)"
    and "binary_value op sg x y = Some u" and "width u = 1" and "1 \<le> w"
  shows "computes lk P L n E (gen_compare op w sg gl gr) (Logic (resize u w False))"
proof -
  have "computes lk P L n E (\<lambda>pb. do { (pb, a) \<leftarrow> gl pb; (pb, b) \<leftarrow> gr pb; Some (emit_new (\<lambda>d. binary_inst op sg d a b) pb) }) (Logic u)"
    by (rule computes_binary [OF assms(1-3)]) (simp_all add: exec_binary assms(4))
  from computes_resize [OF assms(1) this assms(6), of "w = 1" False] assms(5) show ?thesis
    by (intro computes_cong [of "gen_compare op w sg gl gr"]) (auto simp: gen_compare_def case_prod_unfold Let_def)
qed

text \<open>An expression whose value does not depend on the context is extended with zeros.\<close>

definition stands_alone :: "Expr \<Rightarrow> bool" where
  "stands_alone e \<longleftrightarrow>
     (case e of
        Expr.Unary op _ \<Rightarrow> op \<notin> context_unary
      | Expr.Binary op _ _ \<Rightarrow> op \<notin> arithmetic \<union> shifts \<union> comparisons
      | Expr.Index _ _ \<Rightarrow> True
      | Expr.PartSelect _ _ _ \<Rightarrow> True
      | _ \<Rightarrow> False)"

lemma stands_alone_value:
  assumes "scope_wf sc" and "contextual sc e" and "stands_alone e" and "ctx_value sc e w sg = Some v"
  shows "\<exists>x. ctx_value sc e (lrm_width sc e) sg' = Some x \<and> v = resize x w False"
proof -
  note wf = ctx_value_shape [OF _ assms(1)] and range = lrm_width_range [OF _ assms(1)]
  have "\<exists>u. width u = lrm_width sc e \<and> (\<forall>w sg. ctx_value sc e w sg = Some (resize u w False))"
  proof (cases e)
    case (Unary op a)
    then have c: "contextual sc a" and op: "op \<notin> context_unary"
      using assms(2,3) uniform_contextual by (auto simp: stands_alone_def split: if_splits)
    obtain x where x: "ctx_value sc a (lrm_width sc a) (lrm_signed sc a) = Some x" using assms(4) Unary op by auto
    then have "wf_lv x" using wf [OF c x] range [OF c] by simp
    then show ?thesis using unary_shape [of x op] Unary op x by auto
  next
    case (Binary op l r)
    then have op: "op \<notin> arithmetic" "op \<notin> shifts" "op \<notin> comparisons" using assms(3) by (auto simp: stands_alone_def)
    then have c: "contextual sc l" "contextual sc r" using assms(2) Binary uniform_contextual by auto
    obtain x y u where s: "ctx_value sc l (lrm_width sc l) (lrm_signed sc l) = Some x" "ctx_value sc r (lrm_width sc r) (lrm_signed sc r) = Some y"
        "binary_value op False x y = Some u"
      using assms(4) Binary op by (auto simp: Option.bind_eq_Some_conv)
    have "wf_lv x" "wf_lv y" using wf [OF c(1) s(1)] wf [OF c(2) s(2)] range c by simp_all
    then show ?thesis using binary_shape [OF _ _ s(3)] Binary op s by auto
  next
    case (Index a i)
    obtain x j where s: "ctx_value sc a (lrm_width sc a) (lrm_signed sc a) = Some x" "ctx_value sc i (lrm_width sc i) (lrm_signed sc i) = Some j"
      using assms(4) Index by (auto simp: Option.bind_eq_Some_conv)
    show ?thesis by (rule exI [of _ "selected_bit x j"]) (simp add: Index s)
  next
    case (PartSelect a l r)
    obtain hi lo x where s: "literal_bounds l r = Some (hi, lo)" "ctx_value sc a (lrm_width sc a) (lrm_signed sc a) = Some x"
      using assms(4) PartSelect by (auto simp: Option.bind_eq_Some_conv)
    have "lrm_width sc a < 2 ^ 32" "lo \<le> hi" "hi < lrm_width sc a"
      using assms(2) PartSelect s(1) range uniform_contextual by (auto simp: bounds_ok_def)
    then have "width (slice x hi lo) = hi - lo + 1" by (intro width_slice) simp_all
    then show ?thesis using PartSelect s by auto
  qed (use assms(3) in \<open>simp_all add: stands_alone_def\<close>)
  then obtain u where u: "width u = lrm_width sc e" "\<And>w sg. ctx_value sc e w sg = Some (resize u w False)" by blast
  have "resize u (lrm_width sc e) False = u" using u(1) by (metis resize_same)
  then show ?thesis using u(2) assms(4) by simp
qed

text \<open>The last arm of \<open>gen_expr_at_width_with_sign\<close>: the expression by itself, extended.\<close>

lemma computes_extended:
  assumes "scoped cg sc" and "uniform sc e" and "ctx_value sc e (lrm_width sc e) s = Some x" and "1 \<le> w"
    and "\<And>pb. gen_expr_at_width_with_sign cg e w sg pb = gen_resized cg e w sg (\<lambda>pb. gen_expr cg e pb) pb"
  shows "computes lk P L n (environment cg sc) (gen_expr_at_width_with_sign cg e w sg) (Logic (resize x w sg))"
proof -
  have c: "contextual sc e" "no_fill e" using uniform_contextual [OF assms(2)] by simp_all
  have "width x = lrm_width sc e"
    using ctx_value_shape [OF c(1) scoped_wf [OF assms(1)] assms(3)] lrm_width_range [OF c(1) scoped_wf [OF assms(1)]] by simp
  then have "integral_expr_width cg e = Some (Some (width x))" using generator_width [OF assms(1) c] by simp
  then show ?thesis
    using gen_expr_computes [OF assms(1-3)] by (intro computes_cong [OF assms(5) computes_resized [OF closed_environment _ assms(4)]])
qed

lemma computes_alone:
  assumes "scoped cg sc" and "uniform sc e" and "stands_alone e" and "ctx_value sc e w sg = Some v" and "1 \<le> w" and "\<not> sg"
  shows "computes lk P L n (environment cg sc) (gen_expr_at_width_with_sign cg e w sg) (Logic v)"
proof -
  have c: "contextual sc e" using uniform_contextual [OF assms(2)] by simp
  obtain x where x: "ctx_value sc e (lrm_width sc e) sg = Some x" "v = resize x w False"
    using stands_alone_value [OF scoped_wf [OF assms(1)] c assms(3,4)] by blast
  have "gen_expr_at_width_with_sign cg e w sg pb = gen_resized cg e w sg (\<lambda>pb. gen_expr cg e pb) pb" for pb
    unfolding gen_expr_at_width_with_sign.simps [of cg e w sg pb]
    using assms(3) by (cases e) (auto simp: stands_alone_def op_sets)
  from computes_extended [OF assms(1,2) x(1) assms(5) this] show ?thesis using assms(6) x(2) by simp
qed

theorem gen_at_computes:
  assumes "scoped cg sc" and "contextual sc e" and "sg \<longrightarrow> lrm_signed sc e" and "ctx_value sc e w sg = Some v" and "1 \<le> w" and "w < 2 ^ 32"
  shows "computes lk P L n (environment cg sc) (gen_expr_at_width_with_sign cg e w sg) (Logic v)"
  using assms(2-)
proof (induction e arbitrary: w sg v)
  case (Literal u)
  then have v: "v = resize u w sg" by simp
  show ?case unfolding v
    by (rule computes_extended [OF assms(1), of _ False])
      (use Literal.prems in \<open>simp_all add: gen_expr_at_width_with_sign.simps [of cg "Expr.Literal u"]\<close>)
next
  case (SignedLiteral u)
  then have v: "v = resize u w sg" by simp
  show ?case unfolding v
    by (rule computes_extended [OF assms(1), of _ False])
      (use SignedLiteral.prems in \<open>simp_all add: gen_expr_at_width_with_sign.simps [of cg "Expr.SignedLiteral u"]\<close>)
next
  case (Fill b)
  then show ?case
    by (intro computes_cong [OF _ computes_const])
      (simp add: gen_expr_at_width_with_sign.simps [of cg "Expr.Fill b"] filled_chk_def zero_chk_def)
next
  case (Ref name)
  obtain sn u where u: "sc name = Some (sn, u)" using Ref.prems(1) by auto
  then have v: "v = resize u w sg" using Ref.prems(3) by simp
  show ?case unfolding v
    by (rule computes_extended [OF assms(1), of _ False])
      (use Ref.prems u in \<open>simp_all add: gen_expr_at_width_with_sign.simps [of cg "Expr.Ref name"]\<close>)
next
  case (Unary op a)
  show ?case
  proof (cases "op \<in> context_unary")
    case True
    then obtain x where x: "ctx_value sc a w sg = Some x" "v = unary_value op x" using Unary.prems by auto
    have c: "contextual sc a" "sg \<longrightarrow> lrm_signed sc a" using Unary.prems True by simp_all
    show ?thesis unfolding x(2)
      by (rule computes_cong [OF _ computes_unary [OF closed_environment Unary.IH [OF c x(1)], of "unary_inst op"]])
        (use True Unary.prems in \<open>simp_all add: gen_expr_at_width_with_sign.simps [of cg "Expr.Unary op a"] exec_unary context_unary_def\<close>)
  next
    case False
    then show ?thesis using Unary.prems by (intro computes_alone [OF assms(1)]) (simp_all add: stands_alone_def)
  qed
next
  case (Binary op l r)
  note eq = gen_expr_at_width_with_sign.simps [of cg "Expr.Binary op l r"]
  consider (arith) "op \<in> arithmetic" | (shift) "op \<in> shifts" "op \<notin> arithmetic"
    | (comp) "op \<in> comparisons" "op \<notin> arithmetic" "op \<notin> shifts" | (logical) "op \<notin> comparisons" "op \<notin> arithmetic" "op \<notin> shifts"
    by blast
  then show ?case
  proof cases
    case arith
    then obtain x y where s: "ctx_value sc l w sg = Some x" "ctx_value sc r w sg = Some y" "binary_value op sg x y = Some v"
      using Binary.prems by (auto simp: Option.bind_eq_Some_conv)
    have c: "contextual sc l" "contextual sc r" "sg \<longrightarrow> lrm_signed sc l" "sg \<longrightarrow> lrm_signed sc r" using Binary.prems arith by simp_all
    note L = Binary.IH(1) [OF c(1,3) s(1) Binary.prems(4,5)] and R = Binary.IH(2) [OF c(2,4) s(2) Binary.prems(4,5)]
    show ?thesis
      by (rule computes_cong [OF _ computes_binary [OF closed_environment L R, of "binary_inst op sg"]])
        (use arith in \<open>auto simp: eq exec_binary s(3) arithmetic_def\<close>)
  next
    case shift
    then obtain x y where s: "ctx_value sc l w sg = Some x" "ctx_value sc r (lrm_width sc r) (lrm_signed sc r) = Some y"
        "binary_value op sg x y = Some v"
      using Binary.prems by (auto simp: Option.bind_eq_Some_conv)
    have c: "contextual sc l" "uniform sc r" "sg \<longrightarrow> lrm_signed sc l" using Binary.prems shift by simp_all
    note L = Binary.IH(1) [OF c(1,3) s(1) Binary.prems(4,5)] and R = gen_expr_computes [OF assms(1) c(2) s(2)]
    show ?thesis
      by (rule computes_cong [OF _ computes_binary [OF closed_environment L R, of "binary_inst op sg"]])
        (use shift in \<open>auto simp: eq exec_binary s(3) shifts_def\<close>)
  next
    case comp
    let ?cw = "max (lrm_width sc l) (lrm_width sc r)" and ?cs = "lrm_signed sc l \<and> lrm_signed sc r"
    obtain x y u where s: "ctx_value sc l ?cw ?cs = Some x" "ctx_value sc r ?cw ?cs = Some y" "binary_value op ?cs x y = Some u"
        "v = resize u w False"
      using Binary.prems comp by (auto simp: Option.bind_eq_Some_conv)
    have c: "contextual sc l" "contextual sc r" "no_fill l" "no_fill r" using Binary.prems comp by simp_all
    note wf = scoped_wf [OF assms(1)]
    have cw: "1 \<le> ?cw" "?cw < 2 ^ 32" using lrm_width_range [OF c(1) wf] lrm_width_range [OF c(2) wf] by auto
    have "wf_lv x" "wf_lv y" using ctx_value_shape [OF c(1) wf s(1) cw] ctx_value_shape [OF c(2) wf s(2) cw] by simp_all
    then have u: "width u = 1" using binary_shape [OF _ _ s(3)] comp by simp
    have w: "integral_expr_width cg l = Some (Some (lrm_width sc l))" "integral_expr_width cg r = Some (Some (lrm_width sc r))"
      "integral_expr_signed cg l = Some (lrm_signed sc l)" "integral_expr_signed cg r = Some (lrm_signed sc r)"
      using generator_width [OF assms(1)] generator_sign [OF assms(1)] c by simp_all
    have L: "computes lk P L n (environment cg sc) (gen_expr_at_width_with_sign cg l ?cw ?cs) (Logic x)"
      by (rule Binary.IH(1) [OF c(1) _ s(1) cw]) simp
    have R: "computes lk P L n (environment cg sc) (gen_expr_at_width_with_sign cg r ?cw ?cs) (Logic y)"
      by (rule Binary.IH(2) [OF c(2) _ s(2) cw]) simp
    have "gen_expr_at_width_with_sign cg (Expr.Binary op l r) w sg pb =
        gen_compare op w ?cs (gen_expr_at_width_with_sign cg l ?cw ?cs) (gen_expr_at_width_with_sign cg r ?cw ?cs) pb" for pb
      using comp by (auto simp: eq w compare_width_def op_sets)
    then show ?thesis unfolding s(4)
      by (rule computes_cong [OF _ computes_compare [OF closed_environment L R s(3) u Binary.prems(4)]])
  next
    case logical
    then have "uniform sc (Expr.Binary op l r)" using Binary.prems(1) by (auto simp: op_sets)
    then show ?thesis using Binary.prems logical by (intro computes_alone [OF assms(1)]) (simp_all add: stands_alone_def)
  qed
next
  case (Conditional c t f)
  obtain x y z where s: "ctx_value sc c (lrm_width sc c) (lrm_signed sc c) = Some x" "ctx_value sc t w sg = Some y"
      "ctx_value sc f w sg = Some z" "v = conditional x y z"
    using Conditional.prems by (auto simp: Option.bind_eq_Some_conv)
  have c: "uniform sc c" "contextual sc t" "contextual sc f" "sg \<longrightarrow> lrm_signed sc t" "sg \<longrightarrow> lrm_signed sc f"
    using Conditional.prems by simp_all
  have w: "width y = width z"
    using ctx_value_shape [OF c(2) scoped_wf [OF assms(1)] s(2)] ctx_value_shape [OF c(3) scoped_wf [OF assms(1)] s(3)] Conditional.prems by simp
  note parts = gen_expr_computes [OF assms(1) c(1) s(1)] Conditional.IH(2) [OF c(2,4) s(2) Conditional.prems(4,5)]
    Conditional.IH(3) [OF c(3,5) s(3) Conditional.prems(4,5)]
  show ?case unfolding s(4)
    by (rule computes_cong [OF _ computes_conditional [OF closed_environment parts w]])
      (simp add: gen_expr_at_width_with_sign.simps [of cg "Expr.Conditional c t f"])
next
  case (Index a i)
  then show ?case by (intro computes_alone [OF assms(1)]) (simp_all add: stands_alone_def)
next
  case (PartSelect a l r)
  then show ?case by (intro computes_alone [OF assms(1)]) (simp_all add: stands_alone_def)
qed auto

section \<open>Departures from the manual\<close>

text \<open>
  By itself, \<open>>>>\<close> of a signed operand by an unsigned amount is compiled to a logical shift; in the manual
  only the left operand decides.
\<close>

lemma sar_by_unsigned:
  assumes "integral_expr_signed cg l = Some True" and "integral_expr_signed cg r = Some False"
  shows "gen_expr cg (Expr.Binary BinOp.Sar l r) pb =
    do { (pb, a) \<leftarrow> gen_expr cg l pb; (pb, b) \<leftarrow> gen_expr cg r pb; Some (emit_new (\<lambda>d. AluI (AluInst.Shr d a b)) pb) }"
  by (simp add: gen_expr.simps [of cg "Expr.Binary BinOp.Sar l r"] assms binary_inst_def)

text \<open>
  An assignment to a narrower target cuts the left operand of a right shift before the shift: for
  \<open>assign y = x >> 4\<close> with a four-bit \<open>y\<close> and \<open>x = 8'hF0\<close> the code computes 0, where the manual says 15.
\<close>

definition shift_expr :: Expr where
  "shift_expr = Expr.Binary BinOp.Shr (Expr.Ref ''x'') (Expr.Literal (from_u64 4 32))"

definition shift_scope :: Scope where
  "shift_scope = [''x'' \<mapsto> (False, from_u64 240 8)]"

lemma amount_4: "width x < 2 ^ 31 \<Longrightarrow> shift_amount x (from_u64 4 32) = Some 4"
proof -
  have "is_known (from_u64 4 32)" "unat (to_u64 (from_u64 4 32)) = 4" by code_simp+
  then show "width x < 2 ^ 31 \<Longrightarrow> shift_amount x (from_u64 4 32) = Some 4" by (simp add: shift_amount_def)
qed

lemma shift_values:
  "lrm_assigned shift_scope shift_expr 4 = Some (from_u64 15 4)" "ctx_value shift_scope shift_expr 4 False = Some (from_u64 0 4)"
proof -
  have "shr (from_u64 240 8) 4 = from_u64 15 8" "resize (from_u64 15 8) 4 False = from_u64 15 4"
    "resize (from_u64 240 8) 4 False = from_u64 0 4" "shr (from_u64 0 4) 4 = from_u64 0 4"
    "resize (from_u64 240 8) 8 False = from_u64 240 8" "resize (from_u64 4 32) 32 False = from_u64 4 32"
    by code_simp+
  then show "lrm_assigned shift_scope shift_expr 4 = Some (from_u64 15 4)"
    and "ctx_value shift_scope shift_expr 4 False = Some (from_u64 0 4)"
    by (simp_all add: lrm_assigned_def lrm_extend_def lrm_binary_def shift_expr_def shift_scope_def arithmetic_def shifts_def
        binary_value_def amount_4)
qed

lemma narrow_shift_loses:
  assumes "scoped cg shift_scope"
  shows "computes lk P L n (environment cg shift_scope) (gen_expr_at_width cg shift_expr 4) (Logic (from_u64 0 4))"
proof -
  have c: "contextual shift_scope shift_expr" by (simp add: shift_expr_def shift_scope_def arithmetic_def shifts_def wf_from_u64)
  have s: "lrm_signed shift_scope shift_expr = False" by (simp add: shift_expr_def shift_scope_def arithmetic_def)
  have "computes lk P L n (environment cg shift_scope) (gen_expr_at_width_with_sign cg shift_expr 4 False) (Logic (from_u64 0 4))"
    by (rule gen_at_computes [OF assms c _ shift_values(2)]) simp_all
  then show ?thesis
    by (rule computes_cong [rotated]) (simp add: gen_expr_at_width_def generator_sign [OF assms c] s)
qed

end
