(* ===== verification/Gen_Assign.thy ===== *)
theory Gen_Assign
  imports Gen_Sound
begin

text \<open>
  Continuous assignments: the program of one drives the value that the right side has for the nets as they
  are, waits for a change of a net the right side reads, and starts again.
\<close>

section \<open>The built program\<close>

lemma build_realises:
  assumes "complete {} (new_builder name) b" and "build b = Some prog" and "length (pcode prog) < u32_max"
  shows "realises prog (labels b) b"
proof -
  have n: "length (bcode b) < u32_max" using assms(3) build_length [OF assms(2)] by simp
  note c = complete_patches [OF assms(1) n]
  have "patch_loop (labels b) (patches b) (bcode b) = Some (map (patched (labels b) (patches b) (bcode b)) [0..<length (bcode b)])"
    using patch_loop_spec [OF c(1,2), of "labels b"] c(3) by simp
  then show ?thesis using assms(2) n by (auto simp: build_def realises_def at_def)
qed

lemma build_lists: "build b = Some prog \<Longrightarrow> n_regs prog = bn_regs b \<and> netlists prog = bnetlists b"
  by (auto simp: build_def)

lemma start_ok: "builder_ok continuous_start"
  by (simp add: continuous_start_def new_builder_def builder_ok_def)

lemma continuous_layout:
  assumes "gen_continuous cg rhs driver w None = Some prog" and "length (pcode prog) < u32_max"
  shows "\<exists>L p2 r. gen_expr_at_width cg rhs w continuous_start = Some (p2, r) \<and> realises prog L p2 \<and>
    at (pcode prog) (length (bcode p2)) = Some (NetI (DriveNet driver r)) \<and>
    (let reads = collect_net_reads cg rhs []
     in if reads = [] then at (pcode prog) (length (bcode p2) + 1) = Some (TimingI Finish) \<and> length (pcode prog) = length (bcode p2) + 2
        else (\<exists>ns. at (pcode prog) (length (bcode p2) + 1) = Some (TimingI (WaitCond ns)) \<and> at (netlists prog) ns = Some reads) \<and>
          at (pcode prog) (length (bcode p2) + 2) = Some (FlowI (Jump 0)) \<and> length (pcode prog) = length (bcode p2) + 3)"
proof -
  let ?reads = "collect_net_reads cg rhs []" and ?new = "new_builder ''continuous assign''"
  obtain p2 r where s: "gen_expr_at_width cg rhs w continuous_start = Some (p2, r)"
      "build (continuous_end ?reads (emit (drive_inst driver r None) p2)) = Some prog"
      "progress ?new {} {0} {} continuous_start" "progress ?new {} {0} {} (emit (drive_inst driver r None) p2)"
    using continuous_parts [OF assms(1)] by blast
  define p3 where "p3 = emit (NetI (DriveNet driver r)) p2"
  have p3: "emit (drive_inst driver r None) p2 = p3" by (simp add: p3_def drive_inst_def)
  note P3 = s(4) [unfolded p3]
  have P2: "complete {} continuous_start p2" using tidyD [OF gen_expr_at_width_tidy s(1)] .
  have "builder_call\<^sup>*\<^sup>* continuous_start p2" using P2 by (simp add: progress_def)
  then have o2: "builder_ok p2" using start_ok by (induction rule: rtranclp_induct) (auto intro: builder_call_ok)
  have k3: "retains p2 p3" unfolding p3_def by (rule emit_retains)
  have o3: "builder_ok p3" unfolding p3_def by (rule builder_call_ok [OF call_emit o2])
  show ?thesis
  proof (cases "?reads = []")
    case True
    let ?b = "emit (TimingI Finish) p3"
    have b: "build ?b = Some prog" using s(2) True by (simp add: continuous_end_def p3)
    have R: "realises prog (labels ?b) ?b"
      by (rule build_realises [OF progress_forget [OF progress_emit [OF P3]] b assms(2)]) simp
    have R3: "realises prog (labels ?b) p3" by (rule realises_back [OF R emit_retains])
    have R2: "realises prog (labels ?b) p2" by (rule realises_back [OF R3 k3])
    show ?thesis
      using s(1) R2 realises_emit [OF R3 [unfolded p3_def] o2] realises_emit [OF R o3] True build_length [OF b]
      by (intro exI [of _ "labels ?b"] exI [of _ p2] exI [of _ r]) (simp add: p3_def emit_def)
  next
    case False
    let ?q = "fst (netlist ?reads p3)" and ?wait = "TimingI (WaitCond (length (bnetlists p3)))"
    let ?b = "jump 0 (emit ?wait ?q)"
    have b: "build ?b = Some prog" using s(2) False by (simp add: continuous_end_def p3 netlist_def)
    have Pq: "progress ?new {} {0} {} (emit ?wait ?q)" by (intro progress_emit progress_steps P3 plain_simps)
    have C: "complete {} ?new ?b" using progress_jumps(1) [OF Pq, of 0] progress_forget by blast
    have R: "realises prog (labels ?b) ?b" by (rule build_realises [OF C b assms(2)])
    have R4: "realises prog (labels ?b) (emit ?wait ?q)" by (rule realises_back [OF R emit_patched_retains(1)])
    have Rq: "realises prog (labels ?b) ?q" by (rule realises_back [OF R4 emit_retains])
    have R3: "realises prog (labels ?b) p3" by (rule realises_back [OF Rq plain_calls_retain(4)])
    have R2: "realises prog (labels ?b) p2" by (rule realises_back [OF R3 k3])
    have oq: "builder_ok ?q" by (rule builder_call_ok [OF call_netlist o3])
    have ow: "builder_ok (emit ?wait ?q)" by (rule builder_call_ok [OF call_emit oq])
    have "labels p2 ! 0 = 0"
      using P2 realises_short [OF R2] by (simp add: progress_def labels_kept_def continuous_start_def)
    then have l: "labels ?b ! 0 = 0" by (simp add: jump_def emit_patched_def emit_def netlist_def p3_def)
    have ns: "at (netlists prog) (length (bnetlists p3)) = Some ?reads"
      using build_lists [OF b] by (simp add: jump_def emit_patched_def emit_def netlist_def at_def nth_append)
    show ?thesis
      using s(1) R2 realises_emit [OF R3 [unfolded p3_def] o2] realises_emit [OF R4 oq] realises_jumps(1) [OF R ow] l ns False build_length [OF b]
      by (intro exI [of _ "labels ?b"] exI [of _ p2] exI [of _ r])
        (auto simp: p3_def emit_def netlist_def jump_def emit_patched_def)
  qed
qed

section \<open>The evaluation\<close>

text \<open>The nets of a scope have the values of the scope.\<close>

definition nets_hold :: "CodeGen \<Rightarrow> Scope \<Rightarrow> Kernel \<Rightarrow> bool" where
  "nets_hold cg sc K \<longleftrightarrow>
     (\<forall>name sg v. sc name = Some (sg, v) \<longrightarrow>
        (case cg_consts cg name of
           Some cv \<Rightarrow> cv = v
         | None \<Rightarrow> (\<exists>net w. cg_nets cg name = Some (net, w) \<and> net_value net K = Some v)))"

lemma nets_environment:
  assumes "nets_hold cg sc K" and "locals cg = []"
  shows "environment cg sc 0 (\<lambda>m. nets_hold cg sc (kern m))"
  using assms
  by (fastforce simp: environment_def located_def local_var_def stable_def same_upto_def nets_hold_def split: option.splits)

lemma gen_expr_at_width_computes:
  assumes "scoped cg sc" and "contextual sc e" and "lrm_width sc e \<le> w" and "w < 2 ^ 32" and "assigned_value sc e w = Some v"
  shows "computes lk P L n (environment cg sc) (gen_expr_at_width cg e w) (Logic v)"
proof -
  note wf = scoped_wf [OF assms(1)]
  have w: "1 \<le> w" using lrm_width_range [OF assms(2) wf] assms(3) by simp
  have "ctx_value sc e w (lrm_signed sc e) = Some v" using assigned_value_wide [OF assms(2) wf assms(3,4)] assms(5) by simp
  then show ?thesis
    by (intro computes_cong [OF _ gen_at_computes [OF assms(1,2) _ _ w assms(4)]])
      (simp_all add: gen_expr_at_width_def generator_sign [OF assms(1,2)])
qed

lemma run_frame_out:
  "at (pcode prog) (pc m) = Some inst \<Longrightarrow> exec lk prog n inst (m\<lparr>pc := pc m + 1\<rparr>) = Some (Inr (m', st)) \<Longrightarrow>
    run_frame lk prog n m = Some (m', st)"
  by (simp add: run_frame.simps [of lk prog n m])

text \<open>From the start of the program, or from the jump back to it.\<close>

lemma continuous_run:
  assumes g: "gen_continuous cg rhs driver w None = Some prog" "length (pcode prog) < u32_max"
    and sc: "scoped cg sc" "contextual sc rhs" "lrm_width sc rhs \<le> w" "w < 2 ^ 32" "assigned_value sc rhs w = Some v" "locals cg = []"
    and m: "nets_hold cg sc (kern m)" "length (regs m) = n_regs prog" "driver < length (drivers (kern m))"
    and p: "pc m = 0 \<or> collect_net_reads cg rhs [] \<noteq> [] \<and> pc m = length (pcode prog) - 1"
  shows "\<exists>m'. run_frame lk prog n m =
      Some (m', WaitStep (if collect_net_reads cg rhs [] = [] then Finished else Cond (collect_net_reads cg rhs []))) \<and>
    kern m' = drive_net driver v (kern m) \<and> world m' = world m \<and> length (regs m') = n_regs prog \<and>
    (collect_net_reads cg rhs [] \<noteq> [] \<longrightarrow> pc m' = length (pcode prog) - 1)"
proof -
  let ?reads = "collect_net_reads cg rhs []"
  obtain L p2 r where s: "gen_expr_at_width cg rhs w continuous_start = Some (p2, r)" "realises prog L p2"
      "at (pcode prog) (length (bcode p2)) = Some (NetI (DriveNet driver r))"
    and e: "if ?reads = [] then at (pcode prog) (length (bcode p2) + 1) = Some (TimingI Finish) \<and> length (pcode prog) = length (bcode p2) + 2
        else (\<exists>ns. at (pcode prog) (length (bcode p2) + 1) = Some (TimingI (WaitCond ns)) \<and> at (netlists prog) ns = Some ?reads) \<and>
          at (pcode prog) (length (bcode p2) + 2) = Some (FlowI (Jump 0)) \<and> length (pcode prog) = length (bcode p2) + 3"
    using continuous_layout [OF g] unfolding Let_def by blast
  define m0 where "m0 = m\<lparr>pc := 0\<rparr>"
  have start: "run_frame lk prog n m = run_frame lk prog n m0"
  proof (cases "pc m = 0")
    case False
    then have "at (pcode prog) (pc m) = Some (FlowI (Jump 0))" using e p by auto
    then show ?thesis unfolding m0_def by (rule run_frame_step [OF step_jump])
  next
    case True
    then have "m0 = m" by (simp add: m0_def)
    then show ?thesis by simp
  qed
  have E: "environment cg sc 0 (\<lambda>m. nets_hold cg sc (kern m))" using nets_environment [OF m(1) sc(6)] .
  have Y: "yields lk prog L n 0 (\<lambda>m. nets_hold cg sc (kern m)) (gen_expr_at_width cg rhs w) (Logic v)"
    using gen_expr_at_width_computes [OF sc(1-5)] E by (simp add: computes_def)
  have R: "runs lk prog L n 0 (\<lambda>m. nets_hold cg sc (kern m)) continuous_start p2 r (Logic v)"
    by (rule yieldsD [OF Y s(1) start_ok _ s(2)]) simp
  obtain m1 where m1: "frame_steps lk prog n m0 m1" "pc m1 = length (bcode p2)" "reg r m1 = Some (Logic v)"
      "same_upto (bn_regs continuous_start) m0 m1" "length (regs m1) = n_regs prog"
    by (rule runsD [OF R, of m0]) (use m in \<open>simp_all add: m0_def continuous_start_def new_builder_def\<close>)
  have k1: "kern m1 = kern m" "world m1 = world m" using m1(4) by (simp_all add: same_upto_def m0_def)
  let ?m2 = "m1\<lparr>pc := pc m1 + 1, kern := drive_net driver v (kern m)\<rparr>"
  have "frame_step lk prog n m1 ?m2"
    by (rule frame_step.intros [OF s(3) [folded m1(2)]])
      (use m1(3) m(3) k1 in \<open>simp add: exec_def exec_net_def lreg_def reg_def logic_reg_def as_logic_def at_def with_kern_def\<close>)
  then have run: "run_frame lk prog n m = run_frame lk prog n ?m2"
    using start run_frame_steps [OF m1(1)] run_frame_step by simp
  show ?thesis
  proof (cases "?reads = []")
    case True
    then have "at (pcode prog) (pc ?m2) = Some (TimingI Finish)" using e m1(2) by simp
    then have "run_frame lk prog n ?m2 = Some (?m2\<lparr>pc := pc ?m2 + 1\<rparr>, WaitStep Finished)"
      by (rule run_frame_out) (simp add: exec_def exec_timing_def)
    then show ?thesis using run True k1 m1(5) by auto
  next
    case False
    then obtain ns where ns: "at (pcode prog) (pc ?m2) = Some (TimingI (WaitCond ns))" "at (netlists prog) ns = Some ?reads"
      using e m1(2) by auto
    have "run_frame lk prog n ?m2 = Some (?m2\<lparr>pc := pc ?m2 + 1\<rparr>, WaitStep (Cond ?reads))"
      by (rule run_frame_out [OF ns(1)]) (simp add: exec_def exec_timing_def ns(2))
    then show ?thesis using run False k1 m1(2,5) e by auto
  qed
qed

section \<open>Sensitivity\<close>

text \<open>The names an expression refers to decide its value, and each that is a net is in the list it waits for.\<close>

fun names_of :: "Expr \<Rightarrow> string set" where
  "names_of (Expr.Ref n) = {n}"
| "names_of (Expr.Unary _ a) = names_of a"
| "names_of (Expr.Binary _ l r) = names_of l \<union> names_of r"
| "names_of (Expr.Conditional c t f) = names_of c \<union> names_of t \<union> names_of f"
| "names_of (Expr.Index a i) = names_of a \<union> names_of i"
| "names_of (Expr.PartSelect a l r) = names_of a"
| "names_of _ = {}"

lemma ctx_value_depends:
  assumes "\<And>n. n \<in> names_of e \<Longrightarrow> sc n = sc' n"
  shows "lrm_width sc e = lrm_width sc' e \<and> lrm_signed sc e = lrm_signed sc' e \<and> ctx_value sc e w sg = ctx_value sc' e w sg"
  using assms
  by (induction e arbitrary: w sg) (simp_all cong: option.case_cong)

lemma fold_more:
  assumes "\<And>x ns. x \<in> set xs \<Longrightarrow> set ns \<subseteq> set (f x ns)"
  shows "set ns \<subseteq> set (fold f xs ns)"
  using assms
proof (induction xs arbitrary: ns)
  case (Cons x xs)
  have "set ns \<subseteq> set (f x ns)" "set (f x ns) \<subseteq> set (fold f xs (f x ns))" using Cons by simp_all
  then show ?case by simp
qed simp

lemma collect_more: "set ns \<subseteq> set (collect_net_reads cg e ns)"
proof (induction cg e ns rule: collect_net_reads.induct)
  case (11 cg ob mth args ns)
  then show ?case using fold_more [of args "collect_net_reads cg" "collect_net_reads cg ob ns"] by auto
next
  case (12 cg bs i ns)
  have add: "set ns \<subseteq> set (fold add_read ms ns)" for ms by (rule fold_more) (auto simp: add_read_def)
  show ?case
  proof (cases "case bs of Expr.Ref name \<Rightarrow> cg_memories cg name | _ \<Rightarrow> None")
    case None
    then show ?thesis using subset_trans [OF 12(1,2) [OF None]] by simp
  next
    case (Some md)
    then show ?thesis using subset_trans [OF add 12(3) [OF Some]] by simp
  qed
qed (auto simp: add_read_def split: option.splits intro!: fold_more [THEN subsetD])

lemma names_read:
  assumes "name \<in> names_of e" and "cg_nets cg name = Some (net, w)" and "\<And>x. x \<in> names_of e \<Longrightarrow> cg_memories cg x = None"
  shows "net \<in> set (collect_net_reads cg e ns)"
  using assms(1,3)
proof (induction e arbitrary: ns)
  case (Ref n)
  then show ?case using assms(2) by (simp add: add_read_def)
next
  case (Index a i)
  have "(case a of Expr.Ref x \<Rightarrow> cg_memories cg x | _ \<Rightarrow> None) = None" using Index.prems(2) by (cases a) auto
  then show ?case using Index collect_more [of "collect_net_reads cg a ns" cg i] by auto
next
  case (Binary op l r)
  then show ?case using collect_more [of "collect_net_reads cg l ns" cg r] by auto
next
  case (Conditional c t f)
  let ?c = "collect_net_reads cg c ns" and ?t = "\<lambda>ns. collect_net_reads cg t ns"
  have "set ?c \<subseteq> set (collect_net_reads cg f (?t ?c))" "set (?t ?c) \<subseteq> set (collect_net_reads cg f (?t ?c))"
    using subset_trans [OF collect_more collect_more] collect_more by blast+
  then show ?case using Conditional by auto
next
  case (PartSelect a l r)
  let ?a = "collect_net_reads cg a ns"
  have "set ?a \<subseteq> set (collect_net_reads cg r (collect_net_reads cg l ?a))" by (rule subset_trans [OF collect_more collect_more])
  then show ?case using PartSelect by auto
qed auto

lemma names_in_scope: "contextual sc e \<Longrightarrow> name \<in> names_of e \<Longrightarrow> sc name \<noteq> None"
  by (induction e) (auto dest: uniform_contextual split: if_splits)

lemma nets_holdD:
  assumes "nets_hold cg sc K" and "sc name = Some (sg, v)" and "cg_consts cg name = None"
  shows "\<exists>net w. cg_nets cg name = Some (net, w) \<and> net_value net K = Some v"
  using assms(1) [unfolded nets_hold_def, rule_format, OF assms(2)] assms(3) by simp

lemma assigned_depends:
  assumes "scoped cg sc" and "scoped cg sc'" and "contextual sc e" and "contextual sc' e"
    and "nets_hold cg sc K" and "nets_hold cg sc' K'"
    and "\<And>net. net \<in> set (collect_net_reads cg e []) \<Longrightarrow> net_value net K' = net_value net K"
  shows "assigned_value sc' e w = assigned_value sc e w"
proof -
  have mem: "cg_memories cg name = None" if "name \<in> names_of e" for name
    using names_in_scope [OF assms(3) that] assms(1) by (auto simp: scoped_def declared_def)
  have "sc' name = sc name" if n: "name \<in> names_of e" for name
  proof -
    obtain sg v sg' v' where v: "sc name = Some (sg, v)" "sc' name = Some (sg', v')"
      using names_in_scope [OF assms(3) n] names_in_scope [OF assms(4) n] by auto
    have "declared cg name sg v" "declared cg name sg' v'" using assms(1,2) v by (simp_all add: scoped_def)
    then have "sg' = sg" by (simp add: declared_def)
    moreover have "v' = v"
    proof (cases "cg_consts cg name")
      case (Some cv)
      then show ?thesis using v assms(5,6) by (force simp: nets_hold_def)
    next
      case None
      then obtain net u where net: "cg_nets cg name = Some (net, u)" "net_value net K = Some v" "net_value net K' = Some v'"
        using nets_holdD [OF assms(5) v(1) None] nets_holdD [OF assms(6) v(2) None] by auto
      have "net \<in> set (collect_net_reads cg e [])" using names_read [OF n net(1) mem] by blast
      then show ?thesis using assms(7) net(2,3) by simp
    qed
    ultimately show ?thesis using v by simp
  qed
  then show ?thesis using ctx_value_depends [of e sc' sc] by (simp add: assigned_value_def)
qed

section \<open>Properties\<close>

text \<open>The right side has a meaning in the scope of the nets, and the target is not narrower than it.\<close>

definition assignable :: "CodeGen \<Rightarrow> Scope \<Rightarrow> Expr \<Rightarrow> nat \<Rightarrow> bool" where
  "assignable cg sc rhs w \<longleftrightarrow>
     locals cg = [] \<and> scoped cg sc \<and> contextual sc rhs \<and> lrm_width sc rhs \<le> w \<and> w < 2 ^ 32"

text \<open>\<open>assign y = a + b\<close> with four-bit \<open>a\<close> and \<open>b\<close> and an eight-bit \<open>y\<close>, which keeps the carry.\<close>

definition sum_expr :: Expr where
  "sum_expr = Expr.Binary BinOp.Add (Expr.Ref ''a'') (Expr.Ref ''b'')"

definition sum_codegen :: CodeGen where
  "sum_codegen = new_codegen [''a'' \<mapsto> (0, 4), ''b'' \<mapsto> (1, 4), ''y'' \<mapsto> (2, 8)] Map.empty Map.empty Map.empty Map.empty
     Map.empty [] Map.empty no_globals (\<lambda>_. 0)"

definition sum_scope :: Scope where
  "sum_scope = [''a'' \<mapsto> (False, from_u64 9 4), ''b'' \<mapsto> (False, from_u64 8 4)]"

definition sum_kernel :: Kernel where
  "sum_kernel =
     (let k = fst (new_net ''a'' (from_u64 9 4) NetResolution.Wire None (new_kernel default_timescale));
          k = fst (new_net ''b'' (from_u64 8 4) NetResolution.Wire None k);
          k = fst (new_net ''y'' (all_x 8) NetResolution.Wire None k)
      in fst (the (new_driver 2 DriveStrength.Strong DriveStrength.Strong k)))"

definition sum_machine :: "nat \<Rightarrow> Machine" where
  "sum_machine p = \<lparr>pc = p, regs = replicate 5 Value.Null, pending_nba = [],
     world = \<lparr>cells = Map.empty, next_cell = 0, next_event = 1, statics = [], arg_index = 0\<rparr>, kern = sum_kernel\<rparr>"

lemma sum_value: "lrm_assigned sum_scope sum_expr 8 = Some (from_u64 17 8)"
  by code_simp

lemma sum_reads: "collect_net_reads sum_codegen sum_expr [] = [0, 1]"
  by (simp add: sum_expr_def sum_codegen_def new_codegen_def add_read_def)

lemma sum_assignable: "assignable sum_codegen sum_scope sum_expr 8"
  by (auto simp: assignable_def scoped_def declared_def sum_codegen_def new_codegen_def no_globals_def sum_scope_def sum_expr_def
      ref_width_def or_else_def local_var_def is_string_local_def ref_signed_def in_ctx_def split: if_splits)

lemma sum_kernel_tables:
  "map nvalue (nets sum_kernel) = [from_u64 9 4, from_u64 8 4, all_x 8]" "length (drivers sum_kernel) = 1"
  by (simp_all add: sum_kernel_def new_driver_def new_net_def net_with_resolution_def new_kernel_def upd_net_def)

lemma sum_holds: "nets_hold sum_codegen sum_scope (kern (sum_machine p))"
proof -
  have n: "length (nets sum_kernel) = 3" using arg_cong [OF sum_kernel_tables(1), of length] by simp
  have "nvalue (nets sum_kernel ! i) = [from_u64 9 4, from_u64 8 4, all_x 8] ! i" if "i < 3" for i
    using arg_cong [OF sum_kernel_tables(1), of "\<lambda>xs. xs ! i"] n that by simp
  from this [of 0] this [of 1] n show ?thesis
    by (auto simp: nets_hold_def sum_codegen_def new_codegen_def sum_scope_def sum_machine_def net_value_def at_def split: if_splits)
qed

lemma sum_compiles:
  "\<exists>prog. gen_continuous sum_codegen sum_expr 0 8 None = Some prog \<and> length (pcode prog) = 8 \<and> n_regs prog = 5"
  by (simp add: gen_continuous_def sum_codegen_def sum_expr_def gen_eval binary_inst_def drive_inst_def netlist_def
      build_def jump_def set_target_def add_read_def Let_def)



text \<open>
  C8. A continuous assignment never goes stale and never stops. Once it waits, and one of the nets it
  waits for has woken it, the next run comes back to the same wait, having driven the value that the
  right side has for the nets as they are now (\<open>assigned_value\<close>, with the operators of the simulator);
  and this value stays the value of the right side for every later state of the nets in which the nets it
  waits for are unchanged, so that no change that matters is missed.
\<close>

theorem continuous_assignment_reacts:
  assumes "gen_continuous cg rhs driver w None = Some prog" and "length (pcode prog) < u32_max" and "assignable cg sc rhs w"
    and "assigned_value sc rhs w = Some v" and "nets_hold cg sc (kern m)" and "driver < length (drivers (kern m))"
    and "length (regs m) = n_regs prog" and "pc m = length (pcode prog) - 1" and "collect_net_reads cg rhs [] \<noteq> []"
  shows "(\<exists>m'. run_frame lk prog n m = Some (m', WaitStep (Cond (collect_net_reads cg rhs []))) \<and>
      kern m' = drive_net driver v (kern m) \<and> pc m' = pc m \<and> length (regs m') = n_regs prog) \<and>
    (\<forall>sc' k. assignable cg sc' rhs w \<and> nets_hold cg sc' k \<and>
      (\<forall>net \<in> set (collect_net_reads cg rhs []). net_value net k = net_value net (kern m)) \<longrightarrow>
      assigned_value sc' rhs w = Some v)"
proof -
  have "assigned_value sc' rhs w = Some v"
    if "assignable cg sc' rhs w" "nets_hold cg sc' k"
      "\<forall>net \<in> set (collect_net_reads cg rhs []). net_value net k = net_value net (kern m)" for sc' k
    using assigned_depends [OF _ _ _ _ assms(5) that(2), of rhs w] that(1,3) assms(3,4) by (simp add: assignable_def)
  moreover have "\<exists>m'. run_frame lk prog n m = Some (m', WaitStep (Cond (collect_net_reads cg rhs []))) \<and>
      kern m' = drive_net driver v (kern m) \<and> pc m' = pc m \<and> length (regs m') = n_regs prog"
    using continuous_run [OF assms(1,2) _ _ _ _ assms(4) _ assms(5,7,6), of lk n] assms(3,8,9)
    by (auto simp: assignable_def)
  ultimately show ?thesis by blast
qed

theorem continuous_assignment_reacts_witness:
  "\<exists>prog m'. gen_continuous sum_codegen sum_expr 0 8 None = Some prog \<and>
     run_frame (empty_linkage (\<lambda>_. [])) prog 0 (sum_machine 7) = Some (m', WaitStep (Cond [0, 1])) \<and>
     kern m' = drive_net 0 (from_u64 17 8) sum_kernel \<and> pc m' = 7"
proof -
  obtain prog where p: "gen_continuous sum_codegen sum_expr 0 8 None = Some prog" "length (pcode prog) = 8" "n_regs prog = 5"
    using sum_compiles by blast
  have "length (pcode prog) < u32_max" "0 < length (drivers (kern (sum_machine 7)))" "length (regs (sum_machine 7)) = n_regs prog"
    "pc (sum_machine 7) = length (pcode prog) - 1"
    using sum_kernel_tables(2) by (simp_all add: p u32_max_def sum_machine_def)
  note h = continuous_assignment_reacts [OF p(1) this(1) sum_assignable lrm_assigned_value [OF sum_value] sum_holds this(2-4), of "empty_linkage (\<lambda>_. [])" 0]
  show ?thesis using h p(1) by (fastforce simp: sum_reads sum_machine_def)
qed

end
