(* ===== verification/Mono.thy ===== *)
theory Mono
  imports Syntax IR_Ops
begin

text \<open>
  Monomorphisation (\<open>crates/eevee-elab/src/mono.rs\<close>): every use of a parameterised class with arguments
  becomes a class of its own. The state \<open>Mono\<close> is passed through; \<open>resolve_type\<close> and what it calls recur
  through each other without a bound in the code, so \<open>resolve_type\<close> has the depth of the calls as an argument
  and is \<open>None\<close> where the stack would be exhausted. The functions between take \<open>resolve_type\<close> as an argument.
\<close>

section \<open>State\<close>

record SubstCtx =
  bindings :: "string \<rightharpoonup> string"
  value_bindings :: "string \<rightharpoonup> string"
  aliases :: "string \<rightharpoonup> TypeRef"

record Mono =
  templates :: "string \<rightharpoonup> ClassDecl"
  mono_out :: "ClassDecl list"
  mono_index :: "string \<rightharpoonup> nat"
  in_progress :: "string set"
  cur :: SubstCtx
  global_aliases :: "string \<rightharpoonup> TypeRef"






section \<open>Names\<close>








section \<open>Substitution\<close>

type_synonym 'a subst = "Mono \<Rightarrow> (Mono \<times> 'a) option"

fun traverse :: "('a \<Rightarrow> 'b subst) \<Rightarrow> 'a list \<Rightarrow> 'b list subst" where
  "traverse f [] m = Some (m, [])"
| "traverse f (x # xs) m = do { (m, y) \<leftarrow> f x m; (m, ys) \<leftarrow> traverse f xs m; Some (m, y # ys) }"

fun traverse_opt :: "('a \<Rightarrow> 'b subst) \<Rightarrow> 'a option \<Rightarrow> 'b option subst" where
  "traverse_opt f None m = Some (m, None)"
| "traverse_opt f (Some x) m = do { (m, y) \<leftarrow> f x m; Some (m, Some y) }"

lemma traverse_cong [fundef_cong]:
  "xs = ys \<Longrightarrow> m = m' \<Longrightarrow> (\<And>x m. x \<in> set ys \<Longrightarrow> f x m = g x m) \<Longrightarrow> traverse f xs m = traverse g ys m'"
proof (induction xs arbitrary: ys m m')
  case (Cons x xs)
  then show ?case by (auto intro!: Option.bind_cong)
qed simp

lemma traverse_opt_cong [fundef_cong]:
  "x = y \<Longrightarrow> m = m' \<Longrightarrow> (\<And>z m. y = Some z \<Longrightarrow> f z m = g z m) \<Longrightarrow> traverse_opt f x m = traverse_opt g y m'"
  by (cases x) auto







section \<open>Specialisation\<close>











section \<open>The invariant\<close>

text \<open>Without type arguments. The substitution leaves the targets of assignments as they are.\<close>

fun plain_expr :: "Expr \<Rightarrow> bool" where
  "plain_expr (Expr.StaticCall _ cargs _ args) \<longleftrightarrow> cargs = [] \<and> list_all plain_expr args"
| "plain_expr (Expr.Unary _ a) \<longleftrightarrow> plain_expr a"
| "plain_expr (Expr.Binary _ l r) \<longleftrightarrow> plain_expr l \<and> plain_expr r"
| "plain_expr (Expr.Conditional c t f) \<longleftrightarrow> plain_expr c \<and> plain_expr t \<and> plain_expr f"
| "plain_expr (Expr.Call _ args) \<longleftrightarrow> list_all plain_expr args"
| "plain_expr (Expr.Field ob _) \<longleftrightarrow> plain_expr ob"
| "plain_expr (Expr.MethodCall ob _ args) \<longleftrightarrow> plain_expr ob \<and> list_all plain_expr args"
| "plain_expr (Expr.Index bs i) \<longleftrightarrow> plain_expr bs \<and> plain_expr i"
| "plain_expr (Expr.PartSelect bs l r) \<longleftrightarrow> plain_expr bs \<and> plain_expr l \<and> plain_expr r"
| "plain_expr (Expr.New args) \<longleftrightarrow> list_all plain_expr args"
| "plain_expr (Expr.Concat parts) \<longleftrightarrow> list_all plain_expr parts"
| "plain_expr (Expr.SysCall _ args) \<longleftrightarrow> list_all plain_expr args"
| "plain_expr _ \<longleftrightarrow> True"

definition plain_var :: "VarDecl \<Rightarrow> bool" where
  "plain_var v \<longleftrightarrow> (v_class_name v \<noteq> None \<longrightarrow> v_type_args v = [])"

fun plain_control :: "TimingControl \<Rightarrow> bool" where
  "plain_control (TimingControl.Delay e) \<longleftrightarrow> plain_expr e"
| "plain_control (TimingControl.Wait e) \<longleftrightarrow> plain_expr e"
| "plain_control (TimingControl.Event es) \<longleftrightarrow> list_all (plain_expr \<circ> ev_expr) es"

fun plain_stmt :: "Stmt \<Rightarrow> bool" where
  "plain_stmt (Block ss) \<longleftrightarrow> list_all plain_stmt ss"
| "plain_stmt (VarDeclStmt v) \<longleftrightarrow> plain_var v \<and> pred_option plain_expr (v_init v)"
| "plain_stmt (Timed ctl body) \<longleftrightarrow> plain_control ctl \<and> plain_stmt body"
| "plain_stmt (Blocking _ rhs) \<longleftrightarrow> plain_expr rhs"
| "plain_stmt (Nonblocking _ rhs) \<longleftrightarrow> plain_expr rhs"
| "plain_stmt (IfStmt c t e) \<longleftrightarrow> plain_expr c \<and> plain_stmt t \<and> pred_option plain_stmt e"
| "plain_stmt (While c body) \<longleftrightarrow> plain_expr c \<and> plain_stmt body"
| "plain_stmt (DoWhile c body) \<longleftrightarrow> plain_expr c \<and> plain_stmt body"
| "plain_stmt (Case e items dflt) \<longleftrightarrow> plain_expr e \<and> list_all (\<lambda>(vs, b). list_all plain_expr vs \<and> plain_stmt b) items \<and>
     pred_option plain_stmt dflt"
| "plain_stmt (Foreach c _ body) \<longleftrightarrow> plain_expr c \<and> plain_stmt body"
| "plain_stmt (ExprStmt e) \<longleftrightarrow> plain_expr e"
| "plain_stmt (Trigger e) \<longleftrightarrow> plain_expr e"
| "plain_stmt (Stmt.Return e) \<longleftrightarrow> pred_option plain_expr e"
| "plain_stmt (SysCallStmt _ args) \<longleftrightarrow> list_all plain_expr args"
| "plain_stmt (Stmt.Fork branches _) \<longleftrightarrow> list_all plain_stmt branches"
| "plain_stmt _ \<longleftrightarrow> True"

definition plain_param :: "Param \<Rightarrow> bool" where
  "plain_param p \<longleftrightarrow> (p_class_name p \<noteq> None \<longrightarrow> p_type_args p = []) \<and> pred_option plain_expr (p_default p)"

definition plain_func :: "FuncDecl \<Rightarrow> bool" where
  "plain_func f \<longleftrightarrow> list_all plain_param (f_params f) \<and> plain_stmt (f_body f)"

definition plain_class :: "ClassDecl \<Rightarrow> bool" where
  "plain_class c \<longleftrightarrow> cd_params c = [] \<and> cd_base_args c = [] \<and> list_all plain_var (cd_fields c) \<and>
     list_all plain_func (cd_methods c) \<and> pred_option plain_func (cd_constructor c) \<and>
     list_all (\<lambda>a. tr_args (ta_target a) = []) (cd_type_aliases c)"

definition mono_ok :: "Mono \<Rightarrow> bool" where
  "mono_ok m \<longleftrightarrow>
     (\<forall>name i. mono_index m name = Some i \<longleftrightarrow> i < length (mono_out m) \<and> cd_name (mono_out m ! i) = name) \<and>
     list_all plain_class (mono_out m)"

definition mono_grows :: "Mono \<Rightarrow> Mono \<Rightarrow> bool" where
  "mono_grows m m' \<longleftrightarrow> cur m' = cur m \<and> templates m' = templates m \<and> mono_index m \<subseteq>\<^sub>m mono_index m'"

text \<open>A step that keeps the invariant and the context, and whose result satisfies \<open>Q\<close>.\<close>

definition steady :: "('a \<Rightarrow> bool) \<Rightarrow> 'a subst \<Rightarrow> bool" where
  "steady Q g \<longleftrightarrow> (\<forall>m m' y. g m = Some (m', y) \<longrightarrow> Q y \<and> (mono_ok m \<longrightarrow> mono_ok m' \<and> mono_grows m m'))"



lemma mono_grows_refl [simp]: "mono_grows m m"
  by (simp add: mono_grows_def)




lemma steady_weaken: "steady Q g \<Longrightarrow> (\<And>y. Q y \<Longrightarrow> R y) \<Longrightarrow> steady R g"
  by (simp add: steady_def)



section \<open>Substitution keeps it\<close>










section \<open>Specialisation keeps it\<close>










section \<open>The whole pass\<close>









section \<open>Property\<close>






end
