(* ===== verification/IR_Props.thy ===== *)
theory IR_Props
  imports IR_Process
begin

text \<open>
  Properties of the operations of the interpreter: associative arrays refine partial maps, an element
  that is written is read back, casts decide the subclass relation, memories stay in range, calls
  pass and return arguments by their modes, and procedural non-blocking updates are deferred.
\<close>

section \<open>Associative arrays as maps\<close>

text \<open>The key that a traversal method visits, of the set of keys, from the key \<open>k\<close>.\<close>

definition visits :: "CollOp \<Rightarrow> AssocKey \<Rightarrow> AssocKey set \<Rightarrow> AssocKey option" where
  "visits op k D =
     (let least = (\<lambda>E. if E = {} then None else Some (Min E)); greatest = (\<lambda>E. if E = {} then None else Some (Max E))
      in (case op of
            First \<Rightarrow> least D
          | Last \<Rightarrow> greatest D
          | Next \<Rightarrow> least {l \<in> D. k < l}
          | Prev \<Rightarrow> greatest {l \<in> D. l < k}
          | _ \<Rightarrow> None))"

lemma first_key_Min: "btree_ok es \<Longrightarrow> first_key es = (if fst ` set es = {} then None else Some (Min (fst ` set es)))"
  by (cases es) (auto simp: first_key_def intro!: Min_eqI [symmetric] intro: less_imp_le)

lemma last_key_Max: "btree_ok es \<Longrightarrow> last_key es = (if fst ` set es = {} then None else Some (Max (fst ` set es)))"
  by (cases es rule: rev_cases) (auto simp: last_key_def sorted_wrt_append intro!: Max_eqI [symmetric] intro: less_imp_le)

lemma filter_keys: "fst ` set (filter (\<lambda>e. P (fst e)) es) = {l \<in> fst ` set es. P l}"
  by auto

lemma visits_key:
  assumes "btree_ok es"
  shows "first_key es = visits First k (dom (map_of es))" "last_key es = visits Last k (dom (map_of es))"
    "next_key k es = visits Next k (dom (map_of es))" "prev_key k es = visits Prev k (dom (map_of es))"
  using assms filter_keys [of "\<lambda>l. k < l" es] filter_keys [of "\<lambda>l. l < k" es]
  by (simp_all add: visits_def next_key_def prev_key_def first_key_Min last_key_Max filter_ok dom_map_of_conv_image_fst
      del: set_filter)

lemma btree_size: "btree_ok es \<Longrightarrow> card (dom (map_of es)) = length es"
  using card_image [of fst "set es"] btree_distinct [of es]
  by (simp add: dom_map_of_conv_image_fst distinct_map distinct_card)

text \<open>What a method returns and the registers it leaves, in terms of the map and the key in register \<open>a\<close>.\<close>

definition map_result :: "CollOp \<Rightarrow> Reg \<Rightarrow> AssocKey \<Rightarrow> (AssocKey \<rightharpoonup> Value) \<Rightarrow> Value list \<Rightarrow> Value \<times> Value list" where
  "map_result op a k M rs =
     (if op \<in> {Size, Num} then (int_val (card (dom M)), rs)
      else if op = Exists then (int_val (of_bool (k \<in> dom M)), rs)
      else if op \<in> {First, Last, Next, Prev} then
        (case visits op k (dom M) of None \<Rightarrow> (int_val 0, rs) | Some l \<Rightarrow> (int_val 1, rs[a := key_to_value l]))
      else (Null, rs))"

text \<open>
  C22. Associative arrays refine partial maps. On an array whose entries are sorted by key, each method
  called with a key returns what it should return for the map of the entries: the size, whether the
  key exists, and for \<open>first\<close>, \<open>last\<close>, \<open>next\<close> and \<open>prev\<close> the least, greatest, next or previous key of
  the map in the argument register, or 0. Only \<open>delete\<close> changes the map, and the entries stay sorted.
\<close>

theorem assoc_refines_map:
  assumes "btree_ok m" and "a < length rs"
  shows "\<exists>m'. assoc_method op (a # as) rs m =
      Some (fst (map_result op a (value_to_key (rs ! a)) (map_of m) rs),
        snd (map_result op a (value_to_key (rs ! a)) (map_of m) rs), m') \<and>
    btree_ok m' \<and> map_of m' = (if op = Delete then (map_of m)(value_to_key (rs ! a) := None) else map_of m)"
proof -
  let ?k = "value_to_key (rs ! a)"
  have a: "get_reg rs a = Some (rs ! a)" using assms(2) by (simp add: get_reg_def)
  have found: "key_result (a # as) key rs =
      Some (case key of None \<Rightarrow> (int_val 0, rs) | Some l \<Rightarrow> (int_val 1, rs[a := key_to_value l]))" for key
    using assms(2) by (cases key) (simp_all add: key_result_def put_reg_def)
  note v = visits_key [OF assms(1), of ?k]
  have get: "btree_get ?k m \<noteq> None \<longleftrightarrow> ?k \<in> dom (map_of m)" by (auto simp: btree_get_def)
  show ?thesis
    using assms(1) a found get btree_size [OF assms(1)] btree_remove_ok [OF assms(1)] btree_remove_get [OF assms(1)]
    by (cases op) (simp_all add: map_result_def v [symmetric] split: option.split)
qed

theorem assoc_refines_map_witness:
  "\<exists>m. assoc_method Next [0] [Logic (from_u64 1 8)] [(IntKey 0, Null), (IntKey 7, Null)] =
    Some (int_val 1, [key_to_value (IntKey 7)], m)"
proof -
  let ?m = "[(IntKey 0, Null), (IntKey 7, Null)]" and ?rs = "[Logic (from_u64 1 8)]"
  have ok: "btree_ok ?m" by (simp add: less_AssocKey_def)
  have k: "value_to_key (?rs ! 0) = IntKey 1" by (simp add: to_i64_def from_u64_def to_u64_def word_mask_def from_planes_def)
  have "visits Next (IntKey 1) (dom (map_of ?m)) = Some (IntKey 7)"
    using visits_key(3) [OF ok, of "IntKey 1"] by (simp add: next_key_def first_key_def less_AssocKey_def)
  then have "map_result Next 0 (value_to_key (?rs ! 0)) (map_of ?m) ?rs = (int_val 1, [key_to_value (IntKey 7)])"
    unfolding k by (simp add: map_result_def del: int_val_def)
  with assoc_refines_map [OF ok, of 0 ?rs Next "[]"] show ?thesis by auto
qed

section \<open>Elements\<close>

text \<open>An index that is not negative when read as a signed value is the same read as unsigned.\<close>

lemma sint_mod: "nat (sint x mod 2 ^ 64) = unat x" for x :: u64
proof -
  have "sint x mod 2 ^ 64 = uint x" using uint_sint [of x] by (simp add: take_bit_eq_mod)
  then show ?thesis by (simp only: unat_eq_nat_uint)
qed

lemma signed_index:
  assumes "wf_lv l" and "unat (to_i64 l) < 2 ^ 63"
  shows "to_i64 l = to_u64 l"
proof -
  have top: "\<not> bit (to_i64 l) 63"
  proof -
    have "int (unat (to_i64 l)) < int (2 ^ 63)" using assms(2) by (simp only: of_nat_less_iff)
    then have "uint (to_i64 l) < 2 ^ 63" by (simp only: uint_nat of_nat_power of_nat_numeral)
    then have "take_bit 63 (uint (to_i64 l)) = uint (to_i64 l)" by (intro take_bit_int_eq_self) simp_all
    then have "\<not> bit (uint (to_i64 l)) 63" by (metis bit_take_bit_iff less_irrefl)
    then show ?thesis by (simp add: bit_uint_iff)
  qed
  have raw: "to_u64 l AND word_mask (width l) = to_u64 l"
    by (rule word_64_eqI) (auto simp: bit_and_iff bit_to_u64 assms(1) dest: get_bit_One_less)
  have neg: "bit (x OR NOT (word_mask n)) 63" if "n < 64" for x :: u64 and n
    using that by (simp add: bit_or_iff bit_not_iff)
  show ?thesis
  proof (rule ccontr)
    assume "to_i64 l \<noteq> to_u64 l"
    then have "width l < 64" "to_i64 l = to_u64 l OR NOT (word_mask (width l))"
      unfolding to_i64_def raw Let_def by (metis (full_types))+
    with neg top show False by metis
  qed
qed

text \<open>Two indices select the same element: by key in an associative array, else by number.\<close>

definition same_element :: "Value \<Rightarrow> Value \<Rightarrow> Value \<Rightarrow> bool" where
  "same_element b i j \<longleftrightarrow>
     (case b of
        Assoc _ \<Rightarrow> value_to_key i = value_to_key j
      | _ \<Rightarrow> (case (as_logic i, as_logic j) of (Some l, Some m) \<Rightarrow> to_u64 l = to_u64 m | _ \<Rightarrow> False))"

text \<open>Into a vector goes the least bit of the value.\<close>

definition stored :: "Value \<Rightarrow> Value \<Rightarrow> Value" where
  "stored b v = (case b of Logic _ \<Rightarrow> Logic (from_bit (get_bit (the (as_logic v)) 0)) | _ \<Rightarrow> v)"

lemma at_extend: "at ((if i \<ge> length q then q @ replicate (i + 1 - length q) Null else q)[i := v]) j =
    (if j = i then Some v else if j < length q then Some (q ! j) else if j < i then Some Null else None)"
  by (auto simp: at_def nth_append)

text \<open>
  C23. An element that is written is read back, and no other changes. When a write of an element of a
  queue, an associative array or a vector took place, reading with the same index gives the value
  (of a vector: its bit, where \<open>z\<close> reads as \<open>x\<close>), and with any other index what it gave before.
\<close>

theorem index_set_get:
  assumes "index_set b i v w = Some (b', w', True)" and "world_wf w" and "value_wf (kinds w) b" and "value_wf (kinds w) i"
    and "case b of Queue _ \<Rightarrow> as_logic i \<noteq> None | _ \<Rightarrow> True"
  shows "index_get b' i w' = Some (stored b v) \<and> (\<forall>j. \<not> same_element b i j \<longrightarrow> index_get b' j w' = index_get b j w)"
proof (cases b)
  case (Logic l)
  then obtain ix x where ix: "i = Logic ix" "is_known ix" "unat (to_u64 ix) < width l" "as_logic v = Some x" "w' = w"
    "b' = Logic (set_bit l (unat (to_u64 ix)) (get_bit x 0))"
    using assms(1) by (auto simp: index_set_def split: Value.splits if_splits bind_splits)
  have "wf_lv l" using assms(3) Logic by simp
  then have bit: "get_bit (set_bit l (unat (to_u64 ix)) y) n = (if n = unat (to_u64 ix) then y else get_bit l n)" for y n
    using ix(3) by (simp add: get_bit_set_bit)
  have il: "as_logic i = Some ix" by (simp add: ix(1) as_logic_def)
  show ?thesis
    using ix Logic il unfolding index_get_def
    by (auto simp: stored_def same_element_def bit word_unat_eq_iff split: option.splits bind_split)
next
  case (Queue a)
  then obtain l where l: "as_logic i = Some l" using assms(5) by auto
  then have wf: "wf_lv l" using assms(4) by (rule as_logic_wf [rotated])
  define n where "n = (case value_to_key i of IntKey n \<Rightarrow> nat (n mod 2 ^ 64) | _ \<Rightarrow> 0)"
  obtain q where q: "cells w a = Some (QueueCell q)" "b' = b" "n < 2 ^ 63"
    "w' = w\<lparr>cells := (cells w)(a \<mapsto> QueueCell ((if n \<ge> length q then q @ replicate (n + 1 - length q) Null else q)[n := v]))\<rparr>"
    using assms(1) unfolding index_set_def Let_def n_def [symmetric]
    by (auto simp: Queue split: if_splits option.splits Cell.splits)
  have n: "n = unat (to_u64 l)"
  proof (cases i)
    case (Logic l')
    then have "n = unat (to_i64 l)" using l unfolding n_def by (simp only: value_to_key.simps AssocKey.case sint_mod) (simp add: as_logic_def)
    with signed_index [OF wf] q(3) show ?thesis by simp
  next
    case Null
    then have "l = zero 32" using l by (simp add: as_logic_def)
    then show ?thesis by (simp add: n_def Null zero_def to_u64_def)
  qed (use l in \<open>simp_all add: as_logic_def\<close>)
  have new: "cells w' a = Some (QueueCell ((if n \<ge> length q then q @ replicate (n + 1 - length q) Null else q)[n := v]))"
    by (simp add: q(4))
  have get: "index_get b j w = (case as_logic j of None \<Rightarrow> None | Some m \<Rightarrow> Some (case at q (unat (to_u64 m)) of None \<Rightarrow> Null | Some v \<Rightarrow> v))"
    "index_get b j w' = (case as_logic j of None \<Rightarrow> None | Some m \<Rightarrow> Some
      (if unat (to_u64 m) = n then v else case at q (unat (to_u64 m)) of None \<Rightarrow> Null | Some v \<Rightarrow> v))" for j
    using at_extend [where i = n and q = q and v = v]
    by (simp_all add: index_get_def Queue q(1) new at_def split: option.split bind_split)
  show ?thesis
    using n l unfolding q(2) get by (simp add: stored_def same_element_def Queue word_unat_eq_iff split: option.split)
next
  case (Assoc a)
  then obtain es where es: "cells w a = Some (AssocCell es)" "b' = b"
    "w' = w\<lparr>cells := (cells w)(a \<mapsto> AssocCell (btree_insert (value_to_key i) v es))\<rparr>"
    using assms(1) by (auto simp: index_set_def split: option.splits Cell.splits)
  have ok: "btree_ok es" using world_wf_cell [OF assms(2) es(1)] by simp
  show ?thesis
    by (auto simp: index_get_def es Assoc stored_def same_element_def btree_get_def btree_insert_get [OF ok])
qed (use assms(1) in \<open>auto simp: index_set_def\<close>)

theorem index_set_get_witness:
  "\<exists>b w. index_set (Queue 0) (Logic (from_u64 2 8)) (Str ''a'')
      \<lparr>cells = [0 \<mapsto> QueueCell [Null]], next_cell = 1, next_event = 1, statics = [], arg_index = 0\<rparr> = Some (b, w, True) \<and>
    index_get b (Logic (from_u64 2 8)) w = Some (Str ''a'')"
proof -
  define w :: World where "w = \<lparr>cells = [0 \<mapsto> QueueCell [Null]], next_cell = 1, next_event = 1, statics = [], arg_index = 0\<rparr>"
  have wf: "world_wf w" by (simp add: world_wf_def w_def kinds_def)
  have "value_to_key (Logic (from_u64 2 8)) = IntKey 2"
    by (simp add: to_i64_def from_u64_def to_u64_def word_mask_def from_planes_def)
  then obtain b w' where "index_set (Queue 0) (Logic (from_u64 2 8)) (Str ''a'') w = Some (b, w', True)"
    by (simp add: index_set_def w_def)
  from this index_set_get [OF this wf] show ?thesis
    by (auto simp: w_def kinds_def as_logic_def stored_def)
qed

text \<open>
  The signedness of an index differs between the two: a write of a queue element takes the index as a
  signed number of its width, a read as an unsigned one. A narrow index with its top bit set reads an
  element, but its write panics.
\<close>

lemma narrow_index_panics:
  assumes "cells w 0 = Some (QueueCell [v0, v1, v2, v3])"
  shows "index_get (Queue 0) (Logic (from_u64 3 2)) w = Some v3" and "index_set (Queue 0) (Logic (from_u64 3 2)) v w = None"
proof -
  have "value_to_key (Logic (from_u64 3 2)) = IntKey (- 1)"
    by (simp add: to_i64_def from_u64_def to_u64_def word_mask_def from_planes_def)
  then show "index_set (Queue 0) (Logic (from_u64 3 2)) v w = None" by (simp add: index_set_def assms)
  show "index_get (Queue 0) (Logic (from_u64 3 2)) w = Some v3"
    by (simp add: index_get_def as_logic_def assms at_def to_u64_def from_u64_def word_mask_def from_planes_def)
qed

section \<open>Casts\<close>

text \<open>The direct base class, as a relation on class numbers.\<close>

definition base_rel :: "ClassDef list \<Rightarrow> (ClassId \<times> ClassId) set" where
  "base_rel defs = {(c, d). c < length defs \<and> base (defs ! c) = Some d}"

definition bases_in :: "ClassDef list \<Rightarrow> bool" where
  "bases_in defs \<longleftrightarrow> (\<forall>def \<in> set defs. \<forall>b. base def = Some b \<longrightarrow> b < length defs)"

lemma relpow_mono: "R \<subseteq> S \<Longrightarrow> R ^^ i \<subseteq> S ^^ i" for R S :: "('a \<times> 'a) set"
  by (induction i) auto

lemma class_loop_steps:
  assumes "bases_in defs" and "c < length defs"
  shows "class_loop n c t defs = Some (\<exists>i < n. (c, t) \<in> base_rel defs ^^ i)"
  using assms(2)
proof (induction n arbitrary: c)
  case (Suc n)
  have step: "(c, t) \<in> base_rel defs ^^ Suc i \<longleftrightarrow> (\<exists>b. (c, b) \<in> base_rel defs \<and> (b, t) \<in> base_rel defs ^^ i)" for i
    by (meson relpow_Suc_D2 relpow_Suc_I2)
  have split: "(\<exists>i < Suc n. (c, t) \<in> base_rel defs ^^ i) \<longleftrightarrow> c = t \<or> (\<exists>b. (c, b) \<in> base_rel defs \<and> (\<exists>i < n. (b, t) \<in> base_rel defs ^^ i))"
    unfolding Ex_less_Suc2 step by (auto simp: relpow_0_I)
  show ?case
  proof (cases "base (defs ! c)")
    case None
    then show ?thesis using Suc.prems by (simp add: split) (simp add: base_rel_def)
  next
    case (Some b)
    then have "b < length defs" using assms(1) Suc.prems by (auto simp: bases_in_def)
    with Some Suc.prems show ?thesis by (simp add: split Suc.IH) (simp add: base_rel_def)
  qed
qed simp

text \<open>The shortest way up to a class visits no other class twice, so it has fewer steps than there are classes.\<close>

lemma base_steps_bounded:
  assumes "bases_in defs" and "c < length defs" and "(c, t) \<in> (base_rel defs)\<^sup>*"
  shows "\<exists>i < length defs. (c, t) \<in> base_rel defs ^^ i"
proof -
  let ?R = "{(x, y) \<in> base_rel defs. x \<noteq> t}"
  have t: "t < length defs" using assms(3,1,2) by induction (auto simp: base_rel_def bases_in_def)
  have path: "(c, t) \<in> ?R\<^sup>*"
    using assms(3)
  proof (induction rule: converse_rtrancl_induct)
    case (step x y)
    then show ?case by (cases "x = t") (auto intro: converse_rtrancl_into_rtrancl)
  qed simp
  have sub: "fst ` ?R \<subseteq> {..<length defs} - {t}" by (auto simp: base_rel_def)
  have inj: "inj_on fst ?R" by (auto simp: inj_on_def base_rel_def)
  have fin: "finite ?R" by (rule finite_imageD [OF finite_subset [OF sub] inj]) simp
  have "card ?R \<le> card ({..<length defs} - {t})" using card_mono [OF _ sub] card_image [OF inj] by simp
  also have "\<dots> < length defs" using t by simp
  finally have card: "card ?R < length defs" .
  from path obtain i where i: "i \<le> card ?R" "(c, t) \<in> ?R ^^ i" using rtrancl_finite_eq_relpow [OF fin] by auto
  have "(c, t) \<in> base_rel defs ^^ i" using i(2) relpow_mono [of ?R "base_rel defs" i] by blast
  then show ?thesis using i(1) card le_less_trans by blast
qed

text \<open>
  C25. A cast decides the subclass relation. If every base class exists, \<open>class_is_a\<close> returns, and says
  whether the target is the class itself or one of its bases at any distance; its bound on the number
  of steps loses no base and also ends on a class that is its own base.
\<close>

theorem class_is_a_reaches:
  assumes "bases_in defs" and "c < length defs"
  shows "class_is_a c t defs = Some ((c, t) \<in> (base_rel defs)\<^sup>*)"
  using class_loop_steps [OF assms] base_steps_bounded [OF assms]
  by (auto simp: class_is_a_def dest: relpow_imp_rtrancl)

theorem class_is_a_reaches_witness:
  "class_is_a 1 0 (map (\<lambda>b. \<lparr>cname = '''', base = b, field_defaults = [], vtable = [], coll_fields = [], event_fields = [],
    struct_fields = []\<rparr>) [None, Some 0]) = Some True"
  by (subst class_is_a_reaches) (simp_all add: bases_in_def r_into_rtrancl base_rel_def)

section \<open>Memories\<close>

lemma try_to_u64_value:
  assumes "wf_lv l"
  shows "try_to_u64 l = (if is_known l \<and> uval l < 2 ^ 64 then Some (to_u64 l) else None)"
    and "is_known l \<Longrightarrow> uval l < 2 ^ 64 \<Longrightarrow> uint (to_u64 l) = uval l"
proof -
  have bit: "bit (uval l) i \<longleftrightarrow> abit l i" if "is_known l" for i
    using is_knownD [OF that assms, of i] by (simp add: bit_uval)
  have small: "uval l < 2 ^ 64 \<longleftrightarrow> (\<forall>i \<ge> 64. \<not> bit (uval l) i)"
  proof -
    have "uval l < 2 ^ 64 \<longleftrightarrow> take_bit 64 (uval l) = uval l"
      by (metis take_bit_int_eq_self take_bit_int_less_exp uval_range)
    also have "\<dots> \<longleftrightarrow> (\<forall>i \<ge> 64. \<not> bit (uval l) i)"
      by (metis (no_types, opaque_lifting) bit_eqI bit_take_bit_iff not_less)
    finally show ?thesis .
  qed
  show "try_to_u64 l = (if is_known l \<and> uval l < 2 ^ 64 then Some (to_u64 l) else None)"
    unfolding try_to_u64_Some [OF assms] small using bit by auto
  show "is_known l \<Longrightarrow> uval l < 2 ^ 64 \<Longrightarrow> uint (to_u64 l) = uval l"
    unfolding small by (rule bit_eqI) (auto simp: bit_uint_iff bit_to_u64 assms bit_uval not_less intro: ccontr)
qed

text \<open>
  C26. A memory access stays in the memory. For a memory declared with bounds in either direction and one
  net for each address, an index selects the net of its address if it is fully known and between the
  bounds, and no net otherwise.
\<close>

theorem memory_element_selects:
  assumes "wf_lv l" and "length (elements md) = nat \<bar>left md - right md\<bar> + 1"
    and "max (left md) (right md) < 2 ^ 63"
  shows "memory_element md (Logic l) =
    Some (if is_known l \<and> min (left md) (right md) \<le> uval l \<and> uval l \<le> max (left md) (right md)
      then Some (elements md ! nat \<bar>uval l - left md\<bar>) else None)"
  using assms(2,3) try_to_u64_value [OF assms(1)]
  by (auto simp: memory_element_def as_logic_def Let_def at_def)

theorem memory_element_selects_witness:
  "memory_element \<lparr>elements = [10, 11, 12], left = 7, right = 5, element_width = 8\<rparr> (Logic (from_u64 6 8)) = Some (Some 11)"
proof -
  have "is_known (from_u64 6 8)" "uval (from_u64 6 8) = 6"
    by (simp_all add: is_known_from_u64 uval_from_u64 take_bit_eq_mod)
  then show ?thesis
    using memory_element_selects [of "from_u64 6 8" "\<lparr>elements = [10, 11, 12], left = 7, right = 5, element_width = 8\<rparr>"]
    by simp
qed

section \<open>Calls\<close>

definition mode_at :: "Program \<Rightarrow> nat \<Rightarrow> ArgMode" where
  "mode_at prog i = (if i < length (arg_modes prog) then arg_modes prog ! i else Input)"

text \<open>The formals that are copied out, with the register of the caller they go to.\<close>

definition outs :: "Program \<Rightarrow> Reg list \<Rightarrow> nat \<Rightarrow> nat \<Rightarrow> (nat \<times> Reg) list" where
  "outs prog actuals i n = map (\<lambda>j. (j, actuals ! j))
     (filter (\<lambda>j. j < n_regs prog \<and> copies_out (mode_at prog j)) [i..<n])"

lemma bind_args_spec:
  assumes "bind_args (arg_modes prog) actuals i vals (rs, co) = Some (rs', co')" and "length rs = n_regs prog"
  shows "co' = co @ outs prog actuals i (i + length vals) \<and> length rs' = length rs \<and>
    (\<forall>j < length rs. rs' ! j = (if i \<le> j \<and> j < i + length vals \<and> mode_at prog j \<noteq> Output then vals ! (j - i) else rs ! j))"
  using assms
proof (induction vals arbitrary: i rs co)
  case Nil
  then show ?case by (auto simp: outs_def)
next
  case (Cons v vs)
  define rs1 where "rs1 = (if i < length rs \<and> mode_at prog i \<noteq> Output then rs[i := v] else rs)"
  define co1 where "co1 = (if i < length rs \<and> copies_out (mode_at prog i) then co @ [(i, actuals ! i)] else co)"
  have rec: "bind_args (arg_modes prog) actuals (i + 1) vs (rs1, co1) = Some (rs', co')"
    using Cons.prems by (auto simp: rs1_def co1_def mode_at_def at_def split: if_splits bind_splits)
  have split: "[i..<i + length (v # vs)] = i # [i + 1..<i + 1 + length vs]"
    using upt_conv_Cons [of i "i + length (v # vs)"] by simp
  have "outs prog actuals i (i + length (v # vs)) =
      (if i < length rs \<and> copies_out (mode_at prog i) then [(i, actuals ! i)] else []) @ outs prog actuals (i + 1) (i + 1 + length vs)"
    unfolding outs_def split using Cons.prems(2) by simp
  moreover have len: "length rs1 = length rs" by (simp add: rs1_def)
  moreover have "rs1 ! j = (if j = i \<and> mode_at prog j \<noteq> Output then v else rs ! j)" if "j < length rs" for j
    using that by (auto simp: rs1_def nth_list_update)
  ultimately show ?case
    using Cons.IH [OF rec] Cons.prems(2) by (auto simp: co1_def nth_Cons')
qed

text \<open>Copying back goes through the list, so the last entry for a register stays.\<close>

lemma copy_back_spec:
  assumes "copy_back co rs crs = Some crs'"
  shows "length crs' = length crs \<and>
    (\<forall>r. crs' ! r = (case map_of (rev (map prod.swap co)) r of None \<Rightarrow> crs ! r | Some i \<Rightarrow> rs ! i))"
  using assms
proof (induction co rs crs rule: copy_back.induct)
  case (2 formal actual co rs crs)
  then obtain v crs1 where v: "get_reg rs formal = Some v" "put_reg actual v crs = Some crs1"
    "copy_back co rs crs1 = Some crs'"
    by (auto split: bind_splits)
  then have "v = rs ! formal" "actual < length crs" "crs1 = crs[actual := v]"
    by (auto simp: get_reg_def put_reg_def split: if_splits)
  then show ?case using "2.IH" [OF v] by (auto simp: map_add_def split: option.split)
qed simp

text \<open>The formals copied out to a register: those of the arguments that name it.\<close>

definition formals_for :: "Program \<Rightarrow> Reg list \<Rightarrow> nat \<Rightarrow> Reg \<Rightarrow> nat set" where
  "formals_for prog actuals n r = {i. i < n \<and> i < n_regs prog \<and> copies_out (mode_at prog i) \<and> actuals ! i = r}"

lemma formals_for_Suc: "formals_for prog actuals (Suc n) r =
    (if n < n_regs prog \<and> copies_out (mode_at prog n) \<and> actuals ! n = r
     then insert n (formals_for prog actuals n r) else formals_for prog actuals n r)"
  by (auto simp: formals_for_def less_Suc_eq)

lemma formals_for_finite [simp]: "finite (formals_for prog actuals n r)"
  by (rule finite_subset [of _ "{..<n}"]) (auto simp: formals_for_def)

lemma last_out: "map_of (rev (map prod.swap (outs prog actuals 0 n))) r =
    (if formals_for prog actuals n r = {} then None else Some (Max (formals_for prog actuals n r)))"
proof (induction n)
  case (Suc n)
  have "Max (insert n (formals_for prog actuals n r)) = n"
    by (rule Max_eqI) (auto simp: formals_for_def)
  with Suc show ?case by (simp add: outs_def formals_for_Suc)
qed (simp add: outs_def formals_for_def)

text \<open>
  C21. A call passes its arguments by their modes. The new frame holds the value of each argument that
  is not an output in its formal, and null in the outputs and the other registers. When the callee
  returns, whatever it left in its registers, each formal of mode output, inout or ref is copied to the
  register of the caller that was passed for it (the last such formal, if one register was passed for
  several), the result goes to the result register, and no other register of the caller changes.
\<close>

theorem call_passes_arguments:
  assumes "enter_call lk func vals actuals ret = Some f" and "at (funcs lk) func = Some callee"
    and "return_to (f\<lparr>f_pc := pc', f_regs := rs, f_pending_nba := ps\<rparr>) res caller = Some c"
  shows "(\<forall>i < n_regs callee. f_regs f ! i = (if i < length vals \<and> mode_at callee i \<noteq> Output then vals ! i else Null)) \<and>
    (\<forall>r. f_regs c ! r =
      (if res \<noteq> None \<and> r = ret then the res
       else if formals_for callee actuals (length vals) r = {} then f_regs caller ! r
       else rs ! Max (formals_for callee actuals (length vals) r)))"
proof -
  obtain rs0 co where b: "bind_args (arg_modes callee) actuals 0 vals (replicate (n_regs callee) Null, []) = Some (rs0, co)"
    and f: "f = \<lparr>f_prog = callee, f_pc = 0, f_regs = rs0, f_ret_dst = ret, f_copy_out = co,
        f_provided_args = length vals, f_pending_nba = []\<rparr>"
    using assms(1,2) by (auto simp: enter_call_def split: bind_splits)
  from bind_args_spec [OF b] have co: "co = outs callee actuals 0 (length vals)"
    and rs0: "\<forall>j < n_regs callee. rs0 ! j = (if j < length vals \<and> mode_at callee j \<noteq> Output then vals ! j else Null)"
    by simp_all
  obtain crs where crs: "copy_back co rs (f_regs caller) = Some crs"
    "(case res of None \<Rightarrow> Some crs | Some v \<Rightarrow> put_reg ret v crs) = Some (f_regs c)"
    using assms(3) by (auto simp: return_to_def f split: bind_splits option.splits)
  have regs: "crs ! r = (if formals_for callee actuals (length vals) r = {} then f_regs caller ! r
      else rs ! Max (formals_for callee actuals (length vals) r))" for r
    using copy_back_spec [OF crs(1)] by (simp add: co last_out)
  have "f_regs c ! r = (if res \<noteq> None \<and> r = ret then the res else crs ! r)" for r
  proof (cases res)
    case (Some v)
    then have "f_regs c = crs[ret := v]" "ret < length crs" using crs(2) by (auto simp: put_reg_def split: if_splits)
    then show ?thesis using Some by (simp add: nth_list_update)
  qed (use crs(2) in simp)
  then show ?thesis using rs0 unfolding regs by (simp add: f)
qed

text \<open>The register 1 of the caller is passed twice: as an input and as an inout.\<close>

definition double_prog :: Program where
  "double_prog = Program [FlowI ReturnVoid] [] [] [] [] [] [] [] 2 [Input, Inout] ''double''"

theorem call_passes_arguments_witness:
  "\<exists>f c. enter_call ((empty_linkage (\<lambda>_. []))\<lparr>funcs := [double_prog]\<rparr>) 0 [Str ''a'', Str ''a''] [1, 1] 0 = Some f \<and>
    f_regs f ! 0 = Str ''a'' \<and>
    return_to (f\<lparr>f_pc := 1, f_regs := [Str ''b'', Str ''aa''], f_pending_nba := []\<rparr>) None
      ((new_frame double_prog)\<lparr>f_regs := [Null, Str ''a'']\<rparr>) = Some c \<and> f_regs c ! 1 = Str ''aa''"
proof -
  let ?lk = "(empty_linkage (\<lambda>_. []))\<lparr>funcs := [double_prog]\<rparr>"
  obtain f where f: "enter_call ?lk 0 [Str ''a'', Str ''a''] [1, 1] 0 = Some f" "f_copy_out f = [(1, 1)]"
    by (simp add: enter_call_def at_def double_prog_def copies_out_def)
  obtain c where c: "return_to (f\<lparr>f_pc := 1, f_regs := [Str ''b'', Str ''aa''], f_pending_nba := []\<rparr>) None
      ((new_frame double_prog)\<lparr>f_regs := [Null, Str ''a'']\<rparr>) = Some c"
    by (simp add: return_to_def f get_reg_def put_reg_def)
  have one: "formals_for double_prog [1, 1] 2 1 = {1}"
    by (auto simp: formals_for_def double_prog_def mode_at_def copies_out_def less_Suc_eq numeral_2_eq_2)
  have "f_regs f ! 0 = Str ''a'' \<and> f_regs c ! 1 = Str ''aa''"
    using call_passes_arguments [OF f(1) _ c, of double_prog] one
    by (auto simp: at_def double_prog_def mode_at_def numeral_2_eq_2)
  with f c show ?thesis by blast
qed

section \<open>Procedural non-blocking updates\<close>

lemma queue_update_keys: "distinct (map fst ps) \<Longrightarrow> distinct (map fst (queue_update r v ps)) \<and>
    fst ` set (queue_update r v ps) = insert r (fst ` set ps) \<and> map_of (queue_update r v ps) = (map_of ps)(r \<mapsto> v)"
  by (induction r v ps rule: queue_update.induct) (auto simp: fun_upd_twist)

lemma queued_updates:
  "distinct (map fst ps) \<Longrightarrow> distinct (map fst (fold (\<lambda>(r, v). queue_update r v) us ps)) \<and>
    fst ` set (fold (\<lambda>(r, v). queue_update r v) us ps) = fst ` set us \<union> fst ` set ps \<and>
    map_of (fold (\<lambda>(r, v). queue_update r v) us ps) = map_of ps ++ map_of (rev us)"
proof (induction us arbitrary: ps)
  case (Cons u us)
  obtain r v where u: "u = (r, v)" by fastforce
  from queue_update_keys [OF Cons.prems, of r v] Cons.IH [of "queue_update r v ps"] show ?case
    by (simp add: u fun_upd_def [symmetric])
qed simp

lemma write_back_spec:
  "distinct (map fst ps) \<Longrightarrow> fst ` set ps \<subseteq> {..<length rs} \<Longrightarrow>
    \<exists>rs'. write_back ps rs = Some rs' \<and> length rs' = length rs \<and>
      (\<forall>r < length rs. rs' ! r = (case map_of ps r of None \<Rightarrow> rs ! r | Some v \<Rightarrow> v))"
proof (induction ps arbitrary: rs)
  case (Cons p ps)
  obtain r v where p: "p = (r, v)" by fastforce
  have "map_of ps r = None" using Cons.prems(1) by (simp add: p map_of_eq_None_iff)
  with Cons.IH [of "rs[r := v]"] Cons.prems show ?case
    by (auto simp: p put_reg_def nth_list_update split: option.split)
qed simp

text \<open>
  C14. Procedural non-blocking updates are deferred and the last one of a variable wins. Let a process
  that waits for the non-blocking region have queued the updates \<open>us\<close>, in this order. When it is
  resumed, each variable has the value of the last update queued for it, or its old value, nothing is
  queued any more, and the processes waiting for a change of a variable are woken, before the first
  instruction is executed.
\<close>

theorem procedural_updates_deferred:
  assumes "f_pending_nba f = fold (\<lambda>(r, v). queue_update r v) us []" and "\<forall>u \<in> set us. fst u < length (f_regs f)"
  shows "\<exists>rs. resume lk (IrProcess f True cs) w k =
      run_loop lk (IrProcess (f\<lparr>f_regs := rs, f_pending_nba := []\<rparr>) False cs) w (notify_runtime_change k) \<and>
    length rs = length (f_regs f) \<and>
    (\<forall>r < length rs. rs ! r = (case map_of (rev us) r of None \<Rightarrow> f_regs f ! r | Some v \<Rightarrow> v))"
proof -
  note q = queued_updates [of "[]" us, folded assms(1), simplified]
  obtain rs where "write_back (f_pending_nba f) (f_regs f) = Some rs" "length rs = length (f_regs f)"
    "\<forall>r < length rs. rs ! r = (case map_of (f_pending_nba f) r of None \<Rightarrow> f_regs f ! r | Some v \<Rightarrow> v)"
    using write_back_spec [of "f_pending_nba f" "f_regs f"] q assms(2) by auto
  then show ?thesis using q by (intro exI [of _ rs]) (simp add: resume_def run_def)
qed

theorem procedural_updates_deferred_witness:
  "\<forall>lk w k. \<exists>rs. resume lk (IrProcess ((new_frame double_prog)\<lparr>f_pending_nba := [(0, Str ''b'')]\<rparr>) True []) w k =
      run_loop lk (IrProcess ((new_frame double_prog)\<lparr>f_regs := rs\<rparr>) False []) w (notify_runtime_change k) \<and>
    rs ! 0 = Str ''b''"
proof (intro allI)
  fix lk w k
  show "\<exists>rs. resume lk (IrProcess ((new_frame double_prog)\<lparr>f_pending_nba := [(0, Str ''b'')]\<rparr>) True []) w k =
      run_loop lk (IrProcess ((new_frame double_prog)\<lparr>f_regs := rs\<rparr>) False []) w (notify_runtime_change k) \<and>
    rs ! 0 = Str ''b''"
    using procedural_updates_deferred [of "(new_frame double_prog)\<lparr>f_pending_nba := [(0, Str ''b'')]\<rparr>"
        "[(0, Str ''a''), (0, Str ''b'')]" lk "[]" w k]
    by (auto simp: new_frame_def double_prog_def)
qed

end
