(* ===== verification/Spec2Isabelle.thy ===== *)
theory Spec2Isabelle
  imports Logic_Text PP_Props Kernel_Props Gen_Assign Mono IR_Props
begin

text \<open>
  A verification development of eevee, an event-driven SystemVerilog simulator in Rust.

  \<^bold>\<open>The program.\<close> Source text is preprocessed and parsed (\<open>crates/eevee-fe\<close>), elaborated into
  nets, drivers and programs of a register machine (\<open>crates/eevee-elab\<close>, \<open>crates/eevee-ir\<close>), and
  simulated: the interpreter (\<open>crates/eevee-ir/src/interp.rs\<close>) runs a program until it waits, and the
  kernel (\<open>crates/eevee-sched/src/kernel.rs\<close>) decides which process runs next, applies updates of
  nets, wakes the processes that wait for them and advances time. All values are four-state vectors
  (\<open>crates/eevee-core/src/logic.rs\<close>). The development models the simulation from the values to the
  whole run; the order below is that of the imports.

  \<^bold>\<open>Values.\<close> \<open>Logic_Vec\<close>, \<open>Logic_Ops\<close> and \<open>Logic_Arith\<close> model \<open>LogicVec\<close>: the two bit planes, inline
  in one \<open>u64\<close> or as limbs of 64 bits, every constructor and operator. A vector denotes the function
  \<open>get_bit\<close> from positions to bits (lemmas in \<open>getbit_simps\<close>) and, if known, the integer \<open>uval\<close> or
  \<open>sval\<close>. The operators are proved against these readings on both representations.
  \<open>Text_Util\<close> and \<open>Logic_Text\<close> are the printed form and the parser of sized literals,
  \<open>SimTime\<close> is \<open>time.rs\<close> and \<open>region.rs\<close>. \<open>u32\<close> values are \<open>nat\<close>s below \<open>2 ^ 32\<close> with the wrap-around
  of a release build written out (\<open>add_u32\<close>), \<open>u64\<close> values are \<open>64 word\<close>s, or \<open>nat\<close>s where no arithmetic
  can overflow (times saturate).

  \<^bold>\<open>Preprocessor.\<close> \<open>PP_Text\<close> and \<open>Preprocess\<close> are \<open>preprocess.rs\<close>: the functions over texts, and the
  state with definitions, expansion, includes and conditionals. Files and paths are a parameter
  (\<open>Env\<close>). An include is a recursive call; \<open>preprocess\<close> has a bound on the depth of these calls, one more
  than the limit the code checks, and \<open>PP_Props\<close> proves that the bound is never used up, together with
  what conditional compilation, the blanking of comments and the splitting of arguments give.

  \<^bold>\<open>Kernel.\<close> \<open>Nets\<close> is \<open>net.rs\<close> and \<open>process.rs\<close>, \<open>Resolve\<close> the resolution of the drivers of a net.
  \<open>Kernel\<close> has the record of the kernel and one definition for each of its methods; the binary heap of
  timed events is a list sorted by time, region and sequence number. Methods that index a table out
  of range panic in the code: the definitions that a process can reach with a bad index return \<open>None\<close>
  there (\<open>write_net_chk\<close>, \<open>new_driver\<close>, \<open>clear_net_waiters_chk\<close> and \<open>arm\<close>), the others are only called in range, which the
  invariant gives. \<open>Wakeups\<close> proves what a write wakes; \<open>Kernel_Inv\<close> the invariant \<open>kernel_ok\<close> and that
  every method keeps it (\<open>keeps\<close>); \<open>Places\<close> counts in how many queues or wait lists a process is;
  \<open>Sim\<close> is the driver: \<open>drain_active\<close> and \<open>run_until\<close>, parametric in the type of processes and their
  \<open>resume\<close>, which the locale \<open>process\<close> describes by its contract. In it the run loop is proved to keep
  the invariant of the simulation and to refine the step relation \<open>sim_step\<close>. The loops that may run
  forever (a process that never waits, zero-delay loops) are partial functions with the value \<open>None\<close>.
  \<open>Kernel_Props\<close> has the properties of single methods.

  \<^bold>\<open>Interpreter.\<close> \<open>IR_Value\<close> is \<open>value.rs\<close>: \<open>Rc<RefCell<_>>\<close> handles are addresses into the store \<open>World\<close>.
  \<open>IR_Inst\<close> is the instruction set, in groups; \<open>IR_Builder\<close> the program builder with its labels.
  \<open>IR_Ops\<close>, \<open>IR_Coll\<close> and \<open>IR_Interp\<close> are the interpreter: every instruction is a case of the
  \<open>exec\<close> functions, and \<open>run_frame\<close>, \<open>run\<close> and \<open>resume\<close> are composed as in the code; \<open>None\<close> is a panic
  or a loop that never ends. \<open>IR_Typing\<close> gives programs a typing of their registers at every
  instruction; \<open>IR_Sound\<close>, \<open>IR_Objects\<close> and \<open>IR_Arrays\<close> prove one preservation lemma for each group of
  instructions, and \<open>IR_Process\<close> interprets the locale \<open>process\<close> on \<open>resume\<close>. \<open>IR_Props\<close> has the
  properties of single operations.

  \<^bold>\<open>Code generator.\<close> \<open>Syntax\<close> is the syntax tree of \<open>crates/eevee-ast\<close>, type by type. \<open>Const_Eval\<close> is the
  constant evaluation of \<open>crates/eevee-elab/src/lib.rs\<close>, and the \<open>Gen\<close> theories are its \<open>CodeGen\<close>:
  \<open>Gen_Names\<close> the tables and the resolution of names and classes, \<open>Gen_Width\<close> the width, the sign and the
  net reads of an expression, \<open>Gen_Expr\<close> the code of expressions, \<open>Gen_Stmt\<close> that of statements, processes
  and callables. A generator maps a builder to a builder and a result, \<open>None\<close> is a panic. The
  generators of the subexpressions are arguments of the definitions that model one arm of the big
  matches, so that the recursion is in \<open>gen_expr\<close> and \<open>gen_stmt\<close> only. \<open>Gen_Labels\<close>, \<open>Gen_Tidy\<close> and
  \<open>Gen_Stmt_Tidy\<close> prove that every generator only extends the builder and binds the labels it makes
  (\<open>progress\<close>, \<open>complete\<close>), and \<open>Gen_Process\<close> what follows for whole programs: they build, and the
  interpreter stays in their code.

  \<^bold>\<open>Correct code.\<close> \<open>Lrm\<close> is a reference semantics of expressions after the language reference manual:
  width, sign and value in a context, the value once with the operators of the simulator (\<open>ctx_value\<close>) and
  once as the manual has it, undefined where the two differ (\<open>lrm\<close>). \<open>Gen_Run\<close> relates a builder to the program made of it
  (\<open>realises\<close>) and says what it means that generated code computes a value (\<open>yields\<close>), \<open>Gen_Cond\<close> proves
  this of the conditional operator with its three paths, \<open>Gen_Sound\<close> of every expression the reference
  covers, and \<open>Gen_Assign\<close> of whole continuous assignments. The reference leaves out calls, concatenations
  and class members; \<open>lrm\<close> lists the operations that depart from the manual, and further departures of the
  generator are lemmas at the end of \<open>Gen_Sound\<close>.

  \<^bold>\<open>Parameterised classes.\<close> \<open>Mono\<close> is \<open>mono.rs\<close>, the pass before code generation that makes a class of
  every use of a parameterised class; \<open>steady\<close> says of each of its functions that the table of classes
  stays consistent and that the result has no type arguments.

  \<^bold>\<open>Whole.\<close> \<open>Design\<close> builds a kernel with the calls of the elaborator and starts a simulation of
  well-typed programs; \<open>Example\<close> evaluates one. The properties below are about this composition, and
  none assumes anything of the interpreter but that the programs are well typed.

  \<^bold>\<open>Parameters.\<close> The text of a real number (\<open>show_f64\<close>) and host functions registered from outside
  (\<open>dpi\<close>) are parameters of the linkage; \<open>linkage_ok\<close> states what a host function must keep. The
  conversion of a delay to a time, which computes with \<open>f64\<close>, is a field of the code generator.

  \<^bold>\<open>Bounds.\<close> A label is unbound while it holds \<open>u32_max\<close>, so the properties of built programs assume
  fewer instructions than that. \<open>resolve_type\<close> of \<open>Mono\<close> has the depth of the call stack as an argument:
  the code's recursion has no bound (an alias of itself exhausts the stack), and its property holds of
  every depth. No other bound or fuel is used outside the preprocessor.

  \<^bold>\<open>Not modelled.\<close> The front end behind the preprocessor (lexing and parsing is done by the external
  Verible tool, the crates lower its concrete syntax tree), the elaboration of the module hierarchy
  (instances, ports, generate blocks, the layout of classes: it fills the tables of the code
  generator), methods that compute with \<open>f64\<close> (\<open>as_ns\<close>,
  \<open>delay_to_fs\<close>, the parsing of time scales), hashing of keys, execution traces and the echo to the
  terminal (pure output; the lines themselves are modelled), and letter case outside ASCII.
\<close>

section \<open>Properties of the whole\<close>

text \<open>
  C1. A design simulates safely. Take any kernel the elaborator builds from nets and drivers, and
  well-typed programs for it. Whenever \<open>run_until\<close> returns, the state is valid: handles are in range,
  values have the width of their net, the time wheel is ordered, the wait records agree, every
  process is well typed and in at most one queue. And the run ended for a reason: a stop was
  requested, or nothing is left to do up to the limit, with every later event beyond it.
\<close>

theorem simulation_safe:
  assumes "elab_call\<^sup>*\<^sup>* (new_kernel ts) k" and "linkage_ok (profile_of k) lk" and "world_wf w"
    and "list_all (wt_prog (profile_of k)) progs" and "run_until (resume lk) limit (start progs w k) = Some s"
  shows "sim_inv (ir_ok lk) s \<and>
    (stop (kernel s) \<or>
     quiet (kernel s) \<and>
     (timed (kernel s) = [] \<or>
      (\<exists>l. limit = Some l \<and> time (kernel s) = l \<and> (\<forall>e \<in> set (timed (kernel s)). l < ev_time e))))"
  using ir.run_until_spec [OF start_inv [OF assms(1-4)] assms(5)] by blast

theorem simulation_safe_witness:
  "\<exists>s. run_until (resume example_linkage) None example_start = Some s \<and> sim_inv (ir_ok example_linkage) s \<and>
    (stop (kernel s) \<or> quiet (kernel s)) \<and> time (kernel s) = 5"
  using example_run simulation_safe [OF example_kernel_built example_linkage_ok example_world_wf example_progs_wt]
  unfolding example_start_def by blast

text \<open>
  C2. No process is lost or runs twice. When the process at the head of the active queue is resumed,
  every other process stays in as many queues as it was (the kernel may move it, never drop or
  duplicate it), every process it forks is in exactly one, and it is itself in exactly one, unless it
  finished: then it is in none.
\<close>

theorem process_accounting:
  assumes "sim_inv (ir_ok lk) s" and "active (kernel s) = pid # rest" and "drain_step (resume lk) s = Some s'"
  shows "(\<forall>q < length (procs s). q \<noteq> pid \<longrightarrow> places (kernel s') q = places (kernel s) q) \<and>
    (\<forall>q. length (procs s) \<le> q \<and> q < length (procs s') \<longrightarrow> places (kernel s') q = 1) \<and>
    (\<exists>p h k wt. resume lk (procs s ! pid) (shared s) (popped_kernel rest (kernel s)) = Some (p, h, k, wt) \<and>
       places (kernel s') pid = of_bool (wt \<noteq> Finished))"
  using ir.drain_step_spec [OF assms] by blast

theorem process_accounting_witness:
  "\<exists>s. drain_step (resume example_linkage) example_start = Some s \<and> places (kernel s) 1 = places (kernel example_start) 1"
proof -
  obtain s where s: "drain_step (resume example_linkage) example_start = Some s" using example_step by blast
  have "active (kernel example_start) = 0 # [1]" "length (procs example_start) = 2"
    by (simp_all add: design_simps)
  from process_accounting [OF example_inv this(1) s] this(2) s show ?thesis by auto
qed

text \<open>
  C3. The interpreter is type sound. Resuming a well-typed process leaves it and the processes it
  forks well typed, the shared store well formed and only extended, and the kernel changed by its own
  calls with arguments in range; the wait it returns names only nets that exist.
\<close>

theorem resume_type_sound:
  assumes "resume lk p w k = Some (p', w', k', wt)" and "ir_ok lk (profile_of k) w p" and "kernel_ok k"
  shows "ir_ok lk (profile_of k) w' p' \<and> extends w w' \<and> world_wf w' \<and> api\<^sup>*\<^sup>* k k' \<and> kernel_ok k' \<and> wait_ok k' wt \<and>
    (\<forall>cs j. wt = Wait.Fork cs j \<longrightarrow> (\<forall>c \<in> set cs. ir_ok lk (profile_of k) w' c))"
  using resume_contract [OF assms] keeps_ok [OF apis_keep [OF _ assms(3)]] by (auto simp: resumed_ok_def)

theorem resume_type_sound_witness:
  "\<exists>p w k. resume example_linkage (new_process clock_prog) example_world example_kernel = Some (p, w, k, Wait.Delay 5) \<and>
    ir_ok example_linkage (profile_of example_kernel) w p \<and> kernel_ok k"
proof -
  obtain p w k where r: "resume example_linkage (new_process clock_prog) example_world example_kernel = Some (p, w, k, Wait.Delay 5)"
    by (simp add: design_simps machine_simps cong: eval_congs)
  have "ir_ok example_linkage (profile_of example_kernel) example_world (new_process clock_prog)"
    using new_process_ok [OF example_linkage_ok example_world_wf] example_progs_wt by simp
  from resume_type_sound [OF r this] elab_calls_spec [OF example_kernel_built] r show ?thesis by blast
qed

text \<open>
  C4. The kernel never panics. In a valid state with a process ready, the step that resumes it fails
  only if the process itself panics or does not return. Popping, forking and finishing succeed, and
  arming, which indexes the nets of the wait and those recorded for earlier waits of the process and
  panics on one out of range, finds them all in range.
\<close>

theorem kernel_never_panics:
  assumes "sim_inv (ir_ok lk) s" and "active (kernel s) = pid # rest"
    and "resume lk (procs s ! pid) (shared s) (popped_kernel rest (kernel s)) \<noteq> None"
  shows "drain_step (resume lk) s \<noteq> None"
  by (rule ir.drain_step_total [OF assms])

theorem kernel_never_panics_witness: "drain_step (resume example_linkage) example_start \<noteq> None"
  by (rule kernel_never_panics [OF example_inv, of 0 "[1]"])
    (simp_all add: design_simps machine_simps cong: eval_congs)

text \<open>
  C6. Time only moves forward. Along any sequence of steps from a valid state the time never
  decreases, no event of the wheel lies in the past, and no process is forgotten from the table.
\<close>

theorem time_moves_forward:
  assumes "sim_inv (ir_ok lk) s" and "(sim_step (resume lk))\<^sup>*\<^sup>* s s'"
  shows "time (kernel s) \<le> time (kernel s') \<and> (\<forall>e \<in> set (timed (kernel s')). time (kernel s') \<le> ev_time e) \<and>
    length (procs s) \<le> length (procs s')"
  using ir.sim_steps_spec [OF assms] kernel_okD(2) [of "kernel s'"] by (auto simp: sim_inv_def wheel_inv_def)

theorem time_moves_forward_witness:
  "\<exists>s. sim_step (resume example_linkage) example_start s \<and> (\<forall>e \<in> set (timed (kernel s)). time (kernel s) \<le> ev_time e)"
proof -
  obtain s where "drain_step (resume example_linkage) example_start = Some s" using example_step by blast
  then have "sim_step (resume example_linkage) example_start s"
    by (rule step_resume [rotated]) (simp add: design_simps)
  with time_moves_forward [OF example_inv r_into_rtranclp [where r = "sim_step (resume example_linkage)", OF this]] show ?thesis by blast
qed

text \<open>
  C5. The run loop refines the step relation. Whatever the processes do, a run that returns is a
  sequence of steps, each one the resumption of a ready process, the promotion of the inactive queue,
  the application of the queued updates, or the advance to the next event, in the order of priority
  that the guards of \<open>sim_step\<close> state; and it stops where no step but a later event is left.
\<close>

theorem run_refines_steps:
  assumes "run_until step limit s = Some s'"
  shows "\<exists>s1. (sim_step step)\<^sup>*\<^sup>* s s1 \<and> run_end limit s1 s'"
  by (rule run_until_steps [OF assms])

theorem run_refines_steps_witness:
  "\<exists>s s1. (sim_step (resume example_linkage))\<^sup>*\<^sup>* example_start s1 \<and> run_end None s1 s \<and> time (kernel s) = 5"
  using example_run run_refines_steps [of "resume example_linkage" None example_start] by blast

end
